(* ===== verification/Kernel_Prelude.thy ===== *)
theory Kernel_Prelude
  imports Main "HOL-Library.Word"
begin

text \<open>
  Shared vocabulary of the development: the machine types of the kernel (a 32-bit x86
  build, \<^verbatim>\<open>kernel/types.h\<close>), the word-addressed memory in which the kernel's own data
  structures live, and the generic facts on words, options and lists that the component
  theories use.

  Memory is a total function from byte addresses to 32-bit words: \<open>m a\<close> is the word whose
  first byte is at \<open>a\<close>. Every access of \<^verbatim>\<open>rb_tree.c\<close> and \<^verbatim>\<open>mem_alloc.c\<close> is to a 32-bit
  field at a four-byte aligned address, so two different addresses never overlap.
\<close>

unbundle bit_operations_syntax

section \<open>Machine types\<close>

type_synonym u8 = "8 word"
type_synonym u16 = "16 word"
type_synonym u32 = "32 word"
type_synonym u64 = "64 word"

type_synonym mem = "u32 \<Rightarrow> u32"

section \<open>Collections of simplification rules\<close>

named_theorems heap_simps \<open>how the accessors of a structure see the updates of memory\<close>
named_theorems word_facts \<open>bit-level facts on machine words\<close>

section \<open>The tag bit of a pointer\<close>

text \<open>The masks \<^verbatim>\<open>& (1 << 0)\<close> and \<^verbatim>\<open>& ~(1 << 0)\<close> of the sources.\<close>

definition tag :: "u32 \<Rightarrow> u32" where
  "tag v = v AND 1"

definition untag :: "u32 \<Rightarrow> u32" where
  "untag v = v AND NOT 1"

lemma untag_untag [word_facts, simp]: "untag (untag v) = untag v"
  unfolding untag_def by (rule bit_word_eqI) (auto simp: bit_simps)

lemma untag_merge [word_facts, simp]: "untag (tag l OR untag v) = untag v"
  unfolding untag_def tag_def by (rule bit_word_eqI) (auto simp: bit_simps)

lemma tag_merge [word_facts, simp]: "tag (tag l OR untag v) = tag l"
  unfolding untag_def tag_def by (rule bit_word_eqI) (auto simp: bit_simps)

lemma untag_or_one [word_facts, simp]: "untag (l OR 1) = untag l"
  unfolding untag_def by (rule bit_word_eqI) (auto simp: bit_simps)

lemma tag_or_one [word_facts, simp]: "tag (l OR 1) = 1"
  unfolding tag_def by (rule bit_word_eqI) (auto simp: bit_simps)

lemma tag_untag [word_facts, simp]: "tag (untag l) = 0"
  unfolding untag_def tag_def by (rule bit_word_eqI) (auto simp: bit_simps)

lemma untag_tag [word_facts, simp]: "untag (tag l) = 0"
  unfolding untag_def tag_def by (rule bit_word_eqI) (auto simp: bit_simps)

lemma untag_copy_tag [word_facts, simp]: "untag (untag d OR tag s) = untag d"
  unfolding untag_def tag_def by (rule bit_word_eqI) (auto simp: bit_simps)

lemma tag_copy_tag [word_facts, simp]: "tag (untag d OR tag s) = tag s"
  unfolding untag_def tag_def by (rule bit_word_eqI) (auto simp: bit_simps)

lemma untag_zero [simp]: "untag 0 = 0" "tag 0 = 0"
  by (simp_all add: untag_def tag_def)

section \<open>Pieces of memory\<close>

definition region :: "u32 \<Rightarrow> u32 \<Rightarrow> u32 set" where
  "region b sz = {w. unat b \<le> unat w \<and> unat w < unat b + unat sz}"

section \<open>Counting upwards in machine words\<close>

lemma unat_less_32: "unat (a::u32) < 4294967296"
  using unsigned_less [of a] by simp

lemma unat_plus_one_less [word_facts]:
  assumes "(a::'a::len word) < b"
  shows "unat (a + 1) = Suc (unat a)"
proof -
  have "unat b < 2 ^ LENGTH('a)" by (rule unsigned_less)
  then have "Suc (unat a) < 2 ^ LENGTH('a)" using assms unfolding word_less_nat_alt by linarith
  then show ?thesis by (simp add: unat_word_ariths)
qed

lemma plus_one_le:
  assumes "(a::'a::len word) < b"
  shows "a + 1 \<le> b" "a \<le> c \<longleftrightarrow> c = a \<or> a + 1 \<le> c"
proof -
  note s = unat_plus_one_less [OF assms]
  show "a + 1 \<le> b" using assms s by (simp add: word_le_nat_alt word_less_nat_alt)
  show "a \<le> c \<longleftrightarrow> c = a \<or> a + 1 \<le> c"
    using s by (auto simp: word_le_nat_alt word_unat_eq_iff)
qed

lemma unat_word_of_nat: "n < 2 ^ LENGTH('a) \<Longrightarrow> unat (word_of_nat n :: 'a::len word) = n"
  by (simp add: unat_of_nat take_bit_nat_eq_self)

lemma power_two_one: "k < LENGTH('a) \<Longrightarrow> (2::'a::len word) ^ k = 1 \<longleftrightarrow> k = 0"
  by (cases k) (auto simp: bit_eq_iff bit_simps dest: spec [of _ "0::nat"])

lemma and_power_two [word_facts]: "(w::'a::len word) AND 2 ^ k = (if bit w k then 2 ^ k else 0)"
  by (rule bit_word_eqI) (auto simp: bit_simps)

lemma unat_and_mask [word_facts]: "unat ((w::'a::len word) AND mask n) = unat w mod 2 ^ n"
proof -
  have "unat (take_bit n w) = take_bit n (unat w)" by (rule unsigned_take_bit_eq)
  then show ?thesis by (simp only: take_bit_eq_mask [of n w, symmetric] take_bit_nat_def)
qed

lemma unat_drop_bit [word_facts]: "unat (drop_bit n (w::'a::len word)) = unat w div 2 ^ n"
proof -
  have "unat (drop_bit n w) = drop_bit n (unat w)" by (rule unat_drop_bit_eq)
  then show ?thesis by (simp only: drop_bit_nat_def)
qed

section \<open>Searching lists\<close>

lemma find_append: "find P (xs @ ys) = (case find P xs of None \<Rightarrow> find P ys | Some x \<Rightarrow> Some x)"
  by (induction xs) auto

lemma find_map: "find P (map f xs) = map_option f (find (\<lambda>x. P (f x)) xs)"
  by (induction xs) auto

lemma find_none: "(\<And>x. x \<in> set xs \<Longrightarrow> \<not> P x) \<Longrightarrow> find P xs = None"
  by (simp add: find_None_iff)

end
