(* ===== verification/Rb_Tree.thy ===== *)
theory Rb_Tree
  imports Kernel_Prelude
begin

text \<open>
  The red-black tree of \<^verbatim>\<open>kernel/rb_tree.c\<close> on the word memory. A node is four words:
  its data, its left and right links and the head of its list of duplicates. The colour
  of a node is bit 0 of its left link, so every link is read through \<open>get_link\<close>, which
  masks the bit, and written through \<open>set_link\<close>, which keeps it.

  Loops are \<open>partial_function (option)\<close>: \<open>None\<close> is a loop that never ends. The
  dummy root \<open>head\<close> is a local variable of the C functions; its stack address is an
  argument of the model.
\<close>

section \<open>Nodes, links and colours\<close>

definition rb_data :: "mem \<Rightarrow> u32 \<Rightarrow> u32" where
  "rb_data m n = m n"

definition link_addr :: "u32 \<Rightarrow> nat \<Rightarrow> u32" where
  "link_addr n i = n + 4 + 4 * word_of_nat i"

definition get_link :: "mem \<Rightarrow> u32 \<Rightarrow> nat \<Rightarrow> u32" where
  "get_link m n i = untag (m (link_addr n i))"

definition set_link :: "mem \<Rightarrow> u32 \<Rightarrow> nat \<Rightarrow> u32 \<Rightarrow> mem" where
  "set_link m n i v = m(link_addr n i := tag (m (link_addr n i)) OR untag v)"

definition is_red :: "mem \<Rightarrow> u32 \<Rightarrow> bool" where
  "is_red m n \<longleftrightarrow> n \<noteq> 0 \<and> tag (m (link_addr n 0)) \<noteq> 0"

definition paint_red :: "mem \<Rightarrow> u32 \<Rightarrow> mem" where
  "paint_red m n = m(link_addr n 0 := m (link_addr n 0) OR 1)"

definition paint_black :: "mem \<Rightarrow> u32 \<Rightarrow> mem" where
  "paint_black m n = m(link_addr n 0 := untag (m (link_addr n 0)))"

definition copy_color :: "mem \<Rightarrow> u32 \<Rightarrow> u32 \<Rightarrow> mem" where
  "copy_color m src dst =
     m(link_addr dst 0 := untag (m (link_addr dst 0)) OR tag (m (link_addr src 0)))"

text \<open>The tree descriptor. The callbacks read the memory they are called in.\<close>

record 'a rb_tree =
  root :: u32
  num_nodes :: u32
  num_dup :: u32
  compare_fn :: "mem \<Rightarrow> u32 \<Rightarrow> u32 \<Rightarrow> 'a option \<Rightarrow> int"
  select_dup_fn :: "mem \<Rightarrow> u32 \<Rightarrow> 'a option \<Rightarrow> int"

definition init_rbtree ::
  "'a rb_tree \<Rightarrow> (mem \<Rightarrow> u32 \<Rightarrow> u32 \<Rightarrow> 'a option \<Rightarrow> int)
     \<Rightarrow> (mem \<Rightarrow> u32 \<Rightarrow> 'a option \<Rightarrow> int) \<Rightarrow> 'a rb_tree" where
  "init_rbtree tree cmp sel = tree\<lparr>root := 0, compare_fn := cmp, select_dup_fn := sel\<rparr>"

definition rotate_node :: "mem \<Rightarrow> u32 \<Rightarrow> bool \<Rightarrow> mem \<times> u32" where
  "rotate_node m rt dir =
     (let save = get_link m rt (of_bool (\<not> dir));
          m = set_link m rt (of_bool (\<not> dir)) (get_link m save (of_bool dir));
          m = set_link m save (of_bool dir) rt;
          m = paint_red m rt;
          m = paint_black m save
      in (m, save))"

section \<open>Insertion\<close>

definition attach_or_flip ::
  "u32 \<Rightarrow> u32 \<Rightarrow> u32 \<Rightarrow> bool \<Rightarrow> bool \<Rightarrow> u32 \<Rightarrow> mem \<Rightarrow> mem \<times> u32 \<times> bool \<times> u32" where
  "attach_or_flip node p n dir dup nn m =
     (if n = 0 then (set_link m p (of_bool dir) node, node, False, nn + 1)
      else if is_red m (get_link m n 0) \<and> is_red m (get_link m n 1)
      then (let m = paint_red m n;
                m = paint_black m (get_link m n 0);
                m = paint_black m (get_link m n 1)
            in (m, n, dup, nn))
      else (m, n, dup, nn))"

definition fix_violation :: "u32 \<Rightarrow> u32 \<Rightarrow> u32 \<Rightarrow> u32 \<Rightarrow> bool \<Rightarrow> mem \<Rightarrow> mem" where
  "fix_violation t g p n lst m =
     (if is_red m n \<and> is_red m p
      then (let dir2 = (get_link m t 1 = g) in
            if n = get_link m p (of_bool lst)
            then (let (m, r) = rotate_node m g (\<not> lst) in set_link m t (of_bool dir2) r)
            else (let (m, r) = rotate_node m (get_link m g (of_bool lst)) lst;
                      m = set_link m g (of_bool lst) r;
                      (m, r) = rotate_node m g (\<not> lst)
                  in set_link m t (of_bool dir2) r))
      else m)"

partial_function (option) insert_loop ::
  "(mem \<Rightarrow> u32 \<Rightarrow> u32 \<Rightarrow> 'a option \<Rightarrow> int) \<Rightarrow> u32 \<Rightarrow> 'a option \<Rightarrow> u32 \<Rightarrow> u32 \<Rightarrow> u32 \<Rightarrow> u32
     \<Rightarrow> bool \<Rightarrow> bool \<Rightarrow> bool \<Rightarrow> u32 \<Rightarrow> u32 \<Rightarrow> mem \<Rightarrow> (mem \<times> u32 \<times> u32) option" where
  "insert_loop cmp node args t g p n dir lst dup nn nd m =
     (let (m, n, dup, nn) = attach_or_flip node p n dir dup nn m;
          m = fix_violation t g p n lst m;
          res = cmp m n (rb_data m node) args
      in if res = 0
         then (if dup \<and> n \<noteq> node
               then Some (set_link (set_link m node 2 (get_link m n 2)) n 2 node, nn, nd + 1)
               else Some (m, nn, nd))
         else insert_loop cmp node args (if g \<noteq> 0 then g else t) p n
                (get_link m n (of_bool (res < 0))) (res < 0) dir dup nn nd m)"

definition insert_rbnode ::
  "u32 \<Rightarrow> 'a rb_tree \<Rightarrow> u32 \<Rightarrow> 'a option \<Rightarrow> mem \<Rightarrow> (mem \<times> 'a rb_tree \<times> int) option" where
  "insert_rbnode head tree node args m =
     (if node = 0 then Some (m, tree, 0)
      else let m = set_link m node 0 0;
               m = set_link m node 1 0;
               m = set_link m node 1 0;
               m = set_link m node 2 0;
               m = paint_red m node
           in if root tree = 0
              then Some (paint_black m node,
                         tree\<lparr>root := node, num_nodes := 1, num_dup := 0\<rparr>, 1)
              else let m = m(head := 0, link_addr head 0 := 0, link_addr head 1 := 0,
                             link_addr head 2 := 0);
                       m = set_link m head 1 (root tree)
                   in case insert_loop (compare_fn tree) node args head 0 0 (root tree)
                             False False True (num_nodes tree) (num_dup tree) m of
                        None \<Rightarrow> None
                      | Some (m, nn, nd) \<Rightarrow>
                          let r = get_link m head 1
                          in Some (paint_black m r,
                                   tree\<lparr>root := r, num_nodes := nn, num_dup := nd\<rparr>, 1))"

end
