(* ===== verification/Rb_Heap.thy ===== *)
theory Rb_Heap
  imports Rb_Tree
begin

text \<open>
  The abstraction of the node memory: node addresses that do not overlap, the laws by which
  \<open>get_link\<close>, \<open>is_red\<close> and \<open>rb_data\<close> see each update, the functional tree a root pointer
  represents, and the invariants of red-black trees on it.
\<close>

section \<open>Nodes that do not overlap\<close>

definition node_words :: "u32 \<Rightarrow> u32 set" where
  "node_words a = {a, a + 4, a + 8, a + 12}"

definition link_words :: "u32 set \<Rightarrow> u32 set" where
  "link_words S = (\<Union>a\<in>S. {a + 4, a + 8, a + 12})"

definition separated :: "u32 set \<Rightarrow> bool" where
  "separated S \<longleftrightarrow> (\<forall>a\<in>S. a \<noteq> 0 \<and> untag a = a) \<and>
     (\<forall>a\<in>S. \<forall>b\<in>S. a \<noteq> b \<longrightarrow> node_words a \<inter> node_words b = {})"

lemma separated_subset: "separated S \<Longrightarrow> A \<subseteq> S \<Longrightarrow> separated A"
  unfolding separated_def by blast

lemma separated_nz: "separated S \<Longrightarrow> a \<in> S \<Longrightarrow> a \<noteq> 0"
  by (simp add: separated_def)

lemma separated_untag: "separated S \<Longrightarrow> a \<in> insert 0 S \<Longrightarrow> untag a = a"
  by (auto simp: separated_def)

lemma link_addr_simps [simp]:
  "link_addr n 0 = n + 4" "link_addr n (Suc 0) = n + 8" "link_addr n 2 = n + 12"
  by (simp_all add: link_addr_def)

lemma less_3_cases: "i < 3 \<Longrightarrow> i = 0 \<or> i = Suc 0 \<or> i = (2::nat)"
  by arith

lemma link_addr_in_words:
  "i < 3 \<Longrightarrow> link_addr n i \<in> {n + 4, n + 8, n + 12}"
  using less_3_cases [of i] by auto

lemma link_addr_neq_self: "i < 3 \<Longrightarrow> link_addr n i \<noteq> n"
  using less_3_cases [of i] by (auto simp: word_eq_iff_unsigned)

lemma link_addr_same: "i < 3 \<Longrightarrow> j < 3 \<Longrightarrow> link_addr n i = link_addr n j \<longleftrightarrow> i = j"
  using less_3_cases [of i] less_3_cases [of j] by auto

lemma separated_disjoint:
  assumes "separated S" "a \<in> S" "b \<in> S" "x \<in> node_words a" "x \<in> node_words b"
  shows "a = b"
  using assms unfolding separated_def by blast

lemma link_addr_node_words: "i < 3 \<Longrightarrow> link_addr n i \<in> node_words n"
  using less_3_cases [of i] by (auto simp: node_words_def)

lemma link_addr_eq:
  assumes "separated S" "a \<in> S" "b \<in> S" "i < 3" "j < 3"
  shows "link_addr a i = link_addr b j \<longleftrightarrow> a = b \<and> i = j"
  using separated_disjoint [OF assms(1,2,3) link_addr_node_words [OF assms(4)]]
    link_addr_node_words [OF assms(5), of b] link_addr_same assms(4,5) by metis

lemma link_addr_not_data:
  assumes "separated S" "a \<in> S" "b \<in> S" "i < 3"
  shows "link_addr a i \<noteq> b"
proof
  assume eq: "link_addr a i = b"
  then have "b \<in> node_words a" using link_addr_node_words [OF assms(4), of a] by simp
  then have "a = b"
    using separated_disjoint [OF assms(1,2,3)] by (simp add: node_words_def)
  with eq link_addr_neq_self [OF assms(4)] show False by simp
qed

section \<open>How the accessors see the updates\<close>

text \<open>
  Each law is stated for nodes of a separated set; \<open>heap_laws [OF sep]\<close> instantiates all of
  them at once.
\<close>

lemma get_link_set_link:
  assumes "separated S" "a \<in> S" "b \<in> S" "i < 3" "j < 3" "v \<in> insert 0 S"
  shows "get_link (set_link m a i v) b j = (if a = b \<and> i = j then v else get_link m b j)"
proof -
  have u: "untag v = v" by (rule separated_untag [OF assms(1,6)])
  show ?thesis
  proof (cases "a = b \<and> i = j")
    case True
    then have "get_link (set_link m a i v) b j = untag v"
      by (simp del: link_addr_simps add: get_link_def set_link_def)
    with True u show ?thesis by simp
  next
    case False
    then have "link_addr b j \<noteq> link_addr a i"
      using link_addr_eq [OF assms(1,2,3,4,5)] by metis
    with False show ?thesis
      by (simp only: get_link_def set_link_def fun_upd_other not_False_eq_True if_False)
  qed
qed

lemma is_red_set_link:
  assumes "separated S" "a \<in> S" "b \<in> S" "i < 3"
  shows "is_red (set_link m a i v) b = is_red m b"
  using link_addr_eq [OF assms(1,2,3,4), of 0]
  by (auto simp: is_red_def set_link_def simp del: link_addr_simps)

lemma rb_data_set_link:
  assumes "separated S" "a \<in> S" "b \<in> S" "i < 3"
  shows "rb_data (set_link m a i v) b = rb_data m b"
  using link_addr_not_data [OF assms] by (simp add: rb_data_def set_link_def)

lemma get_link_paint:
  assumes "separated S" "a \<in> S" "b \<in> S" "j < 3"
  shows "get_link (paint_red m a) b j = get_link m b j"
    and "get_link (paint_black m a) b j = get_link m b j"
  using link_addr_eq [OF assms(1,2,3) _ assms(4), of 0]
  by (auto simp: get_link_def paint_red_def paint_black_def
      simp del: link_addr_simps)

lemma is_red_paint:
  assumes "separated S" "a \<in> S" "b \<in> S"
  shows "is_red (paint_red m a) b = (b = a \<or> is_red m b)"
    and "is_red (paint_black m a) b = (b \<noteq> a \<and> is_red m b)"
  using link_addr_eq [OF assms(1,2,3), of 0 0] separated_nz [OF assms(1,2)]
  by (auto simp: is_red_def paint_red_def paint_black_def
      simp del: link_addr_simps)

lemma rb_data_paint:
  assumes "separated S" "a \<in> S" "b \<in> S"
  shows "rb_data (paint_red m a) b = rb_data m b"
    and "rb_data (paint_black m a) b = rb_data m b"
  using link_addr_not_data [OF assms, of 0]
  by (simp_all add: rb_data_def paint_red_def paint_black_def del: link_addr_simps)

lemma is_red_0 [simp]: "\<not> is_red m 0"
  by (simp add: is_red_def)

lemmas heap_laws = get_link_set_link is_red_set_link rb_data_set_link
  get_link_paint is_red_paint rb_data_paint

lemma set_link_frame: "i < 3 \<Longrightarrow> w \<notin> link_words {a} \<Longrightarrow> set_link m a i v w = m w"
  using link_addr_in_words [of i a] by (auto simp: set_link_def link_words_def)

lemma paint_frame:
  "w \<notin> link_words {a} \<Longrightarrow> paint_red m a w = m w"
  "w \<notin> link_words {a} \<Longrightarrow> paint_black m a w = m w"
  by (auto simp: paint_red_def paint_black_def link_words_def)

lemma link_words_mono: "A \<subseteq> B \<Longrightarrow> link_words A \<subseteq> link_words B"
  by (auto simp: link_words_def)

lemma of_bool_less_3 [simp]: "(of_bool b :: nat) < 3"
  by (cases b) simp_all

lemma of_bool_not_2 [simp]: "(of_bool b :: nat) \<noteq> 2" "2 \<noteq> (of_bool b :: nat)"
  by (cases b; simp)+

lemma of_bool_neq_not [simp]:
  "(of_bool b :: nat) \<noteq> of_bool (\<not> b)" "of_bool (\<not> b) \<noteq> (of_bool b :: nat)"
  by (cases b; simp)+

section \<open>Rotation\<close>

definition rotated :: "mem \<Rightarrow> u32 \<Rightarrow> bool \<Rightarrow> mem" where
  "rotated m rt dir = fst (rotate_node m rt dir)"

lemma rotate_node_eq: "rotate_node m rt dir = (rotated m rt dir, get_link m rt (of_bool (\<not> dir)))"
  by (simp add: rotated_def rotate_node_def Let_def)

lemma rotated_laws:
  assumes sep: "separated S" and "rt \<in> S" "b \<in> S"
    and save: "save = get_link m rt (of_bool (\<not> dir))" "save \<in> S" "save \<noteq> rt"
    and inner: "get_link m save (of_bool dir) \<in> insert 0 S"
  shows "j < 3 \<Longrightarrow> get_link (rotated m rt dir) b j =
      (if b = save \<and> j = of_bool dir then rt
       else if b = rt \<and> j = of_bool (\<not> dir) then get_link m save (of_bool dir)
       else get_link m b j)"
    and "is_red (rotated m rt dir) b = (b = rt \<or> b \<noteq> save \<and> is_red m b)"
    and "rb_data (rotated m rt dir) b = rb_data m b"
  using assms
  by (auto simp: rotated_def rotate_node_def Let_def heap_laws [OF sep])

lemma rotated_frame:
  assumes "w \<notin> link_words {rt, get_link m rt (of_bool (\<not> dir))}"
  shows "rotated m rt dir w = m w"
  using assms
  by (simp add: rotated_def rotate_node_def Let_def link_words_def paint_frame set_link_frame)

section \<open>The functional tree a pointer represents\<close>

text \<open>
  A node carries its address, its colour (\<open>True\<close> is red) and the addresses of its
  duplicates in list order. \<open>slots\<close> lists the nodes in order, each with its duplicates.
\<close>

datatype rbt = E | N rbt u32 bool "u32 list" rbt

fun root_red :: "rbt \<Rightarrow> bool" where
  "root_red E = False"
| "root_red (N l a c ds r) = c"

fun slots :: "rbt \<Rightarrow> (u32 \<times> u32 list) list" where
  "slots E = []"
| "slots (N l a c ds r) = slots l @ (a, ds) # slots r"

fun addrs :: "rbt \<Rightarrow> u32 list" where
  "addrs E = []"
| "addrs (N l a c ds r) = addrs l @ a # ds @ addrs r"

lemma addrs_slots: "addrs t = concat (map (\<lambda>(a, ds). a # ds) (slots t))"
  by (induction t) auto

fun dup_list :: "mem \<Rightarrow> u32 \<Rightarrow> u32 list \<Rightarrow> bool" where
  "dup_list m p [] \<longleftrightarrow> p = 0"
| "dup_list m p (d # ds) \<longleftrightarrow> p = d \<and> dup_list m (get_link m d 2) ds"

fun rep :: "mem \<Rightarrow> u32 \<Rightarrow> rbt \<Rightarrow> bool" where
  "rep m p E \<longleftrightarrow> p = 0"
| "rep m p (N l a c ds r) \<longleftrightarrow> p = a \<and> is_red m a = c \<and> rep m (get_link m a 0) l \<and>
     rep m (get_link m a 1) r \<and> dup_list m (get_link m a 2) ds"

text \<open>Two memories that show the same links and colour for every node of a set.\<close>

definition same_nodes :: "u32 set \<Rightarrow> mem \<Rightarrow> mem \<Rightarrow> bool" where
  "same_nodes A m m' \<longleftrightarrow>
     (\<forall>a\<in>A. is_red m' a = is_red m a \<and> (\<forall>j<3. get_link m' a j = get_link m a j))"

lemma same_nodes_mono: "same_nodes A m m' \<Longrightarrow> B \<subseteq> A \<Longrightarrow> same_nodes B m m'"
  unfolding same_nodes_def by blast

lemma dup_list_same: "same_nodes (set ds) m m' \<Longrightarrow> dup_list m' p ds = dup_list m p ds"
  by (induction ds arbitrary: p) (auto simp: same_nodes_def)

lemma rep_same: "same_nodes (set (addrs t)) m m' \<Longrightarrow> rep m' p t = rep m p t"
proof (induction t arbitrary: p)
  case (N l a c ds r)
  have "dup_list m' q ds = dup_list m q ds" for q
    using N.prems by (intro dup_list_same) (auto elim: same_nodes_mono)
  moreover have "rep m' q l = rep m q l" "rep m' q r = rep m q r" for q
    using N.prems by (intro N.IH; auto elim: same_nodes_mono)+
  moreover have "is_red m' a = is_red m a" "\<forall>j<3. get_link m' a j = get_link m a j"
    using N.prems by (auto simp: same_nodes_def)
  ultimately show ?case by simp
qed simp

lemma rep_root: "rep m p t \<Longrightarrow> p \<noteq> 0 \<Longrightarrow> p \<in> set (addrs t)"
  by (cases t) auto

lemma rep_null: "rep m 0 t \<Longrightarrow> separated S \<Longrightarrow> set (addrs t) \<subseteq> S \<Longrightarrow> t = E"
  by (cases t) (auto dest: separated_nz)

lemma rep_red: "rep m p t \<Longrightarrow> is_red m p = root_red t"
  by (cases t) auto

lemma same_nodes_update:
  assumes "separated S" "A \<subseteq> S" "a \<in> S" "a \<notin> A"
  shows "k < 3 \<Longrightarrow> v \<in> insert 0 S \<Longrightarrow> same_nodes A m (set_link m a k v)"
    and "same_nodes A m (paint_red m a)" "same_nodes A m (paint_black m a)"
  using assms unfolding same_nodes_def by (auto simp: heap_laws [OF assms(1)] subset_iff)

subsection \<open>Mirror images\<close>

text \<open>
  \<open>mk d x a c ds y\<close> is the node whose child in direction \<open>d\<close> is \<open>x\<close> and whose other child is
  \<open>y\<close>: the code treats both directions alike, and so do the lemmas.
\<close>

definition mk :: "bool \<Rightarrow> rbt \<Rightarrow> u32 \<Rightarrow> bool \<Rightarrow> u32 list \<Rightarrow> rbt \<Rightarrow> rbt" where
  "mk d x a c ds y = (if d then N y a c ds x else N x a c ds y)"

lemma mk_exists: "t \<noteq> E \<Longrightarrow> \<exists>x a c ds y. t = mk d x a c ds y"
  by (cases t; cases d) (auto simp: mk_def)

lemma mk_neq_E [simp]: "mk d x a c ds y \<noteq> E"
  by (simp add: mk_def)

lemma mk_flip: "mk (\<not> d) x a c ds y = mk d y a c ds x"
  by (simp add: mk_def)

lemma root_red_mk [simp]: "root_red (mk d x a c ds y) = c"
  by (simp add: mk_def)

lemma set_addrs_mk [simp]:
  "set (addrs (mk d x a c ds y)) = insert a (set ds \<union> set (addrs x) \<union> set (addrs y))"
  by (auto simp: mk_def)

lemma distinct_addrs_mk [simp]:
  "distinct (addrs (mk d x a c ds y)) \<longleftrightarrow> distinct (addrs x) \<and> distinct (addrs y) \<and>
     distinct ds \<and> a \<notin> set ds \<union> set (addrs x) \<union> set (addrs y) \<and>
     set ds \<inter> (set (addrs x) \<union> set (addrs y)) = {} \<and> set (addrs x) \<inter> set (addrs y) = {}"
  by (auto simp: mk_def)

lemma rep_mk [simp]:
  "rep m p (mk d x a c ds y) \<longleftrightarrow> p = a \<and> is_red m a = c \<and>
     rep m (get_link m a (of_bool d)) x \<and> rep m (get_link m a (of_bool (\<not> d))) y \<and>
     dup_list m (get_link m a 2) ds"
  by (auto simp: mk_def)

lemma slots_mk:
  "slots (mk d x a c ds y) =
     (if d then slots y @ (a, ds) # slots x else slots x @ (a, ds) # slots y)"
  by (simp add: mk_def)

lemma size_mk: "size x < size (mk d x a c ds y)" "size y < size (mk d x a c ds y)"
  by (simp_all add: mk_def)

section \<open>Red-black invariants\<close>

fun no_red_red :: "rbt \<Rightarrow> bool" where
  "no_red_red E = True"
| "no_red_red (N l a c ds r) \<longleftrightarrow>
     no_red_red l \<and> no_red_red r \<and> \<not> (c \<and> (root_red l \<or> root_red r))"

fun black_depth :: "rbt \<Rightarrow> nat" where
  "black_depth E = 0"
| "black_depth (N l a c ds r) = black_depth l + of_bool (\<not> c)"

fun level_black :: "rbt \<Rightarrow> bool" where
  "level_black E = True"
| "level_black (N l a c ds r) \<longleftrightarrow>
     level_black l \<and> level_black r \<and> black_depth l = black_depth r"

lemma no_red_red_mk [simp]:
  "no_red_red (mk d x a c ds y) \<longleftrightarrow>
     no_red_red x \<and> no_red_red y \<and> \<not> (c \<and> (root_red x \<or> root_red y))"
  by (auto simp: mk_def)

lemma level_black_mk [simp]:
  "level_black (mk d x a c ds y) \<longleftrightarrow>
     level_black x \<and> level_black y \<and> black_depth x = black_depth y"
  by (auto simp: mk_def)

lemma black_depth_mk:
  "black_depth x = black_depth y \<Longrightarrow> black_depth (mk d x a c ds y) = black_depth x + of_bool (\<not> c)"
  by (auto simp: mk_def)

fun blacken :: "rbt \<Rightarrow> rbt" where
  "blacken E = E"
| "blacken (N l a c ds r) = N l a False ds r"

lemma blacken_mk [simp]: "blacken (mk d x a c ds y) = mk d x a False ds y"
  by (simp add: mk_def)

lemma blacken_simps [simp]:
  "\<not> root_red (blacken t)" "slots (blacken t) = slots t" "addrs (blacken t) = addrs t"
  "level_black (blacken t) = level_black t" "no_red_red t \<Longrightarrow> no_red_red (blacken t)"
  "size (blacken t) = size t" "blacken t = E \<longleftrightarrow> t = E"
  by (cases t; auto)+

lemma black_depth_blacken: "root_red t \<Longrightarrow> black_depth (blacken t) = Suc (black_depth t)"
  by (cases t) auto

lemma rep_paint_black:
  assumes "separated S" "set (addrs t) \<subseteq> S" "distinct (addrs t)" "rep m p t" "p \<noteq> 0"
  shows "rep (paint_black m p) p (blacken t)"
proof -
  obtain l c ds r where t: "t = N l p c ds r" using assms(4,5) by (cases t) auto
  have p: "p \<in> S" using assms(2) t by simp
  have sub: "set (addrs l) \<subseteq> S" "set (addrs r) \<subseteq> S" "set ds \<subseteq> S"
    and nin: "p \<notin> set (addrs l)" "p \<notin> set (addrs r)" "p \<notin> set ds"
    using assms(2,3) t by auto
  note same = same_nodes_update(3) [OF assms(1) _ p]
  have "rep (paint_black m p) q l = rep m q l" "rep (paint_black m p) q r = rep m q r"
    "dup_list (paint_black m p) q ds = dup_list m q ds" for q
    using rep_same [OF same] dup_list_same [OF same] sub nin by blast+
  with t p assms(4) show ?thesis by (simp add: heap_laws [OF assms(1)])
qed

definition rb_invariant :: "rbt \<Rightarrow> bool" where
  "rb_invariant t \<longleftrightarrow> no_red_red t \<and> level_black t \<and> \<not> root_red t"

section \<open>Order of the keys\<close>

type_synonym key_fun = "u32 \<Rightarrow> u32"

definition ordered :: "key_fun \<Rightarrow> (u32 \<times> u32 list) list \<Rightarrow> bool" where
  "ordered K xs \<longleftrightarrow> sorted_wrt (\<lambda>x y. K (fst x) < K (fst y)) xs"

fun ins_slots :: "key_fun \<Rightarrow> u32 \<Rightarrow> (u32 \<times> u32 list) list \<Rightarrow> (u32 \<times> u32 list) list" where
  "ins_slots K x [] = [(x, [])]"
| "ins_slots K x ((a, ds) # xs) =
     (if K x < K a then (x, []) # (a, ds) # xs
      else if K x = K a then (a, x # ds) # xs
      else (a, ds) # ins_slots K x xs)"

lemma ordered_append:
  "ordered K (xs @ ys) \<longleftrightarrow> ordered K xs \<and> ordered K ys \<and>
     (\<forall>x\<in>set xs. \<forall>y\<in>set ys. K (fst x) < K (fst y))"
  by (simp add: ordered_def sorted_wrt_append)

lemma ordered_Cons:
  "ordered K (x # xs) \<longleftrightarrow> (\<forall>y\<in>set xs. K (fst x) < K (fst y)) \<and> ordered K xs"
  by (simp add: ordered_def)

lemma ins_slots_less:
  "K x < K a \<Longrightarrow> ins_slots K x (xs @ (a, ds) # ys) = ins_slots K x xs @ (a, ds) # ys"
  by (induction xs) auto

lemma ins_slots_greater:
  "ordered K (xs @ (a, ds) # ys) \<Longrightarrow> K a < K x \<Longrightarrow>
     ins_slots K x (xs @ (a, ds) # ys) = xs @ (a, ds) # ins_slots K x ys"
  by (induction xs) (auto simp: ordered_Cons ordered_append)

lemma ins_slots_equal:
  "ordered K (xs @ (a, ds) # ys) \<Longrightarrow> K a = K x \<Longrightarrow>
     ins_slots K x (xs @ (a, ds) # ys) = xs @ (a, x # ds) # ys"
  by (induction xs) (auto simp: ordered_Cons ordered_append)

lemma fst_ins_slots: "fst ` set (ins_slots K x xs) \<subseteq> insert x (fst ` set xs)"
  by (induction K x xs rule: ins_slots.induct) auto

lemma ordered_ins_slots: "ordered K xs \<Longrightarrow> ordered K (ins_slots K x xs)"
proof (induction xs)
  case (Cons s xs)
  obtain a ds where s: "s = (a, ds)" by force
  have "K a < K x \<Longrightarrow> y \<in> set (ins_slots K x xs) \<Longrightarrow> K a < K (fst y)" for y
    using fst_ins_slots [of K x xs] Cons.prems s by (force simp: ordered_Cons)
  with Cons s show ?case by (fastforce simp: ordered_Cons)
qed (simp add: ordered_def)

end
