(* ===== verification/Rb_Remove.thy ===== *)
theory Rb_Remove
  imports Rb_Heap "HOL-Library.Monad_Syntax"
begin

text \<open>
  The other functions of \<^verbatim>\<open>kernel/rb_tree.c\<close>: \<open>remove_rbnode\<close>, which pushes a red node down
  while it searches and takes a duplicate before it takes the tree node itself,
  \<open>lookup_rbnode\<close>, \<open>height\<close> and the checker \<open>assert_tree\<close>.
\<close>

section \<open>Removal\<close>

text \<open>One step of the descent, after the helpers have moved down to \<open>n\<close>.\<close>

definition push_red ::
  "u32 \<Rightarrow> u32 \<Rightarrow> u32 \<Rightarrow> u32 \<Rightarrow> u32 \<Rightarrow> bool \<Rightarrow> bool \<Rightarrow> mem \<Rightarrow> mem \<times> u32 \<times> u32" where
  "push_red g p n f fp dir lst m =
     (if \<not> is_red m n \<and> \<not> is_red m (get_link m n (of_bool dir))
      then if is_red m (get_link m n (of_bool (\<not> dir)))
        then (let (m, r) = rotate_node m n dir;
                  m = set_link m p (of_bool lst) r;
                  p = get_link m p (of_bool lst)
              in (m, p, if f = n then p else fp))
        else (let s = get_link m p (of_bool (\<not> lst)) in
              if s \<noteq> 0
              then if \<not> is_red m (get_link m s 0) \<and> \<not> is_red m (get_link m s 1)
                then (paint_red (paint_red (paint_black m p) s) n, p, fp)
                else (let dir2 = (get_link m g 1 = p);
                          m = (if is_red m (get_link m s (of_bool (\<not> lst)))
                               then (let (m, r) = rotate_node m p lst
                                     in set_link m g (of_bool dir2) r)
                               else if is_red m (get_link m s (of_bool lst))
                               then (let (m, r) = rotate_node m (get_link m p (of_bool (\<not> lst))) (\<not> lst);
                                         m = set_link m p (of_bool (\<not> lst)) r;
                                         (m, r) = rotate_node m p lst
                                     in set_link m g (of_bool dir2) r)
                               else m);
                          m = paint_red m n;
                          m = paint_red m (get_link m g (of_bool dir2));
                          m = paint_black m (get_link m (get_link m g (of_bool dir2)) 0);
                          m = paint_black m (get_link m (get_link m g (of_bool dir2)) 1)
                      in (m, p, if f = p then get_link m g (of_bool dir2) else fp))
              else (m, p, fp))
      else (m, p, fp))"

partial_function (option) remove_loop ::
  "(mem \<Rightarrow> u32 \<Rightarrow> u32 \<Rightarrow> 'a option \<Rightarrow> int) \<Rightarrow> u32 \<Rightarrow> 'a option \<Rightarrow> u32 \<Rightarrow> u32 \<Rightarrow> u32 \<Rightarrow> u32 \<Rightarrow> u32
     \<Rightarrow> bool \<Rightarrow> mem \<Rightarrow> (mem \<times> u32 \<times> u32 \<times> u32 \<times> u32) option" where
  "remove_loop cmp data args n p g f fp dir m =
     (if get_link m n (of_bool dir) = 0 then Some (m, n, p, f, fp)
      else let n' = get_link m n (of_bool dir);
               res = cmp m n' data args;
               (f, fp) = (if res = 0 then (n', n) else (f, fp));
               (m, p', fp) = push_red p n n' f fp (res < 0) dir m
           in remove_loop cmp data args n' p' p f fp (res < 0) m)"

partial_function (option) find_dup ::
  "(mem \<Rightarrow> u32 \<Rightarrow> 'a option \<Rightarrow> int) \<Rightarrow> 'a option \<Rightarrow> u32 \<Rightarrow> u32 \<Rightarrow> mem \<Rightarrow> (u32 \<times> u32) option" where
  "find_dup sel args tmp prev m =
     (if tmp \<noteq> 0 \<and> sel m tmp args = 0
      then find_dup sel args (get_link m tmp 2) tmp m
      else Some (tmp, prev))"

text \<open>A duplicate takes the place of the found node, or leaves the list of its duplicates.\<close>

definition remove_dup ::
  "'a rb_tree \<Rightarrow> 'a option \<Rightarrow> u32 \<Rightarrow> u32 \<Rightarrow> mem \<Rightarrow> (mem \<times> 'a rb_tree \<times> u32) option" where
  "remove_dup tree args f fp m =
     (case find_dup (select_dup_fn tree) args (get_link m f 2) f m of
        None \<Rightarrow> None
      | Some (tmp, prev) \<Rightarrow>
          if tmp = 0
          then if select_dup_fn tree m f args \<noteq> 0
            then (let tmp = get_link m f 2;
                      m = set_link m tmp 0 (get_link m f 0);
                      m = set_link m tmp 1 (get_link m f 1);
                      m = set_link m fp (of_bool (get_link m fp 1 = f)) tmp;
                      m = copy_color m f tmp
                  in Some (m, tree\<lparr>num_dup := num_dup tree - 1\<rparr>, f))
            else Some (m, tree, 0)
          else Some (set_link m prev 2 (get_link m tmp 2), tree\<lparr>num_dup := num_dup tree - 1\<rparr>, tmp))"

text \<open>The in-order predecessor \<open>n\<close> is cut off and put in the place of the found node.\<close>

definition remove_single ::
  "'a rb_tree \<Rightarrow> u32 \<Rightarrow> u32 \<Rightarrow> u32 \<Rightarrow> u32 \<Rightarrow> mem \<Rightarrow> mem \<times> 'a rb_tree" where
  "remove_single tree n p f fp m =
     (let m = set_link m p (of_bool (get_link m p 1 = n)) (get_link m n (of_bool (get_link m n 0 = 0)));
          tree = tree\<lparr>num_nodes := num_nodes tree - 1\<rparr>
      in if n \<noteq> f
         then (let m = set_link m n 0 (get_link m f 0);
                   m = set_link m n 1 (get_link m f 1);
                   m = set_link m fp (of_bool (get_link m fp 1 = f)) n
               in (copy_color m f n, tree))
         else (m, tree))"

definition remove_rbnode ::
  "u32 \<Rightarrow> 'a rb_tree \<Rightarrow> u32 \<Rightarrow> 'a option \<Rightarrow> mem \<Rightarrow> (mem \<times> 'a rb_tree \<times> u32) option" where
  "remove_rbnode head tree data args m =
     (if root tree \<noteq> 0
      then let m = m(head := 0, link_addr head 0 := 0, link_addr head 1 := 0, link_addr head 2 := 0);
               m = set_link m head 1 (root tree)
           in case remove_loop (compare_fn tree) data args head 0 0 0 0 True m of
                None \<Rightarrow> None
              | Some (m, n, p, f, fp) \<Rightarrow>
                  (case (if f \<noteq> 0 \<and> get_link m f 2 \<noteq> 0 then remove_dup tree args f fp m
                         else if f \<noteq> 0
                         then (let (m, tree) = remove_single tree n p f fp m in Some (m, tree, f))
                         else Some (m, tree, f)) of
                     None \<Rightarrow> None
                   | Some (m, tree, f) \<Rightarrow>
                       let r = get_link m head 1
                       in Some (if r \<noteq> 0 then paint_black m r else m, tree\<lparr>root := r\<rparr>, f))
      else Some (m, tree, 0))"

section \<open>Lookup\<close>

text \<open>
  The loop of \<open>lookup_rbnode\<close> declares a new \<open>res\<close> inside its body, so the direction in its
  condition is the one of the first comparison for the whole run.
\<close>

partial_function (option) lookup_loop ::
  "(mem \<Rightarrow> u32 \<Rightarrow> u32 \<Rightarrow> 'a option \<Rightarrow> int) \<Rightarrow> u32 \<Rightarrow> 'a option \<Rightarrow> int \<Rightarrow> bool \<Rightarrow> u32 \<Rightarrow> mem
     \<Rightarrow> (bool \<times> u32) option" where
  "lookup_loop cmp data args res found node m =
     (if \<not> found \<and> get_link m node (of_bool (res < 0)) \<noteq> 0
      then let node = get_link m node (of_bool (res < 0))
           in lookup_loop cmp data args res (found \<or> cmp m node data args = 0) node m
      else Some (found, node))"

definition lookup_rbnode :: "'a rb_tree \<Rightarrow> u32 \<Rightarrow> 'a option \<Rightarrow> mem \<Rightarrow> u32 option" where
  "lookup_rbnode tree data args m =
     (let node = root tree;
          res = compare_fn tree m node data args
      in case lookup_loop (compare_fn tree) data args res (res = 0) node m of
           None \<Rightarrow> None
         | Some (found, node) \<Rightarrow> Some (if found then node else 0))"

section \<open>Height and checker\<close>

partial_function (option) height :: "u32 \<Rightarrow> mem \<Rightarrow> int option" where
  "height node m =
     (if node = 0 then Some 0
      else do {
        l \<leftarrow> height (get_link m node 0) m;
        r \<leftarrow> height (get_link m node 1) m;
        Some (if l > r then l + 1 else r + 1)
      })"

text \<open>A violation makes \<open>assert_tree\<close> spin for ever, which is the result \<open>None\<close>.\<close>

partial_function (option) assert_tree :: "u32 \<Rightarrow> mem \<Rightarrow> int option" where
  "assert_tree rt m =
     (if rt = 0 then Some 1
      else let ln = get_link m rt 0; rn = get_link m rt 1
        in if is_red m rt \<and> (is_red m ln \<or> is_red m rn) then None
           else do {
             lh \<leftarrow> assert_tree ln m;
             rh \<leftarrow> assert_tree rn m;
             if ln \<noteq> 0 \<and> rb_data m ln \<ge> rb_data m rt \<or> rn \<noteq> 0 \<and> rb_data m rn \<le> rb_data m rt
             then None
             else if lh \<noteq> 0 \<and> rh \<noteq> 0 \<and> lh \<noteq> rh then None
             else if lh \<noteq> 0 \<and> rh \<noteq> 0 then Some (if is_red m rt then lh else lh + 1)
             else Some 0
           })"

section \<open>The checker decides the colour invariants\<close>

fun tree_height :: "rbt \<Rightarrow> int" where
  "tree_height E = 0"
| "tree_height (N l a c ds r) = 1 + max (tree_height l) (tree_height r)"

lemma height_rep:
  "rep m p t \<Longrightarrow> separated S \<Longrightarrow> set (addrs t) \<subseteq> S \<Longrightarrow> height p m = Some (tree_height t)"
proof (induction t arbitrary: p)
  case E
  then show ?case by (simp add: height.simps)
next
  case (N l a c ds r)
  then have "a \<noteq> 0" by (auto dest: separated_nz)
  with N show ?case by (subst height.simps) (simp add: max_def)
qed

text \<open>The test of the keys looks one level down only.\<close>

fun locally_ordered :: "key_fun \<Rightarrow> rbt \<Rightarrow> bool" where
  "locally_ordered K E = True"
| "locally_ordered K (N l a c ds r) \<longleftrightarrow>
     locally_ordered K l \<and> locally_ordered K r \<and>
     (case l of E \<Rightarrow> True | N _ b _ _ _ \<Rightarrow> K b < K a) \<and>
     (case r of E \<Rightarrow> True | N _ b _ _ _ \<Rightarrow> K a < K b)"

lemma assert_tree_rep:
  assumes "separated S"
  shows "rep m p t \<Longrightarrow> set (addrs t) \<subseteq> S \<Longrightarrow> assert_tree p m =
    (if no_red_red t \<and> level_black t \<and> locally_ordered (rb_data m) t
     then Some (int (black_depth t) + 1) else None)"
proof (induction t arbitrary: p)
  case E
  then show ?case by (simp add: assert_tree.simps)
next
  case (N l a c ds r)
  have a: "p = a" "a \<noteq> 0" using N.prems separated_nz [OF assms] by auto
  let ?l = "get_link m a 0" and ?r = "get_link m a (Suc 0)"
  have rl: "rep m ?l l" "rep m ?r r" "set (addrs l) \<subseteq> S" "set (addrs r) \<subseteq> S"
    using N.prems by auto
  have red: "is_red m a = c" "is_red m ?l = root_red l" "is_red m ?r = root_red r"
    using N.prems rep_red [OF rl(1)] rep_red [OF rl(2)] by auto
  have key: "(?l \<noteq> 0 \<and> rb_data m ?l \<ge> rb_data m a \<or> ?r \<noteq> 0 \<and> rb_data m ?r \<le> rb_data m a) \<longleftrightarrow>
      \<not> ((case l of E \<Rightarrow> True | N _ b _ _ _ \<Rightarrow> rb_data m b < rb_data m a) \<and>
         (case r of E \<Rightarrow> True | N _ b _ _ _ \<Rightarrow> rb_data m a < rb_data m b))"
    using rl separated_nz [OF assms] by (cases l; cases r) (auto simp: not_less)
  note IH = N.IH(1) [OF rl(1,3)] N.IH(2) [OF rl(2,4)]
  show ?case
    unfolding a(1)
    by (subst assert_tree.simps) (use a(2) in \<open>auto simp: Let_def red IH key\<close>)
qed

text \<open>
  C12. On a tree that lies in memory \<open>assert_tree\<close> ends exactly when the tree has no red node
  with a red child, the same number of black nodes on every path and each child on the right
  side of its parent's key, and it then returns the black height.
\<close>

theorem assert_tree_decides:
  assumes "separated (set (addrs t))" "rep m p t"
  shows "assert_tree p m =
    (if no_red_red t \<and> level_black t \<and> locally_ordered (rb_data m) t
     then Some (int (black_depth t) + 1) else None)"
  using assert_tree_rep [OF assms(1,2)] by simp

definition three_nodes :: mem where
  "three_nodes = (\<lambda>_. 0)(0x100 := 50, 0x104 := 0x200, 0x200 := 20, 0x208 := 0x300, 0x204 := 1, 0x300 := 30)"

abbreviation three_tree :: rbt where
  "three_tree \<equiv> N (N E 0x200 True [] (N E 0x300 False [] E)) 0x100 False [] E"

lemma three_tree_facts:
  "separated (set (addrs three_tree))" "rep three_nodes 0x100 three_tree"
  by (simp_all add: separated_def node_words_def untag_def three_nodes_def get_link_def is_red_def
      tag_def)

theorem assert_tree_decides_witness: "assert_tree 0x100 three_nodes = None"
  using assert_tree_decides [OF three_tree_facts] by simp

section \<open>What a lookup finds\<close>

fun spine :: "bool \<Rightarrow> rbt \<Rightarrow> u32 list" where
  "spine d E = []"
| "spine d (N l a c ds r) = a # spine d (if d then r else l)"

lemma lookup_loop_spine:
  assumes "separated S"
  shows "rep m p t \<Longrightarrow> t \<noteq> E \<Longrightarrow> set (addrs t) \<subseteq> S \<Longrightarrow>
    \<exists>fd n. lookup_loop cmp data args res found p m = Some (fd, n) \<and>
      (if fd then n else 0) =
        (if found then p else case find (\<lambda>a. cmp m a data args = 0) (tl (spine (res < 0) t)) of
           Some a \<Rightarrow> a | None \<Rightarrow> 0)"
proof (induction t arbitrary: p found)
  case (N l a c ds r)
  define k where "k = (if res < 0 then r else l)"
  have p: "p = a" and rk: "rep m (get_link m a (of_bool (res < 0))) k" "set (addrs k) \<subseteq> S"
    using N.prems by (auto simp: k_def)
  have sp: "tl (spine (res < 0) (N l a c ds r)) = spine (res < 0) k" by (simp add: k_def)
  show ?case
  proof (cases "found \<or> k = E")
    case True
    then have "lookup_loop cmp data args res found p m = Some (found, p)"
      using rk(1) unfolding p by (subst lookup_loop.simps) auto
    with True show ?thesis unfolding sp by auto
  next
    case False
    then have ne: "k \<noteq> E" "\<not> found" by auto
    define n' where "n' = get_link m a (of_bool (res < 0))"
    have n': "n' \<noteq> 0" using rep_null [OF _ assms rk(2)] rk(1) ne(1) by (auto simp: n'_def)
    have hd: "spine (res < 0) k = n' # tl (spine (res < 0) k)"
      using rk(1) ne(1) by (cases k) (auto simp: n'_def)
    have ih: "\<exists>fd n. lookup_loop cmp data args res fnd n' m = Some (fd, n) \<and>
        (if fd then n else 0) = (if fnd then n' else
          case find (\<lambda>a. cmp m a data args = 0) (tl (spine (res < 0) k)) of Some a \<Rightarrow> a | None \<Rightarrow> 0)" for fnd
    proof (cases "res < 0")
      case True
      then have "k = r" by (simp add: k_def)
      then show ?thesis using N.IH(2) [of n' fnd] rk [folded n'_def] ne(1) by blast
    next
      case False
      then have "k = l" by (simp add: k_def)
      then show ?thesis using N.IH(1) [of n' fnd] rk [folded n'_def] ne(1) by blast
    qed
    have "lookup_loop cmp data args res found p m =
        lookup_loop cmp data args res (cmp m n' data args = 0) n' m"
      unfolding p using ne(2) n' by (subst lookup_loop.simps) (simp add: n'_def Let_def)
    moreover have "(case find (\<lambda>a. cmp m a data args = 0) (spine (res < 0) k) of
          Some a \<Rightarrow> a | None \<Rightarrow> 0) =
        (if cmp m n' data args = 0 then n' else
          case find (\<lambda>a. cmp m a data args = 0) (tl (spine (res < 0) k)) of Some a \<Rightarrow> a | None \<Rightarrow> 0)"
      by (subst hd) simp
    ultimately show ?thesis unfolding sp using ih [of "cmp m n' data args = 0"] ne(2) by simp
  qed
qed simp

text \<open>
  \<open>lookup_rbnode\<close> compares the nodes on one spine of the tree only: it returns the first
  node, among the root and the nodes reached from it by always following the direction of
  the first comparison, that compares equal, and \<open>NULL\<close> when that spine has none.
\<close>

theorem lookup_follows_spine:
  assumes "separated (set (addrs t))" "rep m (root tree) t" "t \<noteq> E"
  shows "lookup_rbnode tree data args m =
    Some (case find (\<lambda>a. compare_fn tree m a data args = 0)
             (spine (compare_fn tree m (root tree) data args < 0) t) of
            Some a \<Rightarrow> a | None \<Rightarrow> 0)"
proof -
  define res where "res = compare_fn tree m (root tree) data args"
  have hd: "spine (res < 0) t = root tree # tl (spine (res < 0) t)"
    using assms(2,3) by (cases t) auto
  from lookup_loop_spine [OF assms(1,2,3), of "compare_fn tree" data args res "res = 0"]
  obtain fd n where "lookup_loop (compare_fn tree) data args res (res = 0) (root tree) m = Some (fd, n)"
    "(if fd then n else 0) = (if res = 0 then root tree else
       case find (\<lambda>a. compare_fn tree m a data args = 0) (tl (spine (res < 0) t)) of
         Some a \<Rightarrow> a | None \<Rightarrow> 0)"
    by auto
  then show ?thesis
    unfolding lookup_rbnode_def Let_def res_def [symmetric]
    by (subst hd) (simp add: res_def [symmetric])
qed

text \<open>The node with data 30 hangs below the node with data 20, to its right: it is not found.\<close>

definition order_of_data :: "mem \<Rightarrow> u32 \<Rightarrow> u32 \<Rightarrow> unit option \<Rightarrow> int" where
  "order_of_data m n d args = (if rb_data m n < d then -1 else if rb_data m n > d then 1 else 0)"

theorem lookup_follows_spine_witness:
  "rb_data three_nodes 0x300 = 30 \<and>
   lookup_rbnode (rb_tree.make 0x100 3 0 order_of_data (\<lambda>_ _ _. 1)) 30 None three_nodes = Some 0"
  by (subst lookup_follows_spine [OF three_tree_facts(1)])
    (use three_tree_facts(2) in
      \<open>simp_all add: rb_tree.make_def order_of_data_def rb_data_def three_nodes_def\<close>)

end
