(* ===== verification/Cstring.thy ===== *)
theory Cstring
  imports Kernel_Prelude
begin

text \<open>
  The memory and string functions of \<^verbatim>\<open>kernel/string.c\<close>, on a memory of bytes. An
  instruction with a repeat prefix is the sequence of its single moves, in the direction the
  code runs them, so that overlapping buffers behave as on the machine. A \<^verbatim>\<open>char\<close> is a byte
  whose sign bit counts in comparisons; a loop over a string that has no NUL does not end.
\<close>

type_synonym bmem = "u32 \<Rightarrow> u8"

section \<open>Blocks of memory\<close>

text \<open>One load and store of \<open>w\<close> bytes, and the forward and backward sequences of \<open>k\<close> of them.\<close>

definition move_chunk :: "nat \<Rightarrow> u32 \<Rightarrow> u32 \<Rightarrow> bmem \<Rightarrow> bmem" where
  "move_chunk w d s m = (\<lambda>a. if unat (a - d) < w then m (s + (a - d)) else m a)"

definition move_forward :: "nat \<Rightarrow> nat \<Rightarrow> u32 \<Rightarrow> u32 \<Rightarrow> bmem \<Rightarrow> bmem" where
  "move_forward w k d s m =
     fold (\<lambda>i. move_chunk w (d + of_nat (w * i)) (s + of_nat (w * i))) [0..<k] m"

definition move_backward :: "nat \<Rightarrow> nat \<Rightarrow> u32 \<Rightarrow> u32 \<Rightarrow> bmem \<Rightarrow> bmem" where
  "move_backward w k d s m =
     fold (\<lambda>i. move_chunk w (d + of_nat (w * i)) (s + of_nat (w * i))) (rev [0..<k]) m"

definition memcpy :: "u32 \<Rightarrow> u32 \<Rightarrow> u32 \<Rightarrow> bmem \<Rightarrow> u32 \<times> bmem" where
  "memcpy dst src n m =
     (if (dst OR src OR n) AND 3 \<noteq> 0 then (dst, move_forward 1 (unat n) dst src m)
      else (dst, move_forward 4 (unat (n div 4)) dst src m))"

definition memmove :: "u32 \<Rightarrow> u32 \<Rightarrow> u32 \<Rightarrow> bmem \<Rightarrow> u32 \<times> bmem" where
  "memmove dst src n m =
     (if dst < src then memcpy dst src n m
      else if dst mod 4 = 0 \<and> src mod 4 = 0 \<and> n mod 4 = 0
      then (dst, move_backward 4 (unat (n div 4)) dst src m)
      else (dst, move_backward 1 (unat n) dst src m))"

text \<open>
  The fill instructions advance the pointer they are given, and the functions return it as
  the instruction left it.
\<close>

definition memset :: "u32 \<Rightarrow> u8 \<Rightarrow> u32 \<Rightarrow> bmem \<Rightarrow> u32 \<times> bmem" where
  "memset ptr v n m = (ptr + n, fold (\<lambda>i m. m(ptr + of_nat i := v)) [0..<unat n] m)"

definition memsetw :: "u32 \<Rightarrow> u16 \<Rightarrow> u32 \<Rightarrow> bmem \<Rightarrow> u32 \<times> bmem" where
  "memsetw ptr v n m =
     (ptr + 2 * n,
      fold (\<lambda>i m. m(ptr + of_nat (2 * i) := ucast v,
                   ptr + of_nat (2 * i) + 1 := ucast (drop_bit 8 v))) [0..<unat n] m)"

fun memcmp_from :: "bmem \<Rightarrow> u32 \<Rightarrow> u32 \<Rightarrow> u32 \<Rightarrow> nat \<Rightarrow> int" where
  "memcmp_from m p1 p2 i 0 = 0"
| "memcmp_from m p1 p2 i (Suc k) =
     (if m (p1 + i) \<noteq> m (p2 + i) then uint (m (p1 + i)) - uint (m (p2 + i))
      else memcmp_from m p1 p2 (i + 1) k)"

definition memcmp :: "u32 \<Rightarrow> u32 \<Rightarrow> u32 \<Rightarrow> bmem \<Rightarrow> int" where
  "memcmp ptr1 ptr2 n m = memcmp_from m ptr1 ptr2 0 (unat n)"

fun memchr_from :: "bmem \<Rightarrow> u32 \<Rightarrow> int \<Rightarrow> nat \<Rightarrow> u32" where
  "memchr_from m p value 0 = 0"
| "memchr_from m p value (Suc k) =
     (if uint (m p) = value then p else memchr_from m (p + 1) value k)"

definition memchr :: "u32 \<Rightarrow> int \<Rightarrow> u32 \<Rightarrow> bmem \<Rightarrow> u32" where
  "memchr ptr value n m = memchr_from m ptr value (unat n)"

section \<open>Strings\<close>

partial_function (option) strlen_from :: "bmem \<Rightarrow> u32 \<Rightarrow> u32 \<Rightarrow> u32 option" where
  "strlen_from m str ret = (if m (str + ret) \<noteq> 0 then strlen_from m str (ret + 1) else Some (ret + 1))"

definition strlen :: "u32 \<Rightarrow> bmem \<Rightarrow> u32 option" where
  "strlen str m = strlen_from m str 0"

partial_function (option) strnlen_from :: "bmem \<Rightarrow> u32 \<Rightarrow> u32 \<Rightarrow> u32 \<Rightarrow> u32 option" where
  "strnlen_from m str n ret =
     (if m (str + ret) \<noteq> 0 \<and> n \<noteq> 0 then strnlen_from m str (n - 1) (ret + 1) else Some (ret + 1))"

definition strnlen :: "u32 \<Rightarrow> u32 \<Rightarrow> bmem \<Rightarrow> u32 option" where
  "strnlen str n m = strnlen_from m str n 0"

partial_function (option) strcpy_from :: "u32 \<Rightarrow> u32 \<Rightarrow> u32 \<Rightarrow> bmem \<Rightarrow> bmem option" where
  "strcpy_from dst src i m =
     (if m (src + i) \<noteq> 0 then strcpy_from dst src (i + 1) (m(dst + i := m (src + i)))
      else Some (m(dst + i := 0)))"

definition strcpy :: "u32 \<Rightarrow> u32 \<Rightarrow> bmem \<Rightarrow> (u32 \<times> bmem) option" where
  "strcpy dst src m = map_option (Pair dst) (strcpy_from dst src 0 m)"

partial_function (option) strncpy_from :: "u32 \<Rightarrow> u32 \<Rightarrow> u32 \<Rightarrow> u32 \<Rightarrow> bmem \<Rightarrow> bmem option" where
  "strncpy_from dst src i n m =
     (if m (src + i) \<noteq> 0 \<and> 0 < n
      then strncpy_from dst src (i + 1) (n - 1) (m(dst + i := m (src + i)))
      else Some (m(dst + i := 0)))"

definition strncpy :: "u32 \<Rightarrow> u32 \<Rightarrow> u32 \<Rightarrow> bmem \<Rightarrow> (u32 \<times> bmem) option" where
  "strncpy dst src n m = map_option (Pair dst) (strncpy_from dst src 0 n m)"

definition strcat :: "u32 \<Rightarrow> u32 \<Rightarrow> bmem \<Rightarrow> (u32 \<times> bmem) option" where
  "strcat dst src m =
     (case strlen dst m of None \<Rightarrow> None
      | Some offset \<Rightarrow> map_option (\<lambda>(_, m). (dst, m)) (strcpy (dst + offset) src m))"

text \<open>The three results of a comparison of two characters.\<close>

definition char_order :: "u8 \<Rightarrow> u8 \<Rightarrow> int" where
  "char_order c d = (if sint d < sint c then 1 else if c = d then 0 else -1)"

partial_function (option) strcmp_from :: "bmem \<Rightarrow> u32 \<Rightarrow> u32 \<Rightarrow> u32 \<Rightarrow> int option" where
  "strcmp_from m s1 s2 i =
     (if m (s1 + i) \<noteq> 0 \<and> m (s1 + i) = m (s2 + i) then strcmp_from m s1 s2 (i + 1)
      else Some (char_order (m (s1 + i)) (m (s2 + i))))"

definition strcmp :: "u32 \<Rightarrow> u32 \<Rightarrow> bmem \<Rightarrow> int option" where
  "strcmp s1 s2 m = strcmp_from m s1 s2 0"

partial_function (option) strncmp_from :: "bmem \<Rightarrow> u32 \<Rightarrow> u32 \<Rightarrow> u32 \<Rightarrow> u32 \<Rightarrow> int option" where
  "strncmp_from m s1 s2 i n =
     (if m (s1 + i) \<noteq> 0 \<and> m (s1 + i) = m (s2 + i) \<and> 0 < n
      then strncmp_from m s1 s2 (i + 1) (n - 1)
      else Some (char_order (m (s1 + i)) (m (s2 + i))))"

definition strncmp :: "u32 \<Rightarrow> u32 \<Rightarrow> u32 \<Rightarrow> bmem \<Rightarrow> int option" where
  "strncmp s1 s2 n m = strncmp_from m s1 s2 0 n"

section \<open>Copies of overlapping blocks\<close>

lemma unat_add_no_wrap:
  assumes "unat (a :: u32) + k < 2 ^ 32"
  shows "unat (a + of_nat k) = unat a + k"
  using assms by (simp add: unat_word_ariths(1) unat_of_nat)

lemma offset_in_block:
  assumes "unat (d :: u32) + w \<le> 2 ^ 32"
  shows "unat (a - d) < w \<longleftrightarrow> unat d \<le> unat a \<and> unat a < unat d + w"
proof (cases "unat d \<le> unat a")
  case True
  then have "unat (a - d) = unat a - unat d" by (simp add: unat_sub word_le_nat_alt)
  then show ?thesis using True by auto
next
  case False
  then have "unat (a - d) = 2 ^ 32 + unat a - unat d"
    using unat_sub_if' [of a d] by (simp add: word_le_nat_alt)
  then show ?thesis using False assms by auto
qed

lemma move_chunk_other:
  assumes "unat d + w \<le> 2 ^ 32" "\<not> (unat d \<le> unat a \<and> unat a < unat d + w)"
  shows "move_chunk w d s m a = m a"
  unfolding move_chunk_def using offset_in_block [OF assms(1), of a] assms(2) by auto

lemma move_chunk_inside:
  assumes "unat d + w \<le> 2 ^ 32" "unat d \<le> unat a" "unat a < unat d + w"
  shows "move_chunk w d s m a = m (s + (a - d))"
  unfolding move_chunk_def using offset_in_block [OF assms(1), of a] assms by auto

lemma source_address:
  assumes "unat (s :: u32) + n \<le> 2 ^ 32" "unat d \<le> unat a" "unat a < unat d + n"
  shows "unat (s + (a - d)) = unat s + (unat a - unat d)"
proof -
  have u: "unat (a - d) = unat a - unat d" using assms by (simp add: unat_sub word_le_nat_alt)
  have "unat (s + of_nat (unat (a - d))) = unat s + unat (a - d)"
    by (rule unat_add_no_wrap) (use assms u in linarith)
  moreover have "word_of_nat (unat (a - d)) = a - d" by simp
  ultimately have "unat (s + (a - d)) = unat s + unat (a - d)" by (simp only:)
  then show ?thesis by (simp only: u)
qed

text \<open>
  Copying one more chunk, when the memory it reads has not been written yet, extends the
  copied block: behind it for the forward copy, in front of it for the backward one.
\<close>

lemma chunk_after:
  assumes nw: "unat d + (c + w) \<le> 2 ^ 32" "unat s + (c + w) \<le> 2 ^ 32"
    and fresh: "unat d \<le> unat s \<or> unat s + (c + w) \<le> unat d"
  shows "move_chunk w (d + of_nat c) (s + of_nat c) (move_chunk c d s m) = move_chunk (c + w) d s m"
    (is "?l = ?r")
proof (cases "w = 0")
  case True then show ?thesis by (simp add: move_chunk_def)
next
  case False
  have dc: "unat (d + of_nat c) = unat d + c" using nw False by (intro unat_add_no_wrap) simp
  show ?thesis
  proof
    fix a :: u32
    consider (before) "unat d \<le> unat a \<and> unat a < unat d + c"
      | (now) "unat d + c \<le> unat a \<and> unat a < unat d + (c + w)"
      | (out) "unat a < unat d \<or> unat d + (c + w) \<le> unat a" by linarith
    then show "?l a = ?r a"
    proof cases
      case before
      have "?l a = move_chunk c d s m a" by (rule move_chunk_other) (use nw dc before in auto)
      also have "\<dots> = m (s + (a - d))" by (rule move_chunk_inside) (use nw before in auto)
      also have "\<dots> = ?r a" by (rule move_chunk_inside [symmetric]) (use nw before in auto)
      finally show ?thesis .
    next
      case now
      have "?l a = move_chunk c d s m (s + of_nat c + (a - (d + of_nat c)))"
        by (rule move_chunk_inside) (use nw dc now in auto)
      also have "s + of_nat c + (a - (d + of_nat c)) = s + (a - d)" by simp
      also have "move_chunk c d s m (s + (a - d)) = m (s + (a - d))"
      proof (rule move_chunk_other)
        have "unat (s + (a - d)) = unat s + (unat a - unat d)"
          by (rule source_address [of _ "c + w"]) (use nw now in auto)
        then show "\<not> (unat d \<le> unat (s + (a - d)) \<and> unat (s + (a - d)) < unat d + c)"
          using fresh now by linarith
      qed (use nw in auto)
      also have "\<dots> = ?r a" by (rule move_chunk_inside [symmetric]) (use nw now in auto)
      finally show ?thesis .
    next
      case out
      have "?l a = move_chunk c d s m a" by (rule move_chunk_other) (use nw dc out in auto)
      also have "\<dots> = m a" by (rule move_chunk_other) (use nw out in auto)
      also have "\<dots> = ?r a" by (rule move_chunk_other [symmetric]) (use nw out in auto)
      finally show ?thesis .
    qed
  qed
qed

lemma chunk_before:
  assumes nw: "unat d + (c + w) \<le> 2 ^ 32" "unat s + (c + w) \<le> 2 ^ 32"
    and below: "unat s \<le> unat d"
  shows "move_chunk c d s (move_chunk w (d + of_nat c) (s + of_nat c) m) = move_chunk (c + w) d s m"
    (is "?l = ?r")
proof (cases "w = 0")
  case True then show ?thesis by (simp add: move_chunk_def)
next
  case False
  let ?m = "move_chunk w (d + of_nat c) (s + of_nat c) m"
  have dc: "unat (d + of_nat c) = unat d + c" using nw False by (intro unat_add_no_wrap) simp
  show ?thesis
  proof
    fix a :: u32
    consider (later) "unat d \<le> unat a \<and> unat a < unat d + c"
      | (now) "unat d + c \<le> unat a \<and> unat a < unat d + (c + w)"
      | (out) "unat a < unat d \<or> unat d + (c + w) \<le> unat a" by linarith
    then show "?l a = ?r a"
    proof cases
      case later
      have u: "unat (s + (a - d)) = unat s + (unat a - unat d)"
        by (rule source_address [of _ "c + w"]) (use nw later in auto)
      have "?l a = ?m (s + (a - d))" by (rule move_chunk_inside) (use nw later in auto)
      also have "\<dots> = m (s + (a - d))"
        by (rule move_chunk_other) (use nw dc u later below in linarith)+
      also have "\<dots> = ?r a" by (rule move_chunk_inside [symmetric]) (use nw later in auto)
      finally show ?thesis .
    next
      case now
      have "?l a = ?m a" by (rule move_chunk_other) (use nw now in auto)
      also have "\<dots> = m (s + of_nat c + (a - (d + of_nat c)))"
        by (rule move_chunk_inside) (use nw dc now in auto)
      also have "\<dots> = ?r a"
        using move_chunk_inside [of d "c + w" a s m] nw now by simp
      finally show ?thesis .
    next
      case out
      have "?l a = ?m a" by (rule move_chunk_other) (use nw out in auto)
      also have "\<dots> = m a" by (rule move_chunk_other) (use nw dc out in auto)
      also have "\<dots> = ?r a" by (rule move_chunk_other [symmetric]) (use nw out in auto)
      finally show ?thesis .
    qed
  qed
qed

lemma move_forward_block:
  assumes "unat d + w * k \<le> 2 ^ 32" "unat s + w * k \<le> 2 ^ 32"
    and "unat d \<le> unat s \<or> unat s + w * k \<le> unat d"
  shows "move_forward w k d s m = move_chunk (w * k) d s m"
  using assms
proof (induction k)
  case 0 then show ?case by (simp add: move_forward_def move_chunk_def)
next
  case (Suc k)
  have "move_forward w (Suc k) d s m =
      move_chunk w (d + of_nat (w * k)) (s + of_nat (w * k)) (move_forward w k d s m)"
    by (simp add: move_forward_def)
  also have "move_forward w k d s m = move_chunk (w * k) d s m"
    by (rule Suc.IH) (use Suc.prems in auto)
  also have "move_chunk w (d + of_nat (w * k)) (s + of_nat (w * k)) \<dots> = move_chunk (w * k + w) d s m"
    by (rule chunk_after) (use Suc.prems in \<open>auto simp: algebra_simps\<close>)
  finally show ?case by (simp add: algebra_simps)
qed

lemma move_backward_block:
  assumes "unat d + w * k \<le> 2 ^ 32" "unat s + w * k \<le> 2 ^ 32" "unat s \<le> unat d"
  shows "move_backward w k d s m = move_chunk (w * k) d s m"
  using assms
proof (induction k arbitrary: m)
  case 0 then show ?case by (simp add: move_backward_def move_chunk_def)
next
  case (Suc k)
  have "move_backward w (Suc k) d s m =
      move_backward w k d s (move_chunk w (d + of_nat (w * k)) (s + of_nat (w * k)) m)"
    by (simp add: move_backward_def)
  also have "\<dots> = move_chunk (w * k) d s (move_chunk w (d + of_nat (w * k)) (s + of_nat (w * k)) m)"
    by (rule Suc.IH) (use Suc.prems in auto)
  also have "\<dots> = move_chunk (w * k + w) d s m"
    by (rule chunk_before) (use Suc.prems in \<open>auto simp: algebra_simps\<close>)
  finally show ?case by (simp add: algebra_simps)
qed

lemma words_of_block: "unat (n :: u32) mod 4 = 0 \<Longrightarrow> 4 * unat (n div 4) = unat n"
  by (auto simp: unat_div)

lemma low_bits_zero: "(n :: u32) AND 3 = 0 \<Longrightarrow> unat n mod 4 = 0"
proof -
  assume a: "n AND 3 = 0"
  have "(3 :: u32) = mask 2" by (simp add: mask_eq_exp_minus_1)
  then show ?thesis using a unat_and_mask [of n 2] by simp
qed

lemma divisible_by_4: "(n :: u32) mod 4 = 0 \<Longrightarrow> unat n mod 4 = 0"
proof -
  assume "n mod 4 = 0"
  then have "unat (n mod 4) = 0" by simp
  then show ?thesis by (simp add: unat_mod)
qed

lemma or_zero_right: "((a :: u32) OR b) AND c = 0 \<Longrightarrow> b AND c = 0"
  by (metis or_eq_0_iff bit.conj_disj_distrib2)

lemma memcpy_block:
  assumes "unat dst + unat n \<le> 2 ^ 32" "unat src + unat n \<le> 2 ^ 32"
    and "unat dst \<le> unat src \<or> unat src + unat n \<le> unat dst"
  shows "memcpy dst src n m = (dst, move_chunk (unat n) dst src m)"
proof (cases "(dst OR src OR n) AND 3 \<noteq> 0")
  case True
  then show ?thesis using move_forward_block [of dst 1 "unat n" src m] assms
    by (simp add: memcpy_def)
next
  case False
  then have "n AND 3 = 0" by (blast dest: or_zero_right)
  then have "4 * unat (n div 4) = unat n" by (intro words_of_block low_bits_zero)
  then show ?thesis using False move_forward_block [of dst 4 "unat (n div 4)" src m] assms
    by (simp add: memcpy_def)
qed

text \<open>
  Claim C3. \<open>memmove\<close> returns the destination and leaves in it what the source held before the
  call, however the two blocks overlap and whether it copies bytes or words; no byte outside
  the destination changes. Neither block reaches over the end of the address space.
\<close>

theorem memmove_moves:
  assumes "unat dst + unat n \<le> 2 ^ 32" "unat src + unat n \<le> 2 ^ 32"
  shows "fst (memmove dst src n m) = dst \<and>
    (\<forall>i<unat n. snd (memmove dst src n m) (dst + of_nat i) = m (src + of_nat i)) \<and>
    (\<forall>a. unat n \<le> unat (a - dst) \<longrightarrow> snd (memmove dst src n m) a = m a)"
proof -
  have "memmove dst src n m = (dst, move_chunk (unat n) dst src m)"
  proof (cases "dst < src")
    case True
    then show ?thesis using memcpy_block [of dst n src m] assms
      by (simp add: memmove_def word_less_nat_alt)
  next
    case False
    then have le: "unat src \<le> unat dst" by (simp add: word_less_nat_alt)
    show ?thesis
    proof (cases "dst mod 4 = 0 \<and> src mod 4 = 0 \<and> n mod 4 = 0")
      case True
      then have "4 * unat (n div 4) = unat n"
        by (intro words_of_block divisible_by_4) simp
      then show ?thesis using False True le move_backward_block [of dst 4 "unat (n div 4)" src m] assms
        by (simp add: memmove_def)
    next
      case False
      then have "memmove dst src n m = (dst, move_backward 1 (unat n) dst src m)"
        unfolding memmove_def if_not_P [OF \<open>\<not> dst < src\<close>] by (rule if_not_P)
      then show ?thesis using le move_backward_block [of dst 1 "unat n" src m] assms by simp
    qed
  qed
  moreover have "unat (of_nat i :: u32) = i" if "i < unat n" for i
  proof -
    have "unat n < 2 ^ LENGTH(32)" by (rule unsigned_less)
    then show ?thesis using that by (simp add: unat_of_nat)
  qed
  ultimately show ?thesis by (auto simp: move_chunk_def)
qed

theorem memmove_moves_witness:
  "snd (memmove 2 0 4 (\<lambda>a. ucast a + 7)) 5 = 10 \<and> snd (memmove 2 0 4 (\<lambda>a. ucast a + 7)) 6 = 13"
  using memmove_moves [of 2 4 0 "\<lambda>a. ucast a + 7"]
  by (elim conjE meta_mp [elim_format]) (force dest: spec [of _ 3] spec [of _ "6 :: u32"])+

section \<open>Filled blocks\<close>

lemma fill_block:
  assumes "n \<le> 2 ^ 32"
  shows "fold (\<lambda>i m. m(p + of_nat i := v)) [0..<n] m = (\<lambda>a. if unat (a - p :: u32) < n then v else m a)"
  using assms
proof (induction n)
  case (Suc n)
  have u: "unat (of_nat n :: u32) = n" using Suc.prems by (simp add: unat_of_nat)
  have "unat (a - p) = n \<longleftrightarrow> a = p + of_nat n" for a :: u32
  proof
    assume "unat (a - p) = n"
    then have "a - p = of_nat n" using u by (metis word_unat_eq_iff)
    then show "a = p + of_nat n" by (simp add: algebra_simps)
  qed (use u in simp)
  then show ?case using Suc by (auto simp: fun_eq_iff less_Suc_eq)
qed simp

lemma memset_block: "memset p v n m = (p + n, \<lambda>a. if unat (a - p) < unat n then v else m a)"
proof -
  have "unat n < 2 ^ LENGTH(32)" by (rule unsigned_less)
  then show ?thesis by (simp add: memset_def fill_block)
qed

section \<open>Strings in memory\<close>

text \<open>The bytes of \<open>bs\<close> and a NUL behind them are at \<open>p\<close>; no byte of \<open>bs\<close> is NUL.\<close>

definition cstr :: "bmem \<Rightarrow> u32 \<Rightarrow> u8 list \<Rightarrow> bool" where
  "cstr m p bs \<longleftrightarrow> length bs < 2 ^ 32 \<and> 0 \<notin> set bs \<and>
     (\<forall>i\<le>length bs. m (p + of_nat i) = (bs @ [0]) ! i)"

lemma cstr_Nil [simp]: "cstr m p [] \<longleftrightarrow> m p = 0"
  by (auto simp: cstr_def)

lemma cstr_Cons [simp]:
  "cstr m p (b # bs) \<longleftrightarrow> b \<noteq> 0 \<and> m p = b \<and> Suc (length bs) < 2 ^ 32 \<and> cstr m (p + 1) bs"
  unfolding cstr_def by (auto simp: less_Suc_eq_le [symmetric] All_less_Suc2 add.assoc simp del: less_Suc_eq_le)

lemma cstr_nth: "cstr m p bs \<Longrightarrow> i < length bs \<Longrightarrow> m (p + of_nat i) = bs ! i \<and> bs ! i \<noteq> 0"
  unfolding cstr_def by (metis append_Cons nth_append less_imp_le nth_mem)

lemma cstr_end: "cstr m p bs \<Longrightarrow> m (p + of_nat (length bs)) = 0"
  unfolding cstr_def by simp

lemma strlen_from_suffix:
  assumes "cstr m p bs" "i \<le> length bs"
  shows "strlen_from m p (of_nat i) = Some (of_nat (length bs) + 1)"
  using assms(2)
proof (induction rule: inc_induct)
  case base
  show ?case using cstr_end [OF assms(1)] by (simp add: strlen_from.simps)
next
  case (step i)
  then show ?case using cstr_nth [OF assms(1), of i] by (subst strlen_from.simps) (simp add: add.commute)
qed

text \<open>\<open>strlen\<close> counts the NUL: it returns one more than the number of characters.\<close>

lemma strlen_cstr: "cstr m p bs \<Longrightarrow> strlen p m = Some (of_nat (length bs) + 1)"
  using strlen_from_suffix [of m p bs 0] by (simp add: strlen_def)

lemma strcmp_from_suffix:
  assumes "cstr m p as" "cstr m q bs" "i \<le> length as" "i \<le> length bs" "take i as = take i bs"
  shows "\<exists>k. i \<le> k \<and> k \<le> length as \<and> k \<le> length bs \<and> take k as = take k bs \<and>
    (k < length as \<longrightarrow> k < length bs \<longrightarrow> as ! k \<noteq> bs ! k) \<and>
    strcmp_from m p q (of_nat i) = Some (char_order ((as @ [0]) ! k) ((bs @ [0]) ! k))"
  using assms(3-)
proof (induction "length as - i" arbitrary: i rule: less_induct)
  case less
  have a: "m (p + of_nat i) = (as @ [0]) ! i" "m (q + of_nat i) = (bs @ [0]) ! i"
    using assms(1,2) less.prems by (auto simp: cstr_def)
  show ?case
  proof (cases "i < length as \<and> i < length bs \<and> as ! i = bs ! i")
    case True
    then have c: "m (p + of_nat i) \<noteq> 0" "m (p + of_nat i) = m (q + of_nat i)"
      using a cstr_nth [OF assms(1), of i] by (auto simp: nth_append)
    have t: "take (Suc i) as = take (Suc i) bs"
      using True less.prems by (simp add: take_Suc_conv_app_nth)
    obtain k where k: "Suc i \<le> k \<and> k \<le> length as \<and> k \<le> length bs \<and> take k as = take k bs \<and>
      (k < length as \<longrightarrow> k < length bs \<longrightarrow> as ! k \<noteq> bs ! k) \<and>
      strcmp_from m p q (of_nat (Suc i)) = Some (char_order ((as @ [0]) ! k) ((bs @ [0]) ! k))"
      using less.hyps [of "Suc i"] True t by fastforce
    then show ?thesis using c
      by (intro exI [of _ k]) (subst strcmp_from.simps, simp add: add.commute)
  next
    case False
    have "strcmp_from m p q (of_nat i) = Some (char_order ((as @ [0]) ! i) ((bs @ [0]) ! i))"
    proof (cases "m (p + of_nat i) \<noteq> 0 \<and> m (p + of_nat i) = m (q + of_nat i)")
      case True
      then have "i < length as" "i < length bs"
        using a less.prems by (auto simp: nth_append split: if_splits)
      then show ?thesis using False True a by (simp add: nth_append)
    next
      case False
      then show ?thesis using a by (subst strcmp_from.simps) auto
    qed
    then show ?thesis using False less.prems by (intro exI [of _ i]) auto
  qed
qed

text \<open>The comparison of two byte sequences that end with a NUL.\<close>

fun bytes_order :: "u8 list \<Rightarrow> u8 list \<Rightarrow> int" where
  "bytes_order [] [] = 0"
| "bytes_order [] (b # bs) = char_order 0 b"
| "bytes_order (a # as) [] = char_order a 0"
| "bytes_order (a # as) (b # bs) = (if a = b then bytes_order as bs else char_order a b)"

lemma char_order_zero [simp]: "char_order a b = 0 \<longleftrightarrow> a = b"
  by (simp add: char_order_def)

lemma char_order_refl [simp]: "char_order a a = 0"
  by (simp add: char_order_def)

lemma char_order_swap: "char_order b a = - char_order a b"
  by (auto simp: char_order_def) (metis linorder_neqE_linordered_idom signed_word_eqI)

lemma bytes_order_zero: "0 \<notin> set as \<Longrightarrow> 0 \<notin> set bs \<Longrightarrow> bytes_order as bs = 0 \<longleftrightarrow> as = bs"
  by (induction as bs rule: bytes_order.induct) auto

lemma bytes_order_swap: "bytes_order bs as = - bytes_order as bs"
  by (induction as bs rule: bytes_order.induct) (auto intro: char_order_swap)

lemma bytes_order_mismatch:
  assumes "k \<le> length as" "k \<le> length bs" "take k as = take k bs"
    and "k < length as \<longrightarrow> k < length bs \<longrightarrow> as ! k \<noteq> bs ! k"
  shows "bytes_order as bs = char_order ((as @ [0]) ! k) ((bs @ [0]) ! k)"
  using assms
proof (induction k arbitrary: as bs)
  case 0
  then show ?case by (cases as; cases bs) auto
next
  case (Suc k)
  then obtain a as' bs' where "as = a # as'" "bs = a # bs'"
    by (metis Suc_le_length_iff list.inject take_Suc_Cons)
  then show ?case using Suc by auto
qed

lemma strcmp_cstr:
  assumes "cstr m p as" "cstr m q bs"
  shows "strcmp p q m = Some (bytes_order as bs)"
proof -
  obtain k where "k \<le> length as" "k \<le> length bs" "take k as = take k bs"
      "k < length as \<longrightarrow> k < length bs \<longrightarrow> as ! k \<noteq> bs ! k"
      "strcmp_from m p q 0 = Some (char_order ((as @ [0]) ! k) ((bs @ [0]) ! k))"
    using strcmp_from_suffix [OF assms, of 0] by auto
  then show ?thesis by (simp add: strcmp_def bytes_order_mismatch)
qed

text \<open>
  On two strings \<open>strcmp\<close> ends and gives the order of their characters as signed
  bytes: 0 exactly when the strings are equal, and the opposite result when the arguments are
  swapped.
\<close>

theorem strcmp_orders:
  assumes "cstr m p as" "cstr m q bs"
  shows "strcmp p q m = Some (bytes_order as bs) \<and> (strcmp p q m = Some 0 \<longleftrightarrow> as = bs) \<and>
    strcmp q p m = map_option uminus (strcmp p q m)"
proof -
  have "0 \<notin> set as" "0 \<notin> set bs" using assms by (auto simp: cstr_def)
  then show ?thesis
    by (simp add: strcmp_cstr [OF assms] strcmp_cstr [OF assms(2,1)] bytes_order_zero bytes_order_swap [of bs as])
qed

definition sample_strings :: bmem where
  "sample_strings = (\<lambda>_. 0)(16 := 97, 17 := 98, 32 := 97, 33 := 0xe9)"

lemma sample_cstr: "cstr sample_strings 16 [97, 98]" "cstr sample_strings 32 [97, 0xe9]"
  by (simp_all add: sample_strings_def)

theorem strcmp_orders_witness: "strcmp 16 32 sample_strings = Some 1"
proof -
  have "bytes_order [97, 98] [97, 0xe9] = 1" by (simp add: char_order_def)
  then show ?thesis using strcmp_orders [OF sample_cstr] by simp
qed

section \<open>Copying strings\<close>

text \<open>The block of \<open>n\<close> bytes at \<open>s\<close> does not meet the block of \<open>n\<close> bytes at \<open>d\<close>.\<close>

definition apart :: "nat \<Rightarrow> u32 \<Rightarrow> u32 \<Rightarrow> bool" where
  "apart n d s \<longleftrightarrow> (\<forall>i<n. n \<le> unat (s + of_nat i - d))"

lemma move_chunk_extend:
  assumes "i < 2 ^ 32"
  shows "(move_chunk i d s m)(d + of_nat i := m (s + of_nat i)) = move_chunk (Suc i) d s m"
proof
  fix a
  have u: "unat (of_nat i :: u32) = i" using assms by (simp add: unat_of_nat)
  show "((move_chunk i d s m)(d + of_nat i := m (s + of_nat i))) a = move_chunk (Suc i) d s m a"
  proof (cases "a = d + of_nat i")
    case True
    then show ?thesis using u by (simp add: move_chunk_def)
  next
    case False
    then have "a - d \<noteq> of_nat i" by (metis add_diff_cancel_left' add.commute diff_add_cancel)
    then have "unat (a - d) \<noteq> i" by (metis u word_unat_eq_iff)
    then show ?thesis using False by (simp add: move_chunk_def less_Suc_eq)
  qed
qed

lemma source_kept: "apart n d s \<Longrightarrow> i < n \<Longrightarrow> k \<le> n \<Longrightarrow> move_chunk k d s m (s + of_nat i) = m (s + of_nat i)"
  unfolding apart_def move_chunk_def by force

lemma strcpy_from_chunk:
  assumes "cstr m src bs" "apart (Suc (length bs)) dst src" "i \<le> length bs"
  shows "strcpy_from dst src (of_nat i) (move_chunk i dst src m) =
    Some (move_chunk (Suc (length bs)) dst src m)"
  using assms(3)
proof (induction rule: inc_induct)
  case base
  have "length bs < 2 ^ 32" using assms(1) by (simp add: cstr_def)
  then have "(move_chunk (length bs) dst src m)(dst + of_nat (length bs) := 0) =
      move_chunk (Suc (length bs)) dst src m"
    using move_chunk_extend [of "length bs" dst src m] cstr_end [OF assms(1)] by simp
  then show ?case
    using source_kept [OF assms(2), of "length bs" "length bs" m] cstr_end [OF assms(1)]
    by (subst strcpy_from.simps) simp
next
  case (step i)
  have l: "i < 2 ^ 32" using assms(1) step.hyps by (simp add: cstr_def)
  have "move_chunk i dst src m (src + of_nat i) = m (src + of_nat i)" "m (src + of_nat i) \<noteq> 0"
    using source_kept [OF assms(2), of i i m] cstr_nth [OF assms(1)] step.hyps by auto
  then show ?case using step.IH move_chunk_extend [OF l, of dst src m]
    by (subst strcpy_from.simps) (simp add: add.commute)
qed

lemma strcpy_chunk:
  assumes "cstr m src bs" "apart (Suc (length bs)) dst src"
  shows "strcpy dst src m = Some (dst, move_chunk (Suc (length bs)) dst src m)"
proof -
  have "move_chunk 0 dst src m = m" by (simp add: move_chunk_def)
  then show ?thesis using strcpy_from_chunk [OF assms, of 0] by (simp add: strcpy_def)
qed

lemma cstr_chunk:
  assumes "cstr m src bs" "apart (Suc (length bs)) dst src"
  shows "cstr (move_chunk (Suc (length bs)) dst src m) dst bs"
proof -
  have "unat (of_nat i :: u32) = i" if "i \<le> length bs" for i
    using that assms(1) by (simp add: cstr_def unat_of_nat)
  then show ?thesis using assms(1) by (simp add: cstr_def move_chunk_def)
qed

text \<open>A string that a block copy does not touch stays where it is.\<close>

lemma cstr_outside:
  assumes "cstr m p as" "\<forall>i\<le>length as. n \<le> unat (p + of_nat i - d)"
  shows "cstr (move_chunk n d s m) p as"
  using assms unfolding cstr_def move_chunk_def by (auto simp: not_less [symmetric])

text \<open>
  \<open>strcat\<close> puts the second string behind the NUL of the first one, because \<open>strlen\<close>
  counts the NUL: the string at the destination is the same as before the call, and the
  appended string starts one byte behind its end.
\<close>

theorem strcat_behind_nul:
  assumes "cstr m dst as" "cstr m src bs" "length as + length bs + 2 \<le> 2 ^ 32"
    and "apart (Suc (length bs)) (dst + of_nat (length as) + 1) src"
  shows "\<exists>m'. strcat dst src m = Some (dst, m') \<and> cstr m' dst as \<and>
    cstr m' (dst + of_nat (length as) + 1) bs"
proof -
  define d where "d = dst + of_nat (length as) + 1"
  define m' where "m' = move_chunk (Suc (length bs)) d src m"
  have "strcpy d src m = Some (d, m')"
    using strcpy_chunk [OF assms(2)] assms(4) by (simp add: d_def m'_def)
  then have "strcat dst src m = Some (dst, m')"
    using strlen_cstr [OF assms(1)] by (simp add: strcat_def d_def algebra_simps)
  moreover have "cstr m' dst as" unfolding m'_def
  proof (rule cstr_outside [OF assms(1)], intro allI impI)
    fix i assume i: "i \<le> length as"
    have "dst + of_nat i - d = - of_nat (Suc (length as - i))"
      using i by (simp add: d_def of_nat_diff)
    moreover have "unat (- of_nat k :: u32) = 2 ^ 32 - k" if "0 < k" "k < 2 ^ 32" for k
      using that unat_sub_if' [of 0 "of_nat k :: u32"] by (simp add: unat_of_nat)
    ultimately have "unat (dst + of_nat i - d) = 2 ^ 32 - Suc (length as - i)"
      using assms(3) i by (simp only:)
    then show "Suc (length bs) \<le> unat (dst + of_nat i - d)" using assms(3) i by simp
  qed
  moreover have "cstr m' d bs"
    using cstr_chunk [OF assms(2)] assms(4) by (simp add: d_def m'_def)
  ultimately show ?thesis by (auto simp: d_def)
qed

theorem strcat_behind_nul_witness:
  "\<exists>m'. strcat 16 32 sample_strings = Some (16, m') \<and> cstr m' 16 [97, 98] \<and> cstr m' 19 [97, 0xe9]"
proof -
  have "apart (Suc (Suc (Suc 0))) 19 32" by (simp add: apart_def less_Suc_eq)
  then show ?thesis using strcat_behind_nul [OF sample_cstr] by simp
qed

section \<open>Bounded copies\<close>

lemma strncpy_from_chunk:
  assumes "cstr m src bs" "k = min (unat n) (length bs)" "apart (Suc k) dst src" "i \<le> k"
  shows "strncpy_from dst src (of_nat i) (n - of_nat i) (move_chunk i dst src m) =
    Some ((move_chunk k dst src m)(dst + of_nat k := 0))"
  using assms(4)
proof (induction rule: inc_induct)
  case base
  have "m (src + of_nat k) = 0 \<or> n - of_nat k = 0"
  proof (cases "length bs \<le> unat n")
    case True
    then show ?thesis using cstr_end [OF assms(1)] assms(2) by (simp add: min_def)
  next
    case False
    then have "k = unat n" using assms(2) by simp
    then show ?thesis by simp
  qed
  then show ?case using source_kept [OF assms(3), of k k m]
    by (subst strncpy_from.simps) (auto simp: word_gt_0)
next
  case (step i)
  have l: "i < unat n" "i < length bs" "i < 2 ^ 32"
    using assms(1,2) step.hyps by (auto simp: cstr_def)
  have "move_chunk i dst src m (src + of_nat i) = m (src + of_nat i)" "m (src + of_nat i) \<noteq> 0"
    using source_kept [OF assms(3), of i i m] cstr_nth [OF assms(1), of i] l step.hyps by auto
  moreover have "n - of_nat i \<noteq> 0"
  proof
    assume "n - of_nat i = 0"
    then have "unat n = unat (of_nat i :: u32)" by simp
    then show False using l by (simp add: unat_of_nat)
  qed
  ultimately have "strncpy_from dst src (of_nat i) (n - of_nat i) (move_chunk i dst src m) =
      strncpy_from dst src (of_nat (Suc i)) (n - of_nat (Suc i)) (move_chunk (Suc i) dst src m)"
    using move_chunk_extend [OF l(3), of dst src m]
    by (subst strncpy_from.simps) (simp add: word_gt_0 algebra_simps)
  then show ?case by (simp only: step.IH)
qed

text \<open>
  The destination holds the first \<open>n\<close> characters and a NUL, \<open>n + 1\<close> bytes when the string is
  longer.
\<close>

lemma strncpy_chunk:
  assumes "cstr m src bs" "k = min (unat n) (length bs)" "apart (Suc k) dst src"
  shows "strncpy dst src n m = Some (dst, (move_chunk k dst src m)(dst + of_nat k := 0))"
proof -
  have "move_chunk 0 dst src m = m" by (simp add: move_chunk_def)
  then show ?thesis using strncpy_from_chunk [OF assms, of 0] by (simp add: strncpy_def)
qed

lemma cstr_prefix:
  assumes "cstr m src bs" "k \<le> length bs"
  shows "cstr ((move_chunk k dst src m)(dst + of_nat k := 0)) dst (take k bs)"
proof -
  have l: "unat (of_nat i :: u32) = i" if "i \<le> k" for i
    using that assms by (simp add: cstr_def unat_of_nat)
  have n: "of_nat i \<noteq> (of_nat k :: u32)" if "i < k" for i
  proof
    assume "of_nat i = (of_nat k :: u32)"
    then have "unat (of_nat i :: u32) = unat (of_nat k :: u32)" by simp
    then show False using that l by simp
  qed
  have "((move_chunk k dst src m)(dst + of_nat k := 0)) (dst + of_nat i) = (take k bs @ [0]) ! i"
    if "i \<le> k" for i
  proof (cases "i = k")
    case True then show ?thesis using assms(2) by (simp add: nth_append)
  next
    case False
    then show ?thesis using that l [of i] n [of i] assms(2) cstr_nth [OF assms(1), of i]
      by (simp add: move_chunk_def nth_append)
  qed
  then show ?thesis using assms by (auto simp: cstr_def dest: in_set_takeD)
qed

end
