(* ===== verification/Utils.thy ===== *)
theory Utils
  imports Cstring
begin

text \<open>
  The number conversions of \<^verbatim>\<open>kernel/utils.c\<close> on the byte memory: \<open>itoa\<close> writes the digits in
  reverse and turns them round in place, \<open>strtol\<close> and \<open>atoi\<close> read them back. \<^verbatim>\<open>int\<close> and
  \<^verbatim>\<open>long\<close> are 32-bit numbers and wrap.
\<close>

section \<open>Characters\<close>

definition is_upper :: "u8 \<Rightarrow> bool" where "is_upper c \<longleftrightarrow> 65 \<le> c \<and> c \<le> 90"

definition to_lower :: "u8 \<Rightarrow> u8" where "to_lower c = (if is_upper c then c - 65 + 97 else c)"

definition is_alpha :: "u8 \<Rightarrow> bool" where
  "is_alpha c \<longleftrightarrow> (97 \<le> c \<and> c \<le> 122) \<or> (65 \<le> c \<and> c \<le> 90)"

definition is_digit :: "u8 \<Rightarrow> bool" where "is_digit c \<longleftrightarrow> 48 \<le> c \<and> c \<le> 57"

definition is_alnum :: "u8 \<Rightarrow> bool" where "is_alnum c \<longleftrightarrow> is_alpha c \<or> is_digit c"

definition is_xdigit :: "u8 \<Rightarrow> bool" where "is_xdigit c \<longleftrightarrow> is_digit c \<or> (97 < c \<and> c < 102)"

section \<open>Reading numbers\<close>

partial_function (option) skip_blanks :: "bmem \<Rightarrow> u32 \<Rightarrow> u32 option" where
  "skip_blanks m buf = (if m buf = 32 \<or> m buf = 9 then skip_blanks m (buf + 1) else Some buf)"

partial_function (option) strtol_digits :: "bmem \<Rightarrow> int \<Rightarrow> u32 \<Rightarrow> u32 \<Rightarrow> (u32 \<times> u32) option" where
  "strtol_digits m base buf v =
     (let c = m buf;
          k = (if is_alpha c then sint (to_lower c) - 97 + 10 else sint c - 48)
      in if \<not> is_alnum c \<or> (is_alpha c \<and> base < k) then Some (v, buf)
         else strtol_digits m base (buf + 1) (v * word_of_int base + word_of_int k))"

text \<open>The base and the position the digits are read with; only the branch of base 0 moves \<open>buf\<close>.\<close>

definition parse_base :: "bmem \<Rightarrow> int \<Rightarrow> u32 \<Rightarrow> int \<times> u32" where
  "parse_base m base buf =
     (if base = 0
      then if m buf = 48
           then if to_lower (m (buf + 1)) = 120 \<and> is_xdigit (m (buf + 2))
                then (16, buf + 2) else (8, buf + 1)
           else (10, buf)
      else (base, buf))"

text \<open>The result and, where the call stores one, the end pointer.\<close>

definition strtol :: "u32 \<Rightarrow> int \<Rightarrow> bmem \<Rightarrow> (u32 \<times> u32 option) option" where
  "strtol str base m =
     (if base < 2 \<or> 36 < base then Some (0, None)
      else case skip_blanks m str of None \<Rightarrow> None
        | Some buf \<Rightarrow>
            let (sign, buf) = (if m buf = 45 then (-1, buf + 1)
                               else if m buf = 43 then (1, buf + 1) else (1, buf));
                (base, buf) = parse_base m base buf
            in map_option (\<lambda>(v, buf). (sign * v, Some buf)) (strtol_digits m base buf 0))"

partial_function (option) skip_spaces :: "bmem \<Rightarrow> u32 \<Rightarrow> u32 option" where
  "skip_spaces m str = (if m str = 32 then skip_spaces m (str + 1) else Some str)"

partial_function (option) atoi_digits :: "bmem \<Rightarrow> u32 \<Rightarrow> u32 \<Rightarrow> u32 \<Rightarrow> u32 option" where
  "atoi_digits m base str n =
     (let c = m str;
          k = (if is_alpha c then sint (to_lower c) - 97 + 10 else sint c - 48)
      in if c = 0 \<or> c = 32 then Some n
         else atoi_digits m base (str + 1) (n * base + word_of_int k))"

definition atoi :: "u32 \<Rightarrow> bmem \<Rightarrow> u32 option" where
  "atoi str m =
     (case skip_spaces m str of None \<Rightarrow> None
      | Some str \<Rightarrow>
          let (base, str) = (if m str = 48
                             then if m (str + 1) = 120 then (16, str + 2) else (8, str + 1)
                             else (10, str))
          in atoi_digits m base str 0)"

section \<open>Writing numbers\<close>

definition digits_lower :: "u8 list" where
  "digits_lower = [48, 49, 50, 51, 52, 53, 54, 55, 56, 57, 97, 98, 99, 100, 101, 102, 103, 104,
     105, 106, 107, 108, 109, 110, 111, 112, 113, 114, 115, 116, 117, 118, 119, 120, 121, 122]"

partial_function (option) itoa_digits :: "u32 \<Rightarrow> u32 \<Rightarrow> u32 \<Rightarrow> bmem \<Rightarrow> (u32 \<times> bmem) option" where
  "itoa_digits base ptr v m =
     (let m = m(ptr := digits_lower ! unat (v mod base)); v = v div base
      in if v \<noteq> 0 then itoa_digits base (ptr + 1) v m else Some (ptr + 1, m))"

partial_function (option) itoa_reverse :: "u32 \<Rightarrow> u32 \<Rightarrow> bmem \<Rightarrow> bmem option" where
  "itoa_reverse low ptr m =
     (if low < ptr then itoa_reverse (low + 1) (ptr - 1) (m(low := m ptr, ptr := m low))
      else Some m)"

definition itoa :: "u32 \<Rightarrow> u32 \<Rightarrow> int \<Rightarrow> bmem \<Rightarrow> (u32 \<times> bmem) option" where
  "itoa v str base m =
     (if base < 2 \<or> 36 < base then Some (str, m(str := 0))
      else case itoa_digits (word_of_int base) str v m of None \<Rightarrow> None
        | Some (ptr, m) \<Rightarrow> map_option (Pair str) (itoa_reverse str (ptr - 1) (m(ptr := 0))))"

section \<open>Bytes written one after the other\<close>

fun store_bytes :: "u32 \<Rightarrow> u8 list \<Rightarrow> bmem \<Rightarrow> bmem" where
  "store_bytes p [] m = m"
| "store_bytes p (b # bs) m = store_bytes (p + 1) bs (m(p := b))"

lemma store_bytes_append:
  "store_bytes p (as @ bs) m = store_bytes (p + of_nat (length as)) bs (store_bytes p as m)"
  by (induction as arbitrary: p m) (auto simp: add.assoc)

lemma store_bytes_outside:
  "length bs \<le> 2 ^ 32 \<Longrightarrow> length bs \<le> unat (a - p) \<Longrightarrow> store_bytes p bs m a = m a"
proof (induction bs arbitrary: p m)
  case (Cons b bs)
  then have "a \<noteq> p" by auto
  then have "a - p \<noteq> 0" by simp
  then have "unat ((a - p) - 1) = unat (a - p) - 1" by (rule unat_minus_one)
  then have "unat (a - (p + 1)) = unat (a - p) - 1" by (simp only: diff_diff_eq)
  then show ?case using Cons \<open>a \<noteq> p\<close> by simp
qed simp

lemma store_bytes_nth:
  "length bs \<le> 2 ^ 32 \<Longrightarrow> i < length bs \<Longrightarrow> store_bytes p bs m (p + of_nat i) = bs ! i"
proof (induction bs arbitrary: p m i)
  case (Cons b bs)
  show ?case
  proof (cases i)
    case 0
    have "unat (p - (p + 1)) = 2 ^ 32 - 1"
      by (simp add: unsigned_minus_1_eq_mask mask_eq_exp_minus_1)
    then show ?thesis using 0 Cons.prems store_bytes_outside [of bs p "p + 1" "m(p := b)"] by simp
  next
    case (Suc j)
    then show ?thesis using Cons.IH [of j "p + 1"] Cons.prems by (simp add: add.assoc)
  qed
qed simp

text \<open>The digits of a number, the last one first.\<close>

function rdigits :: "nat \<Rightarrow> nat \<Rightarrow> nat list" where
  "rdigits b n = (if b < 2 then [] else n mod b # (if n div b = 0 then [] else rdigits b (n div b)))"
  by pat_completeness auto
termination
proof (relation "measure snd")
  fix b n :: nat
  assume "\<not> b < 2" "n div b \<noteq> 0"
  then show "((b, n div b), (b, n)) \<in> measure snd"
    by (cases "n = 0") (auto intro: div_less_dividend)
qed simp

declare rdigits.simps [simp del]

lemma rdigits_less: "2 \<le> b \<Longrightarrow> \<forall>d\<in>set (rdigits b n). d < b"
proof (induction b n rule: rdigits.induct)
  case (1 b n)
  then show ?case by (cases "n div b = 0") (simp_all add: rdigits.simps [of b n])
qed

lemma rdigits_not_Nil: "2 \<le> b \<Longrightarrow> rdigits b n \<noteq> []"
  by (simp add: rdigits.simps)

lemma rdigits_value: "2 \<le> b \<Longrightarrow> foldr (\<lambda>d v. v * b + d) (rdigits b n) 0 = n"
proof (induction b n rule: rdigits.induct)
  case (1 b n)
  show ?case
  proof (cases "n div b = 0")
    case True
    then show ?thesis using 1 by (simp add: rdigits.simps) (metis div_mult_mod_eq mult_0 add_0)
  next
    case False
    then show ?thesis using 1 by (subst rdigits.simps) simp
  qed
qed

lemma rdigits_length: "2 \<le> b \<Longrightarrow> n < 2 ^ k \<Longrightarrow> 0 < k \<Longrightarrow> length (rdigits b n) \<le> k"
proof (induction b n arbitrary: k rule: rdigits.induct)
  case (1 b n)
  show ?case
  proof (cases "n div b = 0")
    case True
    then show ?thesis using 1 by (simp add: rdigits.simps)
  next
    case False
    obtain j where j: "k = Suc j" using 1 by (cases k) auto
    have "n div b \<le> n div 2" using 1 by (simp add: div_le_mono2)
    also have "\<dots> < 2 ^ j" using 1 j by (simp add: less_mult_imp_div_less mult.commute)
    finally have l: "n div b < 2 ^ j" .
    moreover have "0 < j" using l False by (cases j) auto
    ultimately have "length (rdigits b (n div b)) \<le> j" using 1 False by simp
    then show ?thesis using j False 1 by (subst rdigits.simps) simp
  qed
qed

lemma itoa_digits_stores:
  assumes "2 \<le> unat base"
  shows "itoa_digits base ptr v m =
    (let ds = map (nth digits_lower) (rdigits (unat base) (unat v))
     in Some (ptr + of_nat (length ds), store_bytes ptr ds m))"
proof (induction "unat v" arbitrary: v ptr m rule: less_induct)
  case less
  let ?d = "digits_lower ! unat (v mod base)"
  have u: "unat (v mod base) = unat v mod unat base" "unat (v div base) = unat v div unat base"
    by (simp_all add: unat_mod unat_div)
  show ?case
  proof (cases "v div base = 0")
    case True
    then have "unat v div unat base = 0" using u(2) by (simp flip: u(2))
    then show ?thesis using True u assms
      by (subst itoa_digits.simps, subst rdigits.simps) (simp add: Let_def)
  next
    case False
    then have n0: "unat v div unat base \<noteq> 0" using u(2) by (simp flip: u(2) add: unat_eq_zero)
    then have "unat v div unat base < unat v" using assms
      by (intro div_less_dividend) (auto intro: Nat.gr0I)
    then have "itoa_digits base (ptr + 1) (v div base) (m(ptr := ?d)) =
      (let ds = map (nth digits_lower) (rdigits (unat base) (unat v div unat base))
       in Some (ptr + 1 + of_nat (length ds), store_bytes (ptr + 1) ds (m(ptr := ?d))))"
      using less [of "v div base" "ptr + 1" "m(ptr := ?d)"] by (simp only: u)
    then show ?thesis using False n0 u assms
      by (subst itoa_digits.simps, subst rdigits.simps) (simp add: Let_def algebra_simps)
  qed
qed

section \<open>Turning a block round\<close>

definition reversed :: "nat \<Rightarrow> u32 \<Rightarrow> bmem \<Rightarrow> bmem" where
  "reversed n p m = (\<lambda>a. if unat (a - p) < n then m (p + of_nat (n - 1 - unat (a - p))) else m a)"

lemma of_nat_u32_eq:
  assumes "i < 2 ^ 32" "j < 2 ^ 32"
  shows "(of_nat i :: u32) = of_nat j \<longleftrightarrow> i = j"
proof
  assume "(of_nat i :: u32) = of_nat j"
  then have "unat (of_nat i :: u32) = unat (of_nat j :: u32)" by simp
  then show "i = j" using assms by (simp add: unat_of_nat)
qed simp

lemma offset_nat: "i < 2 ^ 32 \<Longrightarrow> unat (p + of_nat i - p :: u32) = i"
  by (simp add: unat_of_nat)

lemma reversed_at:
  "i < 2 ^ 32 \<Longrightarrow> reversed n p m (p + of_nat i) =
     (if i < n then m (p + of_nat (n - 1 - i)) else m (p + of_nat i))"
  by (simp only: reversed_def offset_nat)

text \<open>Exchanging the two ends and turning round what is between them.\<close>

lemma reversed_swap:
  assumes "n < 2 ^ 32" "2 \<le> n"
  shows "reversed (n - 2) (p + 1) (m(p := m (p + of_nat (n - 1)), p + of_nat (n - 1) := m p)) =
    reversed n p m" (is "?l = ?r")
proof
  fix a
  define y where "y = unat (a - p)"
  have a: "a = p + of_nat y" by (simp add: y_def)
  have y: "y < 2 ^ 32" using unsigned_less [of "a - p", where 'a = nat] by (simp add: y_def)
  define m' where "m' = m(p := m (p + of_nat (n - 1)), p + of_nat (n - 1) := m p)"
  have at: "m' (p + of_nat i) = (if i = n - 1 then m p else if i = 0 then m (p + of_nat (n - 1))
      else m (p + of_nat i))" if "i < 2 ^ 32" for i
    using that assms of_nat_u32_eq [of i "n - 1"] of_nat_u32_eq [of i 0] by (auto simp: m'_def)
  have "reversed (n - 2) (p + 1) m' a = ?r a"
  proof (cases "0 < y \<and> y < n - 1")
    case True
    then have "a - p \<noteq> 0" by (auto simp: y_def)
    then have "unat ((a - p) - 1) = y - 1" unfolding y_def by (rule unat_minus_one)
    then have u: "unat (a - (p + 1)) = y - 1" by (simp only: diff_diff_eq)
    have "reversed (n - 2) (p + 1) m' a = m' (p + of_nat (n - 1 - y))"
    proof -
      have "reversed (n - 2) (p + 1) m' a = m' (p + 1 + of_nat (n - 2 - 1 - (y - 1)))"
        unfolding reversed_def u by (rule if_P) (use True in arith)
      also have "p + 1 + of_nat (n - 2 - 1 - (y - 1)) = p + (of_nat (Suc (n - 2 - 1 - (y - 1))) :: u32)"
        by simp
      also have "Suc (n - 2 - 1 - (y - 1)) = n - 1 - y" using True by arith
      finally show ?thesis .
    qed
    also have "\<dots> = m (p + of_nat (n - 1 - y))"
    proof -
      have "n - 1 - y < 2 ^ 32" "n - 1 - y \<noteq> n - 1" "n - 1 - y \<noteq> 0" using True assms by arith+
      then show ?thesis by (simp only: at if_False)
    qed
    also have "\<dots> = ?r a"
    proof -
      have "y < n" using True by arith
      then show ?thesis unfolding reversed_def y_def by (rule if_P [symmetric])
    qed
    finally show ?thesis .
  next
    case False
    have "\<not> unat (a - (p + 1)) < n - 2"
    proof (cases "y = 0")
      case True
      then have "a - (p + 1) = - 1" using a by simp
      then show ?thesis using assms by (simp add: unsigned_minus_1_eq_mask mask_eq_exp_minus_1)
    next
      case y0: False
      then have "a - p \<noteq> 0" by (auto simp: y_def)
      then have "unat ((a - p) - 1) = y - 1" unfolding y_def by (rule unat_minus_one)
      then have "unat (a - (p + 1)) = y - 1" by (simp only: diff_diff_eq)
      then show ?thesis using False y0 by arith
    qed
    then have "reversed (n - 2) (p + 1) m' a = m' a" by (simp add: reversed_def)
    also have "\<dots> = ?r a"
    proof -
      consider (first) "y = 0" | (last) "y = n - 1" | (out) "n \<le> y" using False by linarith
      then show ?thesis
      proof cases
        case first
        have "n - 1 \<noteq> 0" "(0 :: nat) < n" using assms by arith+
        then show ?thesis unfolding a reversed_at [OF y] at [OF y] unfolding first by simp
      next
        case last
        have "n - 1 < n" using assms by arith
        then show ?thesis unfolding a reversed_at [OF y] at [OF y] unfolding last by simp
      next
        case out
        then have "y \<noteq> n - 1" "y \<noteq> 0" "\<not> y < n" using assms by arith+
        then show ?thesis unfolding a reversed_at [OF y] at [OF y] by (simp only: if_False)
      qed
    qed
    finally show ?thesis .
  qed
  then show "?l a = ?r a" by (simp only: m'_def)
qed

lemma itoa_reverse_block:
  assumes "unat p + n < 2 ^ 32" "n = 0 \<Longrightarrow> p \<noteq> 0"
  shows "itoa_reverse p (p + of_nat n - 1) m = Some (reversed n p m)"
  using assms
proof (induction n arbitrary: p m rule: less_induct)
  case (less n)
  show ?case
  proof (cases "n < 2")
    case True
    have "\<not> p < p + of_nat n - 1"
    proof (cases "n = 0")
      case True
      then have "unat (p - 1) = unat p - 1" using less.prems by (simp add: unat_minus_one)
      then show ?thesis using True by (simp add: word_less_nat_alt)
    next
      case False then have "n = 1" using \<open>n < 2\<close> by simp
      then show ?thesis by simp
    qed
    moreover have "reversed n p m = m"
      using True by (intro ext) (auto simp: reversed_def less_Suc_eq numeral_2_eq_2 unat_eq_zero)
    ultimately show ?thesis by (simp add: itoa_reverse.simps)
  next
    case False
    define q where "q = p + of_nat (n - 1)"
    have q: "p + of_nat n - 1 = q" using False by (simp add: q_def of_nat_diff)
    have uq: "unat q = unat p + (n - 1)" unfolding q_def
      by (rule unat_add_no_wrap) (use less.prems in simp)
    have lt: "p < q" using uq False by (simp add: word_less_nat_alt)
    have p1: "unat (p + 1) = unat p + 1" using unat_add_no_wrap [of p 1] less.prems False by simp
    have "itoa_reverse (p + 1) (p + 1 + of_nat (n - 2) - 1) (m(p := m q, q := m p)) =
      Some (reversed (n - 2) (p + 1) (m(p := m q, q := m p)))"
      by (rule less.IH) (use less.prems False p1 in \<open>auto simp: word_eq_iff_unsigned\<close>)
    moreover have "p + 1 + of_nat (n - 2) - 1 = q - 1"
      using False by (simp add: q_def of_nat_diff)
    ultimately have "itoa_reverse p q m = Some (reversed (n - 2) (p + 1) (m(p := m q, q := m p)))"
      using lt by (subst itoa_reverse.simps) simp
    then show ?thesis using reversed_swap [of n p m] less.prems False by (simp add: q q_def)
  qed
qed

section \<open>What \<open>itoa\<close> writes\<close>

definition number_text :: "nat \<Rightarrow> nat \<Rightarrow> u8 list" where
  "number_text b n = map (nth digits_lower) (rev (rdigits b n))"

lemma length_digits_lower: "length digits_lower = 36"
  by (simp add: digits_lower_def)

lemma digits_lower_nonzero: "d < 36 \<Longrightarrow> digits_lower ! d \<noteq> 0"
proof -
  have "0 \<notin> set digits_lower" by (simp add: digits_lower_def)
  then show "d < 36 \<Longrightarrow> digits_lower ! d \<noteq> 0" by (metis length_digits_lower nth_mem)
qed

lemma number_text_nonzero:
  assumes "2 \<le> b" "b \<le> 36"
  shows "0 \<notin> set (number_text b n)"
proof
  assume "0 \<in> set (number_text b n)"
  then obtain d where "d \<in> set (rdigits b n)" "digits_lower ! d = 0" by (auto simp: number_text_def)
  then show False using rdigits_less [of b n] digits_lower_nonzero assms by fastforce
qed

lemma base_nat: "2 \<le> base \<Longrightarrow> base \<le> 36 \<Longrightarrow> unat (word_of_int base :: u32) = nat base"
  by (simp add: unat_eq_nat_uint uint_word_of_int)

lemma itoa_text:
  assumes "2 \<le> base" "base \<le> 36" "unat str + 33 < 2 ^ 32"
  shows "\<exists>m'. itoa v str base m = Some (str, m') \<and> cstr m' str (number_text (nat base) (unat v)) \<and>
    (\<forall>a. 33 \<le> unat (a - str) \<longrightarrow> m' a = m a)"
proof -
  define b where "b = nat base"
  define ds where "ds = map (nth digits_lower) (rdigits b (unat v))"
  define n where "n = length ds"
  have b: "2 \<le> b" "b \<le> 36" "unat (word_of_int base :: u32) = b"
    using assms base_nat by (auto simp: b_def)
  have "unat v < 2 ^ LENGTH(32)" by (rule unsigned_less)
  then have n: "n \<le> 32" using rdigits_length [of b "unat v" 32] b by (simp add: n_def ds_def)
  have n0: "0 < n" using rdigits_not_Nil b by (simp add: n_def ds_def)
  define m1 where "m1 = (store_bytes str ds m)(str + of_nat n := 0)"
  define m' where "m' = reversed n str m1"
  have "itoa_digits (word_of_int base) str v m = Some (str + of_nat n, store_bytes str ds m)"
    using itoa_digits_stores [of "word_of_int base" str v m] b by (simp add: Let_def ds_def n_def)
  moreover have "itoa_reverse str (str + of_nat n - 1) m1 = Some m'"
    unfolding m'_def by (rule itoa_reverse_block) (use assms n n0 in auto)
  ultimately have i: "itoa v str base m = Some (str, m')"
    using assms by (simp add: itoa_def m1_def)
  have m1: "m1 (str + of_nat i) = (if i = n then 0 else if i < n then ds ! i else m (str + of_nat i))"
    if "i < 2 ^ 32" for i
  proof -
    have "store_bytes str ds m (str + of_nat i) = m (str + of_nat i)" if "n < i"
      by (rule store_bytes_outside)
        (use that \<open>i < 2 ^ 32\<close> n in \<open>auto simp: n_def [symmetric] offset_nat unat_of_nat\<close>)
    then show ?thesis using that n of_nat_u32_eq [of i n] store_bytes_nth [of ds i str m]
      by (auto simp: m1_def n_def [symmetric])
  qed
  have m': "m' (str + of_nat i) = (if i < n then ds ! (n - 1 - i) else if i = n then 0 else m (str + of_nat i))"
    if "i < 2 ^ 32" for i
  proof -
    have "n - 1 - i < 2 ^ 32" by (rule le_less_trans [of _ n]) (use n in auto)
    note r = m1 [OF that] m1 [OF this]
    show ?thesis
    proof (cases "i < n")
      case True
      then have "n - 1 - i \<noteq> n" "n - 1 - i < n" by arith+
      then show ?thesis unfolding m'_def reversed_at [OF that]
        using True r(2) by (simp only: if_True if_False)
    next
      case False
      then show ?thesis unfolding m'_def reversed_at [OF that] using r(1) by (simp only: if_False)
    qed
  qed
  have t: "number_text b (unat v) = rev ds" by (simp add: number_text_def ds_def rev_map)
  have "cstr m' str (rev ds)"
    using number_text_nonzero [OF b(1,2), of "unat v"] n unfolding t cstr_def
    by (auto simp: m' nth_append rev_nth n_def [symmetric])
  moreover have "m' a = m a" if "33 \<le> unat (a - str)" for a
  proof -
    have u: "unat (a - str) < 2 ^ LENGTH(32)" by (rule unsigned_less)
    have "m' (str + of_nat (unat (a - str))) = m (str + of_nat (unat (a - str)))"
      using m' [of "unat (a - str)"] u that n by simp
    then show ?thesis by simp
  qed
  ultimately show ?thesis using i t by (auto simp: b_def)
qed

section \<open>Reading back what was written\<close>

definition digit_of :: "u8 \<Rightarrow> int" where
  "digit_of c = (if is_alpha c then sint (to_lower c) - 97 + 10 else sint c - 48)"

lemma digits_lower_table:
  "map digit_of digits_lower = map int [0..<36]"
  "list_all (\<lambda>c. is_alnum c \<and> c \<notin> {0, 32, 9, 45, 43}) digits_lower"
  by code_simp+

lemma digit_of_lower:
  assumes "d < 36"
  shows "digit_of (digits_lower ! d) = int d" "is_alnum (digits_lower ! d)"
    "digits_lower ! d \<notin> {0, 32, 9, 45, 43}"
proof -
  have "map digit_of digits_lower ! d = map int [0..<36] ! d" by (simp only: digits_lower_table)
  then show "digit_of (digits_lower ! d) = int d" using assms by (simp add: length_digits_lower)
  have "digits_lower ! d \<in> set digits_lower" using assms by (simp add: length_digits_lower)
  then show "is_alnum (digits_lower ! d)" "digits_lower ! d \<notin> {0, 32, 9, 45, 43}"
    using digits_lower_table(2) by (auto simp: list_all_iff)
qed

text \<open>The digits loop of \<open>strtol\<close> is Horner's rule on the digits of the string.\<close>

lemma strtol_digits_horner:
  assumes "\<forall>d\<in>set ds. d < nat base" "2 \<le> base" "base \<le> 36" "cstr m p (map (nth digits_lower) ds)"
  shows "strtol_digits m base p v =
    Some (foldl (\<lambda>v d. v * word_of_int base + of_nat d) v ds, p + of_nat (length ds))"
  using assms(1,4)
proof (induction ds arbitrary: p v)
  case Nil
  then show ?case
    by (simp add: strtol_digits.simps is_alnum_def is_alpha_def is_digit_def Let_def)
next
  case (Cons d ds)
  let ?c = "digits_lower ! d"
  have d: "d < 36" "int d < base" using Cons.prems(1) assms(2,3) by auto
  have c: "m p = ?c" using Cons.prems(2) by simp
  have k: "(if is_alpha ?c then sint (to_lower ?c) - 97 + 10 else sint ?c - 48) = int d"
    using digit_of_lower(1) [OF d(1)] by (simp add: digit_of_def)
  have "strtol_digits m base p v =
      strtol_digits m base (p + 1) (v * word_of_int base + word_of_int (int d))"
    using digit_of_lower(2) [OF d(1)] d(2)
    by (subst strtol_digits.simps) (simp only: Let_def c k, simp)
  then show ?case using Cons by (simp add: add.assoc)
qed

lemma horner_rev: "foldl (\<lambda>v d. v * b + f d) 0 (rev ds) = foldr (\<lambda>d v. v * b + f d) ds (0 :: u32)"
  by (simp add: foldl_conv_foldr)

lemma horner_word:
  assumes "2 \<le> b"
  shows "foldl (\<lambda>v d. v * of_nat b + of_nat d) 0 (rev (rdigits b n)) = (of_nat n :: u32)"
proof -
  have "foldr (\<lambda>d v. v * of_nat b + of_nat d) ds 0 = (of_nat (foldr (\<lambda>d v. v * b + d) ds 0) :: u32)" for ds
    by (induction ds) simp_all
  then show ?thesis using rdigits_value [OF assms, of n] by (simp only: horner_rev)
qed

text \<open>
  \<open>itoa\<close> ends and leaves the digits of the number, the most significant first and
  without leading zeros, as a string at the address it was given, for every base from 2 to
  36; it writes at most 33 bytes there and no others.
\<close>

theorem itoa_writes:
  assumes "2 \<le> base" "base \<le> 36" "unat str + 33 < 2 ^ 32"
  shows "\<exists>m'. itoa v str base m = Some (str, m') \<and> cstr m' str (number_text (nat base) (unat v)) \<and>
    (\<forall>a. 33 \<le> unat (a - str) \<longrightarrow> m' a = m a)"
  by (rule itoa_text [OF assms])

theorem itoa_writes_witness:
  "\<exists>m'. itoa 1984 256 10 (\<lambda>_. 0) = Some (256, m') \<and> cstr m' 256 [49, 57, 56, 52]"
proof -
  have "number_text 10 1984 = [49, 57, 56, 52]"
    by (simp add: number_text_def rdigits.simps digits_lower_def)
  then show ?thesis using itoa_writes [of 10 256 1984 "\<lambda>_. 0"] by auto
qed

lemma number_text_head:
  assumes "2 \<le> b" "b \<le> 36"
  obtains d ds where "number_text b n = digits_lower ! d # map (nth digits_lower) ds" "d < 36"
    "rev (rdigits b n) = d # ds" "\<forall>e\<in>set (d # ds). e < b"
proof -
  obtain d ds where r: "rev (rdigits b n) = d # ds"
    using rdigits_not_Nil [OF assms(1), of n] by (cases "rev (rdigits b n)") auto
  have "\<forall>e\<in>set (rev (rdigits b n)). e < b" using rdigits_less [OF assms(1), of n] by simp
  then show thesis using that [of d ds] r assms by (force simp: number_text_def)
qed

lemma strtol_text:
  assumes "2 \<le> base" "base \<le> 36" "cstr m p (number_text (nat base) n)"
  shows "strtol p base m = Some (of_nat n, Some (p + of_nat (length (number_text (nat base) n))))"
proof -
  have b: "2 \<le> nat base" "nat base \<le> 36" using assms by auto
  obtain d ds where h: "number_text (nat base) n = digits_lower ! d # map (nth digits_lower) ds"
    "d < 36" "rev (rdigits (nat base) n) = d # ds" "\<forall>e\<in>set (d # ds). e < nat base"
    by (rule number_text_head [OF b, of n])
  have c: "m p = digits_lower ! d" using assms(3) h(1) by simp
  have nb: "m p \<noteq> 32" "m p \<noteq> 9" "m p \<noteq> 45" "m p \<noteq> 43"
    using digit_of_lower(3) [OF h(2)] c by auto
  have s: "skip_blanks m p = Some p" using nb by (subst skip_blanks.simps) simp
  have w: "(word_of_int base :: u32) = of_nat (nat base)" using assms(1) by simp
  have "strtol_digits m base p 0 =
      Some (foldl (\<lambda>v d. v * word_of_int base + of_nat d) 0 (d # ds), p + of_nat (length (d # ds)))"
    by (rule strtol_digits_horner) (use assms h in auto)
  also have "foldl (\<lambda>v d. v * word_of_int base + of_nat d) 0 (d # ds) = (of_nat n :: u32)"
    using horner_word [OF b(1), of n] by (simp only: w h(3))
  finally have "strtol_digits m base p 0 = Some (of_nat n, p + of_nat (length (d # ds)))" .
  moreover have "length (number_text (nat base) n) = length (d # ds)" using h(1) by simp
  ultimately show ?thesis using assms(1,2) s nb
    by (simp add: strtol_def parse_base_def)
qed

lemma atoi_digits_horner:
  assumes "\<forall>d\<in>set ds. d < 36" "cstr m p (map (nth digits_lower) ds)"
  shows "atoi_digits m base p v = Some (foldl (\<lambda>v d. v * base + of_nat d) v ds)"
  using assms
proof (induction ds arbitrary: p v)
  case Nil
  then show ?case by (simp add: atoi_digits.simps Let_def)
next
  case (Cons d ds)
  let ?c = "digits_lower ! d"
  have d: "d < 36" using Cons.prems(1) by auto
  have c: "m p = ?c" using Cons.prems(2) by simp
  have k: "(if is_alpha ?c then sint (to_lower ?c) - 97 + 10 else sint ?c - 48) = int d"
    using digit_of_lower(1) [OF d] by (simp add: digit_of_def)
  have "atoi_digits m base p v = atoi_digits m base (p + 1) (v * base + word_of_int (int d))"
    using digit_of_lower(3) [OF d]
    by (subst atoi_digits.simps) (simp only: Let_def c k, simp)
  then show ?case using Cons by simp
qed

lemma rdigits_last: "2 \<le> b \<Longrightarrow> n \<noteq> 0 \<Longrightarrow> last (rdigits b n) \<noteq> 0"
proof (induction b n rule: rdigits.induct)
  case (1 b n)
  then show ?case
    by (cases "n div b = 0")
      (auto simp: rdigits.simps [of b n] rdigits_not_Nil div_eq_0_iff)
qed

lemma atoi_text:
  assumes "cstr m p (number_text 10 n)"
  shows "atoi p m = Some (of_nat n)"
proof -
  obtain d ds where h: "number_text 10 n = digits_lower ! d # map (nth digits_lower) ds"
    "d < 36" "rev (rdigits 10 n) = d # ds" "\<forall>e\<in>set (d # ds). e < 10"
    using number_text_head [of 10 n] by auto
  have c: "m p = digits_lower ! d" "cstr m (p + 1) (map (nth digits_lower) ds)"
    using assms h(1) by auto
  have s: "skip_spaces m p = Some p"
    using digit_of_lower(3) [OF h(2)] c by (subst skip_spaces.simps) simp
  have dig: "\<forall>e\<in>set (d # ds). e < 36" using h(4) by fastforce
  have v: "foldl (\<lambda>v d. v * 10 + of_nat d) 0 (d # ds) = (of_nat n :: u32)"
    using horner_word [of 10 n] by (simp only: h(3)) simp
  show ?thesis
  proof (cases "m p = 48")
    case True
    have "d = 0"
    proof (rule ccontr)
      assume "d \<noteq> 0"
      then have "digit_of (m p) \<noteq> 0" using digit_of_lower(1) [OF h(2)] c by simp
      then show False using True by (simp add: digit_of_def is_alpha_def)
    qed
    then have "last (rdigits 10 n) = 0" using h(3) by (metis hd_rev list.sel(1))
    then have "n = 0" using rdigits_last [of 10 n] by auto
    then have "ds = []" using h(3) by (simp add: rdigits.simps)
    then have "m (p + 1) = 0" using c by simp
    then show ?thesis using s True \<open>n = 0\<close> by (simp add: atoi_def atoi_digits.simps Let_def)
  next
    case False
    have "atoi_digits m 10 p 0 = Some (of_nat n)"
      using atoi_digits_horner [OF dig, of m p 10 0] assms h(1) v by simp
    then show ?thesis using s False by (simp add: atoi_def)
  qed
qed

text \<open>
  Claim C9. \<open>strtol\<close> reads back every number that \<open>itoa\<close> wrote in the same base, and stops at
  the end of the text; \<open>atoi\<close> reads back what was written in base ten.
\<close>

theorem strtol_itoa:
  assumes "2 \<le> base" "base \<le> 36" "unat str + 33 < 2 ^ 32" "itoa v str base m = Some (r, m')"
  shows "r = str \<and> (\<exists>q. strtol str base m' = Some (v, Some q) \<and> m' q = 0) \<and>
    (base = 10 \<longrightarrow> atoi str m' = Some v)"
proof -
  let ?t = "number_text (nat base) (unat v)"
  have i: "itoa v str base m = Some (str, m')" "cstr m' str ?t" "r = str"
    using itoa_text [OF assms(1-3), of v m] assms(4) by auto
  have "strtol str base m' = Some (v, Some (str + of_nat (length ?t)))"
    using strtol_text [OF assms(1,2) i(2)] by simp
  moreover have "atoi str m' = Some v" if "base = 10"
    using atoi_text [of m' str "unat v"] i(2) that by simp
  ultimately show ?thesis using i cstr_end [OF i(2)] by auto
qed

theorem strtol_itoa_witness:
  "\<exists>m' q. itoa 0xbeef 64 16 (\<lambda>_. 0) = Some (64, m') \<and> strtol 64 16 m' = Some (0xbeef, Some q)"
proof -
  obtain m' where m': "itoa 0xbeef 64 16 (\<lambda>_. 0) = Some (64, m')"
    using itoa_text [of 16 64 "0xbeef" "\<lambda>_. 0"] by auto
  then show ?thesis using strtol_itoa [OF _ _ _ m'] by auto
qed

end
