(* ===== verification/Vsprintf.thy ===== *)
theory Vsprintf
  imports Utils "HOL-Library.Monad_Syntax"
begin

text \<open>
  The formatted output of \<^verbatim>\<open>kernel/vsprintf.c\<close>. \<open>number\<close> gives the bytes it stores one after
  the other and its result; \<open>vsprintf\<close> runs on the byte memory, where \<open>tmp\<close> is the address of
  its local buffer and \<open>args\<close> the words the variable arguments are taken from. Taking an
  argument that was not passed is undefined in C and has no result here.
\<close>

section \<open>Numbers\<close>

definition LEFT :: u32 where "LEFT = 1"

definition PLUS :: u32 where "PLUS = 2"

definition SIGNED :: u32 where "SIGNED = 4"

definition SPACE :: u32 where "SPACE = 8"

definition PREFIX :: u32 where "PREFIX = 16"

definition ZEROS :: u32 where "ZEROS = 32"

definition LARGE :: u32 where "LARGE = 64"

definition digits_upper :: "u8 list" where
  "digits_upper = [48, 49, 50, 51, 52, 53, 54, 55, 56, 57, 65, 66, 67, 68, 69, 70, 71, 72,
     73, 74, 75, 76, 77, 78, 79, 80, 81, 82, 83, 84, 85, 86, 87, 88, 89, 90]"

definition flag :: "u32 \<Rightarrow> u32 \<Rightarrow> bool" where
  "flag flags f \<longleftrightarrow> flags AND f \<noteq> 0"

text \<open>The digits in the order of the temporary buffer; \<open>number\<close> calls it with a base from 2 on.\<close>

function number_digits :: "u8 list \<Rightarrow> u32 \<Rightarrow> u32 \<Rightarrow> u8 list" where
  "number_digits table base num =
     (if num = 0 \<or> base < 2 then []
      else table ! unat (num mod base) # number_digits table base (num div base))"
  by pat_completeness auto
termination
proof (relation "measure (\<lambda>(_, _, num). unat num)")
  fix table :: "u8 list" and base num :: u32
  assume "\<not> (num = 0 \<or> base < 2)"
  then have "0 < unat num" "1 < unat base" by (auto simp: word_less_nat_alt unat_gt_0)
  then have "unat num div unat base < unat num" by (rule div_less_dividend [rotated])
  then show "((table, base, num div base), (table, base, num)) \<in> measure (\<lambda>(_, _, num). unat num)"
    by (simp add: unat_div)
qed simp

declare number_digits.simps [simp del]

text \<open>\<^verbatim>\<open>while (width-- > 0) *str++ = c\<close>: the bytes and the width it leaves.\<close>

definition pad_loop :: "u8 \<Rightarrow> int \<Rightarrow> u8 list \<times> int" where
  "pad_loop c width = (replicate (nat width) c, if 0 < width then -1 else width - 1)"

definition number_sign :: "u32 \<Rightarrow> u32 \<Rightarrow> int \<Rightarrow> u32 \<times> u8 \<times> int" where
  "number_sign num flags width =
     (if flag flags SIGNED
      then if sint num < 0 then (- num, 45, width - 1)
           else if flag flags PLUS then (num, 43, width - 1)
           else if flag flags SPACE then (num, 32, width - 1)
           else (num, 0, width)
      else (num, 0, width))"

definition number_prefix :: "u32 \<Rightarrow> u32 \<Rightarrow> u8 list" where
  "number_prefix base flags =
     (if flag flags PREFIX
      then if base = 8 then [48]
           else if base = 16 then [48, if flag flags LARGE then 88 else 120] else []
      else [])"

definition number :: "u32 \<Rightarrow> u32 \<Rightarrow> int \<Rightarrow> int \<Rightarrow> u32 \<Rightarrow> u32 \<times> u8 list" where
  "number num base width precision flags =
     (let flags = (if flag flags LEFT then flags AND NOT ZEROS else flags)
      in if base < 2 \<or> 36 < base then (0, [])
      else let padc = (if flag flags ZEROS then 48 else 32);
               (num, sign, width) = number_sign num flags width;
               width = width - int (length (number_prefix base flags));
               table = (if flag flags LARGE then digits_upper else digits_lower);
               buffer = (if num = 0 then [48] else number_digits table base num);
               i = int (length buffer);
               precision = (if precision < i then i else precision);
               width = width - precision;
               (left, width) = (if \<not> flag flags (ZEROS OR LEFT) then pad_loop 32 width else ([], width));
               (zeros, width) = (if \<not> flag flags LEFT then pad_loop padc width else ([], width));
               (right, width) = pad_loop 32 width;
               out = left @ (if sign \<noteq> 0 then [sign] else []) @ number_prefix base flags @ zeros @
                 replicate (nat (precision - i)) 48 @ rev buffer @ right
           in (of_nat (length out) - 1, out))"

section \<open>Formats\<close>

partial_function (option) parse_flags :: "bmem \<Rightarrow> u32 \<Rightarrow> u32 \<Rightarrow> u32 \<Rightarrow> (u32 \<times> u32) option" where
  "parse_flags m fmt i flags =
     (let c = m (fmt + (i + 1))
      in if c = 35 then parse_flags m fmt (i + 1) (flags OR PREFIX)
         else if c = 48 then parse_flags m fmt (i + 1) (if \<not> flag flags LEFT then flags OR ZEROS else flags)
         else if c = 45 then parse_flags m fmt (i + 1) ((flags AND NOT ZEROS) OR LEFT)
         else if c = 43 then parse_flags m fmt (i + 1) (flags OR PLUS)
         else if c = 32 then parse_flags m fmt (i + 1) ((flags AND NOT PLUS) OR SPACE)
         else Some (i, flags))"

partial_function (option) copy_digits :: "u32 \<Rightarrow> u32 \<Rightarrow> u32 \<Rightarrow> u32 \<Rightarrow> bmem \<Rightarrow> (u32 \<times> bmem) option" where
  "copy_digits fmt tmp i k m =
     (if is_digit (m (fmt + (i + 1)))
      then copy_digits fmt tmp (i + 1) (k + 1) (m(tmp + k := m (fmt + (i + 1))))
      else Some (i, m(tmp + k := 0)))"

definition va_arg :: "u32 list \<Rightarrow> (u32 \<times> u32 list) option" where
  "va_arg args = (case args of [] \<Rightarrow> None | a # args \<Rightarrow> Some (a, args))"

definition parse_width ::
  "u32 \<Rightarrow> u32 \<Rightarrow> u32 \<Rightarrow> u32 \<Rightarrow> u32 list \<Rightarrow> bmem \<Rightarrow> (int \<times> u32 \<times> u32 \<times> u32 list \<times> bmem) option" where
  "parse_width fmt tmp i flags args m =
     (if is_digit (m (fmt + (i + 1)))
      then do {
        (i, m) \<leftarrow> copy_digits fmt tmp i 0 m;
        w \<leftarrow> atoi tmp m;
        Some (sint w, i, flags, args, m)
      }
      else if m (fmt + (i + 1)) = 42
      then do {
        (w, args) \<leftarrow> va_arg args;
        if sint w < 0 then Some (- sint w, i + 1, flags OR LEFT, args, m)
        else Some (sint w, i + 1, flags, args, m)
      }
      else Some (-1, i, flags, args, m))"

definition parse_precision ::
  "u32 \<Rightarrow> u32 \<Rightarrow> u32 \<Rightarrow> u32 list \<Rightarrow> bmem \<Rightarrow> (int \<times> u32 \<times> u32 list \<times> bmem) option" where
  "parse_precision fmt tmp i args m =
     (if m (fmt + (i + 1)) = 46
      then do {
        (p, i, args, m) \<leftarrow>
          (let i = i + 1
           in if is_digit (m (fmt + (i + 1)))
              then do { (i, m) \<leftarrow> copy_digits fmt tmp i 0 m; w \<leftarrow> atoi tmp m; Some (sint w, i, args, m) }
              else if m (fmt + (i + 1)) = 42
              then do { (w, args) \<leftarrow> va_arg args; Some (sint w, i + 1, args, m) }
              else Some (-1, i, args, m));
        Some (if p < 0 then 0 else p, i, args, m)
      }
      else Some (-1, i, args, m))"

text \<open>The base and the flags of a numeric conversion.\<close>

definition conversion :: "u8 \<Rightarrow> u32 \<Rightarrow> (u32 \<times> u32) option" where
  "conversion c flags =
     (if c = 100 \<or> c = 105 then Some (10, flags OR SIGNED)
      else if c = 117 then Some (10, flags)
      else if c = 111 then Some (8, flags)
      else if c = 88 then Some (16, flags OR LARGE)
      else if c = 120 then Some (16, flags)
      else if c = 98 then Some (2, flags) else None)"

definition convert ::
  "u32 \<Rightarrow> u32 \<Rightarrow> u32 \<Rightarrow> u32 \<Rightarrow> u32 \<Rightarrow> u32 list \<Rightarrow> bmem \<Rightarrow> (u32 \<times> u32 \<times> u32 list \<times> bmem) option" where
  "convert buf fmt tmp i loc args m = do {
     (i, flags) \<leftarrow> parse_flags m fmt i 0;
     (width, i, flags, args, m) \<leftarrow> parse_width fmt tmp i flags args m;
     (precision, i, args, m) \<leftarrow> parse_precision fmt tmp i args m;
     let c = m (fmt + (i + 1));
     if c = 99 then do {
       (val, args) \<leftarrow> va_arg args;
       Some (i + 1, loc, args, m(buf + loc := ucast val))
     }
     else if c = 115 then do {
       (val, args) \<leftarrow> va_arg args;
       (_, m) \<leftarrow> strncpy tmp val 1024 m;
       (_, m) \<leftarrow> strncpy (buf + loc) tmp 1024 m;
       n \<leftarrow> strlen tmp m;
       Some (i + 1, loc + (n - 2), args, m)
     }
     else case conversion c flags of
       Some (base, flags) \<Rightarrow> do {
         (val, args) \<leftarrow> va_arg args;
         let (r, out) = number val base width precision flags;
         Some (i + 1, loc + r, args, store_bytes (buf + loc) out m)
       }
     | None \<Rightarrow> Some (i, loc, args, m)
   }"

partial_function (option) vsprintf_loop ::
  "u32 \<Rightarrow> u32 \<Rightarrow> u32 \<Rightarrow> u32 \<Rightarrow> u32 \<Rightarrow> u32 list \<Rightarrow> bmem \<Rightarrow> (u32 \<times> bmem) option" where
  "vsprintf_loop buf fmt tmp i loc args m = do {
     n \<leftarrow> strlen fmt m;
     if i \<le> n then
       (if m (fmt + i) = 37 then do {
          (i, loc, args, m) \<leftarrow> convert buf fmt tmp i loc args m;
          vsprintf_loop buf fmt tmp (i + 1) (loc + 1) args m
        }
        else vsprintf_loop buf fmt tmp (i + 1) (loc + 1) args (m(buf + loc := m (fmt + i))))
     else Some (i, m)
   }"

definition vsprintf :: "u32 \<Rightarrow> u32 \<Rightarrow> u32 \<Rightarrow> u32 list \<Rightarrow> bmem \<Rightarrow> (u32 \<times> bmem) option" where
  "vsprintf tmp buf fmt args m =
     (let m = snd (memset tmp 0 1024 m)
      in if buf = 0 \<or> fmt = 0 then Some (0, m) else vsprintf_loop buf fmt tmp 0 0 args m)"

definition sprintf :: "u32 \<Rightarrow> u32 \<Rightarrow> u32 \<Rightarrow> u32 list \<Rightarrow> bmem \<Rightarrow> (u32 \<times> bmem) option" where
  "sprintf tmp buf fmt args m = vsprintf tmp buf fmt args m"

section \<open>The layout of a number\<close>

lemma flag_bits:
  "flag f LEFT \<longleftrightarrow> bit f 0" "flag f PLUS \<longleftrightarrow> bit f 1" "flag f SIGNED \<longleftrightarrow> bit f 2"
  "flag f SPACE \<longleftrightarrow> bit f 3" "flag f PREFIX \<longleftrightarrow> bit f 4" "flag f ZEROS \<longleftrightarrow> bit f 5" "flag f LARGE \<longleftrightarrow> bit f 6"
proof -
  have "f AND 2 ^ n = 0 \<longleftrightarrow> \<not> bit f n" if "n < 32" for n :: nat
    using that by (rule_tac and_exp_eq_0_iff_not_bit)
  from this [of 0] this [of 1] this [of 2] this [of 3] this [of 4] this [of 5] this [of 6]
  show "flag f LEFT \<longleftrightarrow> bit f 0" "flag f PLUS \<longleftrightarrow> bit f 1" "flag f SIGNED \<longleftrightarrow> bit f 2"
    "flag f SPACE \<longleftrightarrow> bit f 3" "flag f PREFIX \<longleftrightarrow> bit f 4" "flag f ZEROS \<longleftrightarrow> bit f 5" "flag f LARGE \<longleftrightarrow> bit f 6"
    by (simp_all add: flag_def LEFT_def PLUS_def SIGNED_def SPACE_def PREFIX_def ZEROS_def LARGE_def)
qed

lemma flag_or: "flag f (a OR b) \<longleftrightarrow> flag f a \<or> flag f b"
  by (simp add: flag_def bit.conj_disj_distrib or_eq_0_iff)

lemma flag_without_zeros:
  "flag (f AND NOT ZEROS) ZEROS = False"
  "flag (f AND NOT ZEROS) LEFT = flag f LEFT" "flag (f AND NOT ZEROS) PLUS = flag f PLUS"
  "flag (f AND NOT ZEROS) SIGNED = flag f SIGNED" "flag (f AND NOT ZEROS) SPACE = flag f SPACE"
  "flag (f AND NOT ZEROS) PREFIX = flag f PREFIX" "flag (f AND NOT ZEROS) LARGE = flag f LARGE"
proof -
  have "bit ZEROS n \<longleftrightarrow> n = 5" for n
    using bit_exp_iff [of 5 n, where 'a = u32] by (auto simp: ZEROS_def)
  then show "flag (f AND NOT ZEROS) ZEROS = False"
    "flag (f AND NOT ZEROS) LEFT = flag f LEFT" "flag (f AND NOT ZEROS) PLUS = flag f PLUS"
    "flag (f AND NOT ZEROS) SIGNED = flag f SIGNED" "flag (f AND NOT ZEROS) SPACE = flag f SPACE"
    "flag (f AND NOT ZEROS) PREFIX = flag f PREFIX" "flag (f AND NOT ZEROS) LARGE = flag f LARGE"
    unfolding flag_bits by (simp_all add: bit_simps)
qed

lemma number_digits_rdigits:
  assumes "2 \<le> base" "num \<noteq> 0"
  shows "number_digits table base num = map (nth table) (rdigits (unat base) (unat num))"
  using assms(2)
proof (induction "unat num" arbitrary: num rule: less_induct)
  case less
  have b: "\<not> base < 2" "2 \<le> unat base" using assms(1) by (auto simp: word_le_nat_alt word_less_nat_alt)
  have u: "unat (num mod base) = unat num mod unat base" "unat (num div base) = unat num div unat base"
    by (simp_all add: unat_mod unat_div)
  have "0 < unat num" using less.prems by (simp add: unat_gt_0)
  then have lt: "unat (num div base) < unat num" unfolding u using b by (intro div_less_dividend) auto
  show ?case
  proof (cases "num div base = 0")
    case True
    then have "unat num div unat base = 0" using u(2) by (simp flip: u(2))
    then show ?thesis using True less.prems b u
      by (subst number_digits.simps, subst rdigits.simps) (simp add: number_digits.simps)
  next
    case False
    then have "unat num div unat base \<noteq> 0" using u(2) by (simp flip: u(2) add: unat_eq_zero)
    then show ?thesis using less.prems b u less.hyps [OF lt False]
      by (subst number_digits.simps, subst rdigits.simps) simp
  qed
qed

text \<open>The sign a number is printed with, and the layout of the field.\<close>

definition sign_of :: "u32 \<Rightarrow> u32 \<Rightarrow> u8 list" where
  "sign_of num flags =
     (if \<not> flag flags SIGNED then []
      else if sint num < 0 then [45] else if flag flags PLUS then [43]
      else if flag flags SPACE then [32] else [])"

text \<open>
  The layout of a field, from the number, the base and the bits of the flags: 0 for left
  justification, 1 for a plus sign, 2 for a signed number, 3 for a blank in the place of the
  sign, 4 for the prefix of the base, 5 for zeros and 6 for large letters. Nothing of it is
  taken from the code.
\<close>

definition digit_char :: "bool \<Rightarrow> nat \<Rightarrow> u8" where
  "digit_char large d = (if d < 10 then 48 else if large then 55 else 87) + of_nat d"

definition sign_text :: "u32 \<Rightarrow> u32 \<Rightarrow> u8 list" where
  "sign_text num flags =
     (if bit flags 2
      then if sint num < 0 then [45] else if bit flags 1 then [43] else if bit flags 3 then [32] else []
      else [])"

definition prefix_text :: "u32 \<Rightarrow> u32 \<Rightarrow> u8 list" where
  "prefix_text base flags =
     (if bit flags 4 \<and> base = 8 then [48]
      else if bit flags 4 \<and> base = 16 then [48, if bit flags 6 then 88 else 120] else [])"

definition field :: "u32 \<Rightarrow> u32 \<Rightarrow> int \<Rightarrow> int \<Rightarrow> u32 \<Rightarrow> u8 list" where
  "field num base width precision flags =
     (let left = bit flags 0; zero = (bit flags 5 \<and> \<not> left);
          v = (if bit flags 2 then nat \<bar>sint num\<bar> else unat num);
          ds = map (digit_char (bit flags 6)) (rev (rdigits (unat base) v));
          affix = sign_text num flags @ prefix_text base flags;
          fill = nat width - (length affix + max (nat precision) (length ds))
      in replicate (if left \<or> zero then 0 else fill) 32 @ affix @
         replicate ((if zero then fill else 0) + (nat precision - length ds)) 48 @ ds @
         replicate (if left then fill else 0) 32)"

text \<open>The same in the terms of the code.\<close>

lemma digit_char_table:
  assumes "d < 36"
  shows "digit_char large d = (if large then digits_upper else digits_lower) ! d"
proof -
  have "map (digit_char True) [0..<36] = digits_upper" "map (digit_char False) [0..<36] = digits_lower"
    by code_simp+
  then show ?thesis using assms by (metis (full_types) add_0 diff_zero length_upt nth_map nth_upt)
qed

lemma magnitude: "nat \<bar>sint num\<bar> = unat (if sint num < 0 then - num else num)" for num :: u32
proof -
  have m: "uint (word_of_int k :: u32) = k" if "0 \<le> k" "k < 2 ^ 32" for k
    using that by (simp add: uint_word_of_int)
  have b: "- (2 ^ 31) \<le> sint num" "sint num < 2 ^ 31" using sint_ge [of num] sint_lt [of num] by simp_all
  show ?thesis
  proof (cases "sint num < 0")
    case True
    have "- num = word_of_int (- sint num)" by simp
    then have "uint (- num) = - sint num" using m [of "- sint num"] True b by simp
    then have "unat (- num) = nat (- sint num)" by (simp only: unat_eq_nat_uint)
    then show ?thesis using True by simp
  next
    case False
    have "num = word_of_int (sint num)" by simp
    then have "uint num = sint num" using m [of "sint num"] False b by simp
    then have "unat num = nat (sint num)" by (simp only: unat_eq_nat_uint)
    then show ?thesis using False by simp
  qed
qed

lemma field_code:
  assumes "2 \<le> base" "base \<le> 36"
  shows "field num base width precision flags =
     (let left = flag flags LEFT; zero = (flag flags ZEROS \<and> \<not> left);
          v = (if flag flags SIGNED \<and> sint num < 0 then - num else num);
          table = (if flag flags LARGE then digits_upper else digits_lower);
          ds = map (nth table) (rev (rdigits (unat base) (unat v)));
          affix = sign_of num flags @ number_prefix base flags;
          fill = nat width - (length affix + max (nat precision) (length ds))
      in replicate (if left \<or> zero then 0 else fill) 32 @ affix @
         replicate ((if zero then fill else 0) + (nat precision - length ds)) 48 @ ds @
         replicate (if left then fill else 0) 32)"
proof -
  have b: "2 \<le> unat base" "unat base \<le> 36" using assms by (auto simp: word_le_nat_alt)
  have "map (digit_char l) (rev (rdigits (unat base) n)) =
      map (nth (if l then digits_upper else digits_lower)) (rev (rdigits (unat base) n))" for l n
    using rdigits_less [OF b(1), of n] b(2) by (auto simp: digit_char_table)
  moreover have "sign_text num flags = sign_of num flags" "prefix_text base flags = number_prefix base flags"
    by (auto simp: sign_text_def sign_of_def prefix_text_def number_prefix_def flag_bits)
  moreover have "(if bit flags 2 then nat \<bar>sint num\<bar> else unat num) =
      unat (if flag flags SIGNED \<and> sint num < 0 then - num else num)"
    by (simp add: flag_bits magnitude)
  ultimately show ?thesis by (simp add: field_def flag_bits Let_def)
qed

lemma number_sign_of:
  "number_sign num flags width =
     (if flag flags SIGNED \<and> sint num < 0 then - num else num,
      case sign_of num flags of [] \<Rightarrow> 0 | c # _ \<Rightarrow> c, width - int (length (sign_of num flags)))"
  by (simp add: number_sign_def sign_of_def)

lemma sign_bytes:
  "(let c = (case sign_of num flags of [] \<Rightarrow> 0 | c # _ \<Rightarrow> c) in if c \<noteq> 0 then [c] else []) = sign_of num flags"
  by (simp add: sign_of_def)

text \<open>Leaving out the flag of the zeros when the field is left justified.\<close>

lemma effective_flags:
  assumes "f' = (if flag f LEFT then f AND NOT ZEROS else f)"
  shows "flag f' ZEROS \<longleftrightarrow> flag f ZEROS \<and> \<not> flag f LEFT" "flag f' LEFT = flag f LEFT"
    "flag f' LARGE = flag f LARGE" "flag f' SIGNED = flag f SIGNED"
    "sign_of num f' = sign_of num f" "number_prefix base f' = number_prefix base f"
  using assms by (auto simp: flag_without_zeros sign_of_def number_prefix_def)

lemma number_field:
  assumes "2 \<le> base" "base \<le> 36"
  shows "number num base width precision flags =
    (of_nat (length (field num base width precision flags)) - 1, field num base width precision flags)"
proof -
  define f where "f = (if flag flags LEFT then flags AND NOT ZEROS else flags)"
  note eff = effective_flags [OF f_def]
  define v where "v = (if flag flags SIGNED \<and> sint num < 0 then - num else num)"
  define table where "table = (if flag flags LARGE then digits_upper else digits_lower)"
  define ds where "ds = map (nth table) (rev (rdigits (unat base) (unat v)))"
  define sg where "sg = sign_of num flags"
  define pre where "pre = number_prefix base flags"
  have len: "length (rdigits (unat base) (unat v)) = length ds" by (simp add: ds_def)
  have buffer: "(if v = 0 then [48] else number_digits table base v) = rev ds"
  proof (cases "v = 0")
    case True
    have "2 \<le> unat base" using assms by (simp add: word_le_nat_alt)
    then show ?thesis using True
      by (simp add: ds_def rdigits.simps table_def digits_upper_def digits_lower_def)
  next
    case False
    then show ?thesis using number_digits_rdigits [OF assms(1)] by (simp add: ds_def rev_map)
  qed
  define p where "p = (if precision < int (length ds) then int (length ds) else precision)"
  define w where "w = width - int (length sg) - int (length pre) - p"
  have fill: "nat w = nat width - (length (sg @ pre) + max (nat precision) (length ds))"
    by (simp add: w_def p_def max_def) arith
  have zeros: "nat (p - int (length ds)) = nat precision - length ds"
    by (simp add: p_def) arith
  have "number num base width precision flags =
    (let (left, w) = (if \<not> (flag flags ZEROS \<and> \<not> flag flags LEFT \<or> flag flags LEFT) then pad_loop 32 w else ([], w));
         (zs, w) = (if \<not> flag flags LEFT
           then pad_loop (if flag flags ZEROS \<and> \<not> flag flags LEFT then 48 else 32) w else ([], w));
         (right, w) = pad_loop 32 w;
         out = left @ sg @ pre @ zs @ replicate (nat (p - int (length ds))) 48 @ ds @ right
     in (of_nat (length out) - 1, out))"
  proof -
    have b: "(base < 2 \<or> 36 < base) = False" using assms by (simp add: not_less)
    have sg': "(if (case sg of [] \<Rightarrow> 0 | c # _ \<Rightarrow> c) \<noteq> 0 then [case sg of [] \<Rightarrow> 0 | c # _ \<Rightarrow> c] else []) = sg"
      using sign_bytes [of num flags] by (simp only: Let_def sg_def)
    show ?thesis
      unfolding number_def
      by (simp add: Let_def b f_def [symmetric] eff flag_or number_sign_of v_def [symmetric]
          table_def [symmetric] buffer sg_def [symmetric] sg' pre_def [symmetric] p_def [symmetric]
          w_def [symmetric] split del: if_split cong del: if_weak_cong)
  qed
  also have "\<dots> = (of_nat (length (field num base width precision flags)) - 1,
      field num base width precision flags)"
  proof -
    have "field num base width precision flags =
      replicate (if flag flags LEFT \<or> flag flags ZEROS then 0 else nat w) 32 @ sg @ pre @
      replicate ((if flag flags ZEROS \<and> \<not> flag flags LEFT then nat w else 0) +
        nat (p - int (length ds))) 48 @ ds @ replicate (if flag flags LEFT then nat w else 0) 32"
      unfolding fill zeros
      by (auto simp: field_code [OF assms] Let_def v_def [symmetric] table_def [symmetric] ds_def [symmetric]
          sg_def pre_def len)
    then show ?thesis
      by (auto simp: pad_loop_def replicate_add)
  qed
  finally show ?thesis .
qed

text \<open>
  Claim C31. \<open>number\<close> stores the field of a conversion as C describes it: blanks or, with the
  zero flag, zeros fill it up to the width, on the right with the flag of left
  justification; the sign, the prefix of the base, the zeros of the precision and the digits
  of the absolute value stand between them. Its result is one less than the number of bytes.
\<close>

theorem number_formats:
  assumes "2 \<le> base" "base \<le> 36"
  shows "number num base width precision flags =
    (of_nat (length (field num base width precision flags)) - 1, field num base width precision flags)"
  by (rule number_field [OF assms])

theorem number_formats_witness: "number 0x1f 16 8 (-1) (PREFIX OR ZEROS) = (7, [48, 120, 48, 48, 48, 48, 49, 102])"
proof -
  have "field 0x1f 16 8 (-1) (PREFIX OR ZEROS) = [48, 120, 48, 48, 48, 48, 49, 102]"
    by code_simp
  then show ?thesis using number_formats [of 16 "0x1f" 8 "-1" "PREFIX OR ZEROS"] by simp
qed

section \<open>What a format prints\<close>

text \<open>
  Formats made of characters and of conversions without flags, width and precision, their
  text and the output for the arguments.
\<close>

datatype item = Lit u8 | Num u8

fun fmt_bytes :: "item list \<Rightarrow> u8 list" where
  "fmt_bytes [] = []"
| "fmt_bytes (Lit c # r) = c # fmt_bytes r"
| "fmt_bytes (Num c # r) = 37 # c # fmt_bytes r"

text \<open>
  The conversions, as the manual of \<open>printf\<close> has them (and \<open>b\<close> for base 2): the base, and the
  flags of a signed number and of large letters.
\<close>

definition format_of :: "u8 \<Rightarrow> (u32 \<times> u32) option" where
  "format_of c = map_of
     [(of_char CHR ''d'', (10, 2 ^ 2)), (of_char CHR ''i'', (10, 2 ^ 2)), (of_char CHR ''u'', (10, 0)),
      (of_char CHR ''o'', (8, 0)), (of_char CHR ''x'', (16, 0)), (of_char CHR ''X'', (16, 2 ^ 6)),
      (of_char CHR ''b'', (2, 0))] c"

lemma format_of_code: "format_of c = conversion c 0"
  by (auto simp: format_of_def conversion_def SIGNED_def LARGE_def)

fun printed :: "item list \<Rightarrow> u32 list \<Rightarrow> u8 list" where
  "printed [] args = []"
| "printed (Lit c # r) args = c # printed r args"
| "printed (Num c # r) args =
     (case format_of c of
        Some (base, flags) \<Rightarrow> field (hd args) base (-1) (-1) flags @ printed r (tl args)
      | None \<Rightarrow> [])"

fun fmt_ok :: "item list \<Rightarrow> u32 list \<Rightarrow> bool" where
  "fmt_ok [] args \<longleftrightarrow> True"
| "fmt_ok (Lit c # r) args \<longleftrightarrow> c \<noteq> 0 \<and> c \<noteq> 37 \<and> fmt_ok r args"
| "fmt_ok (Num c # r) args \<longleftrightarrow> format_of c \<noteq> None \<and> args \<noteq> [] \<and> fmt_ok r (tl args)"

lemma conversion_char:
  assumes "conversion c 0 = Some (base, flags)"
  shows "c \<in> {100, 105, 117, 111, 88, 120, 98}" "base \<in> {2, 8, 10, 16}"
  using assms by (auto simp: conversion_def split: if_splits)

text \<open>The step of a conversion without flags, width and precision.\<close>

lemma convert_plain:
  assumes "conversion c 0 = Some (base, flags)" "m (fmt + (i + 1)) = c"
  shows "convert buf fmt tmp i loc (a # args) m =
    (let out = field a base (-1) (-1) flags
     in Some (i + 1, loc + (of_nat (length out) - 1), args, store_bytes (buf + loc) out m))"
proof -
  have c: "c \<in> {100, 105, 117, 111, 88, 120, 98}" by (rule conversion_char [OF assms(1)])
  have f: "parse_flags m fmt i 0 = Some (i, 0)"
    using c assms(2) by (subst parse_flags.simps) auto
  have w: "parse_width fmt tmp i 0 (a # args) m = Some (-1, i, 0, a # args, m)"
    using c assms(2) by (auto simp: parse_width_def is_digit_def)
  have p: "parse_precision fmt tmp i (a # args) m = Some (-1, i, a # args, m)"
    using c assms(2) by (auto simp: parse_precision_def)
  have n: "number a base (-1) (-1) flags =
      (of_nat (length (field a base (-1) (-1) flags)) - 1, field a base (-1) (-1) flags)"
    using conversion_char(2) [OF assms(1)] by (intro number_field) auto
  have "c \<noteq> 99" "c \<noteq> 115" using c by auto
  then show ?thesis
    by (simp add: convert_def f w p assms va_arg_def n Let_def)
qed

text \<open>The format and the byte behind its NUL are in memory, and the output does not reach them.\<close>

definition fmt_at :: "bmem \<Rightarrow> u32 \<Rightarrow> u8 list \<Rightarrow> u8 \<Rightarrow> bool" where
  "fmt_at m fmt s z \<longleftrightarrow> cstr m fmt s \<and> m (fmt + of_nat (Suc (length s))) = z"

definition no_overlap :: "nat \<Rightarrow> u32 \<Rightarrow> nat \<Rightarrow> u32 \<Rightarrow> bool" where
  "no_overlap k p n q \<longleftrightarrow> (\<forall>i<k. \<forall>j<n. p + of_nat i \<noteq> q + of_nat j)"

lemma fmt_at_cong:
  assumes "fmt_at m fmt s z" "\<forall>j<Suc (Suc (length s)). m' (fmt + of_nat j) = m (fmt + of_nat j)"
  shows "fmt_at m' fmt s z"
proof -
  have "m' (fmt + of_nat j) = m (fmt + of_nat j)" if "j \<le> Suc (length s)" for j
    using assms(2) that by auto
  then show ?thesis using assms(1) unfolding fmt_at_def cstr_def by (simp del: of_nat_Suc)
qed

lemma fmt_at_store:
  assumes "fmt_at m fmt s z" "no_overlap t buf (Suc (Suc (length s))) fmt" "k + length bs \<le> t"
  shows "fmt_at (store_bytes (buf + of_nat k) bs m) fmt s z"
  using assms(1,3)
proof (induction bs arbitrary: k m)
  case (Cons b bs)
  have "k < t" using Cons.prems by simp
  then have "\<forall>j<Suc (Suc (length s)). (m(buf + of_nat k := b)) (fmt + of_nat j) = m (fmt + of_nat j)"
    using assms(2) unfolding no_overlap_def by (metis fun_upd_other)
  then have "fmt_at (m(buf + of_nat k := b)) fmt s z" using fmt_at_cong Cons.prems(1) by blast
  then have "fmt_at (store_bytes (buf + of_nat (Suc k)) bs (m(buf + of_nat k := b))) fmt s z"
    by (rule Cons.IH) (use Cons.prems in simp)
  then show ?case by (simp add: ac_simps)
qed simp

lemma loop_literal:
  assumes "strlen fmt m = Some n" "i \<le> n" "m (fmt + i) \<noteq> 37"
  shows "vsprintf_loop buf fmt tmp i loc args m =
    vsprintf_loop buf fmt tmp (i + 1) (loc + 1) args (m(buf + loc := m (fmt + i)))"
  using assms by (subst vsprintf_loop.simps) simp

lemma loop_conversion:
  assumes "strlen fmt m = Some n" "i \<le> n" "m (fmt + i) = 37"
    and "conversion c 0 = Some (base, flags)" "m (fmt + (i + 1)) = c"
    and "out = field a base (-1) (-1) flags"
  shows "vsprintf_loop buf fmt tmp i loc (a # args) m =
    vsprintf_loop buf fmt tmp (i + 2) (loc + of_nat (length out)) args (store_bytes (buf + loc) out m)"
  using assms convert_plain [of c base flags m fmt i buf tmp loc a args]
  by (subst vsprintf_loop.simps) (simp add: Let_def algebra_simps)

lemma fmt_position:
  assumes "fmt_at m fmt (pre @ c # post) z"
  shows "m (fmt + of_nat (length pre)) = c" "strlen fmt m = Some (of_nat (length (pre @ c # post)) + 1)"
proof -
  have c: "cstr m fmt (pre @ c # post)" using assms by (simp add: fmt_at_def)
  then show "m (fmt + of_nat (length pre)) = c" using cstr_nth [OF c, of "length pre"] by simp
  show "strlen fmt m = Some (of_nat (length (pre @ c # post)) + 1)" by (rule strlen_cstr [OF c])
qed

lemma index_le: "i \<le> n \<Longrightarrow> n + 1 < 2 ^ 32 \<Longrightarrow> of_nat i \<le> (of_nat n + 1 :: u32)"
proof -
  assume "i \<le> n" "n + 1 < 2 ^ 32"
  then have "unat (of_nat i :: u32) = i" "unat (of_nat (Suc n) :: u32) = Suc n"
    by (auto simp: unat_of_nat simp del: of_nat_Suc)
  moreover have "(of_nat n + 1 :: u32) = of_nat (Suc n)" by simp
  ultimately show ?thesis using \<open>i \<le> n\<close> unfolding word_le_nat_alt by (simp only:)
qed

text \<open>At the end of the format the loop copies the NUL and the byte behind it.\<close>

lemma loop_end:
  assumes "fmt_at m fmt s z" "z \<noteq> 37" "length s + 2 < 2 ^ 32"
    and "no_overlap t buf (Suc (Suc (length s))) fmt" "k + 2 \<le> t"
  shows "vsprintf_loop buf fmt tmp (of_nat (length s)) (of_nat k) args m =
    Some (of_nat (length s + 2), store_bytes (buf + of_nat k) [0, z] m)"
proof -
  define n where "n = length s"
  define m1 where "m1 = m(buf + of_nat k := 0)"
  define m2 where "m2 = m1(buf + of_nat k + 1 := z)"
  have at1: "fmt_at m1 fmt s z" using fmt_at_store [OF assms(1,4), of k "[0]"] assms(5) by (simp add: m1_def)
  have at2: "fmt_at m2 fmt s z"
    using fmt_at_store [OF assms(1,4), of k "[0, z]"] assms(5) by (simp add: m1_def m2_def)
  have sl: "strlen fmt m = Some (of_nat n + 1)" "strlen fmt m1 = Some (of_nat n + 1)"
    "strlen fmt m2 = Some (of_nat n + 1)"
    using assms(1) at1 at2 unfolding n_def fmt_at_def by (auto intro: strlen_cstr)
  have r: "m (fmt + of_nat n) = 0" "m1 (fmt + (of_nat n + 1)) = z"
    using assms(1) at1 cstr_end unfolding n_def fmt_at_def by (auto simp: add.commute)
  have "vsprintf_loop buf fmt tmp (of_nat n) (of_nat k) args m =
      vsprintf_loop buf fmt tmp (of_nat n + 1) (of_nat k + 1) args m1"
    using loop_literal [OF sl(1) index_le [of n n]] r assms(3) by (simp add: n_def m1_def)
  also have "\<dots> = vsprintf_loop buf fmt tmp (of_nat n + 1 + 1) (of_nat k + 1 + 1) args m2"
    using loop_literal [OF sl(2) order_refl, of buf tmp] r assms(2)
    by (simp add: m2_def add.assoc)
  also have "\<dots> = Some (of_nat n + 1 + 1, m2)"
  proof -
    have "unat (of_nat (Suc n) :: u32) = Suc n" "unat (of_nat (Suc (Suc n)) :: u32) = Suc (Suc n)"
      using assms(3) by (auto simp: unat_of_nat n_def simp del: of_nat_Suc)
    then have "\<not> of_nat (Suc (Suc n)) \<le> (of_nat (Suc n) :: u32)" by (simp only: word_le_nat_alt)
    then show ?thesis using sl(3) by (subst vsprintf_loop.simps) (simp add: add.commute)
  qed
  finally show ?thesis by (simp add: n_def m1_def m2_def ac_simps)
qed

lemma vsprintf_loop_items:
  assumes "s = pre @ fmt_bytes items" "fmt_at m fmt s z" "fmt_ok items args" "z \<noteq> 37"
    and "length s + 2 < 2 ^ 32" "no_overlap t buf (Suc (Suc (length s))) fmt"
    and "k + length (printed items args) + 2 \<le> t"
  shows "vsprintf_loop buf fmt tmp (of_nat (length pre)) (of_nat k) args m =
    Some (of_nat (length s + 2), store_bytes (buf + of_nat k) (printed items args @ [0, z]) m)"
  using assms(1-3,7)
proof (induction items arbitrary: pre k args m)
  case Nil
  then have "s = pre" by simp
  then show ?case using loop_end [OF Nil.prems(2) assms(4-6), of k tmp args] Nil.prems(4)
    by (simp del: store_bytes.simps)
next
  case (Cons x items)
  show ?case
  proof (cases x)
    case (Lit c)
    have s: "s = pre @ c # fmt_bytes items" using Cons.prems(1) Lit by simp
    have ok: "c \<noteq> 37" "fmt_ok items args" using Cons.prems(3) Lit by auto
    define m' where "m' = m(buf + of_nat k := c)"
    have at': "fmt_at m' fmt s z"
      using fmt_at_store [OF Cons.prems(2) assms(6), of k "[c]"] Cons.prems(4) Lit by (simp add: m'_def)
    have p: "m (fmt + of_nat (length pre)) = c" "strlen fmt m = Some (of_nat (length s) + 1)"
      using fmt_position Cons.prems(2) unfolding s by blast+
    have "of_nat (length pre) \<le> (of_nat (length s) + 1 :: u32)"
      by (rule index_le) (use assms(5) s in auto)
    then have "vsprintf_loop buf fmt tmp (of_nat (length pre)) (of_nat k) args m =
        vsprintf_loop buf fmt tmp (of_nat (length (pre @ [c]))) (of_nat (Suc k)) args m'"
      using loop_literal [OF p(2)] p(1) ok(1) by (simp add: m'_def add.commute)
    also have "\<dots> = Some (of_nat (length s + 2),
        store_bytes (buf + of_nat (Suc k)) (printed items args @ [0, z]) m')"
      by (rule Cons.IH) (use s at' ok Cons.prems(4) Lit in auto)
    finally show ?thesis using Lit by (simp add: m'_def ac_simps)
  next
    case (Num c)
    have s: "s = pre @ 37 # c # fmt_bytes items" using Cons.prems(1) Num by simp
    obtain a as base flags where args: "args = a # as" "conversion c 0 = Some (base, flags)"
      and ok: "fmt_ok items as" using Cons.prems(3) Num by (cases args) (auto simp: format_of_code)
    define out where "out = field a base (-1) (-1) flags"
    have pr: "printed (x # items) args = out @ printed items as" using Num args by (simp add: out_def format_of_code)
    define m' where "m' = store_bytes (buf + of_nat k) out m"
    have at': "fmt_at m' fmt s z" unfolding m'_def
      by (rule fmt_at_store [OF Cons.prems(2) assms(6)]) (use Cons.prems(4) pr in simp)
    have p: "m (fmt + of_nat (length pre)) = 37" "strlen fmt m = Some (of_nat (length s) + 1)"
      using fmt_position Cons.prems(2) unfolding s by blast+
    have p': "m (fmt + (of_nat (length pre) + 1)) = c"
      using fmt_position(1) [of m fmt "pre @ [37]" c "fmt_bytes items" z] Cons.prems(2) s
      by (simp add: add.commute)
    have "of_nat (length pre) \<le> (of_nat (length s) + 1 :: u32)"
      by (rule index_le) (use assms(5) s in auto)
    then have "vsprintf_loop buf fmt tmp (of_nat (length pre)) (of_nat k) args m =
        vsprintf_loop buf fmt tmp (of_nat (length (pre @ [37, c]))) (of_nat (k + length out)) as m'"
      using loop_conversion [OF p(2) _ p(1) args(2) p' out_def] args(1) by (simp add: m'_def add.commute)
    also have "\<dots> = Some (of_nat (length s + 2),
        store_bytes (buf + of_nat (k + length out)) (printed items as @ [0, z]) m')"
      by (rule Cons.IH) (use s at' ok Cons.prems(4) pr in auto)
    finally show ?thesis unfolding pr
      by (simp only: m'_def append_assoc store_bytes_append of_nat_add add.assoc)
  qed
qed

lemma table_nonzero:
  assumes "2 \<le> (base :: u32)" "base \<le> 36" "d \<in> set (rdigits (unat base) n)"
  shows "(if large then digits_upper else digits_lower) ! d \<noteq> 0"
proof -
  have "2 \<le> unat base" "unat base \<le> 36" using assms(1,2) by (auto simp: word_le_nat_alt)
  then have "d < 36" using rdigits_less [of "unat base" n] assms(3) by fastforce
  moreover have "length digits_upper = 36" "0 \<notin> set digits_upper" by (simp_all add: digits_upper_def)
  ultimately show ?thesis using digits_lower_nonzero by (metis nth_mem)
qed

lemma field_nonzero: "2 \<le> base \<Longrightarrow> base \<le> 36 \<Longrightarrow> 0 \<notin> set (field num base width precision flags)"
  using table_nonzero [of base]
  by (auto simp: field_code Let_def sign_of_def number_prefix_def image_iff)

lemma printed_nonzero: "fmt_ok items args \<Longrightarrow> 0 \<notin> set (printed items args)"
proof (induction items args rule: printed.induct)
  case (3 c r args)
  then obtain base flags where c: "conversion c 0 = Some (base, flags)" by (auto simp: format_of_code)
  then have "0 \<notin> set (field (hd args) base (-1) (-1) flags)"
    using conversion_char(2) [OF c] by (intro field_nonzero) auto
  then show ?case using 3 c by (auto simp: format_of_code)
qed auto

lemma vsprintf_text:
  assumes "s = fmt_bytes items" "cstr m fmt s" "fmt_ok items args" "m (fmt + of_nat (Suc (length s))) \<noteq> 37"
    and "buf \<noteq> 0" "fmt \<noteq> 0" "length s + 2 < 2 ^ 32" "length (printed items args) + 2 < 2 ^ 32"
    and "no_overlap (length (printed items args) + 2) buf (Suc (Suc (length s))) fmt"
    and "\<forall>j<Suc (Suc (length s)). 1024 \<le> unat (fmt + of_nat j - tmp)"
  shows "\<exists>m'. vsprintf tmp buf fmt args m = Some (of_nat (length s + 2), m') \<and>
    cstr m' buf (printed items args) \<and>
    m' (buf + of_nat (Suc (length (printed items args)))) = m (fmt + of_nat (Suc (length s)))"
proof -
  define z where "z = m (fmt + of_nat (Suc (length s)))"
  have z: "z \<noteq> 37" using assms(4) by (simp only: z_def not_False_eq_True)
  define m0 where "m0 = snd (memset tmp 0 1024 m)"
  define out where "out = printed items args @ [0, z]"
  define m' where "m' = store_bytes buf out m0"
  have "\<forall>j<Suc (Suc (length s)). m0 (fmt + of_nat j) = m (fmt + of_nat j)"
    using assms(10) by (force simp: m0_def memset_block)
  then have "fmt_at m0 fmt s z"
    by (rule fmt_at_cong [rotated]) (use assms(2) in \<open>simp add: fmt_at_def z_def\<close>)
  then have v: "vsprintf tmp buf fmt args m = Some (of_nat (length s + 2), m')"
    using vsprintf_loop_items [of s "[]" items m0 fmt z args "length (printed items args) + 2" buf 0 tmp] assms z
    by (simp add: vsprintf_def z_def [symmetric] m0_def [symmetric] m'_def out_def)
  have r: "m' (buf + of_nat i) = out ! i" if "i < length out" for i
    unfolding m'_def by (rule store_bytes_nth) (use that assms(8) in \<open>auto simp: out_def\<close>)
  have "cstr m' buf (printed items args)"
    using assms(8) printed_nonzero [OF assms(3)] r
    by (auto simp: cstr_def out_def nth_append)
  moreover have "m' (buf + of_nat (Suc (length (printed items args)))) = z"
    using r [of "Suc (length (printed items args))"] by (simp add: out_def nth_append)
  ultimately show ?thesis using v by (auto simp: z_def)
qed

text \<open>
  Claim C10. \<open>vsprintf\<close> on a format of characters and plain numeric conversions ends and leaves
  in the buffer, as a string, the characters of the format with each conversion replaced by
  its number. It looks at the byte behind the NUL of the format too, so that byte must not be
  a percent sign, and copies it behind the NUL of the output.
\<close>

theorem vsprintf_prints:
  assumes "s = fmt_bytes items" "cstr m fmt s" "fmt_ok items args" "m (fmt + of_nat (Suc (length s))) \<noteq> 37"
    and "buf \<noteq> 0" "fmt \<noteq> 0" "length s + 2 < 2 ^ 32" "length (printed items args) + 2 < 2 ^ 32"
    and "no_overlap (length (printed items args) + 2) buf (Suc (Suc (length s))) fmt"
    and "\<forall>j<Suc (Suc (length s)). 1024 \<le> unat (fmt + of_nat j - tmp)"
  shows "\<exists>m'. vsprintf tmp buf fmt args m = Some (of_nat (length s + 2), m') \<and>
    cstr m' buf (printed items args) \<and>
    m' (buf + of_nat (Suc (length (printed items args)))) = m (fmt + of_nat (Suc (length s)))"
  by (rule vsprintf_text [OF assms])

lemma no_overlapI:
  assumes "unat q + n \<le> unat p" "unat p + k \<le> 2 ^ 32"
  shows "no_overlap k p n q"
  unfolding no_overlap_def
proof (intro allI impI notI)
  fix i j
  assume "i < k" "j < n" and e: "p + of_nat i = q + of_nat j"
  have "unat (p + of_nat i) = unat p + i" by (rule unat_add_no_wrap) (use assms \<open>i < k\<close> in simp)
  moreover have "unat (q + of_nat j) = unat q + j"
    by (rule unat_add_no_wrap) (use assms \<open>i < k\<close> \<open>j < n\<close> in simp)
  ultimately show False using assms \<open>j < n\<close> e by simp
qed

definition sample_format :: bmem where
  "sample_format = (\<lambda>_. 0)(4096 := 110, 4097 := 61, 4098 := 37, 4099 := 117)"

abbreviation sample_items :: "item list" where
  "sample_items \<equiv> [Lit 110, Lit 61, Num 117]"

lemma sample_facts:
  "[110, 61, 37, 117] = fmt_bytes sample_items" "cstr sample_format 4096 [110, 61, 37, 117]"
  "fmt_ok sample_items [42]" "sample_format (4096 + of_nat (Suc (length [110 :: u8, 61, 37, 117]))) \<noteq> 37"
  "printed sample_items [42] = [110, 61, 52, 50]"
  "no_overlap (length (printed sample_items [42]) + 2) 8192 (Suc (Suc (length [110 :: u8, 61, 37, 117]))) 4096"
  "\<forall>j<Suc (Suc (length [110 :: u8, 61, 37, 117])). 1024 \<le> unat (4096 + of_nat j - 1024 :: u32)"
proof -
  have f: "field 42 10 (-1) (-1) 0 = [52, 50]" by code_simp
  show pr: "printed sample_items [42] = [110, 61, 52, 50]" by (simp add: format_of_def f)
  show "[110, 61, 37, 117] = fmt_bytes sample_items" "fmt_ok sample_items [42]"
    by (simp_all add: format_of_def)
  show "cstr sample_format 4096 [110, 61, 37, 117]"
    "sample_format (4096 + of_nat (Suc (length [110 :: u8, 61, 37, 117]))) \<noteq> 37"
    by (simp_all add: sample_format_def)
  show "no_overlap (length (printed sample_items [42]) + 2) 8192 (Suc (Suc (length [110 :: u8, 61, 37, 117]))) 4096"
    unfolding pr by (rule no_overlapI) simp_all
  show "\<forall>j<Suc (Suc (length [110 :: u8, 61, 37, 117])). 1024 \<le> unat (4096 + of_nat j - 1024 :: u32)"
  proof (intro allI impI)
    fix j assume "j < Suc (Suc (length [110 :: u8, 61, 37, 117]))"
    then have "unat (3072 + of_nat j :: u32) = 3072 + j"
      using unat_add_no_wrap [of 3072 j] by simp
    then show "1024 \<le> unat (4096 + of_nat j - 1024 :: u32)" by (simp add: algebra_simps)
  qed
qed

theorem vsprintf_prints_witness:
  "\<exists>m'. vsprintf 1024 8192 4096 [42] sample_format = Some (6, m') \<and> cstr m' 8192 [110, 61, 52, 50]"
  using vsprintf_prints [OF sample_facts(1-4) _ _ _ _ sample_facts(6,7)] unfolding sample_facts(5)
  by simp blast

end
