(* ===== verification/Rb_Print.thy ===== *)
theory Rb_Print
  imports Rb_Remove Vsprintf
begin

text \<open>
  \<open>print_tree\<close> of \<^verbatim>\<open>kernel/rb_tree.c\<close>, which draws a tree into a grid of characters before it
  prints the rows. Indices are the integers of the code, so that a write outside the array is
  visible as one outside the bounds. The label of a node is what \<open>sprintf\<close> makes of its format,
  with \<open>number\<close> of \<^verbatim>\<open>kernel/vsprintf.c\<close> for its two conversions.
\<close>

section \<open>Drawing\<close>

type_synonym grid = "int \<Rightarrow> int \<Rightarrow> u8"

definition GRID_HEIGHT :: int where "GRID_HEIGHT = 30"

definition GRID_WIDTH :: int where "GRID_WIDTH = 255"

definition put :: "int \<Rightarrow> int \<Rightarrow> u8 \<Rightarrow> grid \<Rightarrow> grid" where
  "put r c ch s = s(r := (s r)(c := ch))"

text \<open>The loops that write \<open>n\<close> characters from column \<open>c\<close> on.\<close>

fun draw :: "int \<Rightarrow> int \<Rightarrow> (nat \<Rightarrow> u8) \<Rightarrow> nat \<Rightarrow> grid \<Rightarrow> grid" where
  "draw r c f 0 s = s"
| "draw r c f (Suc n) s = put r (c + int n) (f n) (draw r c f n s)"

text \<open>The buffer \<open>b\<close>, printed with \<^verbatim>\<open>"(0x%06x-%02d-%c)"\<close>.\<close>

definition node_label :: "u32 \<Rightarrow> nat \<Rightarrow> bool \<Rightarrow> u8 list" where
  "node_label data dup red = [40, 48, 120] @ snd (number data 16 6 (-1) ZEROS) @ [45] @
     snd (number (of_nat dup) 10 2 (-1) (ZEROS OR SIGNED)) @ [45, if red then 82 else 66, 41]"

partial_function (option) count_dups :: "mem \<Rightarrow> u32 \<Rightarrow> nat \<Rightarrow> nat option" where
  "count_dups m tmp dup = (if tmp \<noteq> 0 then count_dups m (get_link m tmp 2) (dup + 1) else Some dup)"

partial_function (option) print_subtree ::
  "mem \<Rightarrow> u32 \<Rightarrow> bool \<Rightarrow> int \<Rightarrow> int \<Rightarrow> grid \<Rightarrow> (int \<times> grid) option" where
  "print_subtree m node is_left offset depth s =
     (if node = 0 then Some (0, s)
      else do {
        dup \<leftarrow> count_dups m (get_link m node 2) 0;
        (left, s) \<leftarrow> print_subtree m (get_link m node 0) True offset (depth + 1) s;
        (right, s) \<leftarrow> print_subtree m (get_link m node 1) False (offset + left + 15) (depth + 1) s;
        let s = draw (2 * depth) (offset + left) (nth (node_label (rb_data m node) dup (is_red m node))) 15 s;
        let r = 2 * depth - 1;
        Some (left + 15 + right,
          if depth \<noteq> 0 \<and> is_left
          then put r (offset + left + 15 + right + 7) 43 (put r (offset + left + 7) 43
                 (draw r (offset + left + 7) (\<lambda>_. 45) (nat (15 + right)) s))
          else if depth \<noteq> 0
          then put r (offset - 7 - 1) 43 (put r (offset + left + 7) 43
                 (draw r (offset - 7) (\<lambda>_. 45) (nat (left + 15)) s))
          else s)
      })"

text \<open>The rows are cleared first, and the blanks at their ends are cut off in the end.\<close>

definition clear_rows :: "int \<Rightarrow> grid \<Rightarrow> grid" where
  "clear_rows n s = (\<lambda>i j. if 0 \<le> i \<and> i < n \<and> 0 \<le> j \<and> j < GRID_WIDTH - 1 then 32
     else if 0 \<le> i \<and> i < n \<and> j = GRID_WIDTH - 1 then 0 else s i j)"

partial_function (option) cut_row :: "int \<Rightarrow> int \<Rightarrow> grid \<Rightarrow> grid option" where
  "cut_row i j s = (if s i (j - 1) = 32 then cut_row i (j - 1) (put i (j - 1) 0 s) else Some s)"

fun cut_rows :: "nat \<Rightarrow> grid \<Rightarrow> grid option" where
  "cut_rows 0 s = Some s"
| "cut_rows (Suc i) s = Option.bind (cut_rows i s) (cut_row (int i) (GRID_WIDTH - 1))"

definition print_tree :: "mem \<Rightarrow> 'a rb_tree \<Rightarrow> grid \<Rightarrow> grid option" where
  "print_tree m tree s = do {
     h \<leftarrow> height (root tree) m;
     if \<not> h * 2 - 1 < GRID_HEIGHT then None
     else do {
       (_, s) \<leftarrow> print_subtree m (root tree) False 0 0 (clear_rows (h * 2 - 1) s);
       cut_rows (nat (h * 2 - 1)) s
     }
   }"

section \<open>Where it draws\<close>

text \<open>
  A grid \<open>s'\<close> that comes from \<open>s\<close> by drawing characters other than blanks in a rectangle of
  the rows \<open>r\<close> to \<open>r'\<close> and the columns \<open>c\<close> to \<open>c'\<close>, the ends excluded.
\<close>

definition drawn :: "int \<Rightarrow> int \<Rightarrow> int \<Rightarrow> int \<Rightarrow> grid \<Rightarrow> grid \<Rightarrow> bool" where
  "drawn r r' c c' s s' \<longleftrightarrow>
     (\<forall>i j. s' i j = s i j \<or> s' i j \<noteq> 32 \<and> r \<le> i \<and> i < r' \<and> c \<le> j \<and> j < c')"

lemma drawn_refl [simp]: "drawn r r' c c' s s"
  by (simp add: drawn_def)

lemma drawn_trans: "drawn r r' c c' s t \<Longrightarrow> drawn r r' c c' t u \<Longrightarrow> drawn r r' c c' s u"
  unfolding drawn_def by metis

lemma drawn_mono:
  "drawn r r' c c' s t \<Longrightarrow> R \<le> r \<Longrightarrow> r' \<le> R' \<Longrightarrow> C \<le> c \<Longrightarrow> c' \<le> C' \<Longrightarrow> drawn R R' C C' s t"
  unfolding drawn_def by (meson order.strict_trans2 order_trans)

lemma drawn_put: "ch \<noteq> 32 \<Longrightarrow> r \<le> i \<Longrightarrow> i < r' \<Longrightarrow> c \<le> j \<Longrightarrow> j < c' \<Longrightarrow> drawn r r' c c' s (put i j ch s)"
  by (auto simp: drawn_def put_def)

lemma drawn_draw:
  "\<forall>k<n. f k \<noteq> 32 \<Longrightarrow> r \<le> i \<Longrightarrow> i < r' \<Longrightarrow> c \<le> j \<Longrightarrow> j + int n \<le> c' \<Longrightarrow> drawn r r' c c' s (draw i j f n s)"
proof (induction n)
  case (Suc n)
  have "drawn r r' c c' s (draw i j f n s)" using Suc by simp
  then show ?case using drawn_put [of "f n" r i r' c "j + int n" c'] Suc.prems by (auto intro: drawn_trans)
qed simp

lemma draw_first: "0 < n \<Longrightarrow> draw i j f n s i j = f 0"
  by (induction n) (auto simp: put_def gr0_conv_Suc)

lemma field_length: "nat width \<le> length (field num base width precision flags)"
proof -
  have "w \<le> s + (p + (q - d + (d + (w - (s + p + max q d)))))" "w \<le> s + (p + (w - (s + p + max q d) + (q - d) + d))"
    "w \<le> w - (s + p + max q d) + (s + (p + (q - d + d)))" for w s p q d :: nat by auto
  then show ?thesis by (simp add: field_def Let_def)
qed

lemma field_no_blank:
  assumes "2 \<le> base" "base \<le> 36" "flag flags ZEROS" "\<not> flag flags LEFT" "\<not> flag flags SPACE"
  shows "32 \<notin> set (field num base width precision flags)"
proof -
  have "t ! d \<noteq> 32" if "d \<in> set (rdigits (unat base) n)" "t = digits_lower \<or> t = digits_upper" for d n t
  proof -
    have "2 \<le> unat base" "unat base \<le> 36" using assms(1,2) by (auto simp: word_le_nat_alt)
    then have "d < 36" using rdigits_less [of "unat base" n] that(1) by fastforce
    moreover have "32 \<notin> set digits_lower" "32 \<notin> set digits_upper" "length digits_lower = 36" "length digits_upper = 36"
      by (simp_all add: digits_lower_def digits_upper_def)
    ultimately show ?thesis using that(2) by (metis nth_mem)
  qed
  then show ?thesis using assms(3-5)
    by (auto simp: field_code [OF assms(1,2)] Let_def sign_of_def number_prefix_def image_iff)
qed

lemma node_label_chars: "i < 15 \<Longrightarrow> node_label data dup red ! i \<noteq> 32"
proof -
  assume i: "i < 15"
  let ?x = "field data 16 6 (-1) ZEROS" and ?d = "field (of_nat dup) 10 2 (-1) (ZEROS OR SIGNED)"
  have l: "node_label data dup red = [40, 48, 120] @ ?x @ [45] @ ?d @ [45, if red then 82 else 66, 41]"
    by (simp add: node_label_def number_field)
  have "32 \<notin> set ?x" "32 \<notin> set ?d"
    by (rule field_no_blank; simp add: flag_def ZEROS_def SIGNED_def LEFT_def SPACE_def)+
  then have "32 \<notin> set (node_label data dup red)" by (auto simp: l)
  moreover have "15 \<le> length (node_label data dup red)"
    using field_length [of 6 data 16 "-1" ZEROS] field_length [of 2 "of_nat dup" 10 "-1" "ZEROS OR SIGNED"] by (simp add: l)
  ultimately show ?thesis using i by (metis nth_mem order.strict_trans2)
qed

lemma count_dups_list: "dup_list m p ds \<Longrightarrow> 0 \<notin> set ds \<Longrightarrow> count_dups m p k = Some (k + length ds)"
  by (induction ds arbitrary: p k) (subst count_dups.simps, simp)+

fun nodes_of :: "rbt \<Rightarrow> nat" where
  "nodes_of E = 0"
| "nodes_of (N l a c ds r) = nodes_of l + 1 + nodes_of r"

text \<open>The columns a subtree draws in: the line to its parent leads out of its own width.\<close>

definition first_col :: "bool \<Rightarrow> int \<Rightarrow> int \<Rightarrow> int" where
  "first_col is_left offset depth = (if depth \<noteq> 0 \<and> \<not> is_left then offset - 8 else offset)"

definition end_col :: "bool \<Rightarrow> int \<Rightarrow> int \<Rightarrow> rbt \<Rightarrow> int" where
  "end_col is_left offset depth t = offset + 15 * int (nodes_of t) + (if depth \<noteq> 0 \<and> is_left then 8 else 0)"

text \<open>Every row of the subtree has a character that is not a blank.\<close>

definition rows_used :: "int \<Rightarrow> int \<Rightarrow> int \<Rightarrow> int \<Rightarrow> grid \<Rightarrow> bool" where
  "rows_used r r' c c' s \<longleftrightarrow> (\<forall>i. r \<le> i \<and> i < r' \<longrightarrow> (\<exists>j. c \<le> j \<and> j < c' \<and> s i j \<noteq> 32))"

lemma drawn_stays: "drawn r r' c c' s t \<Longrightarrow> s i j \<noteq> 32 \<Longrightarrow> t i j \<noteq> 32"
  unfolding drawn_def by metis

lemma tree_height_pos: "0 \<le> tree_height t"
  by (induction t) auto

definition first_row :: "int \<Rightarrow> int" where
  "first_row depth = (if depth = 0 then 0 else 2 * depth - 1)"

text \<open>The line from a node to its parent.\<close>

definition connect :: "bool \<Rightarrow> int \<Rightarrow> int \<Rightarrow> int \<Rightarrow> int \<Rightarrow> grid \<Rightarrow> grid" where
  "connect is_left offset depth left right s =
     (let r = 2 * depth - 1
      in if depth \<noteq> 0 \<and> is_left
         then put r (offset + left + 15 + right + 7) 43 (put r (offset + left + 7) 43
                (draw r (offset + left + 7) (\<lambda>_. 45) (nat (15 + right)) s))
         else if depth \<noteq> 0
         then put r (offset - 7 - 1) 43 (put r (offset + left + 7) 43
                (draw r (offset - 7) (\<lambda>_. 45) (nat (left + 15)) s))
         else s)"

lemma connect_drawn:
  assumes "0 \<le> depth" "0 \<le> left" "0 \<le> right" "2 * depth < r'"
  shows "drawn (first_row depth) r' (first_col is_left offset depth)
      (offset + left + 15 + right + (if depth \<noteq> 0 \<and> is_left then 8 else 0)) s (connect is_left offset depth left right s)"
    "depth \<noteq> 0 \<Longrightarrow> connect is_left offset depth left right s (2 * depth - 1) (offset + left + 7) \<noteq> 32"
proof -
  show "drawn (first_row depth) r' (first_col is_left offset depth)
      (offset + left + 15 + right + (if depth \<noteq> 0 \<and> is_left then 8 else 0)) s (connect is_left offset depth left right s)"
    using assms unfolding connect_def Let_def
    by (auto simp: first_row_def first_col_def intro!: drawn_trans [OF _ drawn_put] drawn_draw)
  show "depth \<noteq> 0 \<Longrightarrow> connect is_left offset depth left right s (2 * depth - 1) (offset + left + 7) \<noteq> 32"
    using assms by (auto simp: connect_def put_def Let_def)
qed

lemma print_subtree_draws:
  assumes sep: "separated S"
  shows "rep m p t \<Longrightarrow> set (addrs t) \<subseteq> S \<Longrightarrow> 0 \<le> depth \<Longrightarrow>
    \<exists>s'. print_subtree m p is_left offset depth s = Some (15 * int (nodes_of t), s') \<and>
      drawn (first_row depth) (2 * (depth + tree_height t) - 1) (first_col is_left offset depth)
        (end_col is_left offset depth t) s s' \<and>
      rows_used (first_row depth) (2 * (depth + tree_height t) - 1) (first_col is_left offset depth)
        (end_col is_left offset depth t) s'"
proof (induction t arbitrary: p is_left offset depth s)
  case E
  then show ?case by (subst print_subtree.simps) (auto simp: rows_used_def first_row_def)
next
  case (N l a c ds r)
  let ?h = "tree_height (N l a c ds r)" and ?C = "first_col is_left offset depth"
    and ?C' = "end_col is_left offset depth (N l a c ds r)" and ?L = "15 * int (nodes_of l)" and ?R = "15 * int (nodes_of r)"
  let ?r' = "2 * (depth + ?h) - 1"
  have a: "a \<noteq> 0" "0 \<notin> set ds" using N.prems(2) sep by (auto dest: separated_nz)
  have rp: "p = a" "rep m (get_link m a 0) l" "rep m (get_link m a 1) r" "dup_list m (get_link m a 2) ds"
    "set (addrs l) \<subseteq> S" "set (addrs r) \<subseteq> S" "0 \<le> depth + 1" using N.prems by auto
  have cd: "count_dups m (get_link m a 2) 0 = Some (length ds)" using count_dups_list [OF rp(4) a(2)] by simp
  obtain s1 where s1: "print_subtree m (get_link m a 0) True offset (depth + 1) s = Some (?L, s1)"
    "drawn (first_row (depth + 1)) (2 * (depth + 1 + tree_height l) - 1) (first_col True offset (depth + 1))
      (end_col True offset (depth + 1) l) s s1"
    "rows_used (first_row (depth + 1)) (2 * (depth + 1 + tree_height l) - 1) (first_col True offset (depth + 1))
      (end_col True offset (depth + 1) l) s1"
    using N.IH(1) [OF rp(2,5,7)] by blast
  obtain s2 where s2: "print_subtree m (get_link m a 1) False (offset + ?L + 15) (depth + 1) s1 = Some (?R, s2)"
    "drawn (first_row (depth + 1)) (2 * (depth + 1 + tree_height r) - 1) (first_col False (offset + ?L + 15) (depth + 1))
      (end_col False (offset + ?L + 15) (depth + 1) r) s1 s2"
    "rows_used (first_row (depth + 1)) (2 * (depth + 1 + tree_height r) - 1) (first_col False (offset + ?L + 15) (depth + 1))
      (end_col False (offset + ?L + 15) (depth + 1) r) s2"
    using N.IH(2) [OF rp(3,6,7)] by blast
  define s3 where "s3 = draw (2 * depth) (offset + ?L) (nth (node_label (rb_data m a) (length ds) (is_red m a))) 15 s2"
  define s4 where "s4 = connect is_left offset depth ?L ?R s3"
  have e: "print_subtree m p is_left offset depth s = Some (15 * int (nodes_of (N l a c ds r)), s4)"
    using a(1) cd s1(1) s2(1)
    by (subst print_subtree.simps) (simp add: rp(1) s3_def s4_def connect_def Let_def algebra_simps)
  note hp = tree_height_pos [of l] tree_height_pos [of r]
  have row: "2 * depth < ?r'" using hp by simp
  have d1: "drawn (first_row depth) ?r' ?C ?C' s s1"
    by (rule drawn_mono [OF s1(2)]) (use N.prems(3) in \<open>auto simp: first_row_def first_col_def end_col_def\<close>)
  have d2: "drawn (first_row depth) ?r' ?C ?C' s1 s2"
    by (rule drawn_mono [OF s2(2)]) (use N.prems(3) in \<open>auto simp: first_row_def first_col_def end_col_def\<close>)
  have d3: "drawn (first_row depth) ?r' ?C ?C' s2 s3"
    unfolding s3_def by (rule drawn_draw) (use node_label_chars N.prems(3) row in \<open>auto simp: first_row_def first_col_def end_col_def\<close>)
  have cn: "drawn (first_row depth) ?r' ?C (offset + ?L + 15 + ?R + (if depth \<noteq> 0 \<and> is_left then 8 else 0)) s3 s4"
    unfolding s4_def by (rule connect_drawn(1)) (use N.prems(3) row in auto)
  then have d4: "drawn (first_row depth) ?r' ?C ?C' s3 s4" by (simp add: end_col_def algebra_simps)
  have dr: "drawn (first_row depth) ?r' ?C ?C' s s4" using d1 d2 d3 d4 by (blast intro: drawn_trans)
  have ru: "\<exists>j. ?C \<le> j \<and> j < ?C' \<and> s4 i j \<noteq> 32" if i: "first_row depth \<le> i" "i < ?r'" for i
  proof -
    consider (line) "i = 2 * depth - 1" "depth \<noteq> 0" | (label) "i = 2 * depth" | (left) "2 * depth < i" "i < 2 * (depth + 1 + tree_height l) - 1"
      | (right) "2 * depth < i" "i < 2 * (depth + 1 + tree_height r) - 1"
    proof -
      have "i = 2 * depth - 1 \<and> depth \<noteq> 0 \<or> i = 2 * depth \<or> 2 * depth < i" using i(1) by (auto simp: first_row_def split: if_splits)
      moreover have "i < 2 * (depth + 1 + tree_height l) - 1 \<or> i < 2 * (depth + 1 + tree_height r) - 1"
        using i(2) by (simp add: max_def split: if_splits)
      ultimately show thesis using that by blast
    qed
    then show ?thesis
    proof cases
      case line
      then have "s4 i (offset + ?L + 7) \<noteq> 32"
        unfolding s4_def using connect_drawn(2) [of depth ?L ?R ?r'] N.prems(3) row by simp
      then show ?thesis using line by (intro exI [of _ "offset + ?L + 7"]) (auto simp: first_col_def end_col_def)
    next
      case label
      have "s3 i (offset + ?L) \<noteq> 32" using node_label_chars by (simp add: s3_def label draw_first)
      then have "s4 i (offset + ?L) \<noteq> 32" by (rule drawn_stays [OF d4])
      then show ?thesis by (intro exI [of _ "offset + ?L"]) (auto simp: first_col_def end_col_def)
    next
      case left
      then have "first_row (depth + 1) \<le> i" using N.prems(3) by (simp add: first_row_def)
      then obtain j where j: "first_col True offset (depth + 1) \<le> j" "j < end_col True offset (depth + 1) l" "s1 i j \<noteq> 32"
        using s1(3) left unfolding rows_used_def by blast
      have "s4 i j \<noteq> 32" using drawn_stays [OF d4 drawn_stays [OF d3 drawn_stays [OF d2 j(3)]]] .
      then show ?thesis using j N.prems(3) by (intro exI [of _ j]) (auto simp: first_col_def end_col_def)
    next
      case right
      then have "first_row (depth + 1) \<le> i" using N.prems(3) by (simp add: first_row_def)
      then obtain j where j: "first_col False (offset + ?L + 15) (depth + 1) \<le> j"
        "j < end_col False (offset + ?L + 15) (depth + 1) r" "s2 i j \<noteq> 32"
        using s2(3) right unfolding rows_used_def by blast
      have "s4 i j \<noteq> 32" using drawn_stays [OF d4 drawn_stays [OF d3 j(3)]] .
      then show ?thesis using j N.prems(3) by (intro exI [of _ j]) (auto simp: first_col_def end_col_def)
    qed
  qed
  show ?case using e dr ru unfolding rows_used_def by blast
qed

section \<open>Cutting the rows\<close>

text \<open>A row cut in column \<open>k\<close>, after the last character that is not a blank.\<close>

definition row_cut :: "int \<Rightarrow> int \<Rightarrow> int \<Rightarrow> grid \<Rightarrow> grid \<Rightarrow> bool" where
  "row_cut i e k s s' \<longleftrightarrow> 0 < k \<and> k \<le> e \<and> s i (k - 1) \<noteq> 32 \<and>
     s' i = (\<lambda>j. if k \<le> j \<and> j < e then 0 else s i j)"

lemma cut_row_ok:
  "0 \<le> j0 \<Longrightarrow> j0 < e \<Longrightarrow> s i j0 \<noteq> 32 \<Longrightarrow>
   \<exists>s' k. cut_row i e s = Some s' \<and> row_cut i e k s s' \<and> (\<forall>i'. i' \<noteq> i \<longrightarrow> s' i' = s i')"
proof (induction "nat e" arbitrary: e s)
  case (Suc n)
  show ?case
  proof (cases "s i (e - 1) = 32")
    case True
    let ?s = "put i (e - 1) 0 s"
    have j0: "j0 < e - 1" using Suc.prems True by (cases "j0 = e - 1") auto
    then have "?s i j0 \<noteq> 32" "n = nat (e - 1)" using Suc by (auto simp: put_def)
    then obtain s' k where h: "cut_row i (e - 1) ?s = Some s'" "row_cut i (e - 1) k ?s s'" "\<forall>i'. i' \<noteq> i \<longrightarrow> s' i' = ?s i'"
      using Suc.hyps(1) [of "e - 1" ?s] Suc.prems(1) j0 by blast
    have "row_cut i e k s s'" using h(2) by (auto simp: row_cut_def put_def fun_eq_iff)
    moreover have "cut_row i e s = Some s'" using h(1) True by (subst cut_row.simps) simp
    ultimately show ?thesis using h(3) by (auto simp: put_def)
  next
    case False
    then have "cut_row i e s = Some s" by (subst cut_row.simps) simp
    then show ?thesis using False Suc.prems by (auto simp: row_cut_def fun_eq_iff intro!: exI [of _ e])
  qed
qed simp

lemma cut_rows_ok:
  "\<forall>i<n. \<exists>j. 0 \<le> j \<and> j < GRID_WIDTH - 1 \<and> s (int i) j \<noteq> 32 \<Longrightarrow>
   \<exists>s'. cut_rows n s = Some s' \<and> (\<forall>i<n. \<exists>k. row_cut (int i) (GRID_WIDTH - 1) k s s') \<and>
     (\<forall>i. i < 0 \<or> int n \<le> i \<longrightarrow> s' i = s i)"
proof (induction n)
  case (Suc n)
  then obtain s1 where s1: "cut_rows n s = Some s1" "\<forall>i<n. \<exists>k. row_cut (int i) (GRID_WIDTH - 1) k s s1"
    "\<forall>i. i < 0 \<or> int n \<le> i \<longrightarrow> s1 i = s i" by (meson less_SucI)
  have sn: "s1 (int n) = s (int n)" using s1(3) by simp
  obtain j where "0 \<le> j" "j < GRID_WIDTH - 1" "s1 (int n) j \<noteq> 32" using Suc.prems sn by auto
  then obtain s2 k where s2: "cut_row (int n) (GRID_WIDTH - 1) s1 = Some s2" "row_cut (int n) (GRID_WIDTH - 1) k s1 s2"
    "\<forall>i. i \<noteq> int n \<longrightarrow> s2 i = s1 i" using cut_row_ok by blast
  have "\<exists>k. row_cut (int i) (GRID_WIDTH - 1) k s s2" if "i < Suc n" for i
  proof (cases "i = n")
    case True
    have "row_cut (int n) (GRID_WIDTH - 1) k s s2" using s2(2) unfolding row_cut_def sn .
    then show ?thesis using True by blast
  next
    case False
    then have "i < n" "s2 (int i) = s1 (int i)" using that s2(3) by auto
    then show ?thesis using s1(2) by (auto simp: row_cut_def)
  qed
  moreover have "\<forall>i. i < 0 \<or> int (Suc n) \<le> i \<longrightarrow> s2 i = s i" using s1(3) s2(3) by simp
  ultimately show ?case using s1(1) s2(1) by simp
qed simp

section \<open>The whole tree\<close>

lemma print_tree_runs:
  assumes "separated (set (addrs t))" "rep m (root tree) t" "nodes_of t \<le> 16" "tree_height t * 2 - 1 < GRID_HEIGHT"
    and n: "n = tree_height t * 2 - 1"
  shows "\<exists>s1 s2. print_tree m tree s = Some s2 \<and> drawn 0 n 0 (GRID_WIDTH - 1) (clear_rows n s) s1 \<and>
    (\<forall>i. 0 \<le> i \<and> i < n \<longrightarrow> (\<exists>k. row_cut i (GRID_WIDTH - 1) k s1 s2)) \<and> (\<forall>i. i < 0 \<or> n \<le> i \<longrightarrow> s2 i = s1 i)"
proof -
  let ?w = "15 * int (nodes_of t)"
  have h: "height (root tree) m = Some (tree_height t)" by (rule height_rep [OF assms(2,1)]) simp
  obtain s1 where s1: "print_subtree m (root tree) False 0 0 (clear_rows n s) = Some (?w, s1)"
    "drawn 0 n 0 ?w (clear_rows n s) s1" "rows_used 0 n 0 ?w s1"
    using print_subtree_draws [OF assms(1,2) order_refl, of 0 False 0 "clear_rows n s"]
    by (auto simp: first_row_def first_col_def end_col_def algebra_simps n)
  have w: "?w \<le> GRID_WIDTH - 1" using assms(3) by (simp add: GRID_WIDTH_def)
  have "\<exists>j. 0 \<le> j \<and> j < GRID_WIDTH - 1 \<and> s1 (int i) j \<noteq> 32" if "i < nat n" for i
  proof -
    have "0 \<le> int i" "int i < n" using that by auto
    then obtain j where "0 \<le> j" "j < ?w" "s1 (int i) j \<noteq> 32" using s1(3) unfolding rows_used_def by blast
    then show ?thesis using w by (intro exI [of _ j]) simp
  qed
  then obtain s2 where s2: "cut_rows (nat n) s1 = Some s2" "\<forall>i<nat n. \<exists>k. row_cut (int i) (GRID_WIDTH - 1) k s1 s2"
    "\<forall>i. i < 0 \<or> int (nat n) \<le> i \<longrightarrow> s2 i = s1 i" using cut_rows_ok by blast
  have "\<exists>k. row_cut i (GRID_WIDTH - 1) k s1 s2" if "0 \<le> i \<and> i < n" for i
    using s2(2) [rule_format, of "nat i"] that by simp
  moreover have "s2 i = s1 i" if "i < 0 \<or> n \<le> i" for i
    by (rule s2(3) [rule_format]) (use that in auto)
  moreover have "print_tree m tree s = Some s2" using h s1(1) s2(1) assms(4) by (simp add: print_tree_def n)
  moreover have "drawn 0 n 0 (GRID_WIDTH - 1) (clear_rows n s) s1" by (rule drawn_mono [OF s1(2)]) (use w in auto)
  ultimately show ?thesis by blast
qed

lemma cleared_outside:
  assumes "drawn 0 n 0 (GRID_WIDTH - 1) (clear_rows n s) s1" "\<not> (0 \<le> i \<and> i < n \<and> 0 \<le> j \<and> j < GRID_WIDTH)"
  shows "s1 i j = s i j"
proof -
  have "s1 i j = clear_rows n s i j \<or> 0 \<le> i \<and> i < n \<and> 0 \<le> j \<and> j < GRID_WIDTH - 1"
    using assms(1) unfolding drawn_def by blast
  then have "s1 i j = clear_rows n s i j" using assms(2) by auto
  then show ?thesis using assms(2) by (auto simp: clear_rows_def GRID_WIDTH_def)
qed

lemma cleared_last:
  assumes "drawn 0 n 0 (GRID_WIDTH - 1) (clear_rows n s) s1" "0 \<le> i" "i < n"
  shows "s1 i (GRID_WIDTH - 1) = 0"
proof -
  have "s1 i (GRID_WIDTH - 1) = clear_rows n s i (GRID_WIDTH - 1)" using assms(1) unfolding drawn_def by (meson less_irrefl)
  then show ?thesis using assms(2,3) by (simp add: clear_rows_def)
qed

text \<open>
  C39: \<open>print_tree\<close> of a tree of at most sixteen nodes that its assertion lets through returns,
  writes inside the \<open>HEIGHT\<close> rows and \<open>WIDTH\<close> columns of its array only, and leaves each of its
  rows a string: the last column holds the terminating zero and there is no blank in front of
  the zeros at the end.
\<close>

theorem print_tree_in_grid:
  assumes "separated (set (addrs t))" "rep m (root tree) t" "nodes_of t \<le> 16" "tree_height t * 2 - 1 < GRID_HEIGHT"
  shows "\<exists>s'. print_tree m tree s = Some s' \<and>
    (\<forall>i j. s' i j \<noteq> s i j \<longrightarrow> 0 \<le> i \<and> i < GRID_HEIGHT \<and> 0 \<le> j \<and> j < GRID_WIDTH) \<and>
    (\<forall>i. 0 \<le> i \<and> i < tree_height t * 2 - 1 \<longrightarrow>
       (\<exists>k. 0 < k \<and> k < GRID_WIDTH \<and> s' i (k - 1) \<noteq> 32 \<and> (\<forall>j. k \<le> j \<and> j < GRID_WIDTH \<longrightarrow> s' i j = 0)))"
proof -
  define n where "n = tree_height t * 2 - 1"
  obtain s1 s2 where p: "print_tree m tree s = Some s2" and d: "drawn 0 n 0 (GRID_WIDTH - 1) (clear_rows n s) s1"
    and cut: "\<forall>i. 0 \<le> i \<and> i < n \<longrightarrow> (\<exists>k. row_cut i (GRID_WIDTH - 1) k s1 s2)" and rest: "\<forall>i. i < 0 \<or> n \<le> i \<longrightarrow> s2 i = s1 i"
    using print_tree_runs [OF assms n_def] by blast
  have "0 \<le> i \<and> i < n \<and> 0 \<le> j \<and> j < GRID_WIDTH" if ne: "s2 i j \<noteq> s i j" for i j
  proof (rule ccontr)
    assume out: "\<not> (0 \<le> i \<and> i < n \<and> 0 \<le> j \<and> j < GRID_WIDTH)"
    then have "s1 i j = s i j" by (rule cleared_outside [OF d])
    moreover have "s2 i j = s1 i j"
    proof (cases "0 \<le> i \<and> i < n")
      case True
      then obtain k where "row_cut i (GRID_WIDTH - 1) k s1 s2" using cut by blast
      then show ?thesis using out True by (auto simp: row_cut_def)
    qed (use rest in auto)
    ultimately show False using ne by simp
  qed
  moreover have "\<exists>k. 0 < k \<and> k < GRID_WIDTH \<and> s2 i (k - 1) \<noteq> 32 \<and> (\<forall>j. k \<le> j \<and> j < GRID_WIDTH \<longrightarrow> s2 i j = 0)"
    if i: "0 \<le> i \<and> i < n" for i
  proof -
    obtain k where k: "row_cut i (GRID_WIDTH - 1) k s1 s2" using cut i by blast
    have "s2 i j = 0" if "k \<le> j" "j < GRID_WIDTH" for j
      using k that cleared_last [OF d, of i] i by (cases "j = GRID_WIDTH - 1") (auto simp: row_cut_def)
    then show ?thesis using k by (intro exI [of _ k]) (auto simp: row_cut_def)
  qed
  ultimately show ?thesis using p assms(4) unfolding n_def by (intro exI [of _ s2]) fastforce
qed

theorem print_tree_in_grid_witness:
  "\<exists>s' k. print_tree three_nodes (rb_tree.make 0x100 3 0 order_of_data (\<lambda>_ _ _. 1)) (\<lambda>_ _. 7) = Some s' \<and>
     0 < k \<and> k < 255 \<and> s' 4 (k - 1) \<noteq> 32 \<and> s' 4 254 = 0"
proof -
  obtain s' where s: "print_tree three_nodes (rb_tree.make 0x100 3 0 order_of_data (\<lambda>_ _ _. 1)) (\<lambda>_ _. 7) = Some s'"
    and used: "\<forall>i. 0 \<le> i \<and> i < tree_height three_tree * 2 - 1 \<longrightarrow>
       (\<exists>k. 0 < k \<and> k < GRID_WIDTH \<and> s' i (k - 1) \<noteq> 32 \<and> (\<forall>j. k \<le> j \<and> j < GRID_WIDTH \<longrightarrow> s' i j = 0))"
    using print_tree_in_grid [OF three_tree_facts(1), of three_nodes "rb_tree.make 0x100 3 0 order_of_data (\<lambda>_ _ _. 1)" "\<lambda>_ _. 7"]
      three_tree_facts(2) by (auto simp: rb_tree.make_def GRID_HEIGHT_def)
  from used [rule_format, of 4] obtain k where "0 < k" "k < 255" "s' 4 (k - 1) \<noteq> 32" "s' 4 254 = 0"
    by (auto simp: GRID_WIDTH_def)
  with s show ?thesis by blast
qed

end
