(* ===== verification/Frames.thy ===== *)
theory Frames
  imports Kernel_Prelude
begin

text \<open>
  The bitmap of physical frames of \<^verbatim>\<open>kernel/paging.c\<close>. The array \<open>frames\<close> is indexed beyond
  its end by the scanning loops, so it is a total function: past the bitmap it shows whatever
  memory holds there. An \<^verbatim>\<open>int32_t\<close> result is kept as its 32 bits, \<open>-1\<close> being all ones.
\<close>

section \<open>The bitmap\<close>

record frame_state =
  frames :: "nat \<Rightarrow> u32"
  nframes :: u32
  used_frames :: u32

definition FRAME_SIZE :: u32 where "FRAME_SIZE = 0x1000"

definition BIT_TO_IDX :: "u32 \<Rightarrow> nat" where "BIT_TO_IDX b = unat (b div 32)"

definition BIT_TO_OFF :: "u32 \<Rightarrow> nat" where "BIT_TO_OFF b = unat (b mod 32)"

definition test_frame :: "u32 \<Rightarrow> frame_state \<Rightarrow> u32" where
  "test_frame f s = frames s (BIT_TO_IDX f) AND push_bit (BIT_TO_OFF f) 1"

definition set_frame :: "u32 \<Rightarrow> frame_state \<Rightarrow> frame_state" where
  "set_frame f s =
     (if test_frame f s = 0
      then s\<lparr>frames := (frames s)(BIT_TO_IDX f := frames s (BIT_TO_IDX f) OR push_bit (BIT_TO_OFF f) 1),
             used_frames := used_frames s + 1\<rparr>
      else s)"

definition clear_frame :: "u32 \<Rightarrow> frame_state \<Rightarrow> frame_state" where
  "clear_frame f s =
     (if test_frame f s = 1
      then s\<lparr>frames := (frames s)(BIT_TO_IDX f :=
               frames s (BIT_TO_IDX f) AND NOT (push_bit (BIT_TO_OFF f) 1)),
             used_frames := used_frames s - 1\<rparr>
      else s)"

text \<open>The three nested loops of \<open>first_free_frames\<close>, from the inside out.\<close>

function free_run :: "frame_state \<Rightarrow> u32 \<Rightarrow> u32 \<Rightarrow> u32 \<Rightarrow> u32" where
  "free_run s start num count =
     (if count < num
      then if test_frame (start + count) s \<noteq> 0 then count else free_run s start num (count + 1)
      else count)"
  by pat_completeness auto
termination
  by (relation "measure (\<lambda>(s, start, num, count). unat num - unat count)")
    (auto simp: unat_plus_one_less, auto simp: word_less_nat_alt)

declare free_run.simps [simp del]

function scan_word :: "frame_state \<Rightarrow> u32 \<Rightarrow> u32 \<Rightarrow> nat \<Rightarrow> u32 option" where
  "scan_word s num i j =
     (if j < 32
      then if frames s (unat i) AND push_bit j 1 = 0 \<and>
              free_run s (i * 32 + word_of_nat j) num 1 = num
        then Some (i * 32 + word_of_nat j)
        else scan_word s num i (j + 1)
      else None)"
  by pat_completeness auto
termination by (relation "measure (\<lambda>(s, num, i, j). 32 - j)") auto

declare scan_word.simps [simp del]

function scan_words :: "frame_state \<Rightarrow> u32 \<Rightarrow> u32 \<Rightarrow> u32" where
  "scan_words s num i =
     (if i < nframes s
      then case (if frames s (unat i) \<noteq> 0xffffffff then scan_word s num i 0 else None) of
          Some f \<Rightarrow> f
        | None \<Rightarrow> scan_words s num (i + 1)
      else -1)"
  by pat_completeness auto
termination
  by (relation "measure (\<lambda>(s, num, i). unat (nframes s) - unat i)")
    (auto simp: unat_plus_one_less, auto simp: word_less_nat_alt)

declare scan_words.simps [simp del]

definition first_free_frames :: "u32 \<Rightarrow> frame_state \<Rightarrow> u32" where
  "first_free_frames num s = (if num = 0 then -1 else scan_words s num 0)"

definition first_free_frame :: "frame_state \<Rightarrow> u32" where
  "first_free_frame s = first_free_frames 1 s"

definition memory_used :: "frame_state \<Rightarrow> u32" where
  "memory_used s =
     fold (\<lambda>i count. fold (\<lambda>j count. if frames s i AND push_bit j 1 \<noteq> 0 then count + 1 else count)
        [0..<32] count) [0..<unat (nframes s)] 0 * FRAME_SIZE"

definition memory_total :: "frame_state \<Rightarrow> u32" where
  "memory_total s = nframes s * FRAME_SIZE"

definition paging_mark_reserved :: "u32 \<Rightarrow> frame_state \<Rightarrow> frame_state" where
  "paging_mark_reserved addr s = set_frame (addr div FRAME_SIZE) s"

section \<open>Frames as a set of bits\<close>

definition frame_bit :: "frame_state \<Rightarrow> nat \<Rightarrow> bool" where
  "frame_bit s f \<longleftrightarrow> bit (frames s (f div 32)) (f mod 32)"

lemma idx_off [simp]: "BIT_TO_IDX f = unat f div 32" "BIT_TO_OFF f = unat f mod 32"
  by (simp_all add: BIT_TO_IDX_def BIT_TO_OFF_def unat_div unat_mod)

lemma test_frame_zero [simp]: "test_frame f s = 0 \<longleftrightarrow> \<not> frame_bit s (unat f)"
  by (simp add: test_frame_def frame_bit_def and_exp_eq_0_iff_not_bit)

lemma test_frame_one: "test_frame f s = 1 \<longleftrightarrow> frame_bit s (unat f) \<and> unat f mod 32 = 0"
proof -
  let ?w = "frames s (unat f div 32)" and ?k = "unat f mod 32"
  have "(2::u32) ^ ?k = 1 \<longleftrightarrow> ?k = 0" by (auto simp: power_two_one)
  then show ?thesis by (auto simp: test_frame_def frame_bit_def and_power_two)
qed

lemma div_mod_eq: "(f::nat) div 32 = g div 32 \<Longrightarrow> f mod 32 = g mod 32 \<Longrightarrow> f = g"
  by (metis div_mult_mod_eq)

lemma frame_bit_set [simp]:
  "frame_bit (set_frame f s) g \<longleftrightarrow> frame_bit s g \<or> g = unat f"
  using div_mod_eq [of g "unat f"]
  by (auto simp: set_frame_def frame_bit_def bit_simps)

text \<open>What \<open>clear_frame\<close> does: its test compares the mask with 1.\<close>

lemma frame_bit_clear [simp]:
  "frame_bit (clear_frame f s) g \<longleftrightarrow> frame_bit s g \<and> \<not> (g = unat f \<and> unat f mod 32 = 0)"
  using div_mod_eq [of g "unat f"]
  by (cases "g mod 32 = 0") (auto simp: clear_frame_def test_frame_one frame_bit_def bit_simps)

lemma set_frame_others [simp]: "nframes (set_frame f s) = nframes s"
  by (simp add: set_frame_def)

lemma clear_frame_others [simp]: "nframes (clear_frame f s) = nframes s"
  by (simp add: clear_frame_def)

section \<open>The scan finds the first run of free frames\<close>

definition run_free :: "frame_state \<Rightarrow> u32 \<Rightarrow> u32 \<Rightarrow> bool" where
  "run_free s num f \<longleftrightarrow> test_frame f s = 0 \<and> (\<forall>c. 0 < c \<and> c < num \<longrightarrow> test_frame (f + c) s = 0)"

lemma free_run_full:
  "count \<le> num \<Longrightarrow>
     free_run s start num count = num \<longleftrightarrow> (\<forall>c. count \<le> c \<and> c < num \<longrightarrow> test_frame (start + c) s = 0)"
proof (induction s start num count rule: free_run.induct)
  case (1 s start num count)
  show ?case
  proof (cases "count < num \<and> test_frame (start + count) s = 0")
    case True
    note le = plus_one_le [of count num]
    have "free_run s start num count = free_run s start num (count + 1)"
      using True by (subst free_run.simps) simp
    with True 1(1) le show ?thesis by auto
  next
    case False
    then show ?thesis using 1(2) by (subst free_run.simps) auto
  qed
qed

lemma free_run_one:
  "num \<noteq> 0 \<Longrightarrow> free_run s f num 1 = num \<longleftrightarrow> (\<forall>c. 0 < c \<and> c < num \<longrightarrow> test_frame (f + c) s = 0)"
proof -
  assume "num \<noteq> 0"
  then have "1 \<le> num" by (simp add: word_le_nat_alt unat_gt_0 Suc_le_eq)
  moreover have "1 \<le> c \<longleftrightarrow> 0 < c" for c :: u32
    by (simp add: word_le_nat_alt word_less_nat_alt Suc_le_eq)
  ultimately show ?thesis by (simp add: free_run_full)
qed

lemma frame_number:
  assumes "unat (i::u32) < 2 ^ 27" "j < 32"
  shows "unat (i * 32 + word_of_nat j) = 32 * unat i + j"
    and "i * 32 + word_of_nat j = word_of_nat (32 * unat i + j)"
proof -
  show "i * 32 + word_of_nat j = word_of_nat (32 * unat i + j)" by simp
  have "32 * unat i + j < 2 ^ 32" using assms by simp
  then have "unat (word_of_nat (32 * unat i + j) :: u32) = 32 * unat i + j"
    by (intro unat_word_of_nat) simp
  then show "unat (i * 32 + word_of_nat j) = 32 * unat i + j" by (simp add: mult.commute)
qed

lemma word_bit_frame:
  assumes "unat (i::u32) < 2 ^ 27" "j < 32"
  shows "frames s (unat i) AND push_bit j 1 = 0 \<longleftrightarrow> test_frame (i * 32 + word_of_nat j) s = 0"
  using assms by (simp add: and_exp_eq_0_iff_not_bit frame_bit_def frame_number(1))

lemma scan_word_find:
  assumes "unat i < 2 ^ 27" "num \<noteq> 0"
  shows "scan_word s num i j = map_option (\<lambda>k. word_of_nat (32 * unat i + k))
    (find (\<lambda>k. run_free s num (word_of_nat (32 * unat i + k))) [j..<32])"
  using assms
proof (induction s num i j rule: scan_word.induct)
  case (1 s num i j)
  show ?case
  proof (cases "j < 32")
    case True
    have hit: "(frames s (unat i) AND push_bit j 1 = 0 \<and>
         free_run s (i * 32 + word_of_nat j) num 1 = num) \<longleftrightarrow>
        run_free s num (word_of_nat (32 * unat i + j))"
      unfolding run_free_def frame_number(2) [OF 1(2) True, symmetric]
      using word_bit_frame [OF 1(2) True] free_run_one [OF 1(3)] by blast
    show ?thesis
    proof (cases "run_free s num (word_of_nat (32 * unat i + j))")
      case True': True
      then show ?thesis
        using True hit by (subst scan_word.simps) (simp add: upt_conv_Cons mult.commute)
    next
      case False
      then have "scan_word s num i j = scan_word s num i (j + 1)"
        using True hit by (subst scan_word.simps) auto
      also have "\<dots> = map_option (\<lambda>k. word_of_nat (32 * unat i + k))
          (find (\<lambda>k. run_free s num (word_of_nat (32 * unat i + k))) [j + 1..<32])"
        using 1 True False hit by blast
      finally show ?thesis using True False by (simp add: upt_conv_Cons)
    qed
  next
    case False
    then show ?thesis by (subst scan_word.simps) simp
  qed
qed

abbreviation search :: "frame_state \<Rightarrow> u32 \<Rightarrow> nat \<Rightarrow> nat \<Rightarrow> nat option" where
  "search s num lo hi \<equiv> find (\<lambda>f. run_free s num (word_of_nat f)) [lo..<hi]"

lemma word_range: "search s num (32 * k) (32 * k + 32) =
    map_option (\<lambda>j. 32 * k + j) (find (\<lambda>j. run_free s num (word_of_nat (32 * k + j))) [0..<32])"
proof -
  have "[32 * k..<32 * k + 32] = map (\<lambda>j. 32 * k + j) [0..<32]"
    using map_add_upt [of "32 * k" 32] by (simp add: add.commute)
  then show ?thesis by (simp only: find_map)
qed

lemma full_word_skipped:
  assumes "unat i < 2 ^ 27" "frames s (unat i) = 0xffffffff"
  shows "search s num (32 * unat i) (32 * unat i + 32) = None"
proof (rule find_none)
  fix f assume "f \<in> set [32 * unat i..<32 * unat i + 32]"
  then have f: "f div 32 = unat i" "f < 2 ^ 32" using assms(1) by auto
  then have "unat (word_of_nat f :: u32) = f" by (intro unat_word_of_nat) simp
  moreover have "(0xffffffff :: u32) = mask 32" by (simp add: mask_eq_exp_minus_1)
  then have "bit (frames s (unat i)) (f mod 32)"
    unfolding assms(2) by (simp only: bit_mask_iff) simp
  ultimately show "\<not> run_free s num (word_of_nat f)"
    using f by (simp add: run_free_def frame_bit_def)
qed

lemma scan_words_find:
  assumes "unat (nframes s) \<le> 2 ^ 20" "num \<noteq> 0"
  shows "scan_words s num i =
    (case search s num (32 * unat i) (32 * unat (nframes s)) of Some f \<Rightarrow> word_of_nat f | None \<Rightarrow> -1)"
  using assms
proof (induction s num i rule: scan_words.induct)
  case (1 s num i)
  show ?case
  proof (cases "i < nframes s")
    case True
    have i: "unat i < 2 ^ 27" "32 * unat i + 32 \<le> 32 * unat (nframes s)"
      using True 1(2) by (auto simp: word_less_nat_alt)
    have split: "search s num (32 * unat i) (32 * unat (nframes s)) =
       (case search s num (32 * unat i) (32 * unat i + 32) of
          None \<Rightarrow> search s num (32 * unat (i + 1)) (32 * unat (nframes s)) | Some f \<Rightarrow> Some f)"
    proof -
      have "32 * unat (i + 1) = 32 * unat i + 32" by (simp add: unat_plus_one_less [OF True])
      moreover have "[32 * unat i..<32 * unat (nframes s)] =
          [32 * unat i..<32 * unat i + 32] @ [32 * unat i + 32..<32 * unat (nframes s)]"
        using upt_add_eq_append [of "32 * unat i" "32 * unat i + 32"
            "32 * unat (nframes s) - (32 * unat i + 32)"] i(2) by simp
      ultimately show ?thesis by (simp only: find_append)
    qed
    have word: "(if frames s (unat i) \<noteq> 0xffffffff then scan_word s num i 0 else None) =
        map_option word_of_nat (search s num (32 * unat i) (32 * unat i + 32))"
      using full_word_skipped [OF i(1), of s num] scan_word_find [OF i(1) 1(3), of s 0]
      unfolding word_range by (auto simp: option.map_comp comp_def)
    show ?thesis
    proof (cases "search s num (32 * unat i) (32 * unat i + 32)")
      case None
      then have none: "(if frames s (unat i) \<noteq> 0xffffffff then scan_word s num i 0 else None) = None"
        using word by simp
      then have "scan_words s num i = scan_words s num (i + 1)"
        using True by (subst scan_words.simps) simp
      with 1(1) [OF True none 1(2,3)] show ?thesis by (simp add: split None)
    next
      case (Some f)
      then show ?thesis
        using True word by (subst scan_words.simps) (simp add: split)
    qed
  next
    case False
    then show ?thesis by (subst scan_words.simps) (simp add: word_less_nat_alt)
  qed
qed

lemma search_first:
  assumes "n \<le> m" "f < n" "run_free s num (word_of_nat f)"
  shows "\<exists>g<n. search s num 0 m = Some g \<and> run_free s num (word_of_nat g) \<and> (\<forall>h<g. \<not> run_free s num (word_of_nat h))"
proof -
  obtain g where g: "search s num 0 m = Some g"
    using assms by (cases "search s num 0 m") (auto simp: find_None_iff)
  then have "run_free s num (word_of_nat g)" "\<forall>h<g. \<not> run_free s num (word_of_nat h)"
    by (auto simp: find_Some_iff)
  moreover have "g < n" using calculation(2) assms(2,3) by (meson not_less order.strict_trans1)
  ultimately show ?thesis using g by blast
qed

text \<open>
  C7. \<open>first_free_frames\<close> returns the lowest start of a run of the requested number of clear
  bits among the \<open>32 * nframes\<close> bits from the bitmap on, which is 32 times as many as there are
  frames, and \<open>-1\<close> when there is none or when no frame is requested. So whenever such a run
  starts at a frame of the machine, the result is the lowest frame that starts one; when none
  does, it depends on the memory behind the bitmap.
\<close>

theorem first_free_frames_first:
  assumes "unat (nframes s) \<le> 2 ^ 20"
  shows "first_free_frames num s =
    (if num = 0 then -1
     else case search s num 0 (32 * unat (nframes s)) of Some f \<Rightarrow> word_of_nat f | None \<Rightarrow> -1) \<and>
    (num \<noteq> 0 \<and> (\<exists>f<unat (nframes s). run_free s num (word_of_nat f)) \<longrightarrow>
       first_free_frames num s < nframes s \<and> run_free s num (first_free_frames num s) \<and>
       (\<forall>h<unat (first_free_frames num s). \<not> run_free s num (word_of_nat h)))"
proof -
  have e: "first_free_frames num s =
    (if num = 0 then -1
     else case search s num 0 (32 * unat (nframes s)) of Some f \<Rightarrow> word_of_nat f | None \<Rightarrow> -1)"
    using scan_words_find [OF assms, of num 0] by (simp add: first_free_frames_def)
  have "first_free_frames num s < nframes s \<and> run_free s num (first_free_frames num s) \<and>
       (\<forall>h<unat (first_free_frames num s). \<not> run_free s num (word_of_nat h))"
    if "num \<noteq> 0" "f < unat (nframes s)" "run_free s num (word_of_nat f)" for f
  proof -
    have "unat (nframes s) \<le> 32 * unat (nframes s)" by simp
    from search_first [OF this that(2,3)] obtain g where g: "g < unat (nframes s)"
      "search s num 0 (32 * unat (nframes s)) = Some g" "run_free s num (word_of_nat g)"
      "\<forall>h<g. \<not> run_free s num (word_of_nat h)" by blast
    then have "first_free_frames num s = word_of_nat g" using e that(1) by simp
    moreover have "unat (word_of_nat g :: u32) = g" using g(1) assms by (intro unat_word_of_nat) simp
    ultimately show ?thesis using g by (simp add: word_less_nat_alt)
  qed
  then show ?thesis using e by blast
qed

definition sample_frames :: frame_state where
  "sample_frames = \<lparr>frames = (\<lambda>_. 0)(0 := 0xffffffff), nframes = 32, used_frames = 32\<rparr>"

lemma run_free_single [simp]: "run_free s 1 f \<longleftrightarrow> \<not> frame_bit s (unat f)"
proof -
  have "\<not> (0 < c \<and> c < 1)" for c :: u32 by (auto simp: word_less_nat_alt)
  then show ?thesis by (simp add: run_free_def)
qed

lemma sample_search: "search sample_frames 1 0 (32 * 32) = Some 32"
proof -
  have "[0..<32 * 32] = [0..<32] @ 32 # [33..<32 * 32::nat]"
    using upt_add_eq_append [of 0 32 "32 * 32 - 32"] upt_conv_Cons [of 32 "32 * 32"] by simp
  moreover have "search sample_frames 1 0 32 = None"
    using full_word_skipped [of 0 sample_frames 1] by (simp add: sample_frames_def)
  moreover have "run_free sample_frames 1 (word_of_nat 32)"
    by (simp add: sample_frames_def frame_bit_def)
  ultimately show ?thesis by (simp only: find_append) simp
qed

lemma full_word: "j < 32 \<Longrightarrow> bit (4294967295 :: u32) j"
proof -
  assume "j < 32"
  moreover have "(4294967295 :: u32) = mask 32" by (simp add: mask_eq_exp_minus_1)
  ultimately show ?thesis by (simp only: bit_mask_iff) simp
qed

definition roomy_frames :: frame_state where
  "roomy_frames = sample_frames\<lparr>nframes := 64\<rparr>"

theorem first_free_frames_first_witness:
  "first_free_frames 1 sample_frames = 32 \<and> first_free_frames 1 roomy_frames = 32 \<and> (32 :: u32) < nframes roomy_frames"
proof -
  have a: "first_free_frames 1 sample_frames = 32"
    using first_free_frames_first [of sample_frames 1, THEN conjunct1] sample_search by (simp add: sample_frames_def)
  let ?r = "first_free_frames 1 roomy_frames"
  have b: "frame_bit roomy_frames f \<longleftrightarrow> f < 32" for f
    using full_word [of f] by (cases "f < 32") (auto simp: roomy_frames_def sample_frames_def frame_bit_def)
  have n: "nframes roomy_frames = 64" by (simp add: roomy_frames_def)
  have "\<exists>f<unat (nframes roomy_frames). run_free roomy_frames 1 (word_of_nat f)"
    by (rule exI [of _ 32]) (simp add: n b)
  then have r: "run_free roomy_frames 1 ?r" "\<forall>h<unat ?r. \<not> run_free roomy_frames 1 (word_of_nat h)"
    using first_free_frames_first [of roomy_frames 1] n by auto
  have "\<not> unat ?r < 32" using r(1) b by simp
  moreover have "\<not> 32 < unat ?r" using r(2) b by auto
  ultimately have "unat ?r = 32" by simp
  then have "?r = 32" by (simp add: word_unat_eq_iff)
  then show ?thesis using a n by simp
qed

text \<open>
  The scan runs over \<open>nframes\<close> words, 32 times as many bits as there are frames: when every
  frame is in use and one of the bits beyond them is clear, it returns a frame number that is
  not below \<open>nframes\<close>, so not a frame of the machine.
\<close>

theorem first_free_frame_overrun:
  assumes "unat (nframes s) \<le> 2 ^ 20" "\<forall>f<unat (nframes s). frame_bit s f"
    and "g < 32 * unat (nframes s)" "\<not> frame_bit s g"
  shows "first_free_frame s \<noteq> -1 \<and> nframes s \<le> first_free_frame s"
proof -
  let ?n = "32 * unat (nframes s)"
  have bits: "unat (word_of_nat f :: u32) = f" if "f < ?n" for f
    using that assms(1) by (intro unat_word_of_nat) simp
  obtain f where f: "search s 1 0 ?n = Some f"
    using assms(3,4) bits by (cases "search s 1 0 ?n") (auto simp: find_None_iff)
  then have "f < ?n" "run_free s 1 (word_of_nat f)" by (auto simp: find_Some_iff)
  then have "f < ?n" "\<not> frame_bit s f" using bits by auto
  then have "unat (nframes s) \<le> f" using assms(2) not_le by blast
  moreover have "first_free_frame s = word_of_nat f"
    unfolding first_free_frame_def using scan_words_find [OF assms(1), of 1 0] f
    by (simp add: first_free_frames_def)
  moreover have "unat (-1 :: u32) = 2 ^ 32 - 1" by (simp add: unsigned_minus_1_eq_mask mask_eq_exp_minus_1)
  ultimately show ?thesis
    using bits [OF \<open>f < ?n\<close>] \<open>f < ?n\<close> assms(1) by (auto simp: word_le_nat_alt word_unat_eq_iff)
qed

theorem first_free_frame_overrun_witness:
  "first_free_frame sample_frames \<noteq> -1 \<and> 32 \<le> first_free_frame sample_frames"
proof -
  have "\<forall>f<unat (nframes sample_frames). frame_bit sample_frames f"
    using full_word by (simp add: sample_frames_def frame_bit_def)
  from first_free_frame_overrun [OF _ this, of 32] show ?thesis
    by (simp add: sample_frames_def frame_bit_def)
qed

section \<open>Counting the frames in use\<close>

definition used_below :: "frame_state \<Rightarrow> nat \<Rightarrow> nat" where
  "used_below s B = card {f. f < B \<and> frame_bit s f}"

definition counter_ok :: "nat \<Rightarrow> frame_state \<Rightarrow> bool" where
  "counter_ok B s \<longleftrightarrow> used_frames s = word_of_nat (used_below s B)"

lemma used_below_insert:
  assumes "f < B" "\<not> frame_bit s f" "\<And>g. frame_bit s' g \<longleftrightarrow> frame_bit s g \<or> g = f"
  shows "used_below s' B = Suc (used_below s B)"
proof -
  have "{g. g < B \<and> frame_bit s' g} = insert f {g. g < B \<and> frame_bit s g}" using assms by auto
  then show ?thesis using assms(2) by (simp add: used_below_def)
qed

text \<open>
  C30. \<open>set_frame\<close> and \<open>clear_frame\<close> keep the counter \<open>used_frames\<close> equal to the number of bits
  that are set, for every frame below the bound \<open>B\<close> up to which frames are counted.
\<close>

theorem used_frames_counted:
  assumes "counter_ok B s" "unat f < B"
  shows "counter_ok B (set_frame f s) \<and> counter_ok B (clear_frame f s)"
proof
  show "counter_ok B (set_frame f s)"
  proof (cases "frame_bit s (unat f)")
    case True
    then show ?thesis using assms(1) by (simp add: set_frame_def)
  next
    case False
    then have "used_below (set_frame f s) B = Suc (used_below s B)"
      by (intro used_below_insert [OF assms(2)]) auto
    with False assms(1) show ?thesis by (simp add: counter_ok_def) (simp add: set_frame_def)
  qed
  show "counter_ok B (clear_frame f s)"
  proof (cases "test_frame f s = 1")
    case True
    then have "used_below s B = Suc (used_below (clear_frame f s) B)"
      by (intro used_below_insert [OF assms(2)]) (auto simp: test_frame_one)
    then have "used_frames s - 1 = word_of_nat (used_below (clear_frame f s) B)"
      using assms(1) by (simp add: counter_ok_def)
    moreover have "used_frames (clear_frame f s) = used_frames s - 1"
      using True by (simp add: clear_frame_def)
    ultimately show ?thesis by (simp only: counter_ok_def)
  next
    case False
    then show ?thesis using assms(1) by (simp add: clear_frame_def)
  qed
qed

theorem used_frames_counted_witness:
  "counter_ok 64 (set_frame 40 \<lparr>frames = \<lambda>_. 0, nframes = 64, used_frames = 0\<rparr>) \<and>
   counter_ok 64 (clear_frame 40 \<lparr>frames = \<lambda>_. 0, nframes = 64, used_frames = 0\<rparr>)"
  using used_frames_counted [of 64 "\<lparr>frames = \<lambda>_. 0, nframes = 64, used_frames = 0\<rparr>" 40]
  by (simp add: counter_ok_def used_below_def frame_bit_def)

lemma fold_count: "fold (\<lambda>x c. if P x then c + 1 else c) xs (n::u32) = n + word_of_nat (length (filter P xs))"
  by (induction xs arbitrary: n) auto

lemma bits_below_Suc_word:
  "{f. f < 32 * Suc k \<and> frame_bit s f} =
     {f. f < 32 * k \<and> frame_bit s f} \<union> (\<lambda>j. 32 * k + j) ` {j. j < 32 \<and> bit (frames s k) j}"
proof (intro equalityI subsetI)
  fix f assume f: "f \<in> {f. f < 32 * Suc k \<and> frame_bit s f}"
  show "f \<in> {f. f < 32 * k \<and> frame_bit s f} \<union> (\<lambda>j. 32 * k + j) ` {j. j < 32 \<and> bit (frames s k) j}"
  proof (cases "f < 32 * k")
    case False
    then have k: "f div 32 = k" using f by auto
    have "f = 32 * (f div 32) + f mod 32" by simp
    with k have "f = 32 * k + f mod 32" "f div 32 = k" by auto
    with f show ?thesis by (intro UnI2 image_eqI [of _ _ "f mod 32"]) (auto simp: frame_bit_def)
  qed (use f in auto)
qed (auto simp: frame_bit_def)

lemma used_below_word:
  "used_below s (32 * Suc k) = used_below s (32 * k) + length (filter (\<lambda>j. bit (frames s k) j) [0..<32])"
proof -
  have "card ((\<lambda>j. 32 * k + j) ` {j. j < 32 \<and> bit (frames s k) j}) =
      card {j. j < 32 \<and> bit (frames s k) j}"
    by (intro card_image) (auto simp: inj_on_def)
  moreover have "{j. j < 32 \<and> bit (frames s k) j} = set (filter (\<lambda>j. bit (frames s k) j) [0..<32])"
    by auto
  moreover have "distinct (filter (\<lambda>j. bit (frames s k) j) [0..<32])" by simp
  ultimately have "card ((\<lambda>j. 32 * k + j) ` {j. j < 32 \<and> bit (frames s k) j}) =
      length (filter (\<lambda>j. bit (frames s k) j) [0..<32])"
    by (metis distinct_card)
  moreover have "{f. f < 32 * k \<and> frame_bit s f} \<inter> (\<lambda>j. 32 * k + j) ` {j. j < 32 \<and> bit (frames s k) j} = {}"
    by auto
  ultimately show ?thesis
    unfolding used_below_def bits_below_Suc_word by (simp add: card_Un_disjoint)
qed

lemma memory_used_bits:
  "fold (\<lambda>i count. fold (\<lambda>j count. if frames s i AND push_bit j 1 \<noteq> 0 then count + 1 else count)
     [0..<32] count) [0..<n] (0::u32) = word_of_nat (used_below s (32 * n))"
proof (induction n)
  case 0
  then show ?case by (simp add: used_below_def)
next
  case (Suc n)
  then show ?case
    unfolding upt_Suc_append [OF le0] fold_append comp_def fold_count used_below_word
    by (simp add: and_exp_eq_0_iff_not_bit)
qed

text \<open>
  While the counter is right for all bits the bitmap words hold, \<open>memory_used\<close>, which
  counts the bits one by one, is the counter times the size of a frame.
\<close>

theorem memory_used_counter:
  assumes "counter_ok (32 * unat (nframes s)) s"
  shows "memory_used s = used_frames s * FRAME_SIZE"
  using assms memory_used_bits [of s "unat (nframes s)"]
  by (simp add: memory_used_def counter_ok_def)

theorem memory_used_counter_witness:
  "memory_used \<lparr>frames = \<lambda>_. 0, nframes = 64, used_frames = 0\<rparr> = 0"
  using memory_used_counter [of "\<lparr>frames = \<lambda>_. 0, nframes = 64, used_frames = 0\<rparr>"]
  by (simp add: counter_ok_def used_below_def frame_bit_def)

end
