(* ===== verification/Boot.thy ===== *)
theory Boot
  imports Frames Cstring
begin

text \<open>
  What \<^verbatim>\<open>kernel/main.c\<close> does with the memory map of the boot loader: the loop that marks the
  reserved regions in the bitmap of frames, and \<open>print_mmap\<close>. The map lies in byte memory as a
  sequence of packed entries; \<open>start\<close> and \<open>limit\<close> are the addresses the loops compute from
  \<open>mmap_addr\<close>, \<open>mmap_length\<close> and \<open>kernel_voffset\<close>.
\<close>

section \<open>Entries of the map\<close>

definition read32 :: "bmem \<Rightarrow> u32 \<Rightarrow> u32" where
  "read32 m p = ucast (m p) OR push_bit 8 (ucast (m (p + 1))) OR push_bit 16 (ucast (m (p + 2))) OR
     push_bit 24 (ucast (m (p + 3)))"

definition read64 :: "bmem \<Rightarrow> u32 \<Rightarrow> u64" where
  "read64 m p = ucast (read32 m p) OR push_bit 32 (ucast (read32 m (p + 4)))"

record mmap_entry =
  mmap_size :: u32
  mmap_addr :: u64
  mmap_length :: u64
  mmap_type :: u32

definition mmap_entry_at :: "bmem \<Rightarrow> u32 \<Rightarrow> mmap_entry" where
  "mmap_entry_at m p = \<lparr>mmap_size = read32 m p, mmap_addr = read64 m (p + 4),
     mmap_length = read64 m (p + 12), mmap_type = read32 m (p + 20)\<rparr>"

section \<open>Reserved memory\<close>

partial_function (option) reserve_region :: "u64 \<Rightarrow> u64 \<Rightarrow> u64 \<Rightarrow> frame_state \<Rightarrow> frame_state option" where
  "reserve_region addr len i s =
     (if i < len
      then reserve_region addr len (i + 0x1000) (paging_mark_reserved (ucast ((addr + i) AND 0xfffff000)) s)
      else Some s)"

partial_function (option) reserve_map :: "bmem \<Rightarrow> u32 \<Rightarrow> u32 \<Rightarrow> frame_state \<Rightarrow> frame_state option" where
  "reserve_map m p limit s =
     (if p < limit
      then let e = mmap_entry_at m p;
               next = p + mmap_size e + 4
           in if mmap_type e = 2
              then Option.bind (reserve_region (mmap_addr e) (mmap_length e) 0 s) (reserve_map m next limit)
              else reserve_map m next limit s
      else Some s)"

section \<open>Printing the map\<close>

definition memory_types :: "string list" where
  "memory_types = [''Available'', ''Reserved'', ''ACPI Reclaim'', ''ACPI NVS Memory'']"

text \<open>A printed line: its number, the bounds, the size in its unit, the type and its name.\<close>

record mmap_line =
  line_number :: u32
  line_first :: u32
  line_last :: u32
  line_size :: u32
  line_unit :: string
  line_type :: u32
  line_name :: string

text \<open>The type 0 indexes the table of names before its start; \<open>stray\<close> is the name that is read there.\<close>

definition mmap_line_of :: "string \<Rightarrow> u32 \<Rightarrow> mmap_entry \<Rightarrow> mmap_line" where
  "mmap_line_of stray i e =
     (let size = (ucast (mmap_length e div 1024) :: u32)
      in \<lparr>line_number = i, line_first = ucast (mmap_addr e),
          line_last = ucast (mmap_addr e + mmap_length e - 1),
          line_size = (if size > 1024 then if size div 1024 > 1024 then size div 1024 div 1024
                       else size div 1024 else size),
          line_unit = (if size > 1024 then if size div 1024 > 1024 then ''GB'' else ''MB'' else ''KB''),
          line_type = mmap_type e,
          line_name = (if mmap_type e = 0 then stray else memory_types ! unat (mmap_type e - 1))\<rparr>)"

text \<open>
  An entry of a type above 4 is met by a \<open>continue\<close> that does not move on. \<open>None\<close> stands for the
  loop without an end and for nothing else.
\<close>

partial_function (option) print_mmap :: "string \<Rightarrow> bmem \<Rightarrow> u32 \<Rightarrow> u32 \<Rightarrow> u32 \<Rightarrow> mmap_line list \<Rightarrow> mmap_line list option" where
  "print_mmap stray m p limit i out =
     (if p < limit
      then let e = mmap_entry_at m p in
           if mmap_type e > 4 then print_mmap stray m p limit i out
           else print_mmap stray m (p + mmap_size e + 4) limit (i + 1) (out @ [mmap_line_of stray i e])
      else Some out)"

section \<open>Which frames are reserved\<close>

text \<open>The frames that the loop marks for a region: one per page size, starting at its address.\<close>

definition region_frame :: "mmap_entry \<Rightarrow> nat \<Rightarrow> bool" where
  "region_frame e g \<longleftrightarrow>
     (\<exists>k. 4096 * k < unat (mmap_length e) \<and> g = (unat (mmap_addr e) + 4096 * k) div 4096 mod 2 ^ 20)"

fun walk :: "bmem \<Rightarrow> u32 \<Rightarrow> u32 \<Rightarrow> mmap_entry list \<Rightarrow> bool" where
  "walk m p limit [] \<longleftrightarrow> \<not> p < limit"
| "walk m p limit (e # es) \<longleftrightarrow>
     p < limit \<and> e = mmap_entry_at m p \<and> walk m (p + mmap_size e + 4) limit es"

lemma masked_frame:
  "unat (ucast ((a :: u64) AND 0xfffff000) div FRAME_SIZE :: u32) = unat a div 4096 mod 2 ^ 20"
proof -
  have mask: "(0xfffff000 :: u64) = push_bit 12 (mask 20)" by (simp add: mask_eq_exp_minus_1)
  have "ucast (a AND 0xfffff000) div FRAME_SIZE = (drop_bit 12 (ucast (a AND 0xfffff000)) :: u32)"
    by (simp add: FRAME_SIZE_def drop_bit_eq_div)
  also have "\<dots> = drop_bit 12 (ucast a)"
    unfolding mask by (rule bit_word_eqI) (auto simp: bit_simps)
  finally have "unat (ucast (a AND 0xfffff000) div FRAME_SIZE :: u32) = unat (ucast a :: u32) div 2 ^ 12"
    by (simp only: unat_drop_bit)
  also have "\<dots> = unat a mod 2 ^ 32 div 2 ^ 12"
    by (simp add: unsigned_ucast_eq unsigned_take_bit_eq take_bit_eq_mod)
  also have "\<dots> = unat a div 4096 mod 2 ^ 20"
    using drop_bit_take_bit [of 12 32 "unat a"] by (simp add: take_bit_nat_def drop_bit_nat_def)
  finally show ?thesis .
qed

lemma region_step:
  assumes "i = 4096 * j" "i < n"
  shows "(\<exists>k\<ge>j. 4096 * k < n \<and> P k) \<longleftrightarrow> P j \<or> (\<exists>k\<ge>Suc j. 4096 * k < n \<and> P k)"
proof -
  have "k \<ge> j \<longleftrightarrow> k = j \<or> k \<ge> Suc j" for k by auto
  then show ?thesis using assms by auto
qed

lemma low_frame: "(x mod 2 ^ 64) div 4096 mod 2 ^ 20 = x div 4096 mod (2 ^ 20 :: nat)"
proof -
  have "take_bit 20 (drop_bit 12 (take_bit 64 x)) = take_bit 20 (drop_bit 12 x)"
    by (simp add: drop_bit_take_bit)
  then have "(x mod 2 ^ 64) div 2 ^ 12 mod 2 ^ 20 = x div 2 ^ 12 mod 2 ^ 20"
    by (simp only: take_bit_nat_def drop_bit_nat_def)
  then show ?thesis by simp
qed

lemma reserve_region_marks:
  assumes "unat len + 4096 \<le> 2 ^ 64" "unat i = 4096 * j" "unat i < 2 ^ 64"
  shows "\<exists>s'. reserve_region addr len i s = Some s' \<and> nframes s' = nframes s \<and>
    (\<forall>g. frame_bit s' g \<longleftrightarrow> frame_bit s g \<or>
      (\<exists>k\<ge>j. 4096 * k < unat len \<and> g = (unat addr + 4096 * k) div 4096 mod 2 ^ 20))"
  using assms(2,3)
proof (induction "unat len - unat i" arbitrary: i j s rule: less_induct)
  case less
  show ?case
  proof (cases "i < len")
    case False
    then have "unat len \<le> 4096 * j" using less.prems(1) by (simp add: word_less_nat_alt)
    then have "\<not> (j \<le> k \<and> 4096 * k < unat len)" for k by auto
    moreover have "reserve_region addr len i s = Some s" using False by (subst reserve_region.simps) simp
    ultimately show ?thesis by auto
  next
    case True
    let ?s = "paging_mark_reserved (ucast ((addr + i) AND 0xfffff000)) s"
    have lt: "unat i < unat len" using True by (simp add: word_less_nat_alt)
    have n: "unat (i + 0x1000) = unat i + 4096"
      using lt assms(1) by (subst unat_add_lem [THEN iffD1]) auto
    have f: "unat (ucast ((addr + i) AND 0xfffff000) div FRAME_SIZE :: u32) =
        (unat addr + 4096 * j) div 4096 mod 2 ^ 20"
    proof -
      have "unat (addr + i) = (unat addr + 4096 * j) mod 2 ^ 64"
        using less.prems(1) by (simp add: unat_word_ariths)
      then show ?thesis by (simp only: masked_frame low_frame)
    qed
    have "unat len - unat (i + 0x1000) < unat len - unat i" using n lt by simp
    moreover have "unat (i + 0x1000) = 4096 * Suc j" using n less.prems(1) by simp
    moreover have "unat (i + 0x1000) < 2 ^ 64" using n lt assms(1) by simp
    ultimately obtain s' where s': "reserve_region addr len (i + 0x1000) ?s = Some s'" "nframes s' = nframes ?s"
      "\<And>g. frame_bit s' g \<longleftrightarrow> frame_bit ?s g \<or>
        (\<exists>k\<ge>Suc j. 4096 * k < unat len \<and> g = (unat addr + 4096 * k) div 4096 mod 2 ^ 20)"
      using less.hyps by blast
    have b: "frame_bit ?s g \<longleftrightarrow> frame_bit s g \<or> g = (unat addr + 4096 * j) div 4096 mod 2 ^ 20" for g
      unfolding paging_mark_reserved_def frame_bit_set f by blast
    have "reserve_region addr len i s = Some s'" using True s'(1) by (subst reserve_region.simps) simp
    moreover have "nframes s' = nframes s" using s'(2) by (simp add: paging_mark_reserved_def)
    moreover have "frame_bit s' g \<longleftrightarrow> frame_bit s g \<or>
        (\<exists>k\<ge>j. 4096 * k < unat len \<and> g = (unat addr + 4096 * k) div 4096 mod 2 ^ 20)" for g
      unfolding s'(3) b region_step [OF less.prems(1) lt] by blast
    ultimately show ?thesis by blast
  qed
qed

lemma reserve_map_ok:
  assumes "walk m p limit es" "\<forall>e\<in>set es. unat (mmap_length e) + 4096 \<le> 2 ^ 64"
  shows "\<exists>s'. reserve_map m p limit s = Some s' \<and> nframes s' = nframes s \<and>
    (\<forall>g. frame_bit s' g \<longleftrightarrow> frame_bit s g \<or> (\<exists>e\<in>set es. mmap_type e = 2 \<and> region_frame e g))"
  using assms
proof (induction es arbitrary: p s)
  case Nil
  then show ?case by (subst reserve_map.simps) simp
next
  case (Cons e es)
  let ?q = "p + mmap_size e + 4"
  have e: "p < limit" "mmap_entry_at m p = e" "walk m ?q limit es" using Cons.prems by auto
  have len: "unat (mmap_length e) + 4096 \<le> 2 ^ 64" "\<forall>e\<in>set es. unat (mmap_length e) + 4096 \<le> 2 ^ 64"
    using Cons.prems(2) by auto
  show ?case
  proof (cases "mmap_type e = 2")
    case False
    have "reserve_map m p limit s = reserve_map m ?q limit s"
      using e(1,2) False by (subst reserve_map.simps) (simp add: Let_def)
    then show ?thesis using Cons.IH [OF e(3) len(2), of s] False by auto
  next
    case True
    obtain s1 where s1: "reserve_region (mmap_addr e) (mmap_length e) 0 s = Some s1" "nframes s1 = nframes s"
      "\<And>g. frame_bit s1 g \<longleftrightarrow> frame_bit s g \<or> region_frame e g"
      using reserve_region_marks [OF len(1), of 0 0 "mmap_addr e" s] by (auto simp: region_frame_def)
    have "reserve_map m p limit s = reserve_map m ?q limit s1"
      using e(1,2) True s1(1) by (subst reserve_map.simps) (simp add: Let_def)
    then show ?thesis using Cons.IH [OF e(3) len(2), of s1] True s1(2,3) by auto
  qed
qed

text \<open>
  C32. The loop over the memory map ends, and marks, besides the frames that were marked
  before, exactly one frame per started 4096 bytes of each reserved region, counted from the
  frame of its address; the frame number is taken modulo \<open>2 ^ 20\<close>, so that regions above 4 GiB
  mark low frames, and the last frame of a region that does not start at a page is missed
  when its length is a multiple of the page size.
\<close>

theorem reserve_map_marks:
  assumes "walk m p limit es" "\<forall>e\<in>set es. unat (mmap_length e) + 4096 \<le> 2 ^ 64"
  shows "\<exists>s'. reserve_map m p limit s = Some s' \<and> nframes s' = nframes s \<and>
    (\<forall>g. frame_bit s' g \<longleftrightarrow> frame_bit s g \<or> (\<exists>e\<in>set es. mmap_type e = 2 \<and> region_frame e g))"
  by (rule reserve_map_ok [OF assms])

lemma print_mmap_types:
  "print_mmap stray m p limit i out = Some r \<Longrightarrow> walk m p limit es \<Longrightarrow> e \<in> set es \<Longrightarrow> mmap_type e \<le> 4"
proof (induction arbitrary: es rule: print_mmap.raw_induct [rotated 1, consumes 1])
  case (1 print_mmap stray m p limit i out r)
  show ?case
  proof (cases es)
    case Nil
    with 1 show ?thesis by simp
  next
    case (Cons a as)
    have a: "p < limit" "mmap_entry_at m p = a" "walk m (p + mmap_size a + 4) limit as"
      using 1(3) Cons by auto
    show ?thesis
    proof (cases "mmap_type a > 4")
      case True
      then have "print_mmap stray m p limit i out = Some r" using 1(2) a(1,2) by simp
      then show ?thesis by (rule 1(1) [OF _ 1(3,4)])
    next
      case False
      then have "print_mmap stray m (p + mmap_size a + 4) limit (i + 1) (out @ [mmap_line_of stray i a]) = Some r"
        using 1(2) a(1,2) by (simp add: Let_def split: if_splits)
      then have "e \<in> set as \<Longrightarrow> mmap_type e \<le> 4" by (rule 1(1) [OF _ a(3)])
      then show ?thesis using 1(4) Cons False by (auto simp: not_less)
    qed
  qed
qed

text \<open>
  C38. \<open>print_mmap\<close> never returns when the map has an entry of a type above 4 that it reaches:
  its \<open>continue\<close> goes back to the same entry for ever.
\<close>

theorem print_mmap_hangs:
  assumes "walk m p limit es" "e \<in> set es" "mmap_type e > 4"
  shows "print_mmap stray m p limit i out = None"
proof (cases "print_mmap stray m p limit i out")
  case (Some r)
  from print_mmap_types [OF this assms(1,2)] show ?thesis using assms(3) by simp
qed

text \<open>
  A map of two entries at \<open>0x1000\<close>: 4096 reserved bytes from \<open>0x9fc00\<close> on, and an entry of type 5.
\<close>

definition sample_map :: bmem where
  "sample_map = (\<lambda>_. 0)(0x1000 := 20, 0x1005 := 0xfc, 0x1006 := 9, 0x100d := 0x10, 0x1014 := 2,
     0x1018 := 20, 0x102c := 5)"

abbreviation sample_entries :: "mmap_entry list" where
  "sample_entries \<equiv> [\<lparr>mmap_size = 20, mmap_addr = 0x9fc00, mmap_length = 0x1000, mmap_type = 2\<rparr>,
     \<lparr>mmap_size = 20, mmap_addr = 0, mmap_length = 0, mmap_type = 5\<rparr>]"

lemma sample_walk: "walk sample_map 0x1000 0x1030 sample_entries"
  by (simp add: mmap_entry_at_def read32_def read64_def sample_map_def)

theorem reserve_map_marks_witness:
  "\<exists>s'. reserve_map sample_map 0x1000 0x1030 \<lparr>frames = \<lambda>_. 0, nframes = 1024, used_frames = 0\<rparr> = Some s' \<and>
     frame_bit s' 0x9f \<and> \<not> frame_bit s' 0xa0"
proof -
  have k: "4096 * k < 4096 \<longleftrightarrow> k = 0" for k :: nat by auto
  have r: "region_frame (hd sample_entries) g \<longleftrightarrow> g = 0x9f" for g
    by (simp add: region_frame_def k)
  have z: "\<not> frame_bit \<lparr>frames = \<lambda>_. 0, nframes = 1024, used_frames = 0\<rparr> g" for g by (simp add: frame_bit_def)
  show ?thesis
    using reserve_map_marks [OF sample_walk, of "\<lparr>frames = \<lambda>_. 0, nframes = 1024, used_frames = 0\<rparr>"] r
    by (auto simp: z)
qed

theorem print_mmap_hangs_witness: "print_mmap [] sample_map 0x1000 0x1030 1 [] = None"
  by (rule print_mmap_hangs [OF sample_walk, of "sample_entries ! 1"]) simp_all

end
