(* ===== verification/Rb_Insert.thy ===== *)
theory Rb_Insert
  imports Rb_Heap
begin

text \<open>
  Correctness of \<open>insert_rbnode\<close>. The loop of the code walks down with four trailing pointers
  and repairs the tree on the way; after a rotation some of them no longer point to
  ancestors, and the proof shows that they are not used until they do again.
\<close>

section \<open>Frames\<close>

text \<open>
  \<open>framed A t i m m'\<close>: going from \<open>m\<close> to \<open>m'\<close>, only link words of the nodes in \<open>A\<close> and link
  \<open>i\<close> of node \<open>t\<close> may change, and the tag bit of that link does not.
\<close>

definition framed :: "u32 set \<Rightarrow> u32 \<Rightarrow> nat \<Rightarrow> mem \<Rightarrow> mem \<Rightarrow> bool" where
  "framed A t i m m' \<longleftrightarrow>
     (\<forall>w. w \<notin> link_words A \<longrightarrow> w \<noteq> link_addr t i \<longrightarrow> m' w = m w) \<and>
     tag (m' (link_addr t i)) = tag (m (link_addr t i))"

lemma link_words_elim: "w \<in> link_words A \<Longrightarrow> \<exists>a\<in>A. \<exists>j<3. w = link_addr a j"
  unfolding link_words_def
  by (elim UN_E insertE; force intro: exI [of _ "0::nat"] exI [of _ "Suc 0"] exI [of _ "2::nat"])

lemma framed_refl [simp]: "framed A t i m m"
  by (simp add: framed_def)

lemma framed_trans: "framed A t i m m' \<Longrightarrow> framed A t i m' m'' \<Longrightarrow> framed A t i m m''"
  by (simp add: framed_def)

lemma link_words_notin:
  assumes "separated S" "A \<subseteq> S" "t \<in> S" "t \<notin> A" "i < 3"
  shows "link_addr t i \<notin> link_words A"
proof
  assume "link_addr t i \<in> link_words A"
  then obtain a where a: "a \<in> A" "link_addr t i \<in> node_words a"
    by (auto simp: link_words_def node_words_def)
  then have "a = t"
    using separated_disjoint [OF assms(1)] link_addr_node_words [OF assms(5), of t] assms(2,3)
    by blast
  with a assms(4) show False by simp
qed

lemma framed_mono:
  assumes "framed A t i m m'" "A \<subseteq> B" "separated S" "B \<subseteq> S" "t \<in> S" "t \<notin> B" "i < 3"
  shows "framed B t i m m'"
  using assms link_words_mono [OF assms(2)] unfolding framed_def by blast

lemma framed_nested:
  assumes "framed A g i m m'" "insert g A \<subseteq> B" "separated S" "B \<subseteq> S" "t \<in> S" "t \<notin> B"
    "i < 3" "j < 3"
  shows "framed B t j m m'"
proof -
  have B: "link_words A \<subseteq> link_words B" "link_addr g i \<in> link_words B"
    using assms(2) link_addr_in_words [OF assms(7), of g] by (auto simp: link_words_def)
  have t: "link_addr t j \<notin> link_words B"
    using link_words_notin [OF assms(3,4,5,6,8)] .
  have out: "m' w = m w" if "w \<notin> link_words B" for w
  proof -
    have "w \<notin> link_words A" "w \<noteq> link_addr g i" using B that by blast+
    with assms(1) show ?thesis by (simp add: framed_def)
  qed
  with t have "m' (link_addr t j) = m (link_addr t j)" by blast
  with out show ?thesis unfolding framed_def by simp
qed

lemma framed_nodes:
  assumes fr: "framed A t i m m'" and sep: "separated S" and sub: "A \<subseteq> S" "t \<in> S" "b \<in> S"
    and i: "i < 3" and b: "b \<notin> A"
  shows "j < 3 \<Longrightarrow> b \<noteq> t \<or> j \<noteq> i \<Longrightarrow> get_link m' b j = get_link m b j"
    and "is_red m' b = is_red m b"
proof -
  have same: "m' (link_addr b j) = m (link_addr b j)" if "j < 3" "b \<noteq> t \<or> j \<noteq> i" for j
    using fr link_words_notin [OF sep sub(1,3) b that(1)] link_addr_eq [OF sep sub(3,2) that(1) i]
      that(2) unfolding framed_def by blast
  then show "j < 3 \<Longrightarrow> b \<noteq> t \<or> j \<noteq> i \<Longrightarrow> get_link m' b j = get_link m b j"
    by (simp add: get_link_def)
  have "tag (m' (link_addr b 0)) = tag (m (link_addr b 0))"
    using same [of 0] fr by (cases "b = t \<and> i = 0") (auto simp: framed_def)
  then show "is_red m' b = is_red m b"
    by (simp only: is_red_def)
qed

lemma framed_data:
  assumes "framed A t i m m'" "separated S" "A \<subseteq> S" "t \<in> S" "b \<in> S" "i < 3"
  shows "rb_data m' b = rb_data m b"
proof -
  have "b \<notin> link_words A"
  proof
    assume "b \<in> link_words A"
    then obtain a j where "a \<in> A" "j < 3" "b = link_addr a j"
      using link_words_elim by blast
    then show False using link_addr_not_data [OF assms(2) _ assms(5)] assms(3) by blast
  qed
  then show ?thesis
    using assms(1) link_addr_not_data [OF assms(2,4,5,6)] unfolding framed_def rb_data_def by metis
qed

lemma framed_same:
  assumes "framed A t i m m'" "separated S" "A \<subseteq> S" "t \<in> S" "B \<subseteq> S" "i < 3"
    "B \<inter> insert t A = {}"
  shows "same_nodes B m m'"
  using assms framed_nodes [OF assms(1,2,3,4) _ assms(6)] unfolding same_nodes_def by blast

lemma framed_set_link:
  "a \<in> A \<Longrightarrow> k < 3 \<Longrightarrow> framed A t i m (set_link m a k v)"
  "framed A t i m (set_link m t i v)"
  using link_addr_in_words [of k a]
  by (auto simp: framed_def set_link_def link_words_def simp del: link_addr_simps)

lemma framed_paint:
  assumes "a \<in> A" "separated S" "A \<subseteq> S" "t \<in> S" "t \<notin> A" "i < 3"
  shows "framed A t i m (paint_red m a)" "framed A t i m (paint_black m a)"
  using assms(1) link_words_notin [OF assms(2-6)]
  by (auto simp: framed_def paint_red_def paint_black_def link_words_def)

lemma framed_rotated:
  assumes "rt \<in> A" "get_link m rt (of_bool (\<not> dir)) \<in> A"
    "separated S" "A \<subseteq> S" "t \<in> S" "t \<notin> A" "i < 3"
  shows "framed A t i m (rotated m rt dir)"
proof -
  have sub: "link_words {rt, get_link m rt (of_bool (\<not> dir))} \<subseteq> link_words A"
    using assms(1,2) by (intro link_words_mono) simp
  have "rotated m rt dir w = m w" if "w \<notin> link_words A" for w
    using sub that by (intro rotated_frame) blast
  moreover have "link_addr t i \<notin> link_words A"
    by (rule link_words_notin [OF assms(3-7)])
  ultimately show ?thesis by (simp add: framed_def)
qed

section \<open>Attaching the new node, or flipping colours\<close>

fun prep :: "u32 \<Rightarrow> rbt \<Rightarrow> rbt" where
  "prep node E = N E node True [] E"
| "prep node (N l a c ds r) =
     (if root_red l \<and> root_red r then N (blacken l) a True ds (blacken r) else N l a c ds r)"

lemma prep_neq_E [simp]: "prep node t \<noteq> E"
  by (cases t) auto

lemma slots_prep: "t \<noteq> E \<Longrightarrow> slots (prep node t) = slots t"
  by (cases t) auto

lemma addrs_prep: "t \<noteq> E \<Longrightarrow> addrs (prep node t) = addrs t"
  by (cases t) auto

lemma prep_invariants:
  assumes "no_red_red t" "level_black t"
  shows "no_red_red (prep node t)" "level_black (prep node t)"
    "black_depth (prep node t) = black_depth t"
  using assms by (cases t; auto simp: black_depth_blacken)+

text \<open>Below a node that \<open>prep\<close> has made red, one more \<open>prep\<close> changes nothing.\<close>

lemma prep_mk_red:
  assumes "prep node t = mk d x a True ds y" "no_red_red t" "\<not> root_red t" "t \<noteq> E"
  shows "x \<noteq> E \<and> y \<noteq> E \<and> \<not> root_red x \<and> \<not> root_red y \<and> prep node x = x \<and> prep node y = y"
proof -
  obtain l b c es r where t: "t = N l b c es r" using assms(4) by (cases t) auto
  have rr: "root_red l" "root_red r" "prep node t = N (blacken l) b True es (blacken r)"
    using assms(1,3) t by (auto simp: mk_def split: if_splits)
  have "prep node (blacken u) = blacken u" if "root_red u" "no_red_red u" for u
    using that by (cases u) auto
  with rr assms(1,2) t show ?thesis by (cases l; cases r; auto simp: mk_def split: if_splits)
qed

lemma attach_or_flip_ok:
  assumes sep: "separated S" and S: "set (addrs nt) \<subseteq> S" "p \<in> S" "node \<in> S"
    and nin: "p \<notin> set (addrs nt)" "node \<notin> set (addrs nt)" "p \<noteq> node"
    and dist: "distinct (addrs nt)"
    and n: "rep m n nt" "get_link m p (of_bool dir) = n"
    and node: "rep m node (N E node True [] E)"
    and res: "attach_or_flip node p n dir dup nn m = (m1, n1, dup1, nn1)"
  shows "rep m1 n1 (prep node nt)" "get_link m1 p (of_bool dir) = n1"
    "framed (set (addrs nt)) p (of_bool dir) m m1"
    "(n1, dup1, nn1) = (if nt = E then (node, False, nn + 1) else (n, dup, nn))"
proof -
  note laws = heap_laws [OF sep]
  let ?goal = "rep m1 n1 (prep node nt) \<and> get_link m1 p (of_bool dir) = n1 \<and>
    framed (set (addrs nt)) p (of_bool dir) m m1 \<and>
    (n1, dup1, nn1) = (if nt = E then (node, False, nn + 1) else (n, dup, nn))"
  have ?goal
  proof (cases nt)
    case E
    with n res have "m1 = set_link m p (of_bool dir) node" "n1 = node" "dup1 = False" "nn1 = nn + 1"
      by (auto simp: attach_or_flip_def)
    with E S nin node show ?thesis
      by (auto simp: laws framed_set_link)
  next
    case (N l a c ds r)
    have a: "n = a" "a \<in> S" "a \<noteq> 0" using N n S separated_nz [OF sep] by auto
    let ?x = "get_link m a 0" and ?y = "get_link m a 1"
    have kids: "rep m ?x l" "rep m ?y r" using N n by auto
    show ?thesis
    proof (cases "root_red l \<and> root_red r")
      case False
      then have "(m1, n1, dup1, nn1) = (m, n, dup, nn)"
        using res a N rep_red [OF kids(1)] rep_red [OF kids(2)]
        by (auto simp: attach_or_flip_def)
      with False N n show ?thesis by auto
    next
      case True
      have xy: "?x \<noteq> 0" "?y \<noteq> 0" using True kids by (cases l; cases r; auto)+
      have xyS: "?x \<in> set (addrs l)" "?y \<in> set (addrs r)"
        using rep_root kids xy by blast+
      have m1: "m1 = paint_black (paint_black (paint_red m a) ?x) ?y" "n1 = n" "dup1 = dup" "nn1 = nn"
        using res a True rep_red [OF kids(1)] rep_red [OF kids(2)] S N xyS
        by (auto simp: attach_or_flip_def Let_def laws)
      define m0 where "m0 = paint_red m a"
      define mx where "mx = paint_black m0 ?x"
      have m1': "m1 = paint_black mx ?y" using m1 by (simp add: m0_def mx_def)
      have S': "set (addrs l) \<subseteq> S" "set (addrs r) \<subseteq> S" "set ds \<subseteq> S" "?x \<in> S" "?y \<in> S"
        using S N xyS by auto
      have D: "distinct (addrs l)" "distinct (addrs r)" "a \<notin> set (addrs l)" "a \<notin> set (addrs r)"
        "a \<notin> set ds" "?x \<notin> set (addrs r)" "?y \<notin> set (addrs l)" "?x \<notin> set ds" "?y \<notin> set ds"
        "?x \<noteq> a" "?y \<noteq> a"
        using dist N xyS by auto
      have s0: "same_nodes A m m0" if "A \<subseteq> S" "a \<notin> A" for A
        unfolding m0_def by (rule same_nodes_update(2) [OF sep that(1) a(2) that(2)])
      have sx: "same_nodes A m0 mx" if "A \<subseteq> S" "?x \<notin> A" for A
        unfolding mx_def by (rule same_nodes_update(3) [OF sep that(1) S'(4) that(2)])
      have sy: "same_nodes A mx m1" if "A \<subseteq> S" "?y \<notin> A" for A
        unfolding m1' by (rule same_nodes_update(3) [OF sep that(1) S'(5) that(2)])
      have "rep mx ?x (blacken l)"
        unfolding mx_def using rep_same [OF s0 [OF S'(1) D(3)]] kids(1) xy(1)
        by (intro rep_paint_black [OF sep S'(1) D(1)]) auto
      then have "rep m1 ?x (blacken l)"
        using rep_same [of "blacken l", OF sy] S' D by simp
      moreover have "rep mx ?y r"
        using rep_same [OF s0 [OF S'(2) D(4)]] rep_same [OF sx [OF S'(2) D(6)]] kids(2) by simp
      then have "rep m1 ?y (blacken r)"
        unfolding m1' using xy(2) by (intro rep_paint_black [OF sep S'(2) D(2)])
      moreover have "dup_list m1 q ds = dup_list m q ds" for q
        using dup_list_same [OF s0 [OF S'(3) D(5)]] dup_list_same [OF sx [OF S'(3) D(8)]]
          dup_list_same [OF sy [OF S'(3) D(9)]] by simp
      moreover have "framed (set (addrs nt)) p (of_bool dir) m m1"
      proof -
        have A: "set (addrs nt) \<subseteq> S" "p \<notin> set (addrs nt)"
          "a \<in> set (addrs nt)" "?x \<in> set (addrs nt)"
          "?y \<in> set (addrs nt)"
          using a xyS N S nin by auto
        note paint = framed_paint [OF _ sep A(1) S(2) A(2)]
        show ?thesis unfolding m1' mx_def m0_def
          by (rule framed_trans [OF framed_trans [OF paint(1) [OF A(3)] paint(2) [OF A(4)]]
                paint(2) [OF A(5)]]) simp_all
      qed
      moreover have "is_red m1 a"
        using D(10,11) a(2) S'(4,5) by (simp add: m1' mx_def m0_def laws)
      moreover have "get_link m1 b j = get_link m b j" if "b \<in> S" "j < 3" for b j
        using that a(2) S'(4,5) by (simp add: m1' mx_def m0_def laws)
      ultimately show ?thesis
        using m1(2-4) True N n a(1,2) S(2) by simp
    qed
  qed
  then show "rep m1 n1 (prep node nt)" "get_link m1 p (of_bool dir) = n1"
    "framed (set (addrs nt)) p (of_bool dir) m m1"
    "(n1, dup1, nn1) = (if nt = E then (node, False, nn + 1) else (n, dup, nn))"
    by blast+
qed

section \<open>Rotations\<close>

lemma rep_child_in: "rep m q t \<Longrightarrow> set (addrs t) \<subseteq> S \<Longrightarrow> q \<in> insert 0 S"
  using rep_root by (cases "q = 0") auto

lemma rotated_rep:
  assumes sep: "separated S" and S: "set (addrs gt) \<subseteq> S" and dist: "distinct (addrs gt)"
    and gt: "gt = mk d (mk d x p c1 dsp y) g c2 dsg u" and r: "rep m g gt"
  shows "rep (rotated m g (\<not> d)) p (mk d x p False dsp (mk d y g True dsg u))"
    and "rotate_node m g (\<not> d) = (rotated m g (\<not> d), p)"
    and "t \<in> S \<Longrightarrow> t \<notin> set (addrs gt) \<Longrightarrow> i < 3 \<Longrightarrow>
      framed (set (addrs gt)) t i m (rotated m g (\<not> d))"
proof -
  let ?m = "rotated m g (\<not> d)"
  have p: "get_link m g (of_bool d) = p" and pS: "p \<in> S" "g \<in> S" "p \<noteq> g"
    using r S dist gt by auto
  have y: "rep m (get_link m p (of_bool (\<not> d))) y" using r gt by simp
  have yS: "get_link m p (of_bool (\<not> d)) \<in> insert 0 S"
    using rep_child_in [OF y] S gt by auto
  have laws: "\<And>b j. b \<in> S \<Longrightarrow> j < 3 \<Longrightarrow> get_link ?m b j =
      (if b = p \<and> j = of_bool (\<not> d) then g
       else if b = g \<and> j = of_bool d then get_link m p (of_bool (\<not> d)) else get_link m b j)"
    "\<And>b. b \<in> S \<Longrightarrow> is_red ?m b = (b = g \<or> b \<noteq> p \<and> is_red m b)"
    using rotated_laws [OF sep pS(2), of _ p m "\<not> d"] p pS yS by auto
  have same: "same_nodes A m ?m" if "A \<subseteq> S" "p \<notin> A" "g \<notin> A" for A
    unfolding same_nodes_def
  proof (intro ballI conjI allI impI)
    fix a j assume a: "a \<in> A"
    then have "a \<in> S" "a \<noteq> p" "a \<noteq> g" using that by auto
    then show "is_red ?m a = is_red m a" "j < 3 \<Longrightarrow> get_link ?m a j = get_link m a j"
      by (simp_all add: laws)
  qed
  have subs: "set (addrs x) \<subseteq> S" "set (addrs y) \<subseteq> S" "set (addrs u) \<subseteq> S" "set dsp \<subseteq> S" "set dsg \<subseteq> S"
    "p \<notin> set (addrs x)" "p \<notin> set (addrs y)" "p \<notin> set (addrs u)" "p \<notin> set dsp" "p \<notin> set dsg"
    "g \<notin> set (addrs x)" "g \<notin> set (addrs y)" "g \<notin> set (addrs u)" "g \<notin> set dsp" "g \<notin> set dsg"
    using S dist gt by auto
  have "rep ?m q x = rep m q x" "rep ?m q y = rep m q y" "rep ?m q u = rep m q u"
    "dup_list ?m q dsp = dup_list m q dsp" "dup_list ?m q dsg = dup_list m q dsg" for q
    using rep_same [OF same] dup_list_same [OF same] subs by blast+
  with r gt pS show "rep ?m p (mk d x p False dsp (mk d y g True dsg u))"
    by (simp add: laws)
  show "rotate_node m g (\<not> d) = (?m, p)"
    using p by (simp add: rotate_node_eq)
  show "framed (set (addrs gt)) t i m ?m" if "t \<in> S" "t \<notin> set (addrs gt)" "i < 3"
    using p gt that by (intro framed_rotated [OF _ _ sep S]) auto
qed

lemma rep_set_link_other:
  assumes "separated S" "set (addrs t) \<subseteq> S" "a \<in> S" "a \<notin> set (addrs t)" "k < 3" "v \<in> insert 0 S"
  shows "rep (set_link m a k v) q t = rep m q t"
  by (rule rep_same [OF same_nodes_update(1) [OF assms(1-5) assms(6)]])

lemma fix_violation_single:
  assumes sep: "separated S" and S: "set (addrs gt) \<subseteq> S" "t \<in> S" "t \<notin> set (addrs gt)"
    and dist: "distinct (addrs gt)" and r: "rep m g gt"
    and gt: "gt = mk d (mk d nt p True dsp v) g c dsg u"
    and n: "get_link m p (of_bool d) = n" "root_red nt"
    and t: "d2 \<longleftrightarrow> get_link m t 1 = g"
  shows "get_link (fix_violation t g p n d m) t (of_bool d2) = p"
    and "rep (fix_violation t g p n d m) p (mk d nt p False dsp (mk d v g True dsg u))"
    and "framed (set (addrs gt)) t (of_bool d2) m (fix_violation t g p n d m)"
proof -
  note rot = rotated_rep [OF sep S(1) dist gt r]
  let ?m = "rotated m g (\<not> d)"
  have red: "is_red m n" "is_red m p" using r gt n rep_red by auto
  have p: "p \<in> S" using S gt by auto
  have f: "fix_violation t g p n d m = set_link ?m t (of_bool d2) p"
    using red n t by (simp add: fix_violation_def rot(2))
  show "get_link (fix_violation t g p n d m) t (of_bool d2) = p"
    unfolding f using S p by (simp add: heap_laws [OF sep])
  show "rep (fix_violation t g p n d m) p (mk d nt p False dsp (mk d v g True dsg u))"
    unfolding f using rot(1) S p gt by (subst rep_set_link_other [OF sep]) auto
  show "framed (set (addrs gt)) t (of_bool d2) m (fix_violation t g p n d m)"
    unfolding f by (rule framed_trans [OF rot(3) [OF S(2,3)] framed_set_link(2)]) simp
qed

lemma fix_violation_double:
  assumes sep: "separated S" and S: "set (addrs gt) \<subseteq> S" "t \<in> S" "t \<notin> set (addrs gt)"
    and dist: "distinct (addrs gt)" and r: "rep m g gt"
    and gt: "gt = mk d (mk (\<not> d) (mk d a n True dsn b) p True dsp v) g c dsg u"
    and t: "d2 \<longleftrightarrow> get_link m t 1 = g"
  shows "get_link (fix_violation t g p n d m) t (of_bool d2) = n"
    and "rep (fix_violation t g p n d m) n
           (mk d (mk (\<not> d) a p True dsp v) n False dsn (mk d b g True dsg u))"
    and "framed (set (addrs gt)) t (of_bool d2) m (fix_violation t g p n d m)"
proof -
  define pt where "pt = mk (\<not> d) (mk (\<not> d) b n True dsn a) p True dsp v"
  have gt': "gt = mk d pt g c dsg u" using gt by (simp add: pt_def mk_flip)
  have gp: "get_link m g (of_bool d) = p" using r gt by simp
  have pt: "set (addrs pt) \<subseteq> S" "distinct (addrs pt)" "rep m p pt" "g \<in> S" "g \<notin> set (addrs pt)"
    using S(1) dist r gt' gp by auto
  note rot1 = rotated_rep [OF sep pt(1,2) pt_def pt(3)]
  define m1 where "m1 = rotated m p d"
  define pt1 where "pt1 = mk (\<not> d) b n False dsn (mk (\<not> d) a p True dsp v)"
  have r1: "rep m1 n pt1" "rotate_node m p d = (m1, n)"
    and fr1: "framed (set (addrs pt)) g (of_bool d) m m1"
    using rot1 pt by (simp_all add: m1_def pt1_def)
  define m2 where "m2 = set_link m1 g (of_bool d) n"
  define gt2 where "gt2 = mk d pt1 g c dsg u"
  have "slots pt1 = slots pt" by (simp add: pt1_def pt_def slots_mk)
  then have "addrs pt1 = addrs pt" "addrs gt2 = addrs gt"
    by (simp_all add: gt2_def gt' addrs_slots slots_mk)
  then have ap: "set (addrs pt1) = set (addrs pt)" and ag: "set (addrs gt2) = set (addrs gt)"
    and dp: "distinct (addrs gt2)"
    using dist by simp_all
  have nS: "n \<in> S" "n \<in> set (addrs pt)" using pt by (auto simp: pt_def)
  have fr2: "framed (set (addrs pt)) g (of_bool d) m m2"
    unfolding m2_def by (rule framed_trans [OF fr1 framed_set_link(2)])
  have g2: "get_link m2 g j = (if j = of_bool d then n else get_link m g j)" if "j < 3" for j
    using framed_nodes(1) [OF fr2 sep pt(1,4) pt(4) _ pt(5)] that nS pt(4)
    by (auto simp: m2_def heap_laws [OF sep])
  have "rep m2 g gt2"
  proof -
    have "rep m2 n pt1"
      unfolding m2_def using r1(1) pt ap nS by (subst rep_set_link_other [OF sep]) auto
    moreover have "same_nodes (set (addrs u) \<union> set dsg) m m2"
      using S(1) dist gt' by (intro framed_same [OF fr2 sep pt(1,4)]) auto
    then have "rep m2 q u = rep m q u" "dup_list m2 q dsg = dup_list m q dsg" for q
      by (auto intro!: rep_same dup_list_same elim: same_nodes_mono)
    moreover have "is_red m2 g = is_red m g"
      using framed_nodes(2) [OF fr2 sep pt(1,4) pt(4) _ pt(5)] by simp
    ultimately show ?thesis
      using r gt' by (simp add: gt2_def g2)
  qed
  have gt2': "gt2 = mk d (mk d (mk (\<not> d) a p True dsp v) n False dsn b) g c dsg u"
    by (simp add: gt2_def pt1_def mk_flip)
  note rot2 = rotated_rep [OF sep _ dp gt2' \<open>rep m2 g gt2\<close>]
  define m3 where "m3 = rotated m2 g (\<not> d)"
  have red: "is_red m n" "is_red m p" "get_link m g (of_bool d) = p" "n \<noteq> get_link m p (of_bool d)"
    using r gt dist S(1) separated_nz [OF sep nS(1)] rep_root [of m "get_link m p (of_bool d)" v] by auto
  have f: "fix_violation t g p n d m = set_link m3 t (of_bool d2) n"
    using red t r1(2) rot2(2) S(1) ag
    by (simp add: fix_violation_def m2_def [symmetric] m3_def [symmetric])
  have S2: "set (addrs gt2) \<subseteq> S" "t \<notin> set (addrs gt2)" using S ag by auto
  show "get_link (fix_violation t g p n d m) t (of_bool d2) = n"
    unfolding f using S(2) nS(1) by (simp add: heap_laws [OF sep])
  show "rep (fix_violation t g p n d m) n
      (mk d (mk (\<not> d) a p True dsp v) n False dsn (mk d b g True dsg u))"
    unfolding f using rot2(1) [OF S2(1)] S nS gt
    by (subst rep_set_link_other [OF sep]) (auto simp: m3_def)
  have "framed (set (addrs gt)) t (of_bool d2) m m2"
    using gt' by (intro framed_nested [OF fr2 _ sep S]) auto
  moreover have "framed (set (addrs gt)) t (of_bool d2) m2 m3"
    using rot2(3) [OF S2(1) S(2) S2(2)] ag by (simp add: m3_def)
  ultimately have "framed (set (addrs gt)) t (of_bool d2) m m3" by (rule framed_trans)
  then show "framed (set (addrs gt)) t (of_bool d2) m (fix_violation t g p n d m)"
    unfolding f by (rule framed_trans [OF _ framed_set_link(2)])
qed

end
