(* ===== verification/Rb_Context.thy ===== *)
theory Rb_Context
  imports Rb_Insert
begin

text \<open>
  Contexts: the way from the dummy root of \<^verbatim>\<open>kernel/rb_tree.c\<close> down to a subtree. Removal walks
  down once and changes the tree at the place it has reached, so its proof speaks of the
  subtree in the hole of a context, and of rotations and repaintings there.
\<close>

section \<open>Contexts and their holes\<close>

text \<open>A step down: the direction taken, the node left behind, and its other subtree.\<close>

type_synonym step = "bool \<times> u32 \<times> bool \<times> u32 list \<times> rbt"

fun plug :: "step list \<Rightarrow> rbt \<Rightarrow> rbt" where
  "plug [] t = t"
| "plug ((d, a, c, ds, y) # cs) t = plug cs (mk d t a c ds y)"

fun hole_node :: "u32 \<Rightarrow> step list \<Rightarrow> u32" where
  "hole_node head [] = head"
| "hole_node head ((d, a, c, ds, y) # cs) = a"

fun hole_dir :: "step list \<Rightarrow> bool" where
  "hole_dir [] = True"
| "hole_dir ((d, a, c, ds, y) # cs) = d"

fun context_addrs :: "step list \<Rightarrow> u32 set" where
  "context_addrs [] = {}"
| "context_addrs ((d, a, c, ds, y) # cs) = insert a (set ds \<union> set (addrs y)) \<union> context_addrs cs"

fun lefts :: "step list \<Rightarrow> (u32 \<times> u32 list) list" where
  "lefts [] = []"
| "lefts ((d, a, c, ds, y) # cs) = lefts cs @ (if d then slots y @ [(a, ds)] else [])"

fun rights :: "step list \<Rightarrow> (u32 \<times> u32 list) list" where
  "rights [] = []"
| "rights ((d, a, c, ds, y) # cs) = (if d then [] else (a, ds) # slots y) @ rights cs"

lemma plug_append: "plug (us @ cs) t = plug cs (plug us t)"
  by (induction us arbitrary: t) auto

lemma context_append: "context_addrs (us @ cs) = context_addrs us \<union> context_addrs cs"
  by (induction us rule: context_addrs.induct) auto

lemma slots_plug: "slots (plug cs t) = lefts cs @ slots t @ rights cs"
proof (induction cs arbitrary: t)
  case (Cons s cs)
  then show ?case by (cases s) (simp add: slots_mk)
qed simp

lemma set_addrs_plug [simp]: "set (addrs (plug cs t)) = context_addrs cs \<union> set (addrs t)"
proof (induction cs arbitrary: t)
  case (Cons s cs)
  then show ?case by (cases s) auto
qed simp

lemma distinct_plug:
  "distinct (addrs (plug cs t)) \<Longrightarrow> distinct (addrs t) \<and> context_addrs cs \<inter> set (addrs t) = {}"
proof (induction cs arbitrary: t)
  case (Cons s cs)
  obtain d a c ds y where s: "s = (d, a, c, ds, y)" by (cases s)
  have "distinct (addrs (mk d t a c ds y)) \<and> context_addrs cs \<inter> set (addrs (mk d t a c ds y)) = {}"
    using Cons.IH [of "mk d t a c ds y"] Cons.prems s by simp
  then show ?case using s by auto
qed simp

lemma distinct_swap:
  "distinct (addrs (plug cs t)) \<Longrightarrow> distinct (addrs t') \<Longrightarrow> context_addrs cs \<inter> set (addrs t') = {} \<Longrightarrow>
     distinct (addrs (plug cs t'))"
proof (induction cs arbitrary: t t')
  case (Cons s cs)
  obtain d a c ds y where s: "s = (d, a, c, ds, y)" by (cases s)
  have p: "distinct (addrs (plug cs (mk d t a c ds y)))" using Cons.prems(1) s by simp
  then have old: "distinct (addrs (mk d t a c ds y))" "context_addrs cs \<inter> set (addrs (mk d t a c ds y)) = {}"
    using distinct_plug by blast+
  have "a \<notin> set (addrs t')" "set ds \<inter> set (addrs t') = {}" "set (addrs t') \<inter> set (addrs y) = {}"
    "context_addrs cs \<inter> set (addrs t') = {}"
    using Cons.prems(3) s by auto
  then have "distinct (addrs (mk d t' a c ds y))" "context_addrs cs \<inter> set (addrs (mk d t' a c ds y)) = {}"
    using old Cons.prems(2) by (simp_all add: Int_Un_distrib)
  from Cons.IH [OF p this] show ?case using s by simp
qed simp

lemma addrs_plug_cong: "slots t' = slots t \<Longrightarrow> addrs (plug cs t') = addrs (plug cs t)"
  by (simp add: addrs_slots slots_plug)

section \<open>Contexts in memory\<close>

abbreviation hole :: "u32 \<Rightarrow> step list \<Rightarrow> mem \<Rightarrow> u32" where
  "hole head cs m \<equiv> get_link m (hole_node head cs) (of_bool (hole_dir cs))"

fun context_rep :: "mem \<Rightarrow> u32 \<Rightarrow> step list \<Rightarrow> bool" where
  "context_rep m head [] \<longleftrightarrow> True"
| "context_rep m head ((d, a, c, ds, y) # cs) \<longleftrightarrow> hole head cs m = a \<and> is_red m a = c \<and>
     rep m (get_link m a (of_bool (\<not> d))) y \<and> dup_list m (get_link m a 2) ds \<and> context_rep m head cs"

lemma rep_plug:
  "rep m (get_link m head 1) (plug cs t) \<longleftrightarrow> context_rep m head cs \<and> rep m (hole head cs m) t"
proof (induction cs arbitrary: t)
  case (Cons s cs)
  then show ?case by (cases s) auto
qed simp

lemma hole_node_in: "hole_node head cs \<in> insert head (context_addrs cs)"
  by (cases cs rule: hole_dir.cases) auto

lemma context_same:
  assumes "same_nodes (context_addrs cs) m m'" "get_link m' head 1 = get_link m head 1"
  shows "context_rep m' head cs = context_rep m head cs"
  using assms
proof (induction cs)
  case (Cons s cs)
  obtain d a c ds y where s: "s = (d, a, c, ds, y)" by (cases s)
  have sub: "same_nodes (set ds) m m'" "same_nodes (set (addrs y)) m m'" "same_nodes (context_addrs cs) m m'"
    "is_red m' a = is_red m a" "\<And>j. j < 3 \<Longrightarrow> get_link m' a j = get_link m a j"
    using Cons.prems(1) s by (auto simp: same_nodes_def)
  have "hole head cs m' = hole head cs m"
  proof (cases cs rule: hole_dir.cases)
    case (2 d' a' c' ds' y' cs')
    then show ?thesis using sub(3) by (auto simp: same_nodes_def)
  qed (use Cons.prems(2) in simp)
  then show ?case
    using s sub Cons.IH [OF sub(3) Cons.prems(2)] dup_list_same [OF sub(1)] rep_same [OF sub(2)] by simp
qed simp

text \<open>A change that stays inside the hole and its link leaves the context alone.\<close>

lemma context_framed:
  assumes sep: "separated S" and S: "insert head (context_addrs cs) \<subseteq> S" "A \<subseteq> S"
    and A: "A \<inter> insert head (context_addrs cs) = {}" "head \<notin> context_addrs cs"
    and dist: "distinct (addrs (plug cs t))"
    and fr: "framed A (hole_node head cs) (of_bool (hole_dir cs)) m m'"
    and r: "context_rep m head cs"
  shows "context_rep m' head cs"
proof (cases cs rule: hole_dir.cases)
  case (2 d a c ds y cs')
  have a: "a \<in> S" "a \<notin> A" using S A 2 by auto
  have frA: "framed A a (of_bool d) m m'" using fr 2 by simp
  have "distinct (addrs (mk d t a c ds y)) \<and> context_addrs cs' \<inter> set (addrs (mk d t a c ds y)) = {}"
    using distinct_plug [of cs' "mk d t a c ds y"] dist 2 by simp
  then have nin: "a \<notin> set ds \<union> set (addrs y)" "a \<notin> context_addrs cs'" by auto
  note nodes = framed_nodes [OF frA sep S(2) a(1) _ of_bool_less_3]
  have same: "same_nodes B m m'" if "B \<subseteq> S" "B \<inter> A = {}" "a \<notin> B" for B
    using that by (intro framed_same [OF frA sep S(2) a(1)]) auto
  have s: "same_nodes (set ds) m m'" "same_nodes (set (addrs y)) m m'" "same_nodes (context_addrs cs') m m'"
    using S A 2 nin by (intro same; auto)+
  have "head \<noteq> a" using A(2) 2 by auto
  then have h: "get_link m' head 1 = get_link m head 1"
    using nodes(1) [of head 1] S A by auto
  have "hole head cs' m' = hole head cs' m"
    using hole_node_in [of head cs'] s(3) h
    by (cases cs' rule: hole_dir.cases) (auto simp: same_nodes_def)
  moreover have "is_red m' a = is_red m a" "get_link m' a 2 = get_link m a 2"
    "get_link m' a (of_bool (\<not> d)) = get_link m a (of_bool (\<not> d))"
    using nodes [of a] a by auto
  ultimately show ?thesis
    using r 2 context_same [OF s(3) h] dup_list_same [OF s(1)] rep_same [OF s(2)] by simp
qed simp

section \<open>Trees below the dummy root\<close>

definition tree_at :: "u32 set \<Rightarrow> u32 \<Rightarrow> mem \<Rightarrow> rbt \<Rightarrow> bool" where
  "tree_at S head m t \<longleftrightarrow> separated S \<and> head \<in> S \<and> head \<notin> set (addrs t) \<and> set (addrs t) \<subseteq> S \<and>
     distinct (addrs t) \<and> rep m (get_link m head 1) t"

lemma tree_atD:
  assumes "tree_at S head m (plug cs t)"
  shows "separated S" "head \<in> S" "head \<notin> context_addrs cs" "head \<notin> set (addrs t)" "context_addrs cs \<subseteq> S"
    "set (addrs t) \<subseteq> S" "distinct (addrs t)" "context_addrs cs \<inter> set (addrs t) = {}"
    "context_rep m head cs" "rep m (hole head cs m) t" "hole_node head cs \<in> S" "hole_node head cs \<notin> set (addrs t)"
proof -
  show *: "separated S" "head \<in> S" "head \<notin> context_addrs cs" "head \<notin> set (addrs t)" "context_addrs cs \<subseteq> S"
    "set (addrs t) \<subseteq> S" "distinct (addrs t)" "context_addrs cs \<inter> set (addrs t) = {}"
    "context_rep m head cs" "rep m (hole head cs m) t"
    using assms distinct_plug [of cs t] rep_plug [of m head cs t] by (auto simp: tree_at_def)
  show "hole_node head cs \<in> S" "hole_node head cs \<notin> set (addrs t)"
    using hole_node_in [of head cs] * by auto
qed

lemma tree_at_node:
  assumes "tree_at S head m (plug cs (mk d x a c ds y))"
  shows "hole head cs m = a" "a \<in> S" "a \<noteq> 0" "is_red m a = c" "rep m (get_link m a (of_bool d)) x"
    "rep m (get_link m a (of_bool (\<not> d))) y" "dup_list m (get_link m a 2) ds"
  using tree_atD [OF assms] separated_nz by auto

text \<open>Putting another subtree into the hole.\<close>

lemma tree_at_replace:
  assumes t: "tree_at S head m (plug cs t)"
    and fr: "framed A (hole_node head cs) (of_bool (hole_dir cs)) m m'"
    and A: "A \<subseteq> S" "A \<inter> insert head (context_addrs cs) = {}"
    and t': "rep m' (hole head cs m') t'" "set (addrs t') \<subseteq> A" "distinct (addrs (plug cs t'))"
  shows "tree_at S head m' (plug cs t')"
proof -
  note d = tree_atD [OF t]
  have "context_rep m' head cs"
    using context_framed [OF d(1) _ A(1) _ d(3) _ fr d(9), of t] d(2,5) A(2) t by (auto simp: tree_at_def)
  then show ?thesis
    using d A t' rep_plug [of m' head cs t'] by (auto simp: tree_at_def)
qed

lemma hole_framed:
  assumes "tree_at S head m (plug cs t)" "framed (set (addrs t)) (hole_node head cs) (of_bool (hole_dir cs)) m m'"
  shows "framed (set (addrs (plug cs t))) head 1 m m'"
proof (cases cs rule: hole_dir.cases)
  case 1
  then show ?thesis using assms(2) by simp
next
  case (2 d a c ds y cs')
  note d = tree_atD [OF assms(1)]
  show ?thesis
    using d 2 by (intro framed_nested [OF assms(2) _ d(1) _ d(2)]) auto
qed

lemma hole_side:
  assumes "tree_at S head m (plug cs (mk d x a c ds y))"
  shows "get_link m (hole_node head cs) 1 = a \<longleftrightarrow> hole_dir cs"
proof (cases cs rule: hole_dir.cases)
  case (2 d' a' c' ds' y' cs')
  note n = tree_at_node [OF assms]
  show ?thesis
  proof (cases d')
    case False
    have "rep m (get_link m a' 1) y'" using tree_atD(9) [OF assms] 2 False by simp
    moreover have "a \<notin> set (addrs y')" using tree_atD(8) [OF assms] 2 by auto
    ultimately have "get_link m a' 1 \<noteq> a" using rep_root n(3) by metis
    then show ?thesis using 2 False by simp
  qed (use n(1) 2 in simp)
qed (use tree_at_node(1) [OF assms] in simp)

lemma tree_at_slots:
  assumes "tree_at S head m (plug cs t)" "slots t' = slots t"
  shows "distinct (addrs (plug cs t'))" "set (addrs t') = set (addrs t)"
  using assms addrs_plug_cong [OF assms(2), of cs] by (auto simp: tree_at_def addrs_slots)

section \<open>Changes in the hole\<close>

text \<open>Rotation of the subtree in the hole, the way the code writes it.\<close>

lemma rotate_hole:
  assumes t: "tree_at S head m (plug cs (mk d (mk d x p c1 dsp y) g c2 dsg u))"
    and m': "m' = set_link (rotated m g (\<not> d)) (hole_node head cs) (of_bool (hole_dir cs)) p"
  shows "tree_at S head m' (plug cs (mk d x p False dsp (mk d y g True dsg u)))"
    and "rotate_node m g (\<not> d) = (rotated m g (\<not> d), p)"
    and "framed (set (addrs (plug cs (mk d (mk d x p c1 dsp y) g c2 dsg u)))) head 1 m m'"
proof -
  define gt where "gt = mk d (mk d x p c1 dsp y) g c2 dsg u"
  define gt' where "gt' = mk d x p False dsp (mk d y g True dsg u)"
  have t: "tree_at S head m (plug cs gt)" using t by (simp add: gt_def)
  note d = tree_atD [OF t]
  have g: "hole head cs m = g" using tree_at_node [OF t [unfolded gt_def]] by simp
  note rot = rotated_rep [OF d(1,6,7) gt_def d(10) [unfolded g]]
  have sl: "slots gt' = slots gt" by (simp add: gt_def gt'_def slots_mk)
  note ds = tree_at_slots [OF t sl]
  have p: "p \<in> S" using d(6) by (simp add: gt_def)
  have fr: "framed (set (addrs gt)) (hole_node head cs) (of_bool (hole_dir cs)) m m'"
    unfolding m' by (rule framed_trans [OF rot(3) [OF d(11,12)] framed_set_link(2)]) simp
  have l: "hole head cs m' = p" unfolding m' using d(11) p by (simp add: heap_laws [OF d(1)])
  have "rep m' p gt'"
    unfolding m' using rot(1) d(6,11,12) ds(2) p
    by (subst rep_set_link_other [OF d(1)]) (auto simp: gt'_def)
  then show "tree_at S head m' (plug cs (mk d x p False dsp (mk d y g True dsg u)))"
    using tree_at_replace [OF t fr d(6) _ _ _ ds(1)] l ds(2) d by (auto simp: gt'_def)
  show "rotate_node m g (\<not> d) = (rotated m g (\<not> d), p)" by (rule rot)
  show "framed (set (addrs (plug cs (mk d (mk d x p c1 dsp y) g c2 dsg u)))) head 1 m m'"
    using hole_framed [OF t fr] by (simp add: gt_def)
qed

lemma rep_paint_red:
  assumes "separated S" "set (addrs (mk d x a c ds y)) \<subseteq> S" "distinct (addrs (mk d x a c ds y))"
    and "rep m a (mk d x a c ds y)"
  shows "rep (paint_red m a) a (mk d x a True ds y)"
proof -
  have a: "a \<in> S" using assms(2) by simp
  note same = same_nodes_update(2) [OF assms(1) _ a]
  have "rep (paint_red m a) q x = rep m q x" "rep (paint_red m a) q y = rep m q y"
    "dup_list (paint_red m a) q ds = dup_list m q ds" for q
    using rep_same [OF same] dup_list_same [OF same] assms(2,3) by auto
  with a assms(4) show ?thesis by (simp add: heap_laws [OF assms(1)])
qed

definition painted :: "bool \<Rightarrow> mem \<Rightarrow> u32 \<Rightarrow> mem" where
  "painted c m a = (if c then paint_red m a else paint_black m a)"

lemma paint_hole:
  assumes t: "tree_at S head m (plug cs (mk d x a c ds y))"
  shows "tree_at S head (painted c' m a) (plug cs (mk d x a c' ds y))"
    and "framed (set (addrs (plug cs (mk d x a c ds y)))) head 1 m (painted c' m a)"
proof -
  note d = tree_atD [OF t]
  note n = tree_at_node [OF t]
  have fr: "framed (set (addrs (mk d x a c ds y))) (hole_node head cs) (of_bool (hole_dir cs)) m (painted c' m a)"
    using framed_paint [OF _ d(1,6,11,12), of a] by (simp add: painted_def)
  have l: "hole head cs (painted c' m a) = a"
    using n(1,2) d(11) by (simp add: painted_def heap_laws [OF d(1)])
  have "rep (painted c' m a) a (mk d x a c' ds y)"
    using rep_paint_red [OF d(1,6,7)] rep_paint_black [OF d(1,6,7)] d(10) n(1,3) by (simp add: painted_def)
  moreover have "slots (mk d x a c' ds y) = slots (mk d x a c ds y)" by (simp add: slots_mk)
  note s = tree_at_slots [OF t this]
  ultimately show "tree_at S head (painted c' m a) (plug cs (mk d x a c' ds y))"
    using tree_at_replace [OF t fr d(6) _ _ _ s(1)] l s(2) d by auto
  show "framed (set (addrs (plug cs (mk d x a c ds y)))) head 1 m (painted c' m a)"
    by (rule hole_framed [OF t fr])
qed

text \<open>A root that is not empty can be painted black without knowing its children.\<close>

lemma blacken_hole:
  assumes t: "tree_at S head m (plug cs t)" "t \<noteq> E" "hole head cs m = a"
  shows "tree_at S head (painted False m a) (plug cs (blacken t))"
    and "framed (set (addrs (plug cs t))) head 1 m (painted False m a)"
proof -
  obtain l b c ds r where k: "t = mk False l b c ds r" using mk_exists [OF t(2), of False] by auto
  have "b = a" using tree_at_node(1) [OF t(1) [unfolded k]] t(3) by simp
  then show "tree_at S head (painted False m a) (plug cs (blacken t))"
    "framed (set (addrs (plug cs t))) head 1 m (painted False m a)"
    using paint_hole [OF t(1) [unfolded k], of False] k by auto
qed

section \<open>Balance\<close>

definition balanced :: "rbt \<Rightarrow> bool" where
  "balanced t \<longleftrightarrow> no_red_red t \<and> level_black t"

lemma balanced_mk [simp]:
  "balanced (mk d x a c ds y) \<longleftrightarrow> balanced x \<and> balanced y \<and> black_depth x = black_depth y \<and>
     \<not> (c \<and> (root_red x \<or> root_red y))"
  by (auto simp: balanced_def)

lemma balanced_hole: "balanced (plug cs t) \<Longrightarrow> balanced t"
proof (induction cs arbitrary: t)
  case (Cons s cs)
  obtain d a c ds y where s: "s = (d, a, c, ds, y)" by (cases s)
  have "balanced (mk d t a c ds y)" using Cons.IH [of "mk d t a c ds y"] Cons.prems s by simp
  then show ?case by simp
qed simp

lemma balanced_replace:
  assumes "balanced (plug cs t)" "balanced t'" "black_depth t' = black_depth t" "root_red t' \<longrightarrow> root_red t"
  shows "balanced (plug cs t')"
  using assms
proof (induction cs arbitrary: t t')
  case (Cons s cs)
  obtain d a c ds y where s: "s = (d, a, c, ds, y)" by (cases s)
  have b: "balanced (mk d t a c ds y)" using balanced_hole [of cs "mk d t a c ds y"] Cons.prems(1) s by simp
  show ?case unfolding s plug.simps
    by (rule Cons.IH [of "mk d t a c ds y"]) (use Cons.prems b s in \<open>auto simp: black_depth_mk\<close>)
qed simp

end
