(* ===== verification/Rb_Descent.thy ===== *)
theory Rb_Descent
  imports Rb_Context Rb_Remove
begin

text \<open>
  One step of the descent of \<open>remove_rbnode\<close>. The invariant of the descent is that the tree
  stays balanced but for the colour of its root, and that the node just reached or its next
  child is red, so that the node at the end of the way can be cut off.
\<close>

section \<open>The state of the descent\<close>

fun parent :: "u32 \<Rightarrow> step list \<Rightarrow> u32" where
  "parent head [] = 0"
| "parent head (s # cs) = hole_node head cs"

fun pushed :: "step list \<Rightarrow> rbt \<Rightarrow> bool" where
  "pushed [] x \<longleftrightarrow> True"
| "pushed ((d, a, c, ds, y) # cs) x \<longleftrightarrow> c \<or> root_red x \<or> cs = [] \<and> \<not> root_red y"

text \<open>The last node from which the way went to the left, and the context above it.\<close>

fun innermost :: "step list \<Rightarrow> (u32 \<times> step list) option" where
  "innermost [] = None"
| "innermost ((d, a, c, ds, y) # cs) = (if d then innermost cs else Some (a, cs))"

text \<open>\<open>f\<close> is that node if the comparison \<open>C\<close> accepts it, and \<open>fp\<close> its parent.\<close>

definition tracks :: "(u32 \<Rightarrow> int) \<Rightarrow> u32 \<Rightarrow> step list \<Rightarrow> u32 \<Rightarrow> u32 \<Rightarrow> bool" where
  "tracks C head cs f fp \<longleftrightarrow>
     (case innermost cs of
        None \<Rightarrow> f = 0
      | Some (a, vs) \<Rightarrow> if C a = 0 then f = a \<and> fp = hole_node head vs else f = 0)"

lemma innermost_in: "innermost cs = Some (a, vs) \<Longrightarrow> a \<in> context_addrs cs"
  by (induction cs rule: innermost.induct) (auto split: if_splits)

lemma tracks_in: "tracks C head cs f fp \<Longrightarrow> f = 0 \<or> f \<in> context_addrs cs"
  by (auto simp: tracks_def innermost_in split: option.splits if_splits)

lemma tracks_simps [simp]:
  "tracks C head [] f fp \<longleftrightarrow> f = 0"
  "tracks C head ((d, a, c, ds, y) # cs) f fp \<longleftrightarrow>
     (if d then tracks C head cs f fp else if C a = 0 then f = a \<and> fp = hole_node head cs else f = 0)"
  by (simp_all add: tracks_def)

text \<open>What a step leaves: a longer way that ends at \<open>n\<close>, with the same nodes on either side.\<close>

definition stepped ::
  "u32 set \<Rightarrow> u32 \<Rightarrow> (u32 \<Rightarrow> int) \<Rightarrow> mem \<Rightarrow> step list \<Rightarrow> step \<Rightarrow> rbt \<Rightarrow> u32 \<Rightarrow> mem \<times> u32 \<times> u32 \<Rightarrow> bool" where
  "stepped S head C m cs s a f res \<longleftrightarrow>
     (\<exists>m' fp' cs'. res = (m', parent head cs', fp') \<and> cs' \<noteq> [] \<and>
        hole_node head cs' = hole_node head (s # cs) \<and> hole_dir cs' = hole_dir (s # cs) \<and>
        lefts cs' = lefts (s # cs) \<and> rights cs' = rights (s # cs) \<and>
        tree_at S head m' (plug cs' a) \<and> balanced (plug cs' a) \<and> pushed cs' a \<and>
        tracks C head cs' f fp' \<and> framed (set (addrs (plug (s # cs) a))) head 1 m m')"

lemma steppedI:
  assumes "cs' \<noteq> []" "hole_node head cs' = hole_node head (s # cs)" "hole_dir cs' = hole_dir (s # cs)"
    "lefts cs' = lefts (s # cs)" "rights cs' = rights (s # cs)"
    "tree_at S head m' (plug cs' a)" "balanced (plug cs' a)" "pushed cs' a" "tracks C head cs' f fp'"
    "framed (set (addrs (plug (s # cs) a))) head 1 m m'"
  shows "stepped S head C m cs s a f (m', parent head cs', fp')"
  unfolding stepped_def using assms by blast

section \<open>The cases of a step\<close>

lemma step_stay:
  assumes t: "tree_at S head m (plug cs (mk d a n c ds b))" "balanced (plug cs (mk d a n c ds b))"
    and tr: "tracks C head ((d, n, c, ds, b) # cs) f fp"
    and p: "c \<or> root_red a \<or> cs = [] \<and> \<not> root_red b"
  shows "stepped S head C m cs (d, n, c, ds, b) a f (m, hole_node head cs, fp)"
proof -
  have "stepped S head C m cs (d, n, c, ds, b) a f (m, parent head ((d, n, c, ds, b) # cs), fp)"
    by (rule steppedI) (use assms in auto)
  then show ?thesis by simp
qed

text \<open>The other child is red: it is rotated above the node, which becomes red.\<close>

lemma step_rotate:
  assumes t: "tree_at S head m (plug cs (mk d a n False ds b))" "balanced (plug cs (mk d a n False ds b))"
    and tr: "tracks C head ((d, n, False, ds, b) # cs) f fp"
    and red: "\<not> root_red a" "root_red b"
  shows "stepped S head C m cs (d, n, False, ds, b) a f
    (push_red (parent head cs) (hole_node head cs) n f fp d (hole_dir cs) m)"
proof -
  have "b \<noteq> E" using red(2) by auto
  then obtain b1 r c1 dsr b2 where b': "b = mk d b1 r c1 dsr b2" using mk_exists [of b d] by auto
  then have b: "b = mk d b1 r True dsr b2" using red(2) by simp
  let ?x = "mk d a n False ds b" and ?cs = "(d, n, True, ds, b1) # (d, r, False, dsr, b2) # cs"
  have tx: "tree_at S head m (plug cs (mk (\<not> d) (mk (\<not> d) b2 r True dsr b1) n False ds a))"
    using t(1) by (simp add: b mk_flip)
  define m' where "m' = set_link (rotated m n d) (hole_node head cs) (of_bool (hole_dir cs)) r"
  note rot = rotate_hole [OF tx, of m']
  have t': "tree_at S head m' (plug ?cs a)"
    using rot(1) by (simp add: m'_def mk_flip)
  have fr: "framed (set (addrs (plug cs ?x))) head 1 m m'"
    using rot(3) by (simp add: m'_def b mk_flip)
  have rn: "rotate_node m n d = (rotated m n d, r)" using rot(2) by (simp add: m'_def)
  have n: "\<not> is_red m n" "\<not> is_red m (get_link m n (of_bool d))" "is_red m (get_link m n (of_bool (\<not> d)))"
    using tree_at_node [OF t(1)] rep_red red by auto
  have l: "get_link m' (hole_node head cs) (of_bool (hole_dir cs)) = r"
    using tree_at_node(1) [of S head m' cs d "mk d a n True ds b1" r False dsr b2] t' by simp
  have res: "push_red (parent head cs) (hole_node head cs) n f fp d (hole_dir cs) m =
      (m', r, if f = n then r else fp)"
    using n l by (simp add: push_red_def rn m'_def [symmetric])
  have bal: "balanced ?x" by (rule balanced_hole [OF t(2)])
  then have "balanced (plug cs (mk d (mk d a n True ds b1) r False dsr b2))"
    by (intro balanced_replace [OF t(2)]) (auto simp: b black_depth_mk red)
  moreover have nn: "n \<notin> context_addrs cs" "n \<noteq> 0" using tree_atD [OF t(1)] tree_at_node [OF t(1)] by auto
  have "tracks C head ?cs f (if f = n then r else fp)"
  proof (cases d)
    case True
    then have "tracks C head cs f fp" using tr by simp
    moreover from this have "f \<noteq> n" using tracks_in nn by blast
    ultimately show ?thesis using True by simp
  qed (use tr nn in \<open>auto split: if_splits\<close>)
  ultimately have "stepped S head C m cs (d, n, False, ds, b) a f (m', parent head ?cs, if f = n then r else fp)"
    using t' fr by (intro steppedI) (auto simp: b slots_mk)
  then show ?thesis unfolding res by simp
qed

text \<open>The sibling has no red child: the colours of parent, sibling and node are flipped.\<close>

lemma step_flip:
  assumes t: "tree_at S head m (plug ((l, q, cq, dsq, y) # cs) (mk d a n False ds b))"
      "balanced (plug ((l, q, cq, dsq, y) # cs) (mk d a n False ds b))"
    and tr: "tracks C head ((d, n, False, ds, b) # (l, q, cq, dsq, y) # cs) f fp"
    and y: "y = mk l y1 s False dss y2" "\<not> root_red y1" "\<not> root_red y2"
    and red: "\<not> root_red a" "\<not> root_red b" "cq \<or> cs = []"
  shows "stepped S head C m ((l, q, cq, dsq, y) # cs) (d, n, False, ds, b) a f
    (push_red (hole_node head cs) q n f fp d l m)"
proof -
  let ?cs = "(d, n, True, ds, b) # (l, q, False, dsq, mk l y1 s True dss y2) # cs"
  let ?A = "set (addrs (plug ((l, q, cq, dsq, y) # cs) (mk d a n False ds b)))"
  have sib: "rep m (get_link m q (of_bool (\<not> l))) y" using tree_atD(9) [OF t(1)] by simp
  then have s: "get_link m q (of_bool (\<not> l)) = s" "\<not> is_red m (get_link m s 0)" "\<not> is_red m (get_link m s 1)"
    using y rep_red by (cases l; auto)+
  have "tree_at S head m (plug ((\<not> l, q, cq, dsq, mk d a n False ds b) # cs) y)"
    using t(1) by (simp add: mk_flip)
  then have s0: "s \<noteq> 0" using tree_at_node(3) unfolding y(1) by blast
  have n: "\<not> is_red m n" "\<not> is_red m (get_link m n (of_bool d))" "\<not> is_red m (get_link m n (of_bool (\<not> d)))"
    using tree_at_node [OF t(1)] rep_red red by auto
  define m1 where "m1 = painted False m q"
  define m2 where "m2 = painted True m1 s"
  define m3 where "m3 = painted True m2 n"
  have res: "push_red (hole_node head cs) q n f fp d l m = (m3, q, fp)"
    using n s s0 by (simp add: push_red_def painted_def m1_def m2_def m3_def)
  have t0: "tree_at S head m (plug cs (mk l (mk d a n False ds b) q cq dsq y))" using t(1) by simp
  note p1 = paint_hole [OF t0, of False, folded m1_def]
  have t1: "tree_at S head m1 (plug ((\<not> l, q, False, dsq, mk d a n False ds b) # cs) (mk l y1 s False dss y2))"
    using p1(1) by (simp add: mk_flip y(1))
  note p2 = paint_hole [OF t1, of True, folded m2_def]
  have t2: "tree_at S head m2 (plug ((l, q, False, dsq, mk l y1 s True dss y2) # cs) (mk d a n False ds b))"
    using p2(1) by (simp add: mk_flip)
  note p3 = paint_hole [OF t2, of True, folded m3_def]
  have A: "set (addrs (plug ((\<not> l, q, False, dsq, mk d a n False ds b) # cs) (mk l y1 s False dss y2))) = ?A"
    "set (addrs (plug ((l, q, False, dsq, mk l y1 s True dss y2) # cs) (mk d a n False ds b))) = ?A"
    by (auto simp: y(1))
  have "framed ?A head 1 m m1" "framed ?A head 1 m1 m2" "framed ?A head 1 m2 m3"
    using p1(2) p2(2) [unfolded A(1)] p3(2) [unfolded A(2)] by simp_all
  then have fr: "framed ?A head 1 m m3" by (blast intro: framed_trans)
  have bal: "balanced (mk l (mk d a n False ds b) q cq dsq y)"
    using balanced_hole [of cs "mk l (mk d a n False ds b) q cq dsq y"] t(2) by simp
  let ?x = "mk l (mk d a n True ds b) q False dsq (mk l y1 s True dss y2)"
  have bx: "balanced ?x" using bal y red by (auto simp: black_depth_mk)
  have "balanced (plug cs ?x)"
  proof (cases "cs = []")
    case False
    then have cq: "cq" using red(3) by simp
    have "black_depth ?x = black_depth (mk l (mk d a n False ds b) q cq dsq y)"
      using bal bx cq unfolding y(1) by (simp add: black_depth_mk)
    with t(2) bx show ?thesis by (intro balanced_replace [OF _ bx]) simp_all
  qed (use bx in simp)
  moreover have "tracks C head ?cs f fp" using tr by (cases d; cases l) simp_all
  ultimately have "stepped S head C m ((l, q, cq, dsq, y) # cs) (d, n, False, ds, b) a f (m3, parent head ?cs, fp)"
    using p3(1) fr by (intro steppedI) (simp_all add: slots_mk y(1))
  then show ?thesis unfolding res by simp
qed

lemma blacken_children:
  assumes t: "tree_at S head m (plug cs (mk l x s c ds y))" "x \<noteq> E" "y \<noteq> E"
    and m1: "m1 = paint_black m (get_link m s 0)" and m2: "m2 = paint_black m1 (get_link m1 s 1)"
  shows "tree_at S head m2 (plug cs (mk l (blacken x) s c ds (blacken y)))"
    and "framed (set (addrs (plug cs (mk l x s c ds y)))) head 1 m m2"
proof -
  obtain u v where k: "mk l x s c ds y = mk False u s c ds v" "u \<noteq> E" "v \<noteq> E"
      "mk l (blacken x) s c ds (blacken y) = mk False (blacken u) s c ds (blacken v)"
    using t(2,3) by (cases l) (auto simp: mk_def)
  let ?A = "set (addrs (plug cs (mk l x s c ds y)))"
  have t0: "tree_at S head m (plug ((False, s, c, ds, v) # cs) u)" using t(1) k by simp
  note b0 = blacken_hole [OF t0 k(2) refl]
  have t1: "tree_at S head m1 (plug ((True, s, c, ds, blacken u) # cs) v)"
    using b0(1) by (simp add: m1 painted_def mk_def)
  note b1 = blacken_hole [OF t1 k(3) refl]
  have A: "set (addrs (plug ((False, s, c, ds, v) # cs) u)) = ?A"
    "set (addrs (plug ((True, s, c, ds, blacken u) # cs) v)) = ?A"
    by (auto simp: k(1))
  show "tree_at S head m2 (plug cs (mk l (blacken x) s c ds (blacken y)))"
    unfolding k(4) using b1(1) by (simp add: m2 painted_def mk_def)
  have "framed ?A head 1 m m1" "framed ?A head 1 m1 m2"
    using b0(2) [unfolded A] b1(2) [unfolded A] by (simp_all add: m1 m2 painted_def)
  then show "framed ?A head 1 m m2" by (rule framed_trans)
qed

text \<open>
  The recolouring that follows a rotation at the parent \<open>q\<close>, with \<open>r\<close> in its old place.
\<close>

definition recoloured :: "u32 \<Rightarrow> bool \<Rightarrow> u32 \<Rightarrow> mem \<Rightarrow> mem" where
  "recoloured g d n m =
     (let m = paint_red m n;
          m = paint_red m (get_link m g (of_bool d));
          m = paint_black m (get_link m (get_link m g (of_bool d)) 0)
      in paint_black m (get_link m (get_link m g (of_bool d)) 1))"

lemma recolour_hole:
  assumes t: "tree_at S head m (plug cs (mk l (mk l (mk d a n c ds b) q cq dsq y) r cr dsr z))" "z \<noteq> E"
  shows "tree_at S head (recoloured (hole_node head cs) (hole_dir cs) n m)
      (plug cs (mk l (mk l (mk d a n True ds b) q False dsq y) r True dsr (blacken z)))"
    and "framed (set (addrs (plug cs (mk l (mk l (mk d a n c ds b) q cq dsq y) r cr dsr z)))) head 1 m
      (recoloured (hole_node head cs) (hole_dir cs) n m)"
proof -
  let ?A = "set (addrs (plug cs (mk l (mk l (mk d a n c ds b) q cq dsq y) r cr dsr z)))"
  define m1 where "m1 = painted True m n"
  define m2 where "m2 = painted True m1 r"
  define m3 where "m3 = paint_black m2 (get_link m2 r 0)"
  define m4 where "m4 = paint_black m3 (get_link m3 r 1)"
  have t0: "tree_at S head m (plug ((l, q, cq, dsq, y) # (l, r, cr, dsr, z) # cs) (mk d a n c ds b))"
    using t(1) by simp
  note p1 = paint_hole [OF t0, of True, folded m1_def]
  have t1: "tree_at S head m1 (plug cs (mk l (mk l (mk d a n True ds b) q cq dsq y) r cr dsr z))"
    using p1(1) by simp
  note p2 = paint_hole [OF t1, of True, folded m2_def]
  note p3 = blacken_children [OF p2(1) mk_neq_E t(2) m3_def m4_def]
  have A: "set (addrs (plug ((l, q, cq, dsq, y) # (l, r, cr, dsr, z) # cs) (mk d a n c ds b))) = ?A" by simp
  have fr: "framed ?A head 1 m m1" "framed ?A head 1 m1 m2" "framed ?A head 1 m2 m4"
    using p1(2) [unfolded A] p2(2) p3(2) by simp_all
  have h: "hole head cs m1 = r" "hole head cs m2 = r" using tree_at_node(1) t1 p2(1) by blast+
  have g: "hole_node head cs \<in> S" "separated S" using tree_atD [OF t(1)] by simp_all
  have k0: "get_link m2 r 0 \<in> S"
    using tree_at_node [OF p2(1)] t(2) rep_root tree_atD(6) [OF p2(1)]
    by (cases l) (auto, (metis rep.simps(1) rep_null g(2) subset_iff)+)
  have h3: "hole head cs m3 = r"
    using h(2) g k0 by (simp add: m3_def heap_laws [OF g(2)])
  have r: "recoloured (hole_node head cs) (hole_dir cs) n m = m4"
    unfolding recoloured_def Let_def
    using h h3 by (simp add: m1_def m2_def m3_def m4_def painted_def)
  show "tree_at S head (recoloured (hole_node head cs) (hole_dir cs) n m)
      (plug cs (mk l (mk l (mk d a n True ds b) q False dsq y) r True dsr (blacken z)))"
    using p3(1) by (simp add: r)
  show "framed ?A head 1 m (recoloured (hole_node head cs) (hole_dir cs) n m)"
    unfolding r using fr by (blast intro: framed_trans)
qed

text \<open>
  The sibling has a red child: one or two rotations lift it or its child into the place of
  the parent. Both end in the same shape, with \<open>r\<close> on top.
\<close>

definition lifted :: "u32 \<Rightarrow> bool \<Rightarrow> u32 \<Rightarrow> u32 \<Rightarrow> bool \<Rightarrow> mem \<Rightarrow> mem" where
  "lifted g d2 q s l m =
     (if is_red m (get_link m s (of_bool (\<not> l)))
      then set_link (fst (rotate_node m q l)) g (of_bool d2) (snd (rotate_node m q l))
      else let m1 = set_link (fst (rotate_node m s (\<not> l))) q (of_bool (\<not> l)) (snd (rotate_node m s (\<not> l)))
           in set_link (fst (rotate_node m1 q l)) g (of_bool d2) (snd (rotate_node m1 q l)))"

lemma lift_single:
  assumes t: "tree_at S head m (plug cs (mk l x q cq dsq (mk l y1 s cs' dss y2)))" and red: "root_red y2"
  shows "tree_at S head (lifted (hole_node head cs) (hole_dir cs) q s l m)
      (plug cs (mk l (mk l x q True dsq y1) s False dss y2))"
    and "framed (set (addrs (plug cs (mk l x q cq dsq (mk l y1 s cs' dss y2))))) head 1 m
      (lifted (hole_node head cs) (hole_dir cs) q s l m)"
proof -
  have t': "tree_at S head m (plug cs (mk (\<not> l) (mk (\<not> l) y2 s cs' dss y1) q cq dsq x))"
    using t by (simp add: mk_flip)
  note rot = rotate_hole [OF t' refl]
  have "is_red m (get_link m s (of_bool (\<not> l)))"
    using tree_at_node(6) [OF t] red rep_red by auto
  then have l: "lifted (hole_node head cs) (hole_dir cs) q s l m =
      set_link (rotated m q l) (hole_node head cs) (of_bool (hole_dir cs)) s"
    using rot(2) by (simp add: lifted_def)
  show "tree_at S head (lifted (hole_node head cs) (hole_dir cs) q s l m)
      (plug cs (mk l (mk l x q True dsq y1) s False dss y2))"
    using rot(1) unfolding l by (simp add: mk_flip)
  show "framed (set (addrs (plug cs (mk l x q cq dsq (mk l y1 s cs' dss y2))))) head 1 m
      (lifted (hole_node head cs) (hole_dir cs) q s l m)"
    using rot(3) unfolding l by (simp add: mk_flip)
qed

lemma lift_double:
  assumes t: "tree_at S head m (plug cs (mk l x q cq dsq (mk l (mk l z1 r cr dsr z2) s cs' dss y2)))"
    and red: "\<not> root_red y2"
  shows "tree_at S head (lifted (hole_node head cs) (hole_dir cs) q s l m)
      (plug cs (mk l (mk l x q True dsq z1) r False dsr (mk l z2 s True dss y2)))"
    and "framed (set (addrs (plug cs (mk l x q cq dsq (mk l (mk l z1 r cr dsr z2) s cs' dss y2))))) head 1 m
      (lifted (hole_node head cs) (hole_dir cs) q s l m)"
proof -
  let ?A = "set (addrs (plug cs (mk l x q cq dsq (mk l (mk l z1 r cr dsr z2) s cs' dss y2))))"
  define m1 where "m1 = set_link (rotated m s (\<not> l)) q (of_bool (\<not> l)) r"
  have t0: "tree_at S head m (plug ((\<not> l, q, cq, dsq, x) # cs) (mk l (mk l z1 r cr dsr z2) s cs' dss y2))"
    using t by (simp add: mk_flip)
  have m1: "m1 = set_link (rotated m s (\<not> l)) (hole_node head ((\<not> l, q, cq, dsq, x) # cs))
      (of_bool (hole_dir ((\<not> l, q, cq, dsq, x) # cs))) r"
    by (simp add: m1_def)
  note rot1 = rotate_hole [OF t0 m1]
  have t1: "tree_at S head m1 (plug cs (mk (\<not> l) (mk (\<not> l) (mk l z2 s True dss y2) r False dsr z1) q cq dsq x))"
    using rot1(1) by (simp add: mk_flip)
  note rot2 = rotate_hole [OF t1 refl]
  have "\<not> is_red m (get_link m s (of_bool (\<not> l)))"
    using tree_at_node(6) [OF t] red rep_red by auto
  then have l: "lifted (hole_node head cs) (hole_dir cs) q s l m =
      set_link (rotated m1 q l) (hole_node head cs) (of_bool (hole_dir cs)) r"
    using rot1(2) rot2(2) by (simp add: lifted_def m1_def [symmetric])
  show "tree_at S head (lifted (hole_node head cs) (hole_dir cs) q s l m)
      (plug cs (mk l (mk l x q True dsq z1) r False dsr (mk l z2 s True dss y2)))"
    using rot2(1) unfolding l by (simp add: mk_flip)
  have A: "set (addrs (plug ((\<not> l, q, cq, dsq, x) # cs) (mk l (mk l z1 r cr dsr z2) s cs' dss y2))) = ?A"
    "set (addrs (plug cs (mk (\<not> l) (mk (\<not> l) (mk l z2 s True dss y2) r False dsr z1) q cq dsq x))) = ?A"
    by auto
  show "framed ?A head 1 m (lifted (hole_node head cs) (hole_dir cs) q s l m)"
    unfolding l using framed_trans [OF rot1(3) [unfolded A(1)] rot2(3) [unfolded A(2)]]
    by (simp only: not_not)
qed

lemma step_lift:
  assumes t: "tree_at S head m (plug ((l, q, cq, dsq, y) # cs) (mk d a n False ds b))"
      "balanced (plug ((l, q, cq, dsq, y) # cs) (mk d a n False ds b))"
    and tr: "tracks C head ((d, n, False, ds, b) # (l, q, cq, dsq, y) # cs) f fp"
    and y: "y = mk l y1 s False dss y2" "root_red y1 \<or> root_red y2"
    and red: "\<not> root_red a" "\<not> root_red b" "cq \<or> cs = []"
  shows "stepped S head C m ((l, q, cq, dsq, y) # cs) (d, n, False, ds, b) a f
    (push_red (hole_node head cs) q n f fp d l m)"
proof -
  let ?x = "mk d a n False ds b" and ?g = "hole_node head cs" and ?d2 = "hole_dir cs"
  let ?A = "set (addrs (plug ((l, q, cq, dsq, y) # cs) ?x))"
  have t0: "tree_at S head m (plug cs (mk l ?x q cq dsq (mk l y1 s False dss y2)))" using t(1) y(1) by simp
  have sib: "rep m (get_link m q (of_bool (\<not> l))) y" using tree_atD(9) [OF t(1)] by simp
  then have s: "get_link m q (of_bool (\<not> l)) = s" "is_red m (get_link m s (of_bool l)) = root_red y1"
    "is_red m (get_link m s (of_bool (\<not> l))) = root_red y2"
    using y rep_red by auto
  then have sred: "is_red m (get_link m s 0) \<or> is_red m (get_link m s 1)"
    using y(2) by (cases l) auto
  have "tree_at S head m (plug ((\<not> l, q, cq, dsq, ?x) # cs) y)"
    using t(1) by (simp add: mk_flip)
  then have s0: "s \<noteq> 0" using tree_at_node(3) unfolding y(1) by blast
  have n: "\<not> is_red m n" "\<not> is_red m (get_link m n (of_bool d))" "\<not> is_red m (get_link m n (of_bool (\<not> d)))"
    using tree_at_node [OF t(1)] rep_red red by auto
  have side: "(get_link m ?g 1 = q) = ?d2" by (rule hole_side [OF t0])
  define m1 where "m1 = lifted ?g ?d2 q s l m"
  define m2 where "m2 = recoloured ?g ?d2 n m1"
  have res: "push_red ?g q n f fp d l m = (m2, q, if f = q then get_link m2 ?g (of_bool ?d2) else fp)"
    using n s s0 sred side y(2)
    by (auto simp: push_red_def m2_def m1_def recoloured_def lifted_def Let_def rotate_node_eq)
  have bal: "balanced (mk l ?x q cq dsq y)"
    using balanced_hole [of cs "mk l ?x q cq dsq y"] t(2) by simp
  obtain w r dsr z where lift: "tree_at S head m1 (plug cs (mk l (mk l ?x q True dsq w) r False dsr z))"
      "framed ?A head 1 m m1" "root_red z"
    and sl: "slots (mk l w r False dsr z) = slots y"
    and bz: "balanced w" "balanced (blacken z)" "black_depth w = black_depth a" "Suc (black_depth a) = black_depth (blacken z)"
  proof (cases "root_red y2")
    case True
    have A: "set (addrs (plug cs (mk l ?x q cq dsq (mk l y1 s False dss y2)))) = ?A" by (auto simp: y(1))
    show ?thesis
      by (rule that [of y1 s dss y2])
        (use lift_single [OF t0 True, folded m1_def, unfolded A] True bal y red in
          \<open>auto simp: black_depth_mk black_depth_blacken slots_mk balanced_def\<close>)
  next
    case False
    then have "y1 \<noteq> E" "root_red y1" using y(2) by auto
    then obtain z1 r dsr z2 where y1: "y1 = mk l z1 r True dsr z2" using mk_exists [of y1 l] by fastforce
    have A: "set (addrs (plug cs (mk l ?x q cq dsq (mk l (mk l z1 r True dsr z2) s False dss y2)))) = ?A"
      by (auto simp: y(1) y1)
    show ?thesis
      by (rule that [of z1 r dsr "mk l z2 s True dss y2"])
        (use lift_double [OF t0 [unfolded y1] False, folded m1_def, unfolded A] bal False y(1) y1 red in
          \<open>auto simp: black_depth_mk slots_mk\<close>)
  qed
  have "z \<noteq> E" using lift(3) by auto
  note rc = recolour_hole [OF lift(1) this, folded m2_def]
  let ?cs = "(d, n, True, ds, b) # (l, q, False, dsq, w) # (l, r, True, dsr, blacken z) # cs"
  have "slots (mk l (mk l ?x q True dsq w) r False dsr z) = slots (mk l ?x q cq dsq y)"
    by (simp add: slots_mk sl [symmetric])
  from addrs_plug_cong [OF this, of cs]
  have A: "set (addrs (plug cs (mk l (mk l ?x q True dsq w) r False dsr z))) = ?A"
    by (simp only: plug.simps)
  let ?y = "mk l (mk l (mk d a n True ds b) q False dsq w) r True dsr (blacken z)"
  have bal': "balanced ?y" using bal bz red by (auto simp: black_depth_mk)
  have "balanced (plug cs ?y)"
  proof (cases "cs = []")
    case False
    then have cq: "cq" using red(3) by simp
    have "black_depth ?y = black_depth (mk l ?x q cq dsq y)"
      using bal bal' cq bz by (auto simp: black_depth_mk)
    with t(2) bal' cq show ?thesis
      by (intro balanced_replace [OF _ bal', of cs "mk l ?x q cq dsq y"]) simp_all
  qed (use bal' in simp)
  moreover have "tracks C head ?cs f (if f = q then get_link m2 ?g (of_bool ?d2) else fp)"
  proof -
    have "get_link m2 ?g (of_bool ?d2) = r" by (rule tree_at_node(1) [OF rc(1)])
    moreover have "q \<noteq> n" "q \<noteq> 0" "n \<noteq> 0" "q \<notin> context_addrs cs"
      using tree_at_node(3) [OF t(1)] tree_at_node(3) [OF t0] tree_atD(8) [OF t0] tree_atD(7) [OF t0] by auto
    ultimately show ?thesis
      using tr tracks_in [of C head cs f fp] by (cases d; cases l) (auto split: if_splits)
  qed
  moreover have "lefts ?cs = lefts ((d, n, False, ds, b) # (l, q, cq, dsq, y) # cs)"
    "rights ?cs = rights ((d, n, False, ds, b) # (l, q, cq, dsq, y) # cs)"
    by (simp_all add: slots_mk sl [symmetric])
  moreover have "framed ?A head 1 m m2" using lift(2) rc(2) [unfolded A] by (rule framed_trans)
  ultimately have "stepped S head C m ((l, q, cq, dsq, y) # cs) (d, n, False, ds, b) a f
      (m2, parent head ?cs, if f = q then get_link m2 ?g (of_bool ?d2) else fp)"
    using rc(1) by (intro steppedI) simp_all
  then show ?thesis unfolding res by simp
qed

section \<open>The whole step\<close>

lemma black_depth_zero: "level_black t \<Longrightarrow> black_depth t = 0 \<Longrightarrow> \<not> root_red t \<Longrightarrow> t = E"
  by (cases t) auto

lemma push_red_step:
  assumes t: "tree_at S head m (plug cs (mk d a n c ds b))" "balanced (plug cs (mk d a n c ds b))"
    and tr: "tracks C head ((d, n, c, ds, b) # cs) f fp"
    and pu: "pushed cs (mk d a n c ds b)" and h0: "get_link m head 0 = 0"
  shows "stepped S head C m cs (d, n, c, ds, b) a f
    (push_red (parent head cs) (hole_node head cs) n f fp d (hole_dir cs) m)"
proof -
  note n = tree_at_node [OF t(1)]
  have red: "is_red m (get_link m n (of_bool d)) = root_red a" "is_red m (get_link m n (of_bool (\<not> d))) = root_red b"
    using n rep_red by auto
  consider "c \<or> root_red a" | "\<not> c" "\<not> root_red a" "root_red b" | "\<not> c" "\<not> root_red a" "\<not> root_red b"
    by blast
  then show ?thesis
  proof cases
    case 1
    then have "push_red (parent head cs) (hole_node head cs) n f fp d (hole_dir cs) m = (m, hole_node head cs, fp)"
      using n(4) red by (auto simp: push_red_def)
    then show ?thesis using step_stay [OF t tr] 1 by auto
  next
    case 2
    then show ?thesis using step_rotate [of S head m cs d a n ds b C f fp] t tr by simp
  next
    case 3
    show ?thesis
    proof (cases cs rule: hole_dir.cases)
      case 1
      have "push_red (parent head cs) (hole_node head cs) n f fp d (hole_dir cs) m = (m, hole_node head cs, fp)"
        using 1 3 n(4) red h0 by (simp add: push_red_def)
      then show ?thesis using step_stay [OF t tr] 1 3 by auto
    next
      case (2 l q cq dsq y cs')
      have bal: "balanced (mk l (mk d a n c ds b) q cq dsq y)"
        using balanced_hole [of cs' "mk l (mk d a n c ds b) q cq dsq y"] t(2) 2 by simp
      have q: "cq \<or> cs' = []" "\<not> root_red y" using pu 2 3 bal by auto
      have "black_depth y \<noteq> 0" using bal 3(1) by (auto simp: black_depth_mk)
      then have "y \<noteq> E" by auto
      then obtain y1 s dss y2 where y: "y = mk l y1 s False dss y2"
        using mk_exists [of y l] q(2) by fastforce
      show ?thesis
      proof (cases "root_red y1 \<or> root_red y2")
        case True
        then show ?thesis
          using step_lift [of S head m l q cq dsq y cs' d a n ds b C f fp y1 s dss y2] t tr 2 3 q y by simp
      next
        case False
        then show ?thesis
          using step_flip [of S head m l q cq dsq y cs' d a n ds b C f fp y1 s dss y2] t tr 2 3 q y by simp
      qed
    qed
  qed
qed

end
