(* ===== verification/Rb_Insert_Loop.thy ===== *)
theory Rb_Insert_Loop
  imports Rb_Insert
begin

text \<open>
  The loop of \<open>insert_rbnode\<close>. \<open>insync\<close> is its invariant while the trailing pointers are
  ancestors; \<open>insert_result\<close> is what the rest of the run does to the subtree below \<open>t\<close>.
\<close>

section \<open>What a run of the loop establishes\<close>

definition grown :: "key_fun \<Rightarrow> u32 \<Rightarrow> rbt \<Rightarrow> rbt \<Rightarrow> bool" where
  "grown K node x x' \<longleftrightarrow> slots x' = ins_slots K node (slots x) \<and>
     set (addrs x') = insert node (set (addrs x)) \<and> distinct (addrs x') \<and>
     root_red x' = root_red x \<and> no_red_red x' \<and> level_black x' \<and> black_depth x' = black_depth x"

definition key_present :: "key_fun \<Rightarrow> u32 \<Rightarrow> (u32 \<times> u32 list) list \<Rightarrow> bool" where
  "key_present K node xs \<longleftrightarrow> (\<exists>s\<in>set xs. K (fst s) = K node)"

definition counted :: "key_fun \<Rightarrow> u32 \<Rightarrow> (u32 \<times> u32 list) list \<Rightarrow> u32 \<Rightarrow> u32 \<Rightarrow> u32 \<times> u32" where
  "counted K node xs nn nd = (if key_present K node xs then (nn, nd + 1) else (nn + 1, nd))"

definition insert_result ::
  "key_fun \<Rightarrow> u32 \<Rightarrow> u32 \<Rightarrow> bool \<Rightarrow> rbt \<Rightarrow> mem \<Rightarrow> u32 \<Rightarrow> u32 \<Rightarrow> (mem \<times> u32 \<times> u32) option \<Rightarrow> bool" where
  "insert_result K node t d x m nn nd res \<longleftrightarrow>
     (\<exists>m' x'. res = Some (m', counted K node (slots x) nn nd) \<and>
        rep m' (get_link m' t (of_bool d)) x' \<and> grown K node x x' \<and>
        framed (insert node (set (addrs x))) t (of_bool d) m m')"

subsection \<open>Prepending a duplicate\<close>

fun add_dup :: "u32 \<Rightarrow> u32 \<Rightarrow> rbt \<Rightarrow> rbt" where
  "add_dup n x E = E"
| "add_dup n x (N l a c ds r) = N (add_dup n x l) a c (if a = n then x # ds else ds) (add_dup n x r)"

lemma add_dup_simps [simp]:
  "root_red (add_dup n x t) = root_red t" "no_red_red (add_dup n x t) = no_red_red t"
  "black_depth (add_dup n x t) = black_depth t" "level_black (add_dup n x t) = level_black t"
proof -
  show [simp]: "root_red (add_dup n x t) = root_red t" for t by (cases t) auto
  show [simp]: "black_depth (add_dup n x t) = black_depth t" for t by (induction t) auto
  show "no_red_red (add_dup n x t) = no_red_red t" by (induction t) auto
  show "level_black (add_dup n x t) = level_black t" by (induction t) auto
qed

lemma add_dup_outside: "n \<notin> fst ` set (slots t) \<Longrightarrow> add_dup n x t = t"
  by (induction t) auto

lemma fst_slots_addrs: "fst ` set (slots t) \<subseteq> set (addrs t)"
  by (induction t) auto

lemma slot_position:
  assumes "distinct (addrs (N l a c ds r))" "n \<in> fst ` set (slots (N l a c ds r))"
  obtains "n = a" "n \<notin> set (addrs l)" "n \<notin> set (addrs r)" "n \<notin> set ds"
    | "n \<in> fst ` set (slots l)" "n \<noteq> a" "n \<notin> set (addrs r)" "n \<notin> set ds"
    | "n \<in> fst ` set (slots r)" "n \<noteq> a" "n \<notin> set (addrs l)" "n \<notin> set ds"
proof -
  consider "n = a" | "n \<in> fst ` set (slots l)" | "n \<in> fst ` set (slots r)"
    using assms(2) by auto
  then show thesis
  proof cases
    case 1
    with assms(1) show thesis by (intro that(1)) auto
  next
    case 2
    then have "n \<in> set (addrs l)" using fst_slots_addrs by blast
    with 2 assms(1) show thesis by (intro that(2)) auto
  next
    case 3
    then have "n \<in> set (addrs r)" using fst_slots_addrs by blast
    with 3 assms(1) show thesis by (intro that(3)) auto
  qed
qed

lemma slots_add_dup:
  "ordered K (slots t) \<Longrightarrow> n \<in> fst ` set (slots t) \<Longrightarrow> K n = K x \<Longrightarrow>
     slots (add_dup n x t) = ins_slots K x (slots t)"
proof (induction t)
  case (N l a c ds r)
  have o: "ordered K (slots l @ (a, ds) # slots r)" using N.prems by simp
  have left: "fst s \<noteq> n \<or> K n < K a" if "s \<in> set (slots l)" for s
    using o that by (auto simp: ordered_append)
  have right: "fst s \<noteq> n \<or> K a < K n" if "s \<in> set (slots r)" for s
    using o that by (auto simp: ordered_append ordered_Cons)
  consider "K n < K a" | "n = a" | "K a < K n" "n \<noteq> a"
    using N.prems left right by fastforce
  then show ?case
  proof cases
    case 1
    then have "n \<noteq> a" "n \<notin> fst ` set (slots r)" "n \<in> fst ` set (slots l)"
      using N.prems right by fastforce+
    with 1 N o show ?thesis
      by (simp add: add_dup_outside ins_slots_less ordered_append)
  next
    case 2
    then have "n \<notin> fst ` set (slots r)" "n \<notin> fst ` set (slots l)"
      using left right by fastforce+
    with 2 N.prems(3) o show ?thesis by (simp add: add_dup_outside ins_slots_equal)
  next
    case 3
    then have "n \<notin> fst ` set (slots l)" "n \<in> fst ` set (slots r)"
      using N.prems left by fastforce+
    with 3 N o show ?thesis
      by (simp add: add_dup_outside ins_slots_greater ordered_append ordered_Cons)
  qed
qed simp

lemma addrs_add_dup:
  "n \<in> fst ` set (slots t) \<Longrightarrow> distinct (addrs t) \<Longrightarrow> x \<notin> set (addrs t) \<Longrightarrow>
     distinct (addrs (add_dup n x t)) \<and> set (addrs (add_dup n x t)) = insert x (set (addrs t))"
proof (induction t)
  case (N l a c ds r)
  have sub: "fst ` set (slots l) \<subseteq> set (addrs l)" "fst ` set (slots r) \<subseteq> set (addrs r)"
    by (rule fst_slots_addrs)+
  from N.prems(2,1) show ?case
  proof (cases rule: slot_position)
    case 1
    then have "n \<notin> fst ` set (slots l)" "n \<notin> fst ` set (slots r)" using sub by auto
    with 1 N.prems show ?thesis by (auto simp: add_dup_outside)
  next
    case 2
    then have "n \<notin> fst ` set (slots r)" using sub by auto
    with 2 N show ?thesis by (auto simp: add_dup_outside)
  next
    case 3
    then have "n \<notin> fst ` set (slots l)" using sub by auto
    with 3 N show ?thesis by (auto simp: add_dup_outside)
  qed
qed simp

lemma dup_head_in: "dup_list m q ds \<Longrightarrow> set ds \<subseteq> S \<Longrightarrow> q \<in> insert 0 S"
  by (cases ds) auto

lemma rep_add_dup:
  assumes sep: "separated S" and x: "x \<in> S" and n: "n \<in> S" "n \<noteq> x"
    and next_n: "get_link m n 2 \<in> insert 0 S"
  shows "set (addrs t) \<subseteq> S \<Longrightarrow> distinct (addrs t) \<Longrightarrow> n \<in> fst ` set (slots t) \<Longrightarrow>
    x \<notin> set (addrs t) \<Longrightarrow> rep m q t \<Longrightarrow>
    rep (set_link (set_link m x 2 (get_link m n 2)) n 2 x) q (add_dup n x t)"
proof (induction t arbitrary: q)
  case (N l a c ds r)
  define m' where "m' = set_link (set_link m x 2 (get_link m n 2)) n 2 x"
  have laws: "\<And>b j. b \<in> S \<Longrightarrow> j < 3 \<Longrightarrow> get_link m' b j =
      (if b = n \<and> j = 2 then x else if b = x \<and> j = 2 then get_link m n 2 else get_link m b j)"
    "\<And>b. b \<in> S \<Longrightarrow> is_red m' b = is_red m b"
    using x n next_n by (auto simp: m'_def heap_laws [OF sep])
  have same: "same_nodes A m m'" if "A \<subseteq> S" "n \<notin> A" "x \<notin> A" for A
    using that laws unfolding same_nodes_def by (metis subsetD)
  have sub: "fst ` set (slots l) \<subseteq> set (addrs l)" "fst ` set (slots r) \<subseteq> set (addrs r)"
    by (rule fst_slots_addrs)+
  have keep: "rep m' q' u = rep m q' u" if "set (addrs u) \<subseteq> S" "n \<notin> set (addrs u)" "x \<notin> set (addrs u)" for q' u
    by (rule rep_same [OF same [OF that]])
  have keep_ds: "dup_list m' q' ds = dup_list m q' ds" if "n \<notin> set ds" for q'
    using N.prems that by (intro dup_list_same same) auto
  have a: "a \<in> S" "a \<noteq> x" using N.prems by auto
  from N.prems(2,3) show ?case
  proof (cases rule: slot_position)
    case 1
    then have "add_dup n x l = l" "add_dup n x r = r"
      using sub by (auto intro!: add_dup_outside)
    with 1 N.prems a x keep keep_ds show ?thesis unfolding m'_def [symmetric] by (simp add: laws)
  next
    case 2
    then have "add_dup n x r = r" using sub by (auto intro!: add_dup_outside)
    with 2 N.prems a keep keep_ds N.IH(1) show ?thesis unfolding m'_def [symmetric] by (simp add: laws)
  next
    case 3
    then have "add_dup n x l = l" using sub by (auto intro!: add_dup_outside)
    with 3 N.prems a keep keep_ds N.IH(2) show ?thesis unfolding m'_def [symmetric] by (simp add: laws)
  qed
qed simp

section \<open>Results compose along the search path\<close>

lemma ordered_mk:
  "ordered K (slots (mk d x a c ds y)) \<Longrightarrow> ordered K (slots x) \<and> ordered K (slots y)"
  by (auto simp: slots_mk ordered_append ordered_Cons split: if_splits)

lemma ins_slots_mk:
  assumes "ordered K (slots (mk d x a c ds y))" "K a \<noteq> K node" "d = (K a < K node)"
    "slots x' = ins_slots K node (slots x)"
  shows "slots (mk d x' a c' ds y) = ins_slots K node (slots (mk d x a c ds y))"
  using assms ins_slots_less [of K node a] ins_slots_greater [of K _ a ds _ node]
  by (cases "K a < K node") (auto simp: slots_mk)

lemma key_present_mk:
  assumes "ordered K (slots (mk d x a c ds y))" "K a \<noteq> K node" "d = (K a < K node)"
  shows "key_present K node (slots (mk d x a c ds y)) = key_present K node (slots x)"
  using assms
  by (fastforce simp: slots_mk key_present_def ordered_append ordered_Cons split: if_splits)

lemma insert_result_lift:
  assumes sep: "separated S"
    and S: "set (addrs x) \<subseteq> S" "t \<in> S" "node \<in> S" "t \<notin> set (addrs x)" "node \<notin> set (addrs x)"
      "t \<noteq> node"
    and dist: "distinct (addrs x)" and x: "x = mk d y a c ds z"
    and ord: "ordered K (slots x)" "K a \<noteq> K node" "d = (K a < K node)"
    and inv: "no_red_red x" "level_black x"
    and r: "rep m a x" "get_link m t (of_bool d2) = a"
    and res: "insert_result K node a d y m nn nd out"
  shows "insert_result K node t d2 x m nn nd out"
proof -
  obtain m' y' where out: "out = Some (m', counted K node (slots y) nn nd)"
    and y': "rep m' (get_link m' a (of_bool d)) y'" "grown K node y y'"
    and fr: "framed (insert node (set (addrs y))) a (of_bool d) m m'"
    using res unfolding insert_result_def by blast
  have A: "insert node (set (addrs y)) \<subseteq> S" "a \<in> S" "a \<notin> insert node (set (addrs y))"
    "set (addrs z) \<subseteq> S" "set ds \<subseteq> S"
    "set (addrs z) \<inter> insert a (insert node (set (addrs y))) = {}"
    "set ds \<inter> insert a (insert node (set (addrs y))) = {}"
    using S dist x by auto
  define x' where "x' = mk d y' a c ds z"
  have z: "rep m' q z = rep m q z" "dup_list m' q ds = dup_list m q ds" for q
    using rep_same [OF framed_same [OF fr sep A(1,2,4) _ A(6)]]
      dup_list_same [OF framed_same [OF fr sep A(1,2,5) _ A(7)]] by simp_all
  have ma: "get_link m' a (of_bool (\<not> d)) = get_link m a (of_bool (\<not> d))"
    "get_link m' a 2 = get_link m a 2" "is_red m' a = is_red m a"
    using framed_nodes [OF fr sep A(1,2,2) _ A(3)] by simp_all
  have fr': "framed (insert node (set (addrs x))) t (of_bool d2) m m'"
    using S x by (intro framed_nested [OF fr _ sep]) auto
  have "get_link m' t (of_bool d2) = a"
    using framed_nodes(1) [OF fr sep A(1,2) S(2)] S x r(2) by auto
  moreover have "rep m' a x'"
    using r(1) x y'(1) z ma by (simp add: x'_def)
  moreover have "grown K node x x'"
  proof -
    have "slots x' = ins_slots K node (slots x)"
      unfolding x'_def x
      by (rule ins_slots_mk) (use ord x y'(2) in \<open>auto simp: grown_def\<close>)
    moreover have "set (addrs x') = insert node (set (addrs x))"
      using y'(2) unfolding x'_def x grown_def set_addrs_mk by blast
    moreover have "distinct (addrs x')"
      using y'(2) dist x S(5) unfolding x'_def grown_def by auto
    ultimately show ?thesis
      using y'(2) inv x by (auto simp: grown_def x'_def black_depth_mk)
  qed
  moreover have "counted K node (slots x) = counted K node (slots y)"
    using key_present_mk [of K d y a c ds z node] ord x by (simp add: counted_def fun_eq_iff)
  ultimately show ?thesis
    unfolding insert_result_def using out fr' by auto
qed

lemma insert_result_shift:
  assumes "insert_result K node t d x1 m1 nn nd out"
    and "framed (insert node (set (addrs x))) t (of_bool d) m m1"
    and "slots x1 = slots x" "set (addrs x1) = set (addrs x)" "root_red x1 = root_red x"
      "black_depth x1 = black_depth x"
  shows "insert_result K node t d x m nn nd out"
proof -
  obtain m' x' where "out = Some (m', counted K node (slots x1) nn nd)"
    "rep m' (get_link m' t (of_bool d)) x'" "grown K node x1 x'"
    "framed (insert node (set (addrs x1))) t (of_bool d) m1 m'"
    using assms(1) unfolding insert_result_def by blast
  moreover from this(4) have "framed (insert node (set (addrs x))) t (of_bool d) m m'"
    using assms(4) framed_trans [OF assms(2)] by simp
  ultimately show ?thesis
    using assms(3-6) by (auto simp: insert_result_def grown_def)
qed

end
