(* ===== verification/Rb_Remove_Loop.thy ===== *)
theory Rb_Remove_Loop
  imports Rb_Descent Rb_Insert_Loop
begin

text \<open>
  The descent of \<open>remove_rbnode\<close> ends at a node that can be cut off, with the found node on the
  way if there is one.
\<close>

section \<open>What the comparison must satisfy\<close>

text \<open>
  \<open>C\<close> is the sign of the comparison on the nodes of \<open>A\<close>, which depends on a node and its data
  only; left of a match no node is too large. \<open>cut_off\<close> says moreover that the nodes that are
  too small come first.
\<close>

definition searches ::
  "(mem \<Rightarrow> u32 \<Rightarrow> u32 \<Rightarrow> 'a option \<Rightarrow> int) \<Rightarrow> u32 \<Rightarrow> 'a option \<Rightarrow> u32 set \<Rightarrow> key_fun \<Rightarrow> (u32 \<Rightarrow> int) \<Rightarrow> bool" where
  "searches cmp data args A K C \<longleftrightarrow>
     (\<forall>m. \<forall>a\<in>A. rb_data m a = K a \<longrightarrow> sgn (cmp m a data args) = C a) \<and>
     (\<forall>x\<in>A. \<forall>y\<in>A. K x < K y \<longrightarrow> C y = 0 \<longrightarrow> C x \<le> 0)"

definition cut_off :: "u32 set \<Rightarrow> key_fun \<Rightarrow> (u32 \<Rightarrow> int) \<Rightarrow> bool" where
  "cut_off A K C \<longleftrightarrow> (\<forall>x\<in>A. \<forall>y\<in>A. K x < K y \<longrightarrow> C y < 0 \<longrightarrow> C x < 0)"

definition sided :: "(u32 \<Rightarrow> int) \<Rightarrow> step list \<Rightarrow> bool" where
  "sided C cs \<longleftrightarrow> (\<forall>s\<in>set (lefts cs). C (fst s) < 0) \<and> (\<forall>s\<in>set (rights cs). 0 \<le> C (fst s))"

lemma searches_sign:
  assumes "searches cmp data args A K C" "a \<in> A" "rb_data m a = K a"
  shows "cmp m a data args < 0 \<longleftrightarrow> C a < 0" "cmp m a data args = 0 \<longleftrightarrow> C a = 0"
  using assms by (auto simp: searches_def) (metis sgn_less sgn_0_0)+

lemma slot_addr: "s \<in> set (slots t) \<Longrightarrow> fst s \<in> set (addrs t)"
  using fst_slots_addrs [of t] by blast

section \<open>The loop\<close>

definition descent ::
  "u32 set \<Rightarrow> u32 \<Rightarrow> key_fun \<Rightarrow> (u32 \<Rightarrow> int) \<Rightarrow> mem \<Rightarrow> step list \<Rightarrow> rbt \<Rightarrow> u32 \<Rightarrow> u32 \<Rightarrow> bool" where
  "descent S head K C m cs x f fp \<longleftrightarrow>
     tree_at S head m (plug cs x) \<and> balanced (plug cs x) \<and> pushed cs x \<and> tracks C head cs f fp \<and>
     get_link m head 0 = 0 \<and> ordered K (slots (plug cs x)) \<and>
     (\<forall>a\<in>set (addrs (plug cs x)). rb_data m a = K a) \<and>
     (cut_off (set (addrs (plug cs x))) K C \<longrightarrow> sided C cs)"

text \<open>A found node is passed on, or replaced by the node that has just been reached.\<close>

lemma tracks_reached:
  assumes tr: "tracks C head cs f fp" and o: "ordered K (slots (plug cs (mk d a n c ds b)))"
    and A: "set (addrs (plug cs (mk d a n c ds b))) = A"
    and C: "\<forall>x\<in>A. \<forall>y\<in>A. K x < K y \<longrightarrow> C y = 0 \<longrightarrow> C x \<le> 0" and d: "d \<longleftrightarrow> C n < 0"
  shows "tracks C head ((d, n, c, ds, b) # cs) (if C n = 0 then n else f)
    (if C n = 0 then hole_node head cs else fp)"
proof (cases "C n > 0")
  case True
  have "f = 0"
  proof (rule ccontr)
    assume "f \<noteq> 0"
    then obtain vs where v: "innermost cs = Some (f, vs)" "C f = 0"
      using tr by (auto simp: tracks_def split: option.splits if_splits)
    have "\<exists>es rs. rights cs = (f, es) # rs"
      using v(1) by (induction cs rule: innermost.induct) (auto split: if_splits)
    then obtain es rs where "rights cs = (f, es) # rs" by blast
    then have "K n < K f" using o by (cases d) (auto simp: slots_plug ordered_append ordered_Cons slots_mk)
    moreover have "n \<in> A" "f \<in> A" using A innermost_in [OF v(1)] by auto
    ultimately show False using C v(2) True by force
  qed
  then show ?thesis using True d by auto
qed (use tr d in auto)

lemma sided_reached:
  assumes "sided C cs" "cut_off A K C" and o: "ordered K (slots (plug cs (mk d a n c ds b)))"
    and A: "set (addrs (plug cs (mk d a n c ds b))) = A" and d: "d \<longleftrightarrow> C n < 0"
  shows "sided C ((d, n, c, ds, b) # cs)"
proof -
  have nA: "n \<in> A" using A by auto
  have bA: "fst s \<in> A" if "s \<in> set (slots b)" for s using slot_addr [OF that] A by auto
  have "C (fst s) < 0" if "d" "s \<in> set (slots b)" for s
  proof -
    have "K (fst s) < K n" using o that by (auto simp: slots_plug ordered_append slots_mk)
    then show ?thesis using assms(2) d that bA nA by (auto simp: cut_off_def)
  qed
  moreover have "0 \<le> C (fst s)" if "\<not> d" "s \<in> set (slots b)" for s
  proof -
    have "K n < K (fst s)" using o that by (auto simp: slots_plug ordered_append ordered_Cons slots_mk)
    then have "C (fst s) < 0 \<Longrightarrow> C n < 0"
      using assms(2) bA [OF that(2)] nA unfolding cut_off_def by blast
    then show ?thesis using d that(1) by fastforce
  qed
  ultimately show ?thesis using assms(1) d by (auto simp: sided_def)
qed

lemma descent_step:
  assumes de: "descent S head K C m cs (mk d a n c ds b) f fp"
    and se: "searches cmp data args (set (addrs (plug cs (mk d a n c ds b)))) K C" and d: "d \<longleftrightarrow> C n < 0"
    and f': "f' = (if C n = 0 then n else f)" "fp' = (if C n = 0 then hole_node head cs else fp)"
    and res: "push_red (parent head cs) (hole_node head cs) n f' fp' d (hole_dir cs) m = (m', p, fp'')"
  shows "\<exists>cs'. descent S head K C m' cs' a f' fp'' \<and> p = parent head cs' \<and> cs' \<noteq> [] \<and>
    hole_node head cs' = n \<and> hole_dir cs' = d \<and> slots (plug cs' a) = slots (plug cs (mk d a n c ds b)) \<and>
    framed (set (addrs (plug cs (mk d a n c ds b)))) head 1 m m'"
proof -
  let ?x = "mk d a n c ds b"
  let ?A = "set (addrs (plug cs ?x))"
  have D: "tree_at S head m (plug cs ?x)" "balanced (plug cs ?x)" "pushed cs ?x" "tracks C head cs f fp"
    "get_link m head 0 = 0" "ordered K (slots (plug cs ?x))" "\<forall>a\<in>?A. rb_data m a = K a"
    "cut_off ?A K C \<longrightarrow> sided C cs"
    using de unfolding descent_def by blast+
  have tr: "tracks C head ((d, n, c, ds, b) # cs) f' fp'"
    using tracks_reached [OF D(4,6) refl _ d] se unfolding f' searches_def by blast
  from push_red_step [OF D(1,2) tr D(3,5)]
  have st: "stepped S head C m cs (d, n, c, ds, b) a f' (m', p, fp'')" by (simp only: res)
  then obtain cs' where cs': "p = parent head cs'" "cs' \<noteq> []" "hole_node head cs' = n" "hole_dir cs' = d"
      "lefts cs' = lefts ((d, n, c, ds, b) # cs)" "rights cs' = rights ((d, n, c, ds, b) # cs)"
      "tree_at S head m' (plug cs' a)" "balanced (plug cs' a)" "pushed cs' a" "tracks C head cs' f' fp''"
      "framed (set (addrs (plug ((d, n, c, ds, b) # cs) a))) head 1 m m'"
    unfolding stepped_def by auto
  have sl: "slots (plug cs' a) = slots (plug cs ?x)" by (simp add: slots_plug cs'(5,6) slots_mk)
  have ad: "set (addrs (plug cs' a)) = ?A" by (simp only: addrs_slots sl)
  have fr: "framed ?A head 1 m m'" using cs'(11) by simp
  have S: "separated S" "head \<in> S" "head \<notin> ?A" "?A \<subseteq> S" using D(1) by (auto simp: tree_at_def)
  have "get_link m' head 0 = 0"
    using framed_nodes(1) [OF fr S(1,4,2,2) _ S(3), of 0] D(5) by simp
  moreover have "\<forall>a\<in>?A. rb_data m' a = K a"
    using framed_data [OF fr S(1,4,2)] S(4) D(7) by auto
  moreover have "cut_off ?A K C \<longrightarrow> sided C cs'"
    using sided_reached [of C cs ?A K d a n c ds b] D(6,8) d unfolding sided_def cs'(5,6) by blast
  ultimately have "descent S head K C m' cs' a f' fp''"
    unfolding descent_def sl ad using cs'(7-10) D(6) by blast
  then show ?thesis using cs'(1-4) sl fr by blast
qed

lemma remove_loop_ends:
  assumes "descent S head K C m cs x f fp" "searches cmp data args (set (addrs (plug cs x))) K C"
    "cs \<noteq> [] \<or> x \<noteq> E"
  shows "\<exists>m' cs' f' fp'. remove_loop cmp data args (hole_node head cs) (parent head cs) g f fp (hole_dir cs) m =
      Some (m', hole_node head cs', parent head cs', f', fp') \<and> descent S head K C m' cs' E f' fp' \<and> cs' \<noteq> [] \<and>
    slots (plug cs' E) = slots (plug cs x) \<and> framed (set (addrs (plug cs x))) head 1 m m'"
  using assms
proof (induction "size x" arbitrary: m cs x f fp g rule: less_induct)
  case less
  have t: "tree_at S head m (plug cs x)" and K: "\<forall>a\<in>set (addrs (plug cs x)). rb_data m a = K a"
    using less.prems(1) unfolding descent_def by blast+
  note r = tree_atD(10) [OF t]
  show ?case
  proof (cases "x = E")
    case True
    then have "hole head cs m = 0" using r by simp
    then show ?thesis using less.prems True by (subst remove_loop.simps) auto
  next
    case False
    then obtain l n c ds b where k0: "x = mk False l n c ds b" using mk_exists [of x False] by blast
    define d where "d = (C n < 0)"
    obtain a b where k: "x = mk d a n c ds b" using k0 mk_flip [of False] by (cases d) auto
    note n = tree_at_node [OF t [unfolded k]]
    have nA: "n \<in> set (addrs (plug cs x))" by (simp add: k)
    have cmp: "cmp m n data args < 0 \<longleftrightarrow> d" "cmp m n data args = 0 \<longleftrightarrow> C n = 0"
      using searches_sign [OF less.prems(2) nA] K nA d_def by auto
    define f1 where "f1 = (if C n = 0 then n else f)"
    define fp1 where "fp1 = (if C n = 0 then hole_node head cs else fp)"
    obtain m1 p1 fp2 where pr: "push_red (parent head cs) (hole_node head cs) n f1 fp1 d (hole_dir cs) m = (m1, p1, fp2)"
      using prod_cases3 by blast
    from descent_step [OF less.prems(1) [unfolded k] less.prems(2) [unfolded k] d_def f1_def fp1_def pr]
    obtain cs1 where st: "descent S head K C m1 cs1 a f1 fp2" "p1 = parent head cs1" "cs1 \<noteq> []"
        "hole_node head cs1 = n" "hole_dir cs1 = d" "slots (plug cs1 a) = slots (plug cs x)"
        "framed (set (addrs (plug cs x))) head 1 m m1"
      unfolding k by blast
    have A: "set (addrs (plug cs1 a)) = set (addrs (plug cs x))" by (simp only: addrs_slots st(6))
    have loop: "remove_loop cmp data args (hole_node head cs) (parent head cs) g f fp (hole_dir cs) m =
        remove_loop cmp data args (hole_node head cs1) (parent head cs1) (parent head cs) f1 fp2 (hole_dir cs1) m1"
      using n(1,3) cmp pr by (subst remove_loop.simps) (simp add: Let_def st(2,4,5) f1_def fp1_def split: if_splits)
    have "size a < size x" using k size_mk by simp
    from less.hyps [OF this st(1)] less.prems(2) st(3)
    show ?thesis unfolding loop A st(6) using framed_trans [OF st(7)] by blast
  qed
qed

end
