(* ===== verification/Rb_Remove_End.thy ===== *)
theory Rb_Remove_End
  imports Rb_Remove_Loop
begin

text \<open>
  The end of \<open>remove_rbnode\<close>: a leaf is cut off, a node is put in the place of another one, or
  a duplicate leaves its list. Each changes the subtree in a hole of the tree.
\<close>

section \<open>Cutting off a leaf\<close>

lemma cut_leaf:
  assumes t: "tree_at S head m (plug cs (mk d E n c ds E))"
    and m': "m' = set_link m (hole_node head cs) (of_bool (hole_dir cs)) 0"
  shows "tree_at S head m' (plug cs E)"
    and "framed (set (addrs (plug cs (mk d E n c ds E)))) head 1 m m'"
proof -
  note d = tree_atD [OF t]
  have fr: "framed (set (addrs (mk d E n c ds E))) (hole_node head cs) (of_bool (hole_dir cs)) m m'"
    unfolding m' by (rule framed_set_link)
  have dist: "distinct (addrs (plug cs E))"
    using distinct_swap [of cs "mk d E n c ds E" E] t by (simp add: tree_at_def)
  have "hole head cs m' = 0" unfolding m' using d(11) by (simp add: heap_laws [OF d(1)])
  then show "tree_at S head m' (plug cs E)"
    using d by (intro tree_at_replace [OF t fr d(6) _ _ _ dist]) auto
  show "framed (set (addrs (plug cs (mk d E n c ds E)))) head 1 m m'"
    by (rule hole_framed [OF t fr])
qed

section \<open>A node in the place of another\<close>

lemma copy_color_laws:
  assumes "separated S" "s \<in> S" "a \<in> S" "b \<in> S"
  shows "j < 3 \<Longrightarrow> get_link (copy_color m s a) b j = get_link m b j"
    and "is_red (copy_color m s a) b = (if b = a then is_red m s else is_red m b)"
proof -
  show "j < 3 \<Longrightarrow> get_link (copy_color m s a) b j = get_link m b j"
    using link_addr_eq [OF assms(1,3,4), of 0 j]
    by (auto simp: copy_color_def get_link_def simp del: link_addr_simps)
  have "b \<noteq> a \<Longrightarrow> link_addr b 0 \<noteq> link_addr a 0" using link_addr_eq [OF assms(1,4,3), of 0 0] by simp
  then show "is_red (copy_color m s a) b = (if b = a then is_red m s else is_red m b)"
    using separated_nz [OF assms(1)] assms(2-4)
    by (auto simp: copy_color_def is_red_def simp del: link_addr_simps)
qed

lemma framed_copy_color:
  assumes "a \<in> A" "separated S" "A \<subseteq> S" "t \<in> S" "t \<notin> A" "i < 3"
  shows "framed A t i m (copy_color m s a)"
  using assms(1) link_words_notin [OF assms(2-6)]
  by (auto simp: framed_def copy_color_def link_words_def)

text \<open>The assignments by which \<open>n\<close> takes over the children, the parent and the colour of \<open>f\<close>.\<close>

definition substituted :: "u32 \<Rightarrow> u32 \<Rightarrow> u32 \<Rightarrow> mem \<Rightarrow> mem" where
  "substituted n f fp m =
     (let m = set_link m n 0 (get_link m f 0);
          m = set_link m n 1 (get_link m f 1);
          m = set_link m fp (of_bool (get_link m fp 1 = f)) n
      in copy_color m f n)"

lemma substitute:
  assumes t: "tree_at S head m (plug cs (mk d x f c ds y))"
    and n: "n \<in> S" "n \<notin> insert head (context_addrs cs)" "n \<notin> insert f (set (addrs x) \<union> set (addrs y))"
    and es: "dup_list m (get_link m n 2) es" "set es \<subseteq> S" "distinct (n # es)"
      "set es \<inter> insert head (context_addrs cs) = {}" "set es \<inter> insert f (set (addrs x) \<union> set (addrs y)) = {}"
    and A: "A \<subseteq> S" "insert n (set es) \<union> set (addrs (plug cs (mk d x f c ds y))) \<subseteq> A" "head \<notin> A"
  shows "tree_at S head (substituted n f (hole_node head cs) m) (plug cs (mk d x n c es y))"
    and "framed A head 1 m (substituted n f (hole_node head cs) m)"
proof -
  let ?g = "hole_node head cs" and ?B = "insert n (set es) \<union> set (addrs (mk d x f c ds y))"
  let ?m = "substituted n f ?g m"
  note D = tree_atD [OF t] and N = tree_at_node [OF t]
  note laws = heap_laws [OF D(1)]
  have f: "f \<in> S" "f \<noteq> n" "?g \<in> S" "?g \<noteq> n" "?g \<noteq> f"
    using N(2) n D(11,12) hole_node_in [of head cs] by auto
  have kid: "get_link m f (of_bool e) \<in> insert 0 S" for e
    using rep_child_in [OF N(5)] rep_child_in [OF N(6)] D(6) by (cases e; cases d) auto
  have k: "get_link m f 0 \<in> insert 0 S" "get_link m f 1 \<in> insert 0 S" using kid [of False] kid [of True] by auto
  define m1 where "m1 = set_link m n 0 (get_link m f 0)"
  define m2 where "m2 = set_link m1 n 1 (get_link m1 f 1)"
  have l1: "get_link m1 b j = (if b = n \<and> j = 0 then get_link m f 0 else get_link m b j)" if "b \<in> S" "j < 3" for b j
    using that n(1) k by (simp add: m1_def laws)
  have l2: "get_link m2 b j = (if b = n \<and> j = 0 then get_link m f 0 else if b = n \<and> j = 1 then get_link m f 1
      else get_link m b j)" if "b \<in> S" "j < 3" for b j
    using that n(1) k f l1 [of f 1] l1 [of b j] by (auto simp: m2_def laws)
  have side: "(get_link m2 ?g 1 = f) = hole_dir cs"
    using hole_side [OF t] l2 [of ?g 1] f by simp
  define m3 where "m3 = set_link m2 ?g (of_bool (hole_dir cs)) n"
  have m: "?m = copy_color m3 f n"
    unfolding substituted_def Let_def m1_def [symmetric] m2_def [symmetric] side m3_def [symmetric] ..
  have links: "get_link ?m b j = (if b = ?g \<and> j = of_bool (hole_dir cs) then n
      else if b = n \<and> j = 0 then get_link m f 0 else if b = n \<and> j = 1 then get_link m f 1 else get_link m b j)"
    if "b \<in> S" "j < 3" for b j
    using that f n(1) l2 [OF that] unfolding m by (auto simp: copy_color_laws [OF D(1)] m3_def laws)
  have red: "is_red ?m b = is_red m (if b = n then f else b)" if "b \<in> S" for b
    using that f n(1) unfolding m by (simp add: copy_color_laws [OF D(1)] m1_def m2_def m3_def laws)
  have B: "?B \<subseteq> S" "?g \<notin> ?B" using n(1) es(2) D(6,12) f(4) hole_node_in [of head cs] es(4) by auto
  have fr: "framed ?B ?g (of_bool (hole_dir cs)) m ?m"
  proof -
    have nB: "n \<in> ?B" by simp
    have "framed ?B ?g (of_bool (hole_dir cs)) m m1" unfolding m1_def using nB by (rule framed_set_link(1)) simp
    moreover have "framed ?B ?g (of_bool (hole_dir cs)) m1 m2" unfolding m2_def using nB by (rule framed_set_link(1)) simp
    moreover have "framed ?B ?g (of_bool (hole_dir cs)) m2 m3" unfolding m3_def by (rule framed_set_link(2))
    moreover have "framed ?B ?g (of_bool (hole_dir cs)) m3 ?m"
      unfolding m by (rule framed_copy_color [OF nB D(1) B(1) f(3) B(2)]) simp
    ultimately show ?thesis by (blast intro: framed_trans)
  qed
  have same: "same_nodes Z m ?m" if "Z \<subseteq> S" "n \<notin> Z" "?g \<notin> Z" for Z
    unfolding same_nodes_def
  proof (intro ballI conjI allI impI)
    fix b j assume b: "b \<in> Z"
    then have b': "b \<in> S" "b \<noteq> n" "b \<noteq> ?g" using that by auto
    show "is_red ?m b = is_red m b" using red [OF b'(1)] b' by simp
    show "j < 3 \<Longrightarrow> get_link ?m b j = get_link m b j" using links [OF b'(1)] b' by simp
  qed
  have "same_nodes (set (addrs x)) m ?m" "same_nodes (set (addrs y)) m ?m" "same_nodes (set es) m ?m"
    using D(6,12) n(3) es(2,3,4) hole_node_in [of head cs] by (intro same; auto)+
  then have r: "rep ?m q x = rep m q x" "rep ?m q y = rep m q y" "dup_list ?m q es = dup_list m q es" for q
    by (simp_all add: rep_same dup_list_same)
  have "get_link ?m n j = (if j = 2 then get_link m n 2 else get_link m f j)" if "j < 3" for j
    using links [OF n(1) that] f less_3_cases [OF that] by auto
  then have rn: "rep ?m n (mk d x n c es y)"
    using N r es(1) red [OF n(1)] by simp
  have hl: "hole head cs ?m = n" using links [OF f(3)] by simp
  have "distinct (addrs (mk d x n c es y))" using D(7) n(3) es(3,5) by auto
  moreover have "context_addrs cs \<inter> set (addrs (mk d x n c es y)) = {}" using D(8) n(2) es(4) by auto
  ultimately have dist: "distinct (addrs (plug cs (mk d x n c es y)))"
    using distinct_swap [of cs "mk d x f c ds y" "mk d x n c es y"] t by (simp add: tree_at_def)
  show "tree_at S head ?m (plug cs (mk d x n c es y))"
    by (rule tree_at_replace [OF t fr B(1) _ _ _ dist]) (use hl rn n es D(4,8) in auto)
  show "framed A head 1 m ?m"
  proof (cases cs rule: hole_dir.cases)
    case 1
    have fr': "framed ?B head 1 m ?m" using fr unfolding 1 by simp
    show ?thesis by (rule framed_mono [OF fr' _ D(1) A(1) D(2) A(3)]) (use A(2) 1 in auto)
  next
    case (2 e a c' ds' y' cs')
    show ?thesis by (rule framed_nested [OF fr _ D(1) A(1) D(2) A(3)]) (use A(2) 2 in auto)
  qed
qed

section \<open>Duplicates\<close>

lemma find_dup_list:
  assumes "\<And>a. sel m a args \<noteq> 0 \<longleftrightarrow> P a"
  shows "dup_list m p ds \<Longrightarrow> 0 \<notin> set ds \<Longrightarrow> find_dup sel args p prev m =
    Some (case List.extract P ds of
        None \<Rightarrow> (0, last (prev # ds))
      | Some (us, d, vs) \<Rightarrow> (d, last (prev # us)))"
proof (induction ds arbitrary: p prev)
  case Nil
  then show ?case by (subst find_dup.simps) (simp add: extract_Nil_code)
next
  case (Cons d ds)
  have p: "p = d" "d \<noteq> 0" "dup_list m (get_link m d 2) ds" using Cons.prems by auto
  show ?case
  proof (cases "P d")
    case True
    then have "sel m d args \<noteq> 0" using assms by simp
    then show ?thesis using p True by (subst find_dup.simps) (simp add: extract_Cons_code)
  next
    case False
    then have "sel m d args = 0" using assms by auto
    then have "find_dup sel args p prev m = find_dup sel args (get_link m d 2) d m"
      using p by (subst find_dup.simps) simp
    then show ?thesis
      using Cons.IH [OF p(3)] Cons.prems(2) False by (auto simp: extract_Cons_code split: option.split)
  qed
qed

text \<open>Taking \<open>e\<close> out of a list of duplicates, by the link of the node before it.\<close>

lemma unlink_dup:
  assumes "separated S" "f \<in> S" "set (us @ e # vs) \<subseteq> S" "distinct (f # us @ e # vs)"
    and "dup_list m (get_link m f 2) (us @ e # vs)"
  shows "dup_list (set_link m (last (f # us)) 2 (get_link m e 2))
    (get_link (set_link m (last (f # us)) 2 (get_link m e 2)) f 2) (us @ vs)"
  using assms
proof (induction us arbitrary: f)
  case Nil
  have l: "get_link m e 2 \<in> insert 0 S" using Nil.prems(3,5) by (cases vs) auto
  have "same_nodes (set vs) m (set_link m f 2 (get_link m e 2))"
    using Nil.prems l by (intro same_nodes_update(1) [OF Nil.prems(1)]) auto
  then show ?case
    using Nil.prems l dup_list_same by (auto simp: heap_laws [OF Nil.prems(1)])
next
  case (Cons u us)
  let ?m = "set_link m (last (u # us)) 2 (get_link m e 2)"
  have ih: "dup_list ?m (get_link ?m u 2) (us @ vs)"
    by (rule Cons.IH [OF Cons.prems(1)]) (use Cons.prems in auto)
  have "dup_list m (get_link m e 2) vs"
    using Cons.prems(5) by (induction us arbitrary: u f) auto
  then have l: "get_link m e 2 \<in> insert 0 S" using Cons.prems(3) by (cases vs) auto
  have w: "last (u # us) \<in> set (u # us)" by (rule last_in_set) simp
  then have "last (u # us) \<in> S" "last (u # us) \<noteq> f" using Cons.prems(3,4) by auto
  then have "get_link ?m f 2 = get_link m f 2"
    using l Cons.prems(2) by (simp add: heap_laws [OF Cons.prems(1)])
  then show ?case using ih Cons.prems(5) by simp
qed

lemma dup_hole:
  assumes t: "tree_at S head m (plug cs (mk d x f c (us @ e # vs) y))"
    and m': "m' = set_link m (last (f # us)) 2 (get_link m e 2)"
  shows "tree_at S head m' (plug cs (mk d x f c (us @ vs) y))"
    and "framed (set (addrs (plug cs (mk d x f c (us @ e # vs) y)))) head 1 m m'"
proof -
  let ?old = "mk d x f c (us @ e # vs) y" and ?new = "mk d x f c (us @ vs) y"
  note D = tree_atD [OF t] and N = tree_at_node [OF t]
  define b where "b = last (f # us)"
  have mb: "m' = set_link m b 2 (get_link m e 2)" by (simp only: m' b_def)
  have "b \<in> set (f # us)" unfolding b_def by (rule last_in_set) simp
  then have b: "b \<in> set (addrs ?old)" "b \<in> S" "b \<notin> set (addrs x)" "b \<notin> set (addrs y)" "b \<noteq> hole_node head cs"
    using D(6,7,12) by auto
  have "dup_list m (get_link m e 2) vs"
    using N(7) by (induction us arbitrary: f) auto
  then have l: "get_link m e 2 \<in> insert 0 S" using D(6) by (cases vs) auto
  have fr: "framed (set (addrs ?old)) (hole_node head cs) (of_bool (hole_dir cs)) m m'"
    unfolding m' b_def [symmetric] using b(1) by (rule framed_set_link) simp
  have "same_nodes (set (addrs x) \<union> set (addrs y)) m m'"
    unfolding m' b_def [symmetric] using D(6) b l by (intro same_nodes_update(1) [OF D(1)]) auto
  then have r: "rep m' q x = rep m q x" "rep m' q y = rep m q y" for q
    by (auto intro!: rep_same elim: same_nodes_mono)
  have du: "dup_list m' (get_link m' f 2) (us @ vs)"
    unfolding m' using D(6,7) N(7) by (intro unlink_dup [OF D(1)]) auto
  have links: "is_red m' f = is_red m f" "get_link m' f (of_bool k) = get_link m f (of_bool k)"
    "hole head cs m' = f" for k
    using N(1,2) b(2,5) l D(11) unfolding mb by (simp_all add: heap_laws [OF D(1)])
  have "rep m' f ?new" using N(4-6) r du links by simp
  moreover have "distinct (addrs ?new)" "context_addrs cs \<inter> set (addrs ?new) = {}" using D(7,8) by auto
  then have "distinct (addrs (plug cs ?new))"
    using t unfolding tree_at_def by (blast intro: distinct_swap)
  ultimately show "tree_at S head m' (plug cs ?new)"
    using D(4,8) links(3) by (intro tree_at_replace [OF t fr D(6)]) auto
  show "framed (set (addrs (plug cs ?old))) head 1 m m'" by (rule hole_framed [OF t fr])
qed

end
