(* ===== verification/Rb_Insert_Step.thy ===== *)
theory Rb_Insert_Step
  imports Rb_Insert_Loop
begin

text \<open>
  One iteration of the loop of \<open>insert_rbnode\<close>: its invariant \<open>insync\<close>, the three outcomes of
  the repair, and the ways the loop ends or goes on.
\<close>

section \<open>The loop invariant\<close>

text \<open>
  The subtree below \<open>t\<close> in direction \<open>d2\<close> is \<open>g\<close>, its child in direction \<open>lst\<close> is \<open>p\<close>, and
  \<open>p\<close>'s child in direction \<open>dir\<close> is the tree \<open>nt\<close> the loop is about to visit.
\<close>

definition around :: "bool \<Rightarrow> bool \<Rightarrow> rbt \<Rightarrow> u32 \<Rightarrow> bool \<Rightarrow> u32 list \<Rightarrow> rbt \<Rightarrow> u32 \<Rightarrow> bool \<Rightarrow> u32 list
    \<Rightarrow> rbt \<Rightarrow> rbt" where
  "around lst dir nt p cp dsp v g c dsg u = mk lst (mk dir nt p cp dsp v) g c dsg u"

definition placed :: "u32 set \<Rightarrow> key_fun \<Rightarrow> u32 \<Rightarrow> mem \<Rightarrow> u32 \<Rightarrow> bool \<Rightarrow> u32 \<Rightarrow> rbt \<Rightarrow> bool" where
  "placed S K node m t d2 g x \<longleftrightarrow>
     separated S \<and> set (addrs x) \<subseteq> S \<and> distinct (addrs x) \<and> t \<in> S \<and> node \<in> S \<and>
     t \<notin> set (addrs x) \<and> t \<noteq> node \<and>
     get_link m t (of_bool d2) = g \<and>
     (\<not> d2 \<longrightarrow> get_link m t 1 \<notin> insert node (set (addrs x))) \<and> rep m g x \<and>
     level_black x \<and> (\<forall>b\<in>S. rb_data m b = K b)"

definition fresh :: "u32 \<Rightarrow> mem \<Rightarrow> rbt \<Rightarrow> bool" where
  "fresh node m x \<longleftrightarrow> node \<notin> set (addrs x) \<and> rep m node (N E node True [] E)"

definition steered :: "key_fun \<Rightarrow> u32 \<Rightarrow> u32 \<Rightarrow> bool \<Rightarrow> bool" where
  "steered K node a d \<longleftrightarrow> K a \<noteq> K node \<and> d = (K a < K node)"

definition insync ::
  "u32 set \<Rightarrow> key_fun \<Rightarrow> u32 \<Rightarrow> mem \<Rightarrow> u32 \<Rightarrow> bool \<Rightarrow> u32 \<Rightarrow> bool \<Rightarrow> u32 \<Rightarrow> bool \<Rightarrow> rbt
     \<Rightarrow> bool \<Rightarrow> u32 list \<Rightarrow> rbt \<Rightarrow> bool \<Rightarrow> u32 list \<Rightarrow> rbt \<Rightarrow> bool" where
  "insync S K node m t d2 g lst p dir nt cp dsp v c dsg u \<longleftrightarrow>
     placed S K node m t d2 g (around lst dir nt p cp dsp v g c dsg u) \<and>
     fresh node m (around lst dir nt p cp dsp v g c dsg u) \<and>
     ordered K (slots (around lst dir nt p cp dsp v g c dsg u)) \<and>
     no_red_red (around lst dir nt p cp dsp v g c dsg u) \<and>
     steered K node g lst \<and> steered K node p dir \<and>
     \<not> (root_red nt \<and> root_red v) \<and>
     (cp \<and> root_red u \<longrightarrow> \<not> root_red (prep node nt))"

lemma rep_prep_mk:
  assumes "rep m n1 (prep node nt)"
  obtains a c ds b where "prep node nt = mk d a n1 c ds b"
  using assms mk_exists [of "prep node nt" d] by (metis prep_neq_E rep_mk)

lemma attach_step:
  assumes pl: "placed S K node m t d2 g (around lst dir nt p cp dsp v g c dsg u)"
    and fr: "fresh node m (around lst dir nt p cp dsp v g c dsg u)"
    and nr: "no_red_red nt"
    and res: "attach_or_flip node p (get_link m p (of_bool dir)) dir dup nn m = (m1, n1, dup1, nn1)"
  shows "placed S K node m1 t d2 g (around lst dir (prep node nt) p cp dsp v g c dsg u)"
    and "rep m1 n1 (prep node nt)" "get_link m1 p (of_bool dir) = n1"
    and "framed (insert node (set (addrs (around lst dir nt p cp dsp v g c dsg u)))) t (of_bool d2) m m1"
    and "(n1, dup1, nn1) =
      (if nt = E then (node, False, nn + 1) else (get_link m p (of_bool dir), dup, nn))"
    and "fresh node m1 (around lst dir nt p cp dsp v g c dsg u)"
proof -
  let ?x = "around lst dir nt p cp dsp v g c dsg u"
  let ?x1 = "around lst dir (prep node nt) p cp dsp v g c dsg u"
  have sep: "separated S" and X: "set (addrs ?x) \<subseteq> S" "t \<in> S" "t \<notin> set (addrs ?x)" "node \<in> S"
    "t \<noteq> node" "node \<notin> set (addrs ?x)" "distinct (addrs ?x)" "rep m g ?x"
    using pl fr by (auto simp: placed_def fresh_def)
  have A: "set (addrs nt) \<subseteq> S" "p \<in> S" "p \<notin> set (addrs nt)" "node \<notin> set (addrs nt)" "p \<noteq> node"
    "distinct (addrs nt)"
    using X by (auto simp: around_def)
  have n: "rep m (get_link m p (of_bool dir)) nt" and node: "rep m node (N E node True [] E)"
    using X(8) fr by (auto simp: around_def fresh_def)
  note step = attach_or_flip_ok [OF sep A(1,2) X(4) A(3-6) n refl node res]
  show "rep m1 n1 (prep node nt)" "get_link m1 p (of_bool dir) = n1"
    "(n1, dup1, nn1) = (if nt = E then (node, False, nn + 1) else (get_link m p (of_bool dir), dup, nn))"
    by (rule step)+
  let ?A = "set (addrs nt)"
  have AS: "?A \<subseteq> S" "p \<notin> ?A" using A X(4) by auto
  note same = framed_same [OF step(3) sep AS(1) A(2)]
  note nodes = framed_nodes [OF step(3) sep AS(1) A(2)]
  show F: "framed (insert node (set (addrs ?x))) t (of_bool d2) m m1"
    using X by (intro framed_nested [OF step(3) _ sep]) (auto simp: around_def)
  have sub: "set (addrs v) \<subseteq> S" "set dsp \<subseteq> S" "set (addrs u) \<subseteq> S" "set dsg \<subseteq> S"
    "set (addrs v) \<inter> insert p ?A = {}" "set dsp \<inter> insert p ?A = {}"
    "set (addrs u) \<inter> insert p ?A = {}" "set dsg \<inter> insert p ?A = {}"
    "g \<in> S" "g \<notin> ?A" "g \<noteq> p"
    using X by (auto simp: around_def)
  have keep: "rep m1 q v = rep m q v" "rep m1 q u = rep m q u" "dup_list m1 q dsp = dup_list m q dsp"
    "dup_list m1 q dsg = dup_list m q dsg" for q
    using rep_same [OF same] dup_list_same [OF same] sub by (simp_all only: of_bool_less_3)
  have pl1: "get_link m1 p (of_bool (\<not> dir)) = get_link m p (of_bool (\<not> dir))"
    "get_link m1 p 2 = get_link m p 2" "is_red m1 p = is_red m p"
    using nodes [OF A(2) _ AS(2)] by simp_all
  have gl: "j < 3 \<Longrightarrow> get_link m1 g j = get_link m g j" "is_red m1 g = is_red m g" for j
    using nodes [OF sub(9) _ sub(10)] sub(11) by simp_all
  have tl: "j < 3 \<Longrightarrow> get_link m1 t j = get_link m t j" for j
    using nodes(1) [OF X(2)] X A by (auto simp: around_def)
  have rx: "rep m1 g ?x1"
    using X(8) step(1,2) keep pl1 gl by (simp add: around_def)
  have D: "distinct (addrs ?x1)" "set (addrs ?x1) \<subseteq> insert node (set (addrs ?x))"
    using X(6,7) by (cases "nt = E"; auto simp: around_def addrs_prep)+
  have lv: "level_black (mk dir nt p cp dsp v)" "level_black ?x"
    using pl by (auto simp: placed_def around_def)
  then have "level_black ?x1" "black_depth ?x1 = black_depth ?x"
    using prep_invariants [OF nr] by (auto simp: around_def black_depth_mk)
  moreover have "rb_data m1 b = rb_data m b" if "b \<in> S" for b
    using framed_data [OF step(3) sep AS(1) A(2) that] by simp
  ultimately show "placed S K node m1 t d2 g ?x1"
    using pl rx D X tl by (auto simp: placed_def)
  have "node \<notin> set (addrs nt)" "p \<noteq> node" by (rule A)+
  then have "is_red m1 node = is_red m node" "j < 3 \<Longrightarrow> get_link m1 node j = get_link m node j" for j
    using nodes [OF X(4)] by auto
  then show "fresh node m1 ?x" using fr by (simp add: fresh_def)
qed


lemma placed_root:
  assumes "placed S K node m t d2 g x" "x \<noteq> E"
  shows "d2 \<longleftrightarrow> get_link m t 1 = g"
proof -
  have "rep m g x" "get_link m t (of_bool d2) = g" "\<not> d2 \<longrightarrow> get_link m t 1 \<notin> set (addrs x)"
    using assms(1) by (auto simp: placed_def)
  moreover from this(1) assms(2) have "g \<in> set (addrs x)" by (cases x) auto
  ultimately show ?thesis by (cases d2) auto
qed

lemma placed_move:
  assumes "placed S K node m t d2 g x" "framed (set (addrs x)) t (of_bool d2) m m2"
    "rep m2 g2 x2" "get_link m2 t (of_bool d2) = g2" "distinct (addrs x2)"
    "set (addrs x2) = set (addrs x)" "level_black x2"
  shows "placed S K node m2 t d2 g2 x2"
proof -
  have sep: "separated S" and S: "set (addrs x) \<subseteq> S" "t \<in> S" "t \<notin> set (addrs x)"
    using assms(1) by (auto simp: placed_def)
  have "\<not> d2 \<Longrightarrow> get_link m2 t 1 = get_link m t 1"
    using framed_nodes(1) [OF assms(2) sep S(1,2,2) _ S(3)] by auto
  moreover have "rb_data m2 b = rb_data m b" if "b \<in> S" for b
    using framed_data [OF assms(2) sep S(1,2) that] by simp
  ultimately show ?thesis
    using assms by (auto simp: placed_def)
qed

lemma repair_none:
  "\<not> (is_red m n \<and> is_red m p) \<Longrightarrow> fix_violation t g p n lst m = m"
  by (auto simp: fix_violation_def)

lemma repair_single:
  assumes pl: "placed S K node m t d2 g x" and x: "x = around d d pt p True dsp v g False dsg u"
    and n: "get_link m p (of_bool d) = n" "root_red pt"
    and inv: "no_red_red pt" "no_red_red v" "no_red_red u" "\<not> root_red v" "\<not> root_red u"
    and x2: "x2 = mk d pt p False dsp (mk d v g True dsg u)"
    and m2: "m2 = fix_violation t g p n d m"
  shows "placed S K node m2 t d2 p x2" "framed (set (addrs x)) t (of_bool d2) m m2"
    "no_red_red x2" "black_depth x2 = black_depth x" "slots x2 = slots x"
    "set (addrs x2) = set (addrs x)"
proof -
  have sep: "separated S" and S: "set (addrs x) \<subseteq> S" "t \<in> S" "t \<notin> set (addrs x)"
    and dist: "distinct (addrs x)" and r: "rep m g x" and lv: "level_black x"
    using pl by (auto simp: placed_def)
  have d2: "d2 \<longleftrightarrow> get_link m t 1 = g"
    using placed_root [OF pl] x by (simp add: around_def)
  note fixed = fix_violation_single [OF sep S dist r x [unfolded around_def] n d2, folded m2 x2]
  show F: "framed (set (addrs x)) t (of_bool d2) m m2" by (rule fixed)
  show sl: "slots x2 = slots x" by (simp add: x x2 around_def slots_mk)
  then have ad: "addrs x2 = addrs x" by (simp add: addrs_slots)
  then show A: "set (addrs x2) = set (addrs x)" by simp
  show "no_red_red x2" using inv n by (simp add: x2)
  have "distinct (addrs x2)" using dist ad by simp
  moreover have "level_black x2" "black_depth x2 = black_depth x"
    using lv by (auto simp: x x2 around_def black_depth_mk)
  ultimately show "placed S K node m2 t d2 p x2" "black_depth x2 = black_depth x"
    using placed_move [OF pl F fixed(2,1) _ A] by simp_all
qed

lemma repair_double:
  assumes pl: "placed S K node m t d2 g x"
    and x: "x = around d (\<not> d) (mk d a n True dsn b) p True dsp v g False dsg u"
    and inv: "no_red_red a" "no_red_red b" "no_red_red v" "no_red_red u"
      "\<not> root_red a" "\<not> root_red b" "\<not> root_red v" "\<not> root_red u"
    and x2: "x2 = mk d (mk (\<not> d) a p True dsp v) n False dsn (mk d b g True dsg u)"
    and m2: "m2 = fix_violation t g p n d m"
  shows "placed S K node m2 t d2 n x2" "framed (set (addrs x)) t (of_bool d2) m m2"
    "no_red_red x2" "black_depth x2 = black_depth x" "slots x2 = slots x"
    "set (addrs x2) = set (addrs x)"
proof -
  have sep: "separated S" and S: "set (addrs x) \<subseteq> S" "t \<in> S" "t \<notin> set (addrs x)"
    and dist: "distinct (addrs x)" and r: "rep m g x" and lv: "level_black x"
    using pl by (auto simp: placed_def)
  have d2: "d2 \<longleftrightarrow> get_link m t 1 = g"
    using placed_root [OF pl] x by (simp add: around_def)
  note fixed = fix_violation_double [OF sep S dist r x [unfolded around_def] d2, folded m2 x2]
  show F: "framed (set (addrs x)) t (of_bool d2) m m2" by (rule fixed)
  show sl: "slots x2 = slots x" by (simp add: x x2 around_def slots_mk)
  then have ad: "addrs x2 = addrs x" by (simp add: addrs_slots)
  then show A: "set (addrs x2) = set (addrs x)" by simp
  show "no_red_red x2" using inv by (simp add: x2)
  have "distinct (addrs x2)" using dist ad by simp
  moreover have "level_black x2" "black_depth x2 = black_depth x"
    using lv by (auto simp: x x2 around_def black_depth_mk)
  ultimately show "placed S K node m2 t d2 n x2" "black_depth x2 = black_depth x"
    using placed_move [OF pl F fixed(2,1) _ A] by simp_all
qed


section \<open>Ending the loop\<close>

lemma finish_attached:
  assumes pl: "placed S K node m2 t d2 g2 x2"
    and fr: "framed (insert node (set (addrs x))) t (of_bool d2) m m2"
    and sl: "slots x2 = ins_slots K node (slots x)" "\<not> key_present K node (slots x)"
    and ad: "set (addrs x2) = insert node (set (addrs x))"
    and inv: "no_red_red x2" "root_red x2 = root_red x" "black_depth x2 = black_depth x"
  shows "insert_result K node t d2 x m nn nd (Some (m2, nn + 1, nd))"
proof -
  have "rep m2 (get_link m2 t (of_bool d2)) x2" "distinct (addrs x2)" "level_black x2"
    using pl by (auto simp: placed_def)
  then have "grown K node x x2" using sl ad inv by (simp add: grown_def)
  moreover have "counted K node (slots x) nn nd = (nn + 1, nd)"
    using sl(2) by (simp add: counted_def)
  ultimately show ?thesis
    unfolding insert_result_def using fr \<open>rep m2 _ x2\<close> by auto
qed

lemma rep_dup_head:
  "rep m q t \<Longrightarrow> n \<in> fst ` set (slots t) \<Longrightarrow> set (addrs t) \<subseteq> S \<Longrightarrow> get_link m n 2 \<in> insert 0 S"
  by (induction t arbitrary: q) (auto dest: dup_head_in)

lemma finish_found:
  assumes pl: "placed S K node m2 t d2 g2 x2" and new: "node \<notin> set (addrs x2)"
    and fr: "framed (insert node (set (addrs x))) t (of_bool d2) m m2"
    and sl: "slots x2 = slots x" "ordered K (slots x)" "n \<in> fst ` set (slots x2)" "K n = K node"
    and inv: "no_red_red x2" "root_red x2 = root_red x" "black_depth x2 = black_depth x"
  shows "insert_result K node t d2 x m nn nd
    (Some (set_link (set_link m2 node 2 (get_link m2 n 2)) n 2 node, nn, nd + 1))"
proof -
  have sep: "separated S" and S: "set (addrs x2) \<subseteq> S" "t \<in> S" "t \<notin> set (addrs x2)" "node \<in> S"
      "t \<noteq> node" "distinct (addrs x2)" "level_black x2"
    and r: "rep m2 (get_link m2 t (of_bool d2)) x2"
    using pl by (auto simp: placed_def)
  have n: "n \<in> set (addrs x2)" "n \<in> S" "n \<noteq> node" "n \<noteq> t"
    using sl(3) fst_slots_addrs [of x2] S new by auto
  have ad: "addrs x2 = addrs x" using sl(1) by (simp add: addrs_slots)
  have hd: "get_link m2 n 2 \<in> insert 0 S" by (rule rep_dup_head [OF r sl(3) S(1)])
  define m3 where "m3 = set_link (set_link m2 node 2 (get_link m2 n 2)) n 2 node"
  define x3 where "x3 = add_dup n node x2"
  have "get_link m3 t (of_bool d2) = get_link m2 t (of_bool d2)"
    using S n hd by (simp add: m3_def heap_laws [OF sep])
  then have "rep m3 (get_link m3 t (of_bool d2)) x3"
    using rep_add_dup [OF sep S(4) n(2,3) hd S(1,6) sl(3) new r] by (simp add: m3_def x3_def)
  moreover have "slots x3 = ins_slots K node (slots x)"
    unfolding x3_def using slots_add_dup [OF _ sl(3,4)] sl(1,2) by simp
  then have "grown K node x x3"
    using addrs_add_dup [OF sl(3) S(6) new] inv S(7) ad by (simp add: grown_def x3_def)
  moreover have "counted K node (slots x) nn nd = (nn, nd + 1)"
    using sl(1,3,4) by (auto simp: counted_def key_present_def)
  moreover have "framed (insert node (set (addrs x))) t (of_bool d2) m2 m3"
    unfolding m3_def using n ad by (intro framed_trans [OF framed_set_link(1) framed_set_link(1)]) auto
  then have "framed (insert node (set (addrs x))) t (of_bool d2) m m3"
    by (rule framed_trans [OF fr])
  ultimately show ?thesis
    unfolding insert_result_def m3_def [symmetric] by auto
qed

section \<open>The trailing pointers that are not used\<close>

lemma insert_loop_resync:
  assumes "attach_or_flip node p n dir dup nn m = (m1, n1, dup1, nn1)"
    "\<not> (is_red m1 n1 \<and> is_red m1 p)" "g \<noteq> 0"
  shows "insert_loop cmp node args t g p n dir lst dup nn nd m =
    insert_loop cmp node args t' g p n dir lst' dup nn nd m"
  using assms
  by (subst (1 2) insert_loop.simps) (simp add: repair_none)

lemma insync_no_violation:
  assumes "insync S K node m t d2 g lst p dir nt cp dsp v c dsg u" "\<not> root_red (prep node nt)"
  shows "insert_loop cmp node args t1 g p (get_link m p (of_bool dir)) dir lst1 dup nn nd m =
    insert_loop cmp node args t2 g p (get_link m p (of_bool dir)) dir lst2 dup nn nd m"
proof -
  obtain m1 n1 dup1 nn1 where res:
    "attach_or_flip node p (get_link m p (of_bool dir)) dir dup nn m = (m1, n1, dup1, nn1)"
    using prod_cases4 by blast
  have "placed S K node m t d2 g (around lst dir nt p cp dsp v g c dsg u)"
    "fresh node m (around lst dir nt p cp dsp v g c dsg u)" "no_red_red nt"
    using assms(1) by (auto simp: insync_def around_def)
  note step = attach_step [OF this res]
  have "\<not> is_red m1 n1" using rep_red [OF step(2)] assms(2) by simp
  moreover have "g \<noteq> 0"
    using assms(1) separated_nz by (auto simp: insync_def placed_def around_def)
  ultimately show ?thesis by (intro insert_loop_resync [OF res]) auto
qed

lemma prep_children:
  assumes "prep node t = mk d x a c ds y"
  shows "\<not> (root_red x \<and> root_red y)"
  using assms by (cases t) (auto simp: mk_def split: if_splits)

lemma size_prep: "t \<noteq> E \<Longrightarrow> size (prep node t) = size t"
  by (cases t) auto

section \<open>One iteration keeps the invariant\<close>

lemma child_placed:
  assumes pl: "placed S K node m t d2 g x" and x: "x = mk d y g c ds z" and y: "y \<noteq> E"
    and new: "node \<notin> set (addrs x)"
  shows "placed S K node m g d (get_link m g (of_bool d)) y"
proof -
  have r: "rep m (get_link m g (of_bool d)) y" "rep m (get_link m g (of_bool (\<not> d))) z"
    and S: "set (addrs x) \<subseteq> S" "separated S" "distinct (addrs x)" "node \<in> S" "g \<in> S"
    using pl x by (auto simp: placed_def)
  have "get_link m g (of_bool (\<not> d)) \<notin> insert node (set (addrs y))"
  proof (cases "get_link m g (of_bool (\<not> d)) = 0")
    case True
    then show ?thesis using S x separated_nz [OF S(2)] by auto
  next
    case False
    then show ?thesis using rep_root [OF r(2)] S new x by auto
  qed
  then have "\<not> d \<longrightarrow> get_link m g 1 \<notin> insert node (set (addrs y))" by (cases d) simp_all
  with r(1) S new x pl show ?thesis by (auto simp: placed_def)
qed

lemma continue_plain:
  assumes sync: "insync S K node m t d2 g lst p dir nt cp dsp v c dsg u"
    and nt: "nt \<noteq> E" "prep node nt = mk e a n1 cn dsn b" "steered K node n1 e"
    and viol: "\<not> (cn \<and> cp)"
    and res: "attach_or_flip node p (get_link m p (of_bool dir)) dir dup nn m = (m1, n1, dup1, nn1)"
  shows "insync S K node m1 g lst p dir n1 e a cn dsn b cp dsp v"
proof -
  let ?x = "around lst dir nt p cp dsp v g c dsg u"
  let ?x1 = "around lst dir (prep node nt) p cp dsp v g c dsg u"
  let ?y = "around dir e a n1 cn dsn b p cp dsp v"
  have pf: "placed S K node m t d2 g ?x" "fresh node m ?x" "no_red_red nt"
    and o: "ordered K (slots ?x)" and nr: "no_red_red ?x" and st: "steered K node p dir"
    and both: "\<not> (root_red nt \<and> root_red v)"
    using sync by (auto simp: insync_def around_def)
  have lvl: "level_black nt" using pf(1) by (simp add: placed_def around_def)
  note step = attach_step [OF pf res]
  have sl: "slots ?x1 = slots ?x" using nt(1) by (simp add: around_def slots_mk slots_prep)
  have x1: "?x1 = mk lst ?y g c dsg u" using nt(2) by (simp add: around_def)
  have ad: "addrs ?x1 = addrs ?x" using sl by (simp add: addrs_slots)
  have new: "node \<notin> set (addrs ?x1)" using pf(2) ad by (simp add: fresh_def)
  have gp: "get_link m1 g (of_bool lst) = p"
    using step(1) by (simp add: placed_def around_def)
  have "placed S K node m1 g lst p ?y"
    using child_placed [OF step(1) x1 _ new] gp by (simp add: around_def)
  moreover have "fresh node m1 ?y"
    using step(6) new x1 by (auto simp: fresh_def)
  moreover have "ordered K (slots ?y)"
    using o ordered_mk sl x1 by metis
  moreover have "no_red_red ?y"
    using prep_invariants(1) [OF pf(3) lvl, of node] nt(2) viol nr by (auto simp: around_def)
  moreover have "\<not> root_red (prep node a)" if "cn" "root_red v"
  proof -
    have "\<not> root_red nt" using both that by simp
    then show ?thesis using prep_mk_red [of node nt e a n1 dsn b] nt(1,2) pf(3) that(1) by simp
  qed
  ultimately show ?thesis
    using st nt(3) prep_children [OF nt(2)] by (auto simp: insync_def)
qed

lemma viol_facts:
  assumes sync: "insync S K node m t d2 g lst p dir nt True dsp v c dsg u" and "root_red (prep node nt)"
  shows "\<not> c" "\<not> root_red v" "\<not> root_red u" "no_red_red nt" "no_red_red v" "no_red_red u"
    "\<not> root_red nt" "no_red_red (prep node nt)"
  using assms prep_invariants(1) [of nt node] by (auto simp: insync_def placed_def around_def)

lemma continue_single:
  assumes sync: "insync S K node m t d2 g d p d nt True dsp v c dsg u"
    and nt: "nt \<noteq> E" "prep node nt = mk e a n1 True dsn b" "steered K node n1 e"
    and res: "attach_or_flip node p (get_link m p (of_bool d)) d dup nn m = (m1, n1, dup1, nn1)"
    and m2: "m2 = fix_violation t g p n1 d m1"
  shows "insync S K node m2 t d2 p d n1 e a True dsn b False dsp (mk d v g True dsg u)"
    and "\<not> root_red (prep node a)"
    and "slots (around d e a n1 True dsn b p False dsp (mk d v g True dsg u)) =
      slots (around d d nt p True dsp v g c dsg u)"
    and "black_depth (around d e a n1 True dsn b p False dsp (mk d v g True dsg u)) =
      black_depth (around d d nt p True dsp v g c dsg u)"
proof -
  let ?x = "around d d nt p True dsp v g c dsg u"
  let ?x1 = "around d d (prep node nt) p True dsp v g c dsg u"
  let ?y = "around d e a n1 True dsn b p False dsp (mk d v g True dsg u)"
  have pf: "placed S K node m t d2 g ?x" "fresh node m ?x" "no_red_red nt"
    and o: "ordered K (slots ?x)" and st: "steered K node p d"
    using sync by (auto simp: insync_def around_def)
  note step = attach_step [OF pf res]
  have red: "root_red (prep node nt)" using nt(2) by simp
  note vf = viol_facts [OF sync red]
  note kids = prep_mk_red [OF nt(2) vf(4,7) nt(1)]
  have y: "?y = mk d (prep node nt) p False dsp (mk d v g True dsg u)"
    using nt(2) by (simp add: around_def)
  have x1: "?x1 = around d d (prep node nt) p True dsp v g False dsg u" using vf(1) by simp
  note rep2 = repair_single [OF step(1) x1 step(3) red vf(8,5,6,2,3) y m2]
  have sl: "slots ?x1 = slots ?x" using nt(1) by (simp add: around_def slots_mk slots_prep)
  then have ad: "addrs ?x1 = addrs ?x" by (simp add: addrs_slots)
  have fr: "fresh node m2 ?y"
  proof -
    have sep: "separated S" and S: "set (addrs ?x1) \<subseteq> S" "t \<in> S" "node \<in> S" "t \<noteq> node"
      and new: "node \<notin> set (addrs ?x1)"
      using step(1) pf(2) ad by (auto simp: placed_def fresh_def)
    have "is_red m2 node = is_red m1 node" "j < 3 \<Longrightarrow> get_link m2 node j = get_link m1 node j" for j
      using framed_nodes [OF rep2(2) sep S(1,2,3) _ new] S(4) by auto
    with step(6) rep2(6) new show ?thesis by (simp add: fresh_def)
  qed
  have lv: "level_black nt" "level_black (mk d nt p True dsp v)" "level_black ?x"
    using pf(1) by (auto simp: placed_def around_def)
  then have "black_depth ?x1 = black_depth ?x"
    using prep_invariants [OF pf(3) lv(1), of node] by (auto simp: around_def black_depth_mk)
  then show "slots ?y = slots ?x" "black_depth ?y = black_depth ?x"
    using rep2(4,5) sl by simp_all
  show "\<not> root_red (prep node a)" using kids by simp
  then show "insync S K node m2 t d2 p d n1 e a True dsn b False dsp (mk d v g True dsg u)"
    using rep2(1,3,5) fr o sl st nt(3) kids by (simp add: insync_def)
qed


lemma continue_double:
  assumes sync: "insync S K node m t d2 g d p (\<not> d) nt True dsp v c dsg u"
    and nt: "nt \<noteq> E" "prep node nt = mk d a n1 True dsn b" "steered K node n1 e"
    and res: "attach_or_flip node p (get_link m p (of_bool (\<not> d))) (\<not> d) dup nn m = (m1, n1, dup1, nn1)"
    and m2: "m2 = fix_violation t g p n1 d m1"
    and side: "(q, w, dsq, z, other) = (if e = d then (p, a, dsp, v, mk d b g True dsg u)
       else (g, b, dsg, u, mk (\<not> d) a p True dsp v))"
  shows "insync S K node m2 t d2 n1 e q (\<not> e) w True dsq z False dsn other"
    and "get_link m2 n1 (of_bool e) = q"
    and "\<not> root_red (prep node w)" "\<not> root_red w" "\<not> root_red z" "size w < size nt"
    and "slots (around e (\<not> e) w q True dsq z n1 False dsn other) =
      slots (around d (\<not> d) nt p True dsp v g c dsg u)"
    and "black_depth (around e (\<not> e) w q True dsq z n1 False dsn other) =
      black_depth (around d (\<not> d) nt p True dsp v g c dsg u)"
proof -
  let ?x = "around d (\<not> d) nt p True dsp v g c dsg u"
  let ?x1 = "around d (\<not> d) (prep node nt) p True dsp v g c dsg u"
  let ?y = "around e (\<not> e) w q True dsq z n1 False dsn other"
  have pf: "placed S K node m t d2 g ?x" "fresh node m ?x" "no_red_red nt"
    and o: "ordered K (slots ?x)" and st: "steered K node p (\<not> d)" "steered K node g d"
    using sync by (auto simp: insync_def around_def)
  note step = attach_step [OF pf res]
  have red: "root_red (prep node nt)" using nt(2) by simp
  note vf = viol_facts [OF sync red]
  note kids = prep_mk_red [OF nt(2) vf(4,7) nt(1)]
  have nrk: "no_red_red a" "no_red_red b" using vf(8) nt(2) by auto
  have kb: "\<not> root_red a" "\<not> root_red b" using kids by auto
  have y: "?y = mk d (mk (\<not> d) a p True dsp v) n1 False dsn (mk d b g True dsg u)"
    using side by (cases "e = d") (auto simp: around_def mk_flip)
  have x1: "?x1 = around d (\<not> d) (mk d a n1 True dsn b) p True dsp v g False dsg u"
    using vf(1) nt(2) by simp
  note rep2 = repair_double [OF step(1) x1 nrk vf(5,6) kb vf(2,3) y m2]
  have sl: "slots ?x1 = slots ?x" using nt(1) by (simp add: around_def slots_mk slots_prep)
  then have ad: "addrs ?x1 = addrs ?x" by (simp add: addrs_slots)
  have fr: "fresh node m2 ?y"
  proof -
    have sep: "separated S" and S: "set (addrs ?x1) \<subseteq> S" "t \<in> S" "node \<in> S" "t \<noteq> node"
      and new: "node \<notin> set (addrs ?x1)"
      using step(1) pf(2) ad by (auto simp: placed_def fresh_def)
    have "is_red m2 node = is_red m1 node" "j < 3 \<Longrightarrow> get_link m2 node j = get_link m1 node j" for j
      using framed_nodes [OF rep2(2) sep S(1,2,3) _ new] S(4) by auto
    with step(6) rep2(6) new show ?thesis by (simp add: fresh_def)
  qed
  show w: "\<not> root_red (prep node w)" "\<not> root_red w" "\<not> root_red z"
    using side kids vf(2,3) by (auto split: if_splits)
  have "size a < size nt" "size b < size nt"
    using size_prep [OF nt(1), of node] by (simp_all add: nt(2) mk_def split: if_splits)
  then show "size w < size nt" using side by (auto split: if_splits)
  have "rep m2 n1 ?y" using rep2(1) by (simp add: placed_def)
  then show "get_link m2 n1 (of_bool e) = q" by (simp add: around_def)
  have lv: "level_black nt" "level_black (mk (\<not> d) nt p True dsp v)" "level_black ?x"
    using pf(1) by (auto simp: placed_def around_def)
  then have "black_depth ?x1 = black_depth ?x"
    using prep_invariants [OF pf(3) lv(1), of node] by (auto simp: around_def black_depth_mk)
  then show "slots ?y = slots ?x" "black_depth ?y = black_depth ?x"
    using rep2(4,5) sl by simp_all
  have "steered K node q (\<not> e)" using st side by (cases "e = d") auto
  then show "insync S K node m2 t d2 n1 e q (\<not> e) w True dsq z False dsn other"
    using rep2(1,3,5) fr o sl nt(3) w by (simp add: insync_def)
qed


section \<open>The loop\<close>

lemma iteration_repairs:
  assumes sync: "insync S K node m t d2 g lst p dir nt cp dsp v c dsg u"
    and res: "attach_or_flip node p (get_link m p (of_bool dir)) dir dup nn m = (m1, n1, dup1, nn1)"
    and x: "x = around lst dir nt p cp dsp v g c dsg u"
    and x1: "x1 = around lst dir (prep node nt) p cp dsp v g c dsg u"
  obtains g2 x2 where "placed S K node (fix_violation t g p n1 lst m1) t d2 g2 x2"
    "framed (insert node (set (addrs x))) t (of_bool d2) m (fix_violation t g p n1 lst m1)"
    "slots x2 = slots x1" "no_red_red x2" "root_red x2 = root_red x" "black_depth x2 = black_depth x"
proof -
  have pf: "placed S K node m t d2 g x" "fresh node m x" "no_red_red nt" "no_red_red x"
    using sync x by (auto simp: insync_def around_def)
  have lv: "level_black nt" "level_black (mk dir nt p cp dsp v)" "level_black x"
    using pf(1) x by (auto simp: placed_def around_def)
  note step = attach_step [OF pf(1-3) [unfolded x] res, folded x x1]
  note inv1 = prep_invariants [OF pf(3) lv(1), of node]
  have pl: "placed S K node m1 t d2 g x1" by (rule step)
  have bd: "black_depth x1 = black_depth x"
    using lv inv1 by (auto simp: x x1 around_def black_depth_mk)
  have red: "is_red m1 n1 = root_red (prep node nt)" by (rule rep_red [OF step(2)])
  have "is_red m1 p = cp" using pl x1 by (auto simp: placed_def around_def)
  show thesis
  proof (cases "root_red (prep node nt) \<and> cp")
    case False
    then have "fix_violation t g p n1 lst m1 = m1"
      using red \<open>is_red m1 p = cp\<close> by (intro repair_none) auto
    then show thesis
      using that [of g x1] pl step(4) pf(4) inv1 bd False by (auto simp: x x1 around_def)
  next
    case True
    then have cp: "cp" and r: "root_red (prep node nt)" by auto
    have "insync S K node m t d2 g lst p dir nt True dsp v c dsg u" using sync cp by simp
    note vf = viol_facts [OF this r]
    have F: "framed (insert node (set (addrs x))) t (of_bool d2) m m2"
      if "framed (set (addrs x1)) t (of_bool d2) m1 m2" for m2
    proof -
      have "separated S" "insert node (set (addrs x)) \<subseteq> S" "t \<in> S" "t \<notin> insert node (set (addrs x))"
        using pf(1) by (auto simp: placed_def)
      moreover have "set (addrs (prep node nt)) \<subseteq> insert node (set (addrs nt))"
        by (cases "nt = E") (auto simp: addrs_prep)
      then have "set (addrs x1) \<subseteq> insert node (set (addrs x))"
        by (auto simp: x x1 around_def)
      ultimately show ?thesis
        using framed_trans [OF step(4)] framed_mono [OF that] by simp
    qed
    show thesis
    proof (cases "dir = lst")
      case True
      have x1': "x1 = around lst lst (prep node nt) p True dsp v g False dsg u"
        using x1 cp vf(1) True by simp
      note rs = repair_single [OF pl x1' step(3) [unfolded True] r vf(8,5,6,2,3) refl refl]
      show thesis
        by (rule that [OF rs(1) F [OF rs(2)] rs(5,3)]) (use rs(4) bd vf(1) x in \<open>auto simp: around_def\<close>)
    next
      case False
      then have dir: "dir = (\<not> lst)" by simp
      obtain a cn dsn b where k: "prep node nt = mk lst a n1 cn dsn b"
        using rep_prep_mk [OF step(2)] by metis
      with r have cn: "cn" by simp
      have x1': "x1 = around lst (\<not> lst) (mk lst a n1 True dsn b) p True dsp v g False dsg u"
        using x1 cp vf(1) dir k cn by simp
      have kk: "no_red_red a" "no_red_red b" "\<not> root_red a" "\<not> root_red b"
        using vf(8) k cn by auto
      note rs = repair_double [OF pl x1' kk(1,2) vf(5,6) kk(3,4) vf(2,3) refl refl]
      show thesis
        by (rule that [OF rs(1) F [OF rs(2)] rs(5,3)]) (use rs(4) bd vf(1) x in \<open>auto simp: around_def\<close>)
    qed
  qed
qed

lemma placed_data: "placed S K node m t d2 g x \<Longrightarrow> b \<in> S \<Longrightarrow> rb_data m b = K b"
  by (simp add: placed_def)

lemma attached_slots:
  assumes "insync S K node m t d2 g lst p dir nt cp dsp v c dsg u"
  shows "nt = E \<Longrightarrow> slots (around lst dir (prep node nt) p cp dsp v g c dsg u) =
           ins_slots K node (slots (around lst dir nt p cp dsp v g c dsg u))"
    and "nt = E \<Longrightarrow> \<not> key_present K node (slots (around lst dir nt p cp dsp v g c dsg u))"
    and "nt \<noteq> E \<Longrightarrow> slots (around lst dir (prep node nt) p cp dsp v g c dsg u) =
           slots (around lst dir nt p cp dsp v g c dsg u)"
proof -
  let ?y = "mk dir nt p cp dsp v"
  have o: "ordered K (slots (mk lst ?y g c dsg u))" and st: "K g \<noteq> K node" "lst = (K g < K node)"
    "K p \<noteq> K node" "dir = (K p < K node)"
    using assms by (auto simp: insync_def around_def steered_def)
  then have oy: "ordered K (slots ?y)" using ordered_mk by blast
  show "slots (around lst dir (prep node nt) p cp dsp v g c dsg u) =
      ins_slots K node (slots (around lst dir nt p cp dsp v g c dsg u))" if "nt = E"
    unfolding around_def
    by (rule ins_slots_mk [OF o st(1,2) ins_slots_mk [OF oy st(3,4)]]) (simp add: that)
  show "\<not> key_present K node (slots (around lst dir nt p cp dsp v g c dsg u))" if "nt = E"
    unfolding around_def key_present_mk [OF o st(1,2)] key_present_mk [OF oy st(3,4)]
    by (simp add: that key_present_def)
qed (simp add: around_def slots_mk slots_prep)

end
