(* ===== verification/Rb_Insert_Correct.thy ===== *)
theory Rb_Insert_Correct
  imports Rb_Insert_Step
begin

text \<open>
  Correctness of \<open>insert_rbnode\<close>: for a comparison that orders the keys the loop ends, and
  the tree it leaves is the red-black tree with the node inserted.
\<close>

section \<open>The first two iterations\<close>

text \<open>
  The loop starts at the dummy root, where the trailing pointers are still \<open>NULL\<close>. The root is
  black, so neither of the first two iterations can find two red nodes in a row.
\<close>

lemma first_attach:
  assumes pl: "placed S K node m head True r rt" and fr: "fresh node m rt"
    and inv: "no_red_red rt" "rt \<noteq> E"
    and res: "attach_or_flip node 0 r False dup nn m = (m1, n1, dup1, nn1)"
  shows "placed S K node m1 head True r (prep node rt)" "fresh node m1 rt"
    "framed (insert node (set (addrs rt))) head 1 m m1" "n1 = r" "dup1 = dup" "nn1 = nn"
proof -
  have sep: "separated S" and S: "set (addrs rt) \<subseteq> S" "head \<in> S" "node \<in> S" "head \<notin> set (addrs rt)"
    "node \<notin> set (addrs rt)" "head \<noteq> node" "distinct (addrs rt)" "rep m r rt"
    "get_link m head 1 = r" "rep m node (N E node True [] E)" "level_black rt"
    using pl fr by (auto simp: placed_def fresh_def)
  have "r \<noteq> 0" using rep_null [OF _ sep S(1)] S(8) inv(2) by auto
  then have res': "attach_or_flip node head r True dup nn m = (m1, n1, dup1, nn1)"
    using res by (simp add: attach_or_flip_def)
  have hl: "get_link m head (of_bool True) = r" using S(9) by simp
  note step = attach_or_flip_ok [OF sep S(1,2,3) S(4,5,6) S(7,8) hl S(10) res']
  show n: "n1 = r" "dup1 = dup" "nn1 = nn" using step(4) inv(2) by auto
  have "framed (set (addrs rt)) head 1 m m1" using step(3) by simp
  then show fr1: "framed (insert node (set (addrs rt))) head 1 m m1"
    using framed_mono [OF _ subset_insertI sep] S by simp
  have nodes: "is_red m1 node = is_red m node" "j < 3 \<Longrightarrow> get_link m1 node j = get_link m node j" for j
    using framed_nodes [OF step(3) sep S(1,2,3) _ S(5)] S(6) by auto
  then show "fresh node m1 rt" using fr by (simp add: fresh_def)
  have "rb_data m1 b = rb_data m b" if "b \<in> S" for b
    using framed_data [OF step(3) sep S(1,2) that] by simp
  moreover have "addrs (prep node rt) = addrs rt" using inv(2) by (simp add: addrs_prep)
  ultimately show "placed S K node m1 head True r (prep node rt)"
    using pl step(1,2) n(1) prep_invariants(2) [OF inv(1) S(11)] by (simp add: placed_def)
qed

lemma root_attach:
  assumes pl: "placed S K node m t d2 p (mk dir nt p cp dsp v)"
    and fr: "fresh node m (mk dir nt p cp dsp v)" and nr: "no_red_red nt"
    and res: "attach_or_flip node p (get_link m p (of_bool dir)) dir dup nn m = (m1, n1, dup1, nn1)"
  shows "placed S K node m1 t d2 p (mk dir (prep node nt) p cp dsp v)"
    and "rep m1 n1 (prep node nt)" "fresh node m1 (mk dir nt p cp dsp v)"
    and "framed (insert node (set (addrs (mk dir nt p cp dsp v)))) t (of_bool d2) m m1"
    and "(n1, dup1, nn1) =
      (if nt = E then (node, False, nn + 1) else (get_link m p (of_bool dir), dup, nn))"
proof -
  let ?x = "mk dir nt p cp dsp v" and ?A = "set (addrs nt)"
  have sep: "separated S" and S: "set (addrs ?x) \<subseteq> S" "t \<in> S" "node \<in> S" "t \<notin> set (addrs ?x)"
    "node \<notin> set (addrs ?x)" "t \<noteq> node" "distinct (addrs ?x)" "rep m p ?x"
    "rep m node (N E node True [] E)" "level_black ?x" "get_link m t (of_bool d2) = p"
    using pl fr by (auto simp: placed_def fresh_def)
  have A: "?A \<subseteq> S" "p \<in> S" "p \<notin> ?A" "node \<notin> ?A" "p \<noteq> node" "distinct (addrs nt)"
    "rep m (get_link m p (of_bool dir)) nt"
    using S by auto
  note step = attach_or_flip_ok [OF sep A(1,2) S(3) A(3-7) refl S(9) res]
  show "rep m1 n1 (prep node nt)" "(n1, dup1, nn1) =
      (if nt = E then (node, False, nn + 1) else (get_link m p (of_bool dir), dup, nn))"
    by (rule step)+
  note nodes = framed_nodes [OF step(3) sep A(1,2)]
  note same = framed_same [OF step(3) sep A(1,2)]
  show "framed (insert node (set (addrs ?x))) t (of_bool d2) m m1"
    using S by (intro framed_nested [OF step(3) _ sep]) auto
  have "is_red m1 node = is_red m node" "j < 3 \<Longrightarrow> get_link m1 node j = get_link m node j" for j
    using nodes [OF S(3) _ A(4)] A(5) by auto
  then show "fresh node m1 ?x" using fr by (simp add: fresh_def)
  have sub: "set (addrs v) \<subseteq> S" "set dsp \<subseteq> S" "set (addrs v) \<inter> insert p ?A = {}"
    "set dsp \<inter> insert p ?A = {}" "t \<notin> ?A" "t \<noteq> p"
    using S by auto
  have keep: "rep m1 q v = rep m q v" "dup_list m1 q dsp = dup_list m q dsp" for q
    using rep_same [OF same] dup_list_same [OF same] sub by (simp_all only: of_bool_less_3)
  have pl1: "get_link m1 p (of_bool (\<not> dir)) = get_link m p (of_bool (\<not> dir))"
    "get_link m1 p 2 = get_link m p 2" "is_red m1 p = is_red m p"
    using nodes [OF A(2) _ A(3)] by simp_all
  have tl: "get_link m1 t (of_bool d2) = p" "get_link m1 t 1 = get_link m t 1"
    using nodes(1) [OF S(2) _ sub(5)] sub(6) S(11) by auto
  have "rep m1 p (mk dir (prep node nt) p cp dsp v)"
    using S(8) step(1,2) keep pl1 by simp
  moreover have "distinct (addrs (mk dir (prep node nt) p cp dsp v))"
    "set (addrs (mk dir (prep node nt) p cp dsp v)) \<subseteq> insert node (set (addrs ?x))"
    using S(5,7) by (cases "nt = E"; auto simp: addrs_prep)+
  moreover have "level_black (mk dir (prep node nt) p cp dsp v)"
    using prep_invariants [OF nr] S(10) by simp
  moreover have "rb_data m1 b = rb_data m b" if "b \<in> S" for b
    using framed_data [OF step(3) sep A(1,2) that] by simp
  ultimately show "placed S K node m1 t d2 p (mk dir (prep node nt) p cp dsp v)"
    using pl S(2,3) tl by (auto simp: placed_def)
qed

section \<open>Trees whose comparison orders the keys\<close>

text \<open>
  The contract \<open>insert_rbnode\<close> needs of its comparison callback when it is called without
  alignment arguments: its sign is the order of the data words.
\<close>

locale insert_order =
  fixes cmp :: "mem \<Rightarrow> u32 \<Rightarrow> u32 \<Rightarrow> 'a option \<Rightarrow> int" and args :: "'a option"
  assumes cmp_less: "cmp m n d args < 0 \<longleftrightarrow> rb_data m n < d"
    and cmp_equal: "cmp m n d args = 0 \<longleftrightarrow> rb_data m n = d"
begin

lemma iteration:
  assumes "attach_or_flip node p n dir dup nn m = (m1, n1, dup1, nn1)"
    "m2 = fix_violation t g p n1 lst m1" "g \<noteq> 0"
    "rb_data m2 n1 = K n1" "rb_data m2 node = K node"
  shows "insert_loop cmp node args t g p n dir lst dup nn nd m =
    (if K n1 = K node
     then (if dup1 \<and> n1 \<noteq> node
           then Some (set_link (set_link m2 node 2 (get_link m2 n1 2)) n1 2 node, nn1, nd + 1)
           else Some (m2, nn1, nd))
     else insert_loop cmp node args g p n1 (get_link m2 n1 (of_bool (K n1 < K node)))
            (K n1 < K node) dir dup1 nn1 nd m2)"
  using assms by (subst insert_loop.simps) (simp add: cmp_less cmp_equal Let_def)

lemma double_step:
  assumes sync: "insync S K node m t d2 n1 e q (\<not> e) w True dsq z False dsn other"
    and q: "get_link m n1 (of_bool e) = q" and w: "\<not> root_red (prep node w)" "\<not> root_red w"
    and p: "p \<noteq> 0"
  shows "insert_loop cmp node args g p n1 q e lst True nn nd m =
    insert_loop cmp node args t n1 q (get_link m q (of_bool (\<not> e))) (\<not> e) e True nn nd m"
proof -
  let ?y = "around e (\<not> e) w q True dsq z n1 False dsn other"
  have pl: "placed S K node m t d2 n1 ?y" and st: "steered K node q (\<not> e)"
    using sync by (auto simp: insync_def)
  have q0: "q \<in> S" "q \<noteq> 0" and node: "node \<in> S"
    using pl separated_nz by (auto simp: placed_def around_def)
  have r: "\<not> is_red m n1" "rep m (get_link m q (of_bool (\<not> e))) w"
    using pl by (auto simp: placed_def around_def)
  then have "\<not> is_red m (get_link m q (of_bool (\<not> e)))" using rep_red w(2) by blast
  then have "\<not> (is_red m (get_link m q 0) \<and> is_red m (get_link m q 1))" by (cases e) auto
  then have af: "attach_or_flip node n1 q e True nn m = (m, q, True, nn)"
    using q0 by (auto simp: attach_or_flip_def)
  have "insert_loop cmp node args g p n1 q e lst True nn nd m =
    insert_loop cmp node args p n1 q (get_link m q (of_bool (\<not> e))) (\<not> e) e True nn nd m"
    using iteration [OF af repair_none [symmetric] p] st r(1)
      placed_data [OF pl q0(1)] placed_data [OF pl node]
    by (simp add: steered_def)
  also have "\<dots> = insert_loop cmp node args t n1 q (get_link m q (of_bool (\<not> e))) (\<not> e) e True nn nd m"
    by (rule insync_no_violation [OF sync w(1)])
  finally show ?thesis .
qed

lemma loop_correct:
  assumes "insync S K node m t d2 g lst p dir nt cp dsp v c dsg u"
  shows "insert_result K node t d2 (around lst dir nt p cp dsp v g c dsg u) m nn nd
    (insert_loop cmp node args t g p (get_link m p (of_bool dir)) dir lst True nn nd m)"
  using assms
proof (induction "size nt" arbitrary: m t d2 g lst p dir nt cp dsp v c dsg u rule: less_induct)
  case (less nt m t d2 g lst p dir cp dsp v c dsg u)
  note sync = less.prems
  define x where "x = around lst dir nt p cp dsp v g c dsg u"
  obtain m1 n1 dup1 nn1 where res:
    "attach_or_flip node p (get_link m p (of_bool dir)) dir True nn m = (m1, n1, dup1, nn1)"
    using prod_cases4 by blast
  define m2 where "m2 = fix_violation t g p n1 lst m1"
  obtain g2 x2 where it: "placed S K node m2 t d2 g2 x2"
    "framed (insert node (set (addrs x))) t (of_bool d2) m m2"
    "slots x2 = slots (around lst dir (prep node nt) p cp dsp v g c dsg u)" "no_red_red x2"
    "root_red x2 = root_red x" "black_depth x2 = black_depth x"
    using iteration_repairs [OF sync res x_def refl] unfolding m2_def by metis
  have pf: "placed S K node m t d2 g x" "fresh node m x" "no_red_red nt"
    and o: "ordered K (slots x)" and nr: "no_red_red x"
    using sync by (auto simp: x_def insync_def around_def)
  note step = attach_step [OF pf [unfolded x_def] res]
  note sl = attached_slots [OF sync, folded x_def]
  have S: "separated S" "set (addrs x2) \<subseteq> S" "node \<in> S" "set (addrs x) \<subseteq> S"
    "node \<notin> set (addrs x)" "t \<in> S" "t \<notin> set (addrs x)" "t \<noteq> node" "distinct (addrs x)" "level_black x"
    "rep m g x" "get_link m t (of_bool d2) = g"
    using it(1) pf by (auto simp: placed_def fresh_def)
  have "g \<in> S" using S(4) by (simp add: x_def around_def)
  then have g0: "g \<noteq> 0" by (rule separated_nz [OF S(1)])
  have n1: "n1 \<in> fst ` set (slots x2)"
  proof -
    obtain a cn dsn b where "prep node nt = mk False a n1 cn dsn b"
      using rep_prep_mk [OF step(2)] by metis
    then show ?thesis unfolding it(3) by (auto simp: around_def slots_mk)
  qed
  then have "n1 \<in> S" using S(2) fst_slots_addrs by blast
  then have data: "rb_data m2 n1 = K n1" "rb_data m2 node = K node"
    using placed_data [OF it(1)] S(3) by auto
  note unroll = iteration [where nd = nd, OF res m2_def g0 data]
  show ?case
  proof (cases "nt = E")
    case True
    then have n: "n1 = node" "dup1 = False" "nn1 = nn + 1" using step(5) by auto
    have "slots x2 = ins_slots K node (slots x)" using it(3) sl(1) True by simp
    moreover have "set (addrs x2) = insert node (set (addrs x))"
      unfolding addrs_slots it(3) using True
      by (simp add: x_def around_def addrs_slots [symmetric] insert_commute)
    ultimately show ?thesis
      using finish_attached [OF it(1,2) _ sl(2) [OF True] _ it(4-6)] n
      unfolding x_def [symmetric] unroll by simp
  next
    case False
    then have n: "dup1 = True" "nn1 = nn" using step(5) by auto
    have slx: "slots x2 = slots x" using it(3) sl(3) False by simp
    then have ad: "addrs x2 = addrs x" by (simp add: addrs_slots)
    have new: "node \<notin> set (addrs x2)" using pf(2) ad by (simp add: fresh_def)
    have "n1 \<noteq> node" using n1 new fst_slots_addrs by blast
    show ?thesis
    proof (cases "K n1 = K node")
      case True
      show ?thesis
        using finish_found [OF it(1) new it(2) slx o n1 True it(4-6)] n True \<open>n1 \<noteq> node\<close>
        unfolding x_def [symmetric] unroll by simp
    next
      case ne: False
      define e where "e = (K n1 < K node)"
      have st: "steered K node n1 e" using ne by (simp add: steered_def e_def)
      have loop: "insert_loop cmp node args t g p (get_link m p (of_bool dir)) dir lst True nn nd m =
          insert_loop cmp node args g p n1 (get_link m2 n1 (of_bool e)) e dir True nn nd m2"
        unfolding unroll using ne n by (simp add: e_def)
      obtain a cn dsn b where k: "prep node nt = mk e a n1 cn dsn b"
        using rep_prep_mk [OF step(2)] by metis
      have size: "size a < size nt"
        using size_prep [OF False, of node] by (simp add: k mk_def split: if_splits)
      have red: "is_red m1 n1 = cn" "is_red m1 p = cp"
        using rep_red [OF step(2)] k step(1) by (auto simp: placed_def around_def)
      have shift: "insert_result K node t d2 x m nn nd out"
        if "insert_result K node t d2 y m' nn nd out" "slots y = slots x" "root_red y = root_red x"
          "black_depth y = black_depth x" "framed (insert node (set (addrs x))) t (of_bool d2) m m'"
        for y m' out
        by (rule insert_result_shift [OF that(1,5,2) _ that(3,4)]) (simp add: that(2) addrs_slots)
      consider "\<not> (cn \<and> cp)" | "cn" "cp" "dir = lst" | "cn" "cp" "dir = (\<not> lst)" by blast
      then show ?thesis unfolding x_def [symmetric] loop
      proof cases
        case 1
        then have m2: "m2 = m1" unfolding m2_def using red by (intro repair_none) auto
        let ?x1 = "around lst dir (prep node nt) p cp dsp v g c dsg u"
        let ?y = "around dir e a n1 cn dsn b p cp dsp v"
        have x1: "?x1 = mk lst ?y g c dsg u" by (simp add: around_def k)
        have sl1: "slots ?x1 = slots x" using sl(3) False by simp
        then have ad1: "addrs ?x1 = addrs x" by (simp add: addrs_slots)
        note sync1 = continue_plain [OF sync False k st 1 res]
        note ih = less.hyps [OF size sync1, folded m2]
        have pl1: "placed S K node m1 t d2 g ?x1" by (rule step)
        have lv: "level_black nt" "level_black (mk dir nt p cp dsp v)" "level_black x"
          using pf(1) by (auto simp: placed_def around_def x_def)
        then have bd: "black_depth ?x1 = black_depth x"
          using prep_invariants [OF pf(3) lv(1), of node] by (auto simp: around_def black_depth_mk x_def)
        have nr1: "no_red_red ?x1"
          using prep_invariants(1) [OF pf(3) lv(1), of node] nr 1 k by (auto simp: around_def x_def)
        have sg: "K g \<noteq> K node" "lst = (K g < K node)"
          using sync by (auto simp: insync_def steered_def)
        have "insert_result K node t d2 ?x1 m2 nn nd
           (insert_loop cmp node args g p n1 (get_link m2 n1 (of_bool e)) e dir True nn nd m2)"
          by (rule insert_result_lift [OF S(1) _ S(6,3) _ _ S(8) _ x1 _ sg nr1 _ _ _ ih])
            (use pl1 S ad1 o sl1 m2 in \<open>auto simp: placed_def\<close>)
        then show "insert_result K node t d2 x m nn nd
           (insert_loop cmp node args g p n1 (get_link m2 n1 (of_bool e)) e dir True nn nd m2)"
          by (rule shift) (use sl1 bd it(2) in \<open>auto simp: around_def x_def\<close>)
      next
        case 2
        have sync': "insync S K node m t d2 g lst p lst nt True dsp v c dsg u" using sync 2 by simp
        have k': "prep node nt = mk e a n1 True dsn b" using k 2 by simp
        note c = continue_single [OF sync' False k' st res [unfolded 2] m2_def]
        have "\<not> c" using viol_facts(1) [OF sync'] k' by simp
        have "insert_loop cmp node args g p n1 (get_link m2 n1 (of_bool e)) e dir True nn nd m2 =
            insert_loop cmp node args t p n1 (get_link m2 n1 (of_bool e)) e lst True nn nd m2"
          by (rule insync_no_violation [OF c(1,2)])
        then show "insert_result K node t d2 x m nn nd
           (insert_loop cmp node args g p n1 (get_link m2 n1 (of_bool e)) e dir True nn nd m2)"
          using shift [OF less.hyps [OF size c(1)] _ _ _ it(2)] c(3,4) 2 \<open>\<not> c\<close>
          by (simp add: x_def around_def)
      next
        case 3
        have sync': "insync S K node m t d2 g lst p (\<not> lst) nt True dsp v c dsg u" using sync 3 by simp
        obtain a' dsn' b' where k': "prep node nt = mk lst a' n1 True dsn' b'"
          using rep_prep_mk [OF step(2)] k 3 by (metis root_red_mk)
        obtain q w dsq z other where side: "(q, w, dsq, z, other) =
            (if e = lst then (p, a', dsp, v, mk lst b' g True dsg u)
             else (g, b', dsg, u, mk (\<not> lst) a' p True dsp v))"
          by (cases "e = lst") auto
        note c = continue_double [OF sync' False k' st res [unfolded 3] m2_def side]
        have "\<not> c" using viol_facts(1) [OF sync'] k' by simp
        have p0: "p \<noteq> 0" using pf(1) separated_nz by (auto simp: placed_def x_def around_def)
        note ds = double_step [OF c(1,2,3,4) p0]
        show "insert_result K node t d2 x m nn nd
           (insert_loop cmp node args g p n1 (get_link m2 n1 (of_bool e)) e dir True nn nd m2)"
          unfolding c(2) ds
          using shift [OF less.hyps [OF c(6,1)] _ _ _ it(2)] c(7,8) 3 \<open>\<not> c\<close>
          by (simp add: x_def around_def)
      qed
    qed
  qed
qed


lemma head_iteration:
  assumes "attach_or_flip node p n dir dup nn m = (m1, n1, dup1, nn1)"
    "\<not> (is_red m1 n1 \<and> is_red m1 p)"
    "rb_data m1 n1 = K n1" "rb_data m1 node = K node"
  shows "insert_loop cmp node args head 0 p n dir lst dup nn nd m =
    (if K n1 = K node
     then (if dup1 \<and> n1 \<noteq> node
           then Some (set_link (set_link m1 node 2 (get_link m1 n1 2)) n1 2 node, nn1, nd + 1)
           else Some (m1, nn1, nd))
     else insert_loop cmp node args head p n1 (get_link m1 n1 (of_bool (K n1 < K node)))
            (K n1 < K node) dir dup1 nn1 nd m1)"
  using assms
  by (subst insert_loop.simps) (simp add: cmp_less cmp_equal Let_def repair_none)

lemma second_iteration:
  assumes pl: "placed S K node m head True r x" and fr: "fresh node m x"
    and x: "x = mk dir nt r cr dsr v" and st: "steered K node r dir"
    and o: "ordered K (slots x)" and nr: "no_red_red x"
    and both: "\<not> (root_red nt \<and> root_red v)" and red: "cr \<Longrightarrow> \<not> root_red (prep node nt)"
  shows "insert_result K node head True x m nn nd
    (insert_loop cmp node args head 0 r (get_link m r (of_bool dir)) dir lst True nn nd m)"
proof -
  obtain m1 n1 dup1 nn1 where res:
    "attach_or_flip node r (get_link m r (of_bool dir)) dir True nn m = (m1, n1, dup1, nn1)"
    using prod_cases4 by blast
  have nrt: "no_red_red nt" using nr x by simp
  note step = root_attach [OF pl [unfolded x] fr [unfolded x] nrt res]
  let ?x1 = "mk dir (prep node nt) r cr dsr v"
  have S: "separated S" "node \<in> S" "set (addrs ?x1) \<subseteq> S" "rep m1 r ?x1" "level_black x" "distinct (addrs x)"
    using step(1) pl by (auto simp: placed_def)
  obtain a0 c0 ds0 b0 where k0: "prep node nt = mk False a0 n1 c0 ds0 b0"
    using rep_prep_mk [OF step(2)] by metis
  then have "n1 \<in> S" and n1: "n1 \<in> fst ` set (slots ?x1)" using S(3) by (auto simp: slots_mk)
  then have data: "rb_data m1 n1 = K n1" "rb_data m1 node = K node"
    using placed_data [OF step(1)] S(2) by auto
  have "is_red m1 r = cr" "is_red m1 n1 = root_red (prep node nt)"
    using S(4) rep_red [OF step(2)] by auto
  then have "\<not> (is_red m1 n1 \<and> is_red m1 r)" using red by auto
  note unroll = head_iteration [where nd = nd, OF res this data]
  have lv: "level_black nt" using S(5) x by simp
  note pinv = prep_invariants [OF nrt lv, of node]
  have inv: "no_red_red ?x1" "root_red ?x1 = root_red x" "black_depth ?x1 = black_depth x"
    using nr red pinv S(5) x by (auto simp: black_depth_mk)
  have fr1: "framed (insert node (set (addrs x))) head (of_bool True) m m1" using step(4) x by simp
  have sk: "K r \<noteq> K node" "dir = (K r < K node)" using st by (auto simp: steered_def)
  show ?thesis
  proof (cases "nt = E")
    case True
    then have n: "n1 = node" "dup1 = False" "nn1 = nn + 1" using step(5) by auto
    have sl: "slots ?x1 = ins_slots K node (slots x)"
      unfolding x by (rule ins_slots_mk [OF o [unfolded x] sk]) (simp add: True)
    have "\<not> key_present K node (slots x)"
      unfolding x key_present_mk [OF o [unfolded x] sk] by (simp add: True key_present_def)
    moreover have "set (addrs ?x1) = insert node (set (addrs x))"
      using True x by (simp add: insert_commute)
    ultimately show ?thesis
      using finish_attached [OF step(1) fr1 sl _ _ inv] n unfolding unroll by simp
  next
    case False
    then have n: "dup1 = True" "nn1 = nn" using step(5) by auto
    have slx: "slots ?x1 = slots x" using False x by (simp add: slots_mk slots_prep)
    then have ad: "addrs ?x1 = addrs x" by (simp add: addrs_slots)
    have new: "node \<notin> set (addrs ?x1)" using fr ad by (simp add: fresh_def)
    have "n1 \<noteq> node" using n1 new fst_slots_addrs by blast
    show ?thesis
    proof (cases "K n1 = K node")
      case True
      then show ?thesis
        using finish_found [OF step(1) new fr1 slx o n1 True inv] n \<open>n1 \<noteq> node\<close>
        unfolding unroll by simp
    next
      case ne: False
      define e where "e = (K n1 < K node)"
      obtain a c ds b where k: "prep node nt = mk e a n1 c ds b"
        using rep_prep_mk [OF step(2)] by metis
      have x1: "?x1 = around dir e a n1 c ds b r cr dsr v" by (simp add: around_def k)
      have "\<not> root_red (prep node a)" if "c" "root_red v"
        using prep_mk_red [of node nt e a n1 ds b] k that both nrt False by auto
      then have "insync S K node m1 head True r dir n1 e a c ds b cr dsr v"
        using step(1,3) o slx inv(1) st ne prep_children [OF k] new [unfolded x1]
        by (auto simp: insync_def x1 fresh_def steered_def e_def)
      from loop_correct [OF this, of nn nd] show ?thesis
        using insert_result_shift [OF _ fr1 slx _ inv(2,3)] ad ne n
        unfolding unroll x1 e_def by simp
    qed
  qed
qed

lemma start_correct:
  assumes pl: "placed S K node m head True r rt" and fr: "fresh node m rt"
    and o: "ordered K (slots rt)" and inv: "rb_invariant rt" "rt \<noteq> E"
  shows "insert_result K node head True (prep node rt) m nn nd
    (insert_loop cmp node args head 0 0 r False False True nn nd m)"
proof -
  obtain m1 n1 dup1 nn1 where res: "attach_or_flip node 0 r False True nn m = (m1, n1, dup1, nn1)"
    using prod_cases4 by blast
  have nr: "no_red_red rt" "level_black rt" "\<not> root_red rt" using inv(1) by (auto simp: rb_invariant_def)
  note step = first_attach [OF pl fr nr(1) inv(2) res]
  let ?x = "prep node rt"
  have ad: "addrs ?x = addrs rt" "slots ?x = slots rt" using inv(2) by (simp_all add: addrs_prep slots_prep)
  have fr1: "framed (insert node (set (addrs ?x))) head (of_bool True) m m1" using step(3) ad by simp
  have new: "node \<notin> set (addrs ?x)" using fr ad by (simp add: fresh_def)
  have S: "rep m1 r ?x" "set (addrs ?x) \<subseteq> S" "node \<in> S" using step(1) by (auto simp: placed_def)
  note pinv = prep_invariants [OF nr(1,2), of node]
  have r: "r \<in> fst ` set (slots ?x)" using S(1) by (cases ?x) auto
  then have "r \<in> S" "r \<noteq> node" using S(2) fst_slots_addrs new by blast+
  then have data: "rb_data m1 n1 = K n1" "rb_data m1 node = K node"
    using placed_data [OF step(1)] S(3) step(4) by auto
  note unroll = head_iteration [where nd = nd, OF res _ data, unfolded step(4-6)]
  show ?thesis
  proof (cases "K r = K node")
    case True
    show ?thesis
      using finish_found [OF step(1) new fr1 refl _ r True pinv(1) refl refl] o ad True \<open>r \<noteq> node\<close>
      by (simp add: unroll)
  next
    case ne: False
    define e where "e = (K r < K node)"
    obtain nt c ds v where k: "?x = mk e nt r c ds v" using rep_prep_mk [OF S(1)] by metis
    have "\<not> root_red (prep node nt)" if c using prep_mk_red [of node rt e nt r ds v] k that nr inv(2) by auto
    note s = second_iteration [OF step(1) _ k _ _ pinv(1) prep_children [OF k] this]
    have "insert_result K node head True ?x m1 nn nd
       (insert_loop cmp node args head 0 r (get_link m1 r (of_bool e)) e False True nn nd m1)"
      by (rule s) (use step(2) o ad ne in \<open>auto simp: fresh_def steered_def e_def\<close>)
    from insert_result_shift [OF this fr1] show ?thesis using ne by (simp add: unroll e_def)
  qed
qed

end

section \<open>The whole function\<close>

lemma ins_slots_cong:
  "K node = K' node \<Longrightarrow> (\<And>a. a \<in> fst ` set xs \<Longrightarrow> K a = K' a) \<Longrightarrow>
     ins_slots K node xs = ins_slots K' node xs"
  by (induction xs) auto

lemma ordered_cong:
  assumes "\<And>a. a \<in> fst ` set xs \<Longrightarrow> K a = K' a"
  shows "ordered K xs = ordered K' xs"
  using assms by (induction xs) (auto simp: ordered_Cons ordered_def)

lemma key_present_cong:
  "K node = K' node \<Longrightarrow> (\<And>a. a \<in> fst ` set xs \<Longrightarrow> K a = K' a) \<Longrightarrow>
     key_present K node xs = key_present K' node xs"
  by (auto simp: key_present_def)

definition cleared :: "u32 \<Rightarrow> mem \<Rightarrow> mem" where
  "cleared node m =
     paint_red (set_link (set_link (set_link (set_link m node 0 0) node 1 0) node 1 0) node 2 0) node"

definition with_head :: "u32 \<Rightarrow> u32 \<Rightarrow> mem \<Rightarrow> mem" where
  "with_head head r m =
     set_link (m(head := 0, link_addr head 0 := 0, link_addr head 1 := 0, link_addr head 2 := 0))
       head 1 r"

lemma cleared_laws:
  assumes sep: "separated S" and S: "node \<in> S" "b \<in> S"
  shows "j < 3 \<Longrightarrow> get_link (cleared node m) b j = (if b = node then 0 else get_link m b j)"
    "is_red (cleared node m) b = (b = node \<or> is_red m b)" "rb_data (cleared node m) b = rb_data m b"
  using S less_3_cases [of j] by (auto simp: cleared_def heap_laws [OF sep])

lemma cleared_frame: "w \<notin> link_words {node} \<Longrightarrow> cleared node m w = m w"
  by (simp add: cleared_def paint_frame set_link_frame)

lemma with_head_frame: "w \<notin> node_words head \<Longrightarrow> with_head head r m w = m w"
  by (auto simp: with_head_def node_words_def set_link_def)

lemma with_head_laws:
  assumes sep: "separated S" and S: "head \<in> S" "b \<in> S" "b \<noteq> head"
  shows "j < 3 \<Longrightarrow> get_link (with_head head r m) b j = get_link m b j"
    "is_red (with_head head r m) b = is_red m b" "rb_data (with_head head r m) b = rb_data m b"
proof -
  have out: "w \<in> node_words b \<Longrightarrow> with_head head r m w = m w" for w
    using separated_disjoint [OF sep S(1,2)] S(3) by (intro with_head_frame) blast
  show "j < 3 \<Longrightarrow> get_link (with_head head r m) b j = get_link m b j"
    using out [OF link_addr_node_words] by (simp add: get_link_def)
  show "is_red (with_head head r m) b = is_red m b"
    using out [OF link_addr_node_words [of 0]] by (simp add: is_red_def)
  show "rb_data (with_head head r m) b = rb_data m b"
    using out [of b] by (simp add: rb_data_def node_words_def)
qed

lemma with_head_link: "untag r = r \<Longrightarrow> get_link (with_head head r m) head 1 = r"
  by (simp add: with_head_def get_link_def set_link_def)

text \<open>The memory in which the loop starts satisfies its precondition.\<close>

lemma start_memory:
  assumes sep: "separated S" and S: "S = insert head (insert node (set (addrs t)))"
    and nin: "node \<notin> set (addrs t)" "head \<notin> insert node (set (addrs t))"
    and t: "distinct (addrs t)" "rep m r t" "t \<noteq> E" "level_black t"
    and m1: "m1 = with_head head r (cleared node m)"
  shows "placed S (rb_data m1) node m1 head True r t" "fresh node m1 t"
    "\<And>b. b \<in> insert node (set (addrs t)) \<Longrightarrow> rb_data m1 b = rb_data m b"
proof -
  have laws: "j < 3 \<Longrightarrow> get_link m1 b j = (if b = node then 0 else get_link m b j)"
    "is_red m1 b = (b = node \<or> is_red m b)" "rb_data m1 b = rb_data m b"
    if "b \<in> insert node (set (addrs t))" for b j
  proof -
    have b: "head \<in> S" "b \<in> S" "b \<noteq> head" "node \<in> S" using that S nin by auto
    show "j < 3 \<Longrightarrow> get_link m1 b j = (if b = node then 0 else get_link m b j)"
      "is_red m1 b = (b = node \<or> is_red m b)" "rb_data m1 b = rb_data m b"
      using with_head_laws [OF sep b(1-3)] cleared_laws [OF sep b(4,2)] by (simp_all add: m1)
  qed
  have "same_nodes (set (addrs t)) m m1"
    using laws nin by (auto simp: same_nodes_def)
  then have "rep m1 r t" using rep_same t(2) by blast
  moreover have "r \<in> set (addrs t)" using t(2,3) by (cases t) auto
  then have "get_link m1 head 1 = r"
    unfolding m1 using S separated_untag [OF sep] by (intro with_head_link) auto
  ultimately show "placed S (rb_data m1) node m1 head True r t"
    using sep S nin t by (auto simp: placed_def)
  show "fresh node m1 t" using nin laws [of node] by (simp add: fresh_def)
  show "\<And>b. b \<in> insert node (set (addrs t)) \<Longrightarrow> rb_data m1 b = rb_data m b" by (rule laws)
qed

lemma insert_rbnode_eq:
  "node \<noteq> 0 \<Longrightarrow> root tree \<noteq> 0 \<Longrightarrow> insert_rbnode head tree node args m =
     (case insert_loop (compare_fn tree) node args head 0 0 (root tree) False False True
        (num_nodes tree) (num_dup tree) (with_head head (root tree) (cleared node m)) of
        None \<Rightarrow> None
      | Some (m, nn, nd) \<Rightarrow> Some (paint_black m (get_link m head 1),
          tree\<lparr>root := get_link m head 1, num_nodes := nn, num_dup := nd\<rparr>, 1))"
  by (simp add: insert_rbnode_def cleared_def with_head_def Let_def split: option.split)

text \<open>What inserting a node into a tree means, for the memory, the descriptor and the tree.\<close>

definition inserted ::
  "u32 \<Rightarrow> u32 \<Rightarrow> rbt \<Rightarrow> mem \<Rightarrow> 'a rb_tree \<Rightarrow> (mem \<times> 'a rb_tree \<times> int) option \<Rightarrow> bool" where
  "inserted head node t m tree res \<longleftrightarrow>
     (\<exists>m' r nn nd t'. res = Some (m', tree\<lparr>root := r, num_nodes := nn, num_dup := nd\<rparr>, 1) \<and>
        rep m' r t' \<and> rb_invariant t' \<and> distinct (addrs t') \<and>
        slots t' = ins_slots (rb_data m) node (slots t) \<and> ordered (rb_data m') (slots t') \<and>
        (nn, nd) = (if t = E then (1, 0)
                    else counted (rb_data m) node (slots t) (num_nodes tree) (num_dup tree)) \<and>
        (\<forall>w. w \<notin> link_words (insert node (set (addrs t))) \<union> node_words head \<longrightarrow> m' w = m w))"

context insert_order
begin

lemma insert_nonempty:
  assumes sep: "separated (insert head (insert node (set (addrs t))))"
    and nin: "node \<notin> set (addrs t)" "head \<notin> insert node (set (addrs t))"
    and t: "distinct (addrs t)" "rep m (root tree) t" "t \<noteq> E" "rb_invariant t"
    and o: "ordered (rb_data m) (slots t)" and cmp: "compare_fn tree = cmp"
  shows "inserted head node t m tree (insert_rbnode head tree node args m)"
proof -
  let ?A = "insert node (set (addrs t))" and ?nn = "num_nodes tree" and ?nd = "num_dup tree"
  have lv: "level_black t" "no_red_red t" using t(4) by (auto simp: rb_invariant_def)
  define m1 where "m1 = with_head head (root tree) (cleared node m)"
  note start = start_memory [OF sep refl nin t(1-3) lv(1) m1_def]
  have data: "a \<in> insert node (fst ` set (slots t)) \<Longrightarrow> rb_data m1 a = rb_data m a" for a
    using start(3) fst_slots_addrs [of t] by blast
  then have o1: "ordered (rb_data m1) (slots t)" using o ordered_cong [of "slots t"] by (metis insertCI)
  have sp: "slots (prep node t) = slots t" "addrs (prep node t) = addrs t"
    using t(3) by (simp_all add: slots_prep addrs_prep)
  from start_correct [OF start(1,2) o1 t(4,3), of ?nn ?nd]
  obtain m2 x where loop: "insert_loop cmp node args head 0 0 (root tree) False False True ?nn ?nd m1 =
      Some (m2, counted (rb_data m1) node (slots t) ?nn ?nd)"
    and x: "rep m2 (get_link m2 head 1) x" "grown (rb_data m1) node (prep node t) x"
    and fr: "framed ?A head 1 m1 m2"
    unfolding insert_result_def sp by auto
  have A: "set (addrs x) = ?A" "distinct (addrs x)" "no_red_red x" "level_black x"
    "slots x = ins_slots (rb_data m1) node (slots t)"
    using x(2) by (auto simp: grown_def sp)
  define r where "r = get_link m2 head 1"
  define m3 where "m3 = paint_black m2 r"
  have "ins_slots (rb_data m1) node (slots t) = ins_slots (rb_data m) node (slots t)"
    "key_present (rb_data m1) node (slots t) = key_present (rb_data m) node (slots t)"
    using data by (intro ins_slots_cong key_present_cong; simp)+
  then have keys: "ins_slots (rb_data m1) node (slots t) = ins_slots (rb_data m) node (slots t)"
    "counted (rb_data m1) node (slots t) = counted (rb_data m) node (slots t)"
    by (simp_all add: counted_def fun_eq_iff)
  have n0: "node \<noteq> 0" "root tree \<noteq> 0"
    using separated_nz [OF sep] t(2,3) by (cases t; auto)+
  have out: "insert_rbnode head tree node args m = Some (m3,
      tree\<lparr>root := r, num_nodes := fst (counted (rb_data m) node (slots t) ?nn ?nd),
           num_dup := snd (counted (rb_data m) node (slots t) ?nn ?nd)\<rparr>, 1)"
    unfolding insert_rbnode_eq [OF n0] cmp m1_def [symmetric] loop
    by (simp add: keys m3_def r_def split: prod.split)
  have r0: "r \<noteq> 0"
  proof
    assume "r = 0"
    then have "x = E" using x(1) A(1) by (intro rep_null [OF _ sep, of m2 x]) (auto simp: r_def)
    then show False using A(1) by simp
  qed
  then have rA: "r \<in> ?A" using rep_root [OF x(1) [folded r_def]] A(1) by simp
  have "rep m3 r (blacken x)"
    unfolding m3_def using A sep x(1) r0 by (intro rep_paint_black [OF sep]) (auto simp: r_def)
  moreover have "rb_invariant (blacken x)" using A by (simp add: rb_invariant_def)
  moreover have "ordered (rb_data m3) (slots (blacken x))"
  proof -
    have "rb_data m3 b = rb_data m1 b" if "b \<in> ?A" for b
      using framed_data [OF fr sep] that rA by (auto simp: m3_def heap_laws [OF sep])
    then have "rb_data m3 a = rb_data m1 a" if "a \<in> fst ` set (slots x)" for a
      using that fst_slots_addrs [of x] A(1) by blast
    then show ?thesis
      using ordered_ins_slots [OF o1, of node] A(5) ordered_cong [of "slots x" "rb_data m3" "rb_data m1"]
      by simp
  qed
  moreover have "m3 w = m w" if "w \<notin> link_words ?A \<union> node_words head" for w
  proof -
    have "w \<notin> link_words {r}" "w \<notin> link_words {node}"
      using that link_words_mono [of "{r}" ?A] link_words_mono [of "{node}" ?A] rA by auto
    moreover have "w \<noteq> link_addr head 1" using that link_addr_node_words [of 1 head] by auto
    ultimately show ?thesis
      using that fr by (simp add: m3_def paint_frame framed_def m1_def with_head_frame cleared_frame)
  qed
  ultimately show ?thesis
    unfolding inserted_def out using A(2,5) keys t(3)
    by (intro exI [of _ m3] exI [of _ r] exI [of _ "blacken x"] exI) auto
qed

end

lemma insert_inserts:
  assumes "insert_order (compare_fn tree) args"
    and "separated (insert head (insert node (set (addrs t))))"
    and "node \<notin> set (addrs t)" "head \<notin> insert node (set (addrs t))"
    and "distinct (addrs t)" "rep m (root tree) t" "rb_invariant t" "ordered (rb_data m) (slots t)"
  shows "inserted head node t m tree (insert_rbnode head tree node args m)"
proof (cases "t = E")
  case False
  then show ?thesis using insert_order.insert_nonempty [OF assms(1-6) False assms(7,8) refl] by blast
next
  case True
  then have r: "root tree = 0" using assms(6) by simp
  have n0: "node \<noteq> 0" using separated_nz [OF assms(2)] by auto
  define m' where "m' = paint_black (cleared node m) node"
  have out: "insert_rbnode head tree node args m =
      Some (m', tree\<lparr>root := node, num_nodes := 1, num_dup := 0\<rparr>, 1)"
    using n0 r by (simp add: insert_rbnode_def cleared_def m'_def Let_def)
  have "rep m' node (N E node False [] E)"
    using assms(2) cleared_laws [OF assms(2), of node node] by (simp add: m'_def heap_laws [OF assms(2)])
  moreover have "m' w = m w" if "w \<notin> link_words {node}" for w
    using that by (simp add: m'_def paint_frame cleared_frame)
  ultimately show ?thesis
    unfolding inserted_def out using True
    by (intro exI [of _ m'] exI [of _ node] exI [of _ 1] exI [of _ 0] exI [of _ "N E node False [] E"])
      (auto simp: rb_invariant_def ordered_def)
qed

text \<open>
  C1. Inserting a node into a red-black tree that lies in memory ends and returns 1. The
  tree it leaves is again red-black and ordered; its slots are the old ones with the node at
  its place, or at the head of the duplicates of its key; the counters follow; and no word
  outside the links of the nodes and the dummy root on the stack has changed.
\<close>

theorem insert_rbnode_correct:
  assumes "insert_order (compare_fn tree) args"
    and "separated (insert head (insert node (set (addrs t))))"
    and "node \<notin> set (addrs t)" "head \<notin> insert node (set (addrs t))"
    and "distinct (addrs t)" "rep m (root tree) t" "rb_invariant t" "ordered (rb_data m) (slots t)"
  shows "inserted head node t m tree (insert_rbnode head tree node args m)"
  by (rule insert_inserts [OF assms])

end
