(* ===== verification/Rb_Remove_Correct.thy ===== *)
theory Rb_Remove_Correct
  imports Rb_Remove_End Rb_Insert_Correct
begin

text \<open>
  Correctness of \<open>remove_rbnode\<close>: it ends, leaves a red-black tree, and takes out one node that
  the comparison accepts, or a duplicate of it that \<open>select_dup\<close> chooses.
\<close>

section \<open>What a removal takes\<close>

text \<open>
  What is taken from a slot, the node \<open>a\<close> with its duplicates: the first duplicate that is
  selected; the node itself, whose place the first duplicate takes, if it is the only one
  selected; nothing; or the node without asking when it has no duplicates.
\<close>

fun take_slot :: "(u32 \<Rightarrow> bool) \<Rightarrow> u32 \<Rightarrow> u32 list \<Rightarrow> (u32 \<times> (u32 \<times> u32 list) list) option" where
  "take_slot P a [] = Some (a, [])"
| "take_slot P a (d # ds) =
     (case List.extract P (d # ds) of
        Some (us, e, vs) \<Rightarrow> Some (e, [(a, us @ vs)])
      | None \<Rightarrow> if P a then Some (a, [(d, ds)]) else None)"

text \<open>
  \<open>taken\<close> relates the slots and the counters before and after. When the comparison cuts the
  slots in two (\<open>Q\<close>), the slot is the first one that is not too small, and nothing is taken
  only if no slot matches.
\<close>

definition taken ::
  "(u32 \<Rightarrow> bool) \<Rightarrow> (u32 \<Rightarrow> int) \<Rightarrow> bool \<Rightarrow> (u32 \<times> u32 list) list \<Rightarrow> 'a rb_tree
     \<Rightarrow> (u32 \<times> u32 list) list \<Rightarrow> 'a rb_tree \<Rightarrow> u32 \<Rightarrow> bool" where
  "taken P C Q xs tree xs' tree' f \<longleftrightarrow>
     (\<exists>as a ds bs. xs = as @ (a, ds) # bs \<and> C a = 0 \<and> (Q \<longrightarrow> (\<forall>s\<in>set as. C (fst s) < 0)) \<and>
        (case take_slot P a ds of
           None \<Rightarrow> f = 0 \<and> xs' = xs \<and> tree' = tree
         | Some (x, rest) \<Rightarrow> f = x \<and> xs' = as @ rest @ bs \<and>
             tree' = (if ds = [] then tree\<lparr>num_nodes := num_nodes tree - 1\<rparr>
                      else tree\<lparr>num_dup := num_dup tree - 1\<rparr>))) \<or>
     f = 0 \<and> xs' = xs \<and> tree' = tree \<and> (Q \<longrightarrow> (\<forall>s\<in>set xs. C (fst s) \<noteq> 0))"

section \<open>The end of the way\<close>

lemma innermost_split:
  "innermost cs = Some (a, vs) \<Longrightarrow> \<exists>us c ds y. cs = us @ (False, a, c, ds, y) # vs \<and> (\<forall>s\<in>set us. fst s)"
proof (induction cs rule: innermost.induct)
  case (2 d a' c ds y cs)
  show ?case
  proof (cases d)
    case True
    then obtain us c' ds' y' where "cs = us @ (False, a, c', ds', y') # vs" "\<forall>s\<in>set us. fst s"
      using 2 by auto
    then show ?thesis using True by (intro exI [of _ "(d, a', c, ds, y) # us"]) auto
  next
    case False
    then show ?thesis using 2(2) by (intro exI [of _ "[]"]) auto
  qed
qed simp

lemma sides_append: "lefts (us @ cs) = lefts cs @ lefts us" "rights (us @ cs) = rights us @ rights cs"
  by (induction us rule: lefts.induct) auto

lemma rights_none: "\<forall>s\<in>set us. fst s \<Longrightarrow> rights us = []"
  by (induction us rule: rights.induct) auto

lemma end_leaf:
  assumes "balanced (plug cs (mk d E n c ds y))" "pushed ((d, n, c, ds, y) # cs) E"
  shows "y = E" "c \<or> cs = []"
proof -
  have b: "balanced (mk d E n c ds y)" by (rule balanced_hole [OF assms(1)])
  then have "\<not> root_red y" using assms(2) by auto
  then show "y = E" using b by (intro black_depth_zero) (auto simp: balanced_def)
  show "c \<or> cs = []" using assms(2) by auto
qed

lemma balanced_cut:
  assumes "balanced (plug cs (mk d E n c ds E))" "c \<or> cs = []"
  shows "balanced (plug cs E)"
proof (cases "cs = []")
  case False
  then have "c" using assms(2) by simp
  then show ?thesis
    by (intro balanced_replace [OF assms(1)]) (auto simp: balanced_def black_depth_mk)
qed (simp add: balanced_def)

lemma balanced_rename:
  assumes "balanced (plug cs (mk d x a c ds y))"
  shows "balanced (plug cs (mk d x b c es y))"
  using balanced_hole [OF assms] by (intro balanced_replace [OF assms]) (simp_all add: black_depth_mk)

text \<open>Under \<open>cut_off\<close> the way passes every node that is too small on its left.\<close>

lemma none_found:
  assumes "sided C cs" "tracks C head cs 0 fp" "ordered K (slots (plug cs E))"
    and C: "\<forall>x\<in>set (addrs (plug cs E)). \<forall>y\<in>set (addrs (plug cs E)). K x < K y \<longrightarrow> C y = 0 \<longrightarrow> C x \<le> 0"
    and z: "0 \<notin> set (addrs (plug cs E))"
  shows "\<forall>s\<in>set (slots (plug cs E)). C (fst s) \<noteq> 0"
proof
  fix s assume s: "s \<in> set (slots (plug cs E))"
  have sl: "slots (plug cs E) = lefts cs @ rights cs" by (simp add: slots_plug)
  show "C (fst s) \<noteq> 0"
  proof (cases "s \<in> set (lefts cs)")
    case False
    then have sr: "s \<in> set (rights cs)" using s sl by simp
    show ?thesis
    proof (cases "innermost cs")
      case None
      then have "rights cs = []" by (induction cs rule: innermost.induct) (auto split: if_splits)
      then show ?thesis using sr by simp
    next
      case (Some v)
      obtain a vs where v: "innermost cs = Some (a, vs)" using Some by (cases v) simp
      have aA: "a \<in> set (addrs (plug cs E))" using innermost_in [OF v] by simp
      then have "C a \<noteq> 0" using assms(2) v z by (auto simp: tracks_def split: if_splits)
      have "\<exists>es rs. rights cs = (a, es) # rs"
        using v by (induction cs rule: innermost.induct) (auto split: if_splits)
      then obtain es rs where r: "rights cs = (a, es) # rs" by blast
      then have "C a > 0" using assms(1) \<open>C a \<noteq> 0\<close> by (force simp: sided_def)
      moreover have "fst s = a \<or> K a < K (fst s)"
        using assms(3) sr r unfolding sl by (auto simp: ordered_append ordered_Cons)
      moreover have "fst s \<in> set (addrs (plug cs E))" using slot_addr s by blast
      ultimately show ?thesis using C aA by force
    qed
  qed (use assms(1) in \<open>auto simp: sided_def\<close>)
qed

section \<open>The three endings\<close>

text \<open>
  \<open>split_at us f c ds y vs m\<close>: the way to an empty hole leads through the found node \<open>f\<close>, goes
  to its left and then only to the right.
\<close>

definition split_at ::
  "u32 set \<Rightarrow> u32 \<Rightarrow> step list \<Rightarrow> u32 \<Rightarrow> bool \<Rightarrow> u32 list \<Rightarrow> rbt \<Rightarrow> step list \<Rightarrow> mem \<Rightarrow> bool" where
  "split_at S head us f c ds y vs m \<longleftrightarrow>
     tree_at S head m (plug (us @ (False, f, c, ds, y) # vs) E) \<and>
     balanced (plug (us @ (False, f, c, ds, y) # vs) E) \<and>
     pushed (us @ (False, f, c, ds, y) # vs) E \<and> (\<forall>s\<in>set us. fst s)"

abbreviation way :: "step list \<Rightarrow> u32 \<Rightarrow> bool \<Rightarrow> u32 list \<Rightarrow> rbt \<Rightarrow> step list \<Rightarrow> step list" where
  "way us f c ds y vs \<equiv> us @ (False, f, c, ds, y) # vs"

lemma split_slots:
  "split_at S head us f c ds y vs m \<Longrightarrow>
     slots (plug (way us f c ds y vs) E) = (lefts vs @ lefts us) @ (f, ds) # (slots y @ rights vs)"
  by (simp add: split_at_def slots_plug sides_append rights_none)

lemma split_tree:
  "split_at S head us f c ds y vs m \<Longrightarrow> tree_at S head m (plug vs (mk False (plug us E) f c ds y))"
  by (simp add: split_at_def plug_append)

lemma finish_single:
  assumes sp: "split_at S head us f c [] y vs m"
  shows "\<exists>m' t'. remove_single tree (hole_node head (way us f c [] y vs)) (parent head (way us f c [] y vs)) f
      (hole_node head vs) m = (m', tree\<lparr>num_nodes := num_nodes tree - 1\<rparr>) \<and>
    tree_at S head m' t' \<and> balanced t' \<and> slots t' = (lefts vs @ lefts us) @ (slots y @ rights vs) \<and>
    framed (set (addrs (plug (way us f c [] y vs) E))) head 1 m m'"
proof (cases us rule: hole_dir.cases)
  case 1
  have t: "tree_at S head m (plug vs (mk False E f c [] y))" "balanced (plug vs (mk False E f c [] y))"
    and pu: "pushed ((False, f, c, [], y) # vs) E"
    using sp 1 by (auto simp: split_at_def)
  note e = end_leaf [OF t(2) pu]
  have t': "tree_at S head m (plug vs (mk False E f c [] E))" using t(1) e(1) by simp
  define m' where "m' = set_link m (hole_node head vs) (of_bool (hole_dir vs)) 0"
  note cut = cut_leaf [OF t' m'_def]
  have "get_link m f 0 = 0" "get_link m f 1 = 0" using tree_at_node(5,6) [OF t'] by auto
  then have "remove_single tree f (hole_node head vs) f (hole_node head vs) m =
      (m', tree\<lparr>num_nodes := num_nodes tree - 1\<rparr>)"
    using hole_side [OF t'] by (simp add: remove_single_def m'_def)
  then show ?thesis
    using 1 cut e balanced_cut [of vs False f c "[]"] t(2) by (auto simp: slots_plug intro!: exI [of _ "plug vs E"])
next
  case (2 d n cn dsn yn us1)
  let ?cs = "way us1 f c [] y vs"
  have d: "d" and all: "\<forall>s\<in>set us1. fst s" using sp 2 by (auto simp: split_at_def)
  have t: "tree_at S head m (plug ?cs (mk True E n cn dsn yn))" "balanced (plug ?cs (mk True E n cn dsn yn))"
    and pu: "pushed ((True, n, cn, dsn, yn) # ?cs) E"
    using sp 2 d by (auto simp: split_at_def)
  note e = end_leaf [OF t(2) pu]
  have t': "tree_at S head m (plug ?cs (mk True E n cn dsn E))" "balanced (plug ?cs (mk True E n cn dsn E))"
    using t e(1) by auto
  define m1 where "m1 = set_link m (hole_node head ?cs) (of_bool (hole_dir ?cs)) 0"
  note cut = cut_leaf [OF t'(1) m1_def]
  have "get_link m n 0 = 0" "get_link m n 1 = 0" using tree_at_node(5,6) [OF t'(1)] by auto
  then have m1: "set_link m (hole_node head ?cs) (of_bool (get_link m (hole_node head ?cs) 1 = n))
      (get_link m n (of_bool (get_link m n 0 = 0))) = m1"
    using hole_side [OF t'(1)] by (simp add: m1_def)
  let ?A = "set (addrs (plug (way us f c [] y vs) E))"
  have A: "set (addrs (plug ?cs (mk True E n cn dsn E))) = ?A" using 2 d e(1) by simp
  have T: "tree_at S head m1 (plug vs (mk False (plug us1 E) f c [] y))" using cut(1) by (simp add: plug_append)
  note D = tree_atD [OF t'(1)] and F = tree_atD [OF T]
  have n: "n \<in> S" "n \<notin> insert head (context_addrs vs)" "n \<notin> insert f (set (addrs (plug us1 E)) \<union> set (addrs y))" "n \<noteq> f"
    and ds: "set dsn \<subseteq> S" "distinct (n # dsn)" "set dsn \<inter> insert head (context_addrs vs) = {}"
      "set dsn \<inter> insert f (set (addrs (plug us1 E)) \<union> set (addrs y)) = {}"
    using D(4,6,7,8) by (auto simp: context_append)
  have "same_nodes (insert n (set dsn)) m m1"
    unfolding m1_def using D(6,11,12) by (intro same_nodes_update(1) [OF D(1)]) auto
  then have du: "dup_list m1 (get_link m1 n 2) dsn"
    using tree_at_node(7) [OF t'(1)] dup_list_same [of dsn m m1] by (auto simp: same_nodes_def)
  have AS: "?A \<subseteq> S" "head \<notin> ?A" using t'(1) A by (auto simp: tree_at_def)
  have sub: "insert n (set dsn) \<union> set (addrs (plug vs (mk False (plug us1 E) f c [] y))) \<subseteq> ?A"
    unfolding A [symmetric] by (auto simp: context_append)
  note st = substitute [OF T n(1-3) du ds AS(1) sub AS(2)]
  have "remove_single tree n (hole_node head ?cs) f (hole_node head vs) m =
      (substituted n f (hole_node head vs) m1, tree\<lparr>num_nodes := num_nodes tree - 1\<rparr>)"
    using n(4) m1 by (simp add: remove_single_def substituted_def Let_def)
  moreover have "balanced (plug vs (mk False (plug us1 E) n c dsn y))"
    using balanced_cut [OF t'(2) e(2)] balanced_rename [of vs False "plug us1 E" f c "[]" y]
    by (simp add: plug_append)
  moreover have "slots (plug vs (mk False (plug us1 E) n c dsn y)) = (lefts vs @ lefts us) @ (slots y @ rights vs)"
    using 2 d e(1) all by (simp add: slots_plug slots_mk rights_none)
  moreover have "framed ?A head 1 m (substituted n f (hole_node head vs) m1)"
    using cut(2) [unfolded A] st(2) by (rule framed_trans)
  ultimately show ?thesis using st(1) 2 by auto
qed

lemma finish_dup:
  assumes sp: "split_at S head us f c (d # ds) y vs m" and sel: "\<And>a. select_dup_fn tree m a args \<noteq> 0 \<longleftrightarrow> P a"
  shows "\<exists>m' t' tree' x. remove_dup tree args f (hole_node head vs) m = Some (m', tree', x) \<and>
    tree_at S head m' t' \<and> balanced t' \<and> framed (set (addrs (plug (way us f c (d # ds) y vs) E))) head 1 m m' \<and>
    (case take_slot P f (d # ds) of
       None \<Rightarrow> x = 0 \<and> slots t' = slots (plug (way us f c (d # ds) y vs) E) \<and> tree' = tree
     | Some (e, rest) \<Rightarrow> x = e \<and> slots t' = (lefts vs @ lefts us) @ rest @ (slots y @ rights vs) \<and>
         tree' = tree\<lparr>num_dup := num_dup tree - 1\<rparr>)"
proof -
  let ?T = "plug (way us f c (d # ds) y vs) E" and ?L = "plug us E"
  have T: "tree_at S head m ?T" "balanced ?T" and all: "\<forall>s\<in>set us. fst s" using sp by (auto simp: split_at_def)
  have t: "tree_at S head m (plug vs (mk False ?L f c (d # ds) y))" by (rule split_tree [OF sp])
  have b: "balanced (plug vs (mk False ?L f c (d # ds) y))" using T(2) by (simp add: plug_append)
  have A: "set (addrs (plug vs (mk False ?L f c (d # ds) y))) = set (addrs ?T)" by (simp add: plug_append)
  have L: "slots (plug vs (mk False ?L f' c es y)) = (lefts vs @ lefts us) @ (f', es) # (slots y @ rights vs)" for f' es
    using all by (simp add: slots_plug slots_mk rights_none)
  note D = tree_atD [OF t] and N = tree_at_node [OF t]
  have nz: "0 \<notin> set (d # ds)" using D(6) separated_nz [OF D(1)] by auto
  have link: "get_link m f 2 = d" using N(7) by simp
  note fd = find_dup_list [of "select_dup_fn tree" m args P, OF sel N(7) nz, of f]
  show ?thesis
  proof (cases "List.extract P (d # ds)")
    case (Some r)
    obtain us' e vs' where r: "List.extract P (d # ds) = Some (us', e, vs')" using Some by (cases r) auto
    then have k: "d # ds = us' @ e # vs'" by (rule extract_SomeE [THEN conjunct1])
    define m' where "m' = set_link m (last (f # us')) 2 (get_link m e 2)"
    note h = dup_hole [OF t [unfolded k] m'_def]
    have "e \<noteq> 0" using nz k by (metis in_set_conv_decomp)
    then have "remove_dup tree args f (hole_node head vs) m = Some (m', tree\<lparr>num_dup := num_dup tree - 1\<rparr>, e)"
      using fd r by (simp add: remove_dup_def m'_def)
    moreover have "balanced (plug vs (mk False ?L f c (us' @ vs') y))" by (rule balanced_rename [OF b])
    moreover have "framed (set (addrs ?T)) head 1 m m'" using h(2) A k by simp
    ultimately show ?thesis using h(1) r L [of f "us' @ vs'"] by auto
  next
    case None
    show ?thesis
    proof (cases "P f")
      case True
      let ?m = "substituted d f (hole_node head vs) m"
      have n: "d \<in> S" "d \<notin> insert head (context_addrs vs)" "d \<notin> insert f (set (addrs ?L) \<union> set (addrs y))"
        and es: "set ds \<subseteq> S" "distinct (d # ds)" "set ds \<inter> insert head (context_addrs vs) = {}"
          "set ds \<inter> insert f (set (addrs ?L) \<union> set (addrs y)) = {}"
        using D(4,6,7,8) by auto
      have du: "dup_list m (get_link m d 2) ds" using N(7) by simp
      have AS: "set (addrs ?T) \<subseteq> S" "head \<notin> set (addrs ?T)" using T(1) by (auto simp: tree_at_def)
      have sub: "insert d (set ds) \<union> set (addrs (plug vs (mk False ?L f c (d # ds) y))) \<subseteq> set (addrs ?T)"
        unfolding A [symmetric] by auto
      note st = substitute [OF t n du es AS(1) sub AS(2)]
      have "remove_dup tree args f (hole_node head vs) m = Some (?m, tree\<lparr>num_dup := num_dup tree - 1\<rparr>, f)"
        using fd None True sel link by (simp add: remove_dup_def substituted_def Let_def)
      moreover have "balanced (plug vs (mk False ?L d c ds y))" by (rule balanced_rename [OF b])
      ultimately show ?thesis using st None True L [of d ds] by auto
    next
      case False
      then have "remove_dup tree args f (hole_node head vs) m = Some (m, tree, 0)"
        using fd None sel by (simp add: remove_dup_def)
      then show ?thesis using T None False by auto
    qed
  qed
qed

text \<open>The end of the function, from the state in which the descent leaves it.\<close>

definition finish_remove ::
  "'a rb_tree \<Rightarrow> 'a option \<Rightarrow> mem \<times> u32 \<times> u32 \<times> u32 \<times> u32 \<Rightarrow> (mem \<times> 'a rb_tree \<times> u32) option" where
  "finish_remove tree args st =
     (case st of (m, n, p, f, fp) \<Rightarrow>
        if f \<noteq> 0 \<and> get_link m f 2 \<noteq> 0 then remove_dup tree args f fp m
        else if f \<noteq> 0 then (let (m, tree) = remove_single tree n p f fp m in Some (m, tree, f))
        else Some (m, tree, f))"

lemma finish_taken:
  assumes de: "descent S head K C m cs E f fp"
    and se: "\<forall>x\<in>set (addrs (plug cs E)). \<forall>y\<in>set (addrs (plug cs E)). K x < K y \<longrightarrow> C y = 0 \<longrightarrow> C x \<le> 0"
    and sel: "\<And>a. select_dup_fn tree m a args \<noteq> 0 \<longleftrightarrow> P a"
    and Q: "Q \<longrightarrow> cut_off (set (addrs (plug cs E))) K C"
  shows "\<exists>m' t' tree' x. finish_remove tree args (m, hole_node head cs, parent head cs, f, fp) = Some (m', tree', x) \<and>
    tree_at S head m' t' \<and> balanced t' \<and> framed (set (addrs (plug cs E))) head 1 m m' \<and>
    taken P C Q (slots (plug cs E)) tree (slots t') tree' x"
proof -
  have D: "tree_at S head m (plug cs E)" "balanced (plug cs E)" "pushed cs E" "tracks C head cs f fp"
    "ordered K (slots (plug cs E))" "Q \<longrightarrow> sided C cs"
    using de Q unfolding descent_def by blast+
  show ?thesis
  proof (cases "f = 0")
    case True
    have "0 \<notin> set (addrs (plug cs E))" using D(1) separated_nz by (auto simp: tree_at_def)
    then have "Q \<longrightarrow> (\<forall>s\<in>set (slots (plug cs E)). C (fst s) \<noteq> 0)"
      using none_found [OF _ _ D(5) se] D(4,6) True by blast
    then show ?thesis using D(1,2) True by (auto simp: finish_remove_def taken_def)
  next
    case False
    then obtain vs where v: "innermost cs = Some (f, vs)" "C f = 0" "fp = hole_node head vs"
      using D(4) by (auto simp: tracks_def split: option.splits if_splits)
    obtain us c ds y where cs: "cs = way us f c ds y vs" "\<forall>s\<in>set us. fst s"
      using innermost_split [OF v(1)] by blast
    then have sp: "split_at S head us f c ds y vs m" using D(1-3) by (simp add: split_at_def)
    let ?xs = "lefts vs @ lefts us" and ?ys = "slots y @ rights vs"
    have sl: "slots (plug cs E) = ?xs @ (f, ds) # ?ys" unfolding cs(1) by (rule split_slots [OF sp])
    have left: "Q \<longrightarrow> (\<forall>s\<in>set ?xs. C (fst s) < 0)" using D(6) cs(1) by (auto simp: sided_def sides_append)
    have du: "dup_list m (get_link m f 2) ds" using tree_at_node(7) [OF split_tree [OF sp]] .
    have nz: "0 \<notin> set ds"
      using tree_atD(6) [OF split_tree [OF sp]] separated_nz tree_atD(1) [OF D(1)] by auto
    show ?thesis
    proof (cases ds)
      case Nil
      then have l: "get_link m f 2 = 0" using du by simp
      from finish_single [OF sp [unfolded Nil], of tree]
      obtain m' t' where r: "remove_single tree (hole_node head cs) (parent head cs) f fp m =
            (m', tree\<lparr>num_nodes := num_nodes tree - 1\<rparr>)" "tree_at S head m' t'" "balanced t'"
          "slots t' = ?xs @ ?ys" "framed (set (addrs (plug cs E))) head 1 m m'"
        unfolding cs(1) v(3) Nil by blast
      have "finish_remove tree args (m, hole_node head cs, parent head cs, f, fp) =
          Some (m', tree\<lparr>num_nodes := num_nodes tree - 1\<rparr>, f)"
        using False l r(1) by (simp add: finish_remove_def)
      moreover have "taken P C Q (slots (plug cs E)) tree (slots t') (tree\<lparr>num_nodes := num_nodes tree - 1\<rparr>) f"
        unfolding taken_def using sl v(2) left r(4) Nil
        by (intro disjI1 exI [of _ ?xs] exI [of _ f] exI [of _ "[]"] exI [of _ ?ys]) simp
      ultimately show ?thesis using r by blast
    next
      case (Cons d es)
      then have "get_link m f 2 \<noteq> 0" using du nz by auto
      then have fin: "finish_remove tree args (m, hole_node head cs, parent head cs, f, fp) = remove_dup tree args f fp m"
        using False by (simp add: finish_remove_def)
      from finish_dup [OF sp [unfolded Cons] sel]
      obtain m' t' tree' x where r: "remove_dup tree args f fp m = Some (m', tree', x)"
          "tree_at S head m' t'" "balanced t'" "framed (set (addrs (plug cs E))) head 1 m m'"
        and c: "case take_slot P f (d # es) of
           None \<Rightarrow> x = 0 \<and> slots t' = slots (plug cs E) \<and> tree' = tree
         | Some (e, rest) \<Rightarrow> x = e \<and> slots t' = ?xs @ rest @ ?ys \<and> tree' = tree\<lparr>num_dup := num_dup tree - 1\<rparr>"
        unfolding cs(1) v(3) Cons by blast
      have "taken P C Q (slots (plug cs E)) tree (slots t') tree' x"
        unfolding taken_def using sl v(2) left c Cons
        by (intro disjI1 exI [of _ ?xs] exI [of _ f] exI [of _ ds] exI [of _ ?ys]) (auto split: option.splits)
      then show ?thesis using fin r by auto
    qed
  qed
qed

section \<open>The keys that remain\<close>

definition dup_keys :: "key_fun \<Rightarrow> (u32 \<times> u32 list) list \<Rightarrow> bool" where
  "dup_keys K xs \<longleftrightarrow> (\<forall>(a, ds)\<in>set xs. \<forall>d\<in>set ds. K d = K a)"

lemma dup_keys_append [simp]: "dup_keys K (xs @ ys) \<longleftrightarrow> dup_keys K xs \<and> dup_keys K ys"
  by (auto simp: dup_keys_def)

lemma dup_keys_ins: "dup_keys K xs \<Longrightarrow> dup_keys K (ins_slots K x xs)"
  by (induction K x xs rule: ins_slots.induct) (auto simp: dup_keys_def)

lemma slot_addrs: "(a, ds) \<in> set (slots t) \<Longrightarrow> a \<in> set (addrs t) \<and> set ds \<subseteq> set (addrs t)"
  by (induction t) auto

lemma keys_cong:
  assumes "\<And>a. a \<in> set (addrs t) \<Longrightarrow> K a = K' a"
  shows "ordered K (slots t) = ordered K' (slots t)" "dup_keys K (slots t) = dup_keys K' (slots t)"
proof -
  have "K a = K' a" if "a \<in> fst ` set (slots t)" for a using that assms slot_addrs by force
  then show "ordered K (slots t) = ordered K' (slots t)" by (rule ordered_cong)
  have "K a = K' a \<and> (\<forall>d\<in>set ds. K d = K' d)" if "(a, ds) \<in> set (slots t)" for a ds
    using assms slot_addrs [OF that] by blast
  then show "dup_keys K (slots t) = dup_keys K' (slots t)" by (fastforce simp: dup_keys_def)
qed

lemma take_slot_cases:
  assumes "take_slot P a ds = Some (x, rest)"
  obtains "ds = []" "x = a" "rest = []"
    | us vs where "ds = us @ x # vs" "P x" "rest = [(a, us @ vs)]"
    | d es where "ds = d # es" "x = a" "rest = [(d, es)]" "P a"
proof (cases ds)
  case Nil
  then show ?thesis using assms that(1) by simp
next
  case (Cons d es)
  show ?thesis
  proof (cases "List.extract P ds")
    case None
    then show ?thesis using assms Cons that(3) by (auto split: if_splits)
  next
    case (Some r)
    then obtain us vs where "List.extract P ds = Some (us, x, vs)" "rest = [(a, us @ vs)]"
      using assms Cons by (auto split: prod.splits)
    then show ?thesis using that(2) extract_SomeE by metis
  qed
qed

lemma taken_keys:
  assumes "taken P C Q xs tree xs' tree' f" "ordered K xs" "dup_keys K xs"
  shows "ordered K xs'" "dup_keys K xs'"
proof -
  have "ordered K xs' \<and> dup_keys K xs'"
    using assms(1) unfolding taken_def
  proof (elim disjE exE conjE)
    fix as a ds bs
    assume xs: "xs = as @ (a, ds) # bs"
      and c: "case take_slot P a ds of None \<Rightarrow> f = 0 \<and> xs' = xs \<and> tree' = tree
        | Some (x, rest) \<Rightarrow> f = x \<and> xs' = as @ rest @ bs \<and>
            tree' = (if ds = [] then tree\<lparr>num_nodes := num_nodes tree - 1\<rparr> else tree\<lparr>num_dup := num_dup tree - 1\<rparr>)"
    show ?thesis
    proof (cases "take_slot P a ds")
      case None
      then show ?thesis using c assms(2,3) by simp
    next
      case (Some r)
      obtain x rest where r: "take_slot P a ds = Some (x, rest)" using Some by (cases r) simp
      then have xs': "xs' = as @ rest @ bs" using c by simp
      have o: "ordered K as" "ordered K bs" "\<forall>s\<in>set as. K (fst s) < K a" "\<forall>s\<in>set bs. K a < K (fst s)"
          "\<forall>s\<in>set as. \<forall>t\<in>set bs. K (fst s) < K (fst t)"
        using assms(2) unfolding xs by (auto simp: ordered_append ordered_Cons)
      have k: "dup_keys K as" "dup_keys K bs" "\<forall>d\<in>set ds. K d = K a"
        using assms(3) unfolding xs by (auto simp: dup_keys_def)
      from r show ?thesis
        by (cases rule: take_slot_cases)
          (use o k xs' in \<open>auto simp: ordered_append ordered_Cons dup_keys_def\<close>)
    qed
  qed (use assms(2,3) in auto)
  then show "ordered K xs'" "dup_keys K xs'" by auto
qed

section \<open>The whole function\<close>

text \<open>
  The contract \<open>remove_rbnode\<close> needs of its comparison callback: the sign depends on the node
  and its data word only, and no node left of a match counts as too large.
\<close>

definition verdict :: "(mem \<Rightarrow> u32 \<Rightarrow> u32 \<Rightarrow> 'a option \<Rightarrow> int) \<Rightarrow> u32 \<Rightarrow> 'a option \<Rightarrow> mem \<Rightarrow> u32 \<Rightarrow> int" where
  "verdict cmp data args m a = sgn (cmp m a data args)"

locale remove_search =
  fixes cmp :: "mem \<Rightarrow> u32 \<Rightarrow> u32 \<Rightarrow> 'a option \<Rightarrow> int" and data :: u32 and args :: "'a option"
  assumes sign_stable: "rb_data m' n = rb_data m n \<Longrightarrow> sgn (cmp m' n data args) = sgn (cmp m n data args)"
    and match_left: "rb_data m x < rb_data m y \<Longrightarrow> cmp m y data args = 0 \<Longrightarrow> cmp m x data args \<le> 0"
begin

lemma verdict_searches: "searches cmp data args A (rb_data m) (verdict cmp data args m)"
  unfolding searches_def verdict_def
proof (intro conjI allI ballI impI)
  show "sgn (cmp m' a data args) = sgn (cmp m a data args)" if "rb_data m' a = rb_data m a" for m' a
    by (rule sign_stable [OF that])
  show "sgn (cmp m x data args) \<le> 0" if "rb_data m x < rb_data m y" "sgn (cmp m y data args) = 0" for x y
    using match_left [OF that(1)] that(2) by (simp add: sgn_if split: if_splits)
qed

end

sublocale insert_order \<subseteq> removing: remove_search cmp data args for data
proof unfold_locales
  fix m' m n assume "rb_data m' n = rb_data m n"
  moreover have "sgn (cmp m n data args) = (if rb_data m n < data then - 1 else if rb_data m n = data then 0 else 1)" for m
    unfolding cmp_less [symmetric] cmp_equal [symmetric] by (simp add: sgn_if)
  ultimately show "sgn (cmp m' n data args) = sgn (cmp m n data args)" by simp
next
  fix m x y assume "rb_data m x < rb_data m y" "cmp m y data args = 0"
  then have "rb_data m x < data" by (simp add: cmp_equal)
  then show "cmp m x data args \<le> 0" by (simp add: cmp_less [symmetric])
qed

definition removed ::
  "u32 \<Rightarrow> rbt \<Rightarrow> mem \<Rightarrow> 'a rb_tree \<Rightarrow> (u32 \<Rightarrow> bool) \<Rightarrow> (u32 \<Rightarrow> int) \<Rightarrow> (mem \<times> 'a rb_tree \<times> u32) option \<Rightarrow> bool" where
  "removed head t m tree P C res \<longleftrightarrow>
     (\<exists>m' tree' r f t'. res = Some (m', tree'\<lparr>root := r\<rparr>, f) \<and> rep m' r t' \<and> rb_invariant t' \<and>
        distinct (addrs t') \<and> ordered (rb_data m') (slots t') \<and> dup_keys (rb_data m') (slots t') \<and>
        taken P C (cut_off (set (addrs t)) (rb_data m) C) (slots t) tree (slots t') tree' f \<and>
        (\<forall>w. w \<notin> link_words (set (addrs t)) \<union> node_words head \<longrightarrow> m' w = m w))"

lemma remove_rbnode_eq:
  "root tree \<noteq> 0 \<Longrightarrow> remove_rbnode head tree data args m =
     (case remove_loop (compare_fn tree) data args head 0 0 0 0 True (with_head head (root tree) m) of
        None \<Rightarrow> None
      | Some st \<Rightarrow>
          (case finish_remove tree args st of
             None \<Rightarrow> None
           | Some (m, tree, f) \<Rightarrow>
               let r = get_link m head 1 in Some (if r \<noteq> 0 then paint_black m r else m, tree\<lparr>root := r\<rparr>, f)))"
  by (simp add: remove_rbnode_def with_head_def finish_remove_def Let_def split: option.split)

text \<open>The memory in which the descent starts.\<close>

lemma descent_start:
  assumes sep: "separated (insert head (set (addrs t)))" and h: "head \<notin> set (addrs t)"
    and t: "distinct (addrs t)" "rep m (root tree) t" "t \<noteq> E" "rb_invariant t"
    and o: "ordered (rb_data m) (slots t)" and m1: "m1 = with_head head (root tree) m"
  shows "descent (insert head (set (addrs t))) head (rb_data m) C m1 [] t 0 0"
    and "\<And>b. b \<in> set (addrs t) \<Longrightarrow> rb_data m1 b = rb_data m b"
proof -
  let ?S = "insert head (set (addrs t))"
  have laws: "j < 3 \<Longrightarrow> get_link m1 b j = get_link m b j" "is_red m1 b = is_red m b" "rb_data m1 b = rb_data m b"
    if "b \<in> set (addrs t)" for b j
  proof -
    have b: "head \<in> ?S" "b \<in> ?S" "b \<noteq> head" using that h by auto
    show "j < 3 \<Longrightarrow> get_link m1 b j = get_link m b j" "is_red m1 b = is_red m b" "rb_data m1 b = rb_data m b"
      using with_head_laws [OF sep b] by (simp_all add: m1)
  qed
  have "same_nodes (set (addrs t)) m m1" using laws by (auto simp: same_nodes_def)
  then have "rep m1 (root tree) t" using rep_same t(2) by blast
  moreover have "root tree \<in> set (addrs t)" using t(2,3) by (cases t) auto
  then have "get_link m1 head 1 = root tree"
    unfolding m1 using separated_untag [OF sep] by (intro with_head_link) auto
  moreover have "get_link m1 head 0 = 0" by (simp add: m1 with_head_def get_link_def set_link_def)
  ultimately show "descent ?S head (rb_data m) C m1 [] t 0 0"
    using sep h t o laws(3) by (auto simp: descent_def tree_at_def balanced_def rb_invariant_def sided_def)
  show "\<And>b. b \<in> set (addrs t) \<Longrightarrow> rb_data m1 b = rb_data m b" by (rule laws)
qed

lemma taken_subset: "taken P C Q (slots t) tree (slots t') tree' f \<Longrightarrow> set (addrs t') \<subseteq> set (addrs t)"
  unfolding taken_def addrs_slots
proof (elim disjE exE conjE)
  fix as a ds bs
  assume xs: "slots t = as @ (a, ds) # bs"
    and c: "case take_slot P a ds of None \<Rightarrow> f = 0 \<and> slots t' = slots t \<and> tree' = tree
      | Some (x, rest) \<Rightarrow> f = x \<and> slots t' = as @ rest @ bs \<and>
          tree' = (if ds = [] then tree\<lparr>num_nodes := num_nodes tree - 1\<rparr> else tree\<lparr>num_dup := num_dup tree - 1\<rparr>)"
  show "set (concat (map (\<lambda>(a, ds). a # ds) (slots t'))) \<subseteq> set (concat (map (\<lambda>(a, ds). a # ds) (slots t)))"
  proof (cases "take_slot P a ds")
    case (Some r)
    obtain x rest where r: "take_slot P a ds = Some (x, rest)" using Some by (cases r) simp
    then have "slots t' = as @ rest @ bs" using c by simp
    with r show ?thesis unfolding xs by (cases rule: take_slot_cases) auto
  qed (use c in simp)
qed auto

lemma remove_nonempty:
  assumes search: "remove_search (compare_fn tree) data args"
    and sep: "separated (insert head (set (addrs t)))" and h: "head \<notin> set (addrs t)"
    and t: "distinct (addrs t)" "rep m (root tree) t" "t \<noteq> E" "rb_invariant t"
    and o: "ordered (rb_data m) (slots t)" "dup_keys (rb_data m) (slots t)"
    and sel: "\<And>m a. select_dup_fn tree m a args \<noteq> 0 \<longleftrightarrow> P a"
  shows "removed head t m tree P (verdict (compare_fn tree) data args m) (remove_rbnode head tree data args m)"
proof -
  let ?S = "insert head (set (addrs t))" and ?C = "verdict (compare_fn tree) data args m" and ?K = "rb_data m"
  let ?A = "set (addrs t)"
  define m1 where "m1 = with_head head (root tree) m"
  note st = descent_start(1) [OF sep h t o(1) m1_def, of ?C] descent_start(2) [OF sep h t o(1) m1_def]
  have se: "searches (compare_fn tree) data args (set (addrs (plug [] t))) ?K ?C"
    using remove_search.verdict_searches [OF search] by simp
  from remove_loop_ends [OF st(1) se, of 0] t(3)
  obtain m2 cs f fp where lo: "remove_loop (compare_fn tree) data args head 0 0 0 0 True m1 =
        Some (m2, hole_node head cs, parent head cs, f, fp)"
      "descent ?S head ?K ?C m2 cs E f fp" "slots (plug cs E) = slots t" "framed ?A head 1 m1 m2"
    by auto
  have A: "set (addrs (plug cs E)) = ?A" by (simp only: addrs_slots lo(3))
  have ml: "\<forall>x\<in>set (addrs (plug cs E)). \<forall>y\<in>set (addrs (plug cs E)). ?K x < ?K y \<longrightarrow> ?C y = 0 \<longrightarrow> ?C x \<le> 0"
    using se unfolding searches_def A by simp
  from finish_taken [OF lo(2) ml sel, of "cut_off ?A ?K ?C"]
  obtain m3 t3 tree3 x where fi: "finish_remove tree args (m2, hole_node head cs, parent head cs, f, fp) = Some (m3, tree3, x)"
      "tree_at ?S head m3 t3" "balanced t3" "framed ?A head 1 m2 m3"
      "taken P ?C (cut_off ?A ?K ?C) (slots t) tree (slots t3) tree3 x"
    unfolding A lo(3) by blast
  have r0: "root tree \<noteq> 0" using t(2,3) separated_nz [OF sep] by (cases t) auto
  define r where "r = get_link m3 head 1"
  define m4 where "m4 = (if r \<noteq> 0 then paint_black m3 r else m3)"
  have res: "remove_rbnode head tree data args m = Some (m4, tree3\<lparr>root := r\<rparr>, x)"
    unfolding remove_rbnode_eq [OF r0] m1_def [symmetric] lo(1) using fi(1) by (simp add: r_def m4_def Let_def)
  have T: "rep m3 r t3" "set (addrs t3) \<subseteq> ?S" "distinct (addrs t3)" "head \<notin> set (addrs t3)"
    using fi(2) by (auto simp: tree_at_def r_def)
  have tA: "set (addrs t3) \<subseteq> ?A" by (rule taken_subset [OF fi(5)])
  have rep: "rep m4 r (blacken t3)"
  proof (cases "r = 0")
    case True
    then have "t3 = E" using rep_null [OF _ sep T(2)] T(1) by simp
    then show ?thesis using True by simp
  next
    case False
    then show ?thesis using rep_paint_black [OF sep T(2,3,1)] by (simp add: m4_def)
  qed
  have rA: "r \<in> ?A" if "r \<noteq> 0" using rep_root [OF T(1) that] tA by auto
  have fr: "framed ?A head 1 m1 m3" by (rule framed_trans [OF lo(4) fi(4)])
  have data: "rb_data m4 a = ?K a" if "a \<in> ?A" for a
    using framed_data [OF fr sep _ _ _, of a] st(2) [OF that] that rA heap_laws [OF sep] by (auto simp: m4_def)
  then have "rb_data m4 a = ?K a" if "a \<in> set (addrs t3)" for a using that tA by blast
  note cong = keys_cong [of t3 "rb_data m4" ?K, OF this]
  have keys: "ordered (rb_data m4) (slots t3)" "dup_keys (rb_data m4) (slots t3)"
    using taken_keys [OF fi(5) o] by (simp_all add: cong)
  have frame: "m4 w = m w" if "w \<notin> link_words ?A \<union> node_words head" for w
  proof -
    have "w \<noteq> link_addr head 1" using that link_addr_node_words [of 1 head] by auto
    then have "m3 w = m w"
      using fr that with_head_frame [of w head "root tree" m] by (simp add: framed_def m1_def)
    moreover have "r \<noteq> 0 \<Longrightarrow> w \<notin> link_words {r}" using that link_words_mono [of "{r}" ?A] rA by auto
    ultimately show ?thesis by (simp add: m4_def paint_frame)
  qed
  have "rb_invariant (blacken t3)" using fi(3) by (simp add: rb_invariant_def balanced_def)
  then show ?thesis
    unfolding removed_def res using rep T(3) keys fi(5) frame
    by (intro exI [of _ m4] exI [of _ tree3] exI [of _ r] exI [of _ x] exI [of _ "blacken t3"]) simp
qed

lemma remove_removes:
  assumes "remove_search (compare_fn tree) data args"
    and "separated (insert head (set (addrs t)))" "head \<notin> set (addrs t)"
    and "distinct (addrs t)" "rep m (root tree) t" "rb_invariant t"
    and "ordered (rb_data m) (slots t)" "dup_keys (rb_data m) (slots t)"
    and "\<And>m a. select_dup_fn tree m a args \<noteq> 0 \<longleftrightarrow> P a"
  shows "removed head t m tree P (verdict (compare_fn tree) data args m) (remove_rbnode head tree data args m)"
proof (cases "t = E")
  case True
  then have "remove_rbnode head tree data args m = Some (m, tree\<lparr>root := 0\<rparr>, 0)"
    using assms(5) by (simp add: remove_rbnode_def)
  then show ?thesis
    using True by (auto simp: removed_def taken_def rb_invariant_def ordered_def dup_keys_def
        intro!: exI [of _ m] exI [of _ tree] exI [of _ 0] exI [of _ E])
next
  case False
  then show ?thesis using remove_nonempty [OF assms(1-5) False assms(6-9)] by simp
qed

text \<open>
  C2. Removing from a red-black tree that lies in memory ends. The tree it leaves is again
  red-black and ordered; what it takes is a node of a slot that the comparison accepts, or
  one of its duplicates that is selected, and the slots and counters lose exactly that node;
  when the comparison cuts the tree in two, the slot is the first one that is not too small,
  and nothing is taken only if no slot matches; no word outside the links of the nodes and the
  dummy root on the stack has changed.
\<close>

theorem remove_rbnode_correct:
  assumes "remove_search (compare_fn tree) data args"
    and "separated (insert head (set (addrs t)))" "head \<notin> set (addrs t)"
    and "distinct (addrs t)" "rep m (root tree) t" "rb_invariant t"
    and "ordered (rb_data m) (slots t)" "dup_keys (rb_data m) (slots t)"
    and "\<And>m a. select_dup_fn tree m a args \<noteq> 0 \<longleftrightarrow> P a"
  shows "removed head t m tree P (verdict (compare_fn tree) data args m) (remove_rbnode head tree data args m)"
  by (rule remove_removes [OF assms])

end
