(* ===== verification/Mem_Block.thy ===== *)
theory Mem_Block
  imports Rb_Remove_Correct
begin

text \<open>
  The blocks of the allocator of \<^verbatim>\<open>kernel/mem_alloc.c\<close>: where their fields are, how large a
  block a request needs, and the two callbacks the allocator gives its red-black tree. The
  comparison without alignment is the order of the sizes, which is what \<open>insert_rbnode\<close> needs.
\<close>

section \<open>Sizes and fields of a block\<close>

definition MAGIC :: u32 where "MAGIC = 0xa1b2c3d4"

definition MIN_BLOCK_SIZE :: u32 where "MIN_BLOCK_SIZE = 28"

definition USER_PTR_OFFSET :: u32 where "USER_PTR_OFFSET = 8"

definition rounded_size :: "u32 \<Rightarrow> u32" where
  "rounded_size sz = ((sz + 4 - 1) div 4) * 4"

text \<open>The header of a block is its magic word followed by its tree node.\<close>

definition set_magic :: "u32 \<Rightarrow> mem \<Rightarrow> mem" where
  "set_magic b m = m(b := untag MAGIC OR tag (m b))"

definition check_magic :: "u32 \<Rightarrow> mem \<Rightarrow> bool" where
  "check_magic b m \<longleftrightarrow> untag (m b) = untag MAGIC"

definition is_free :: "u32 \<Rightarrow> mem \<Rightarrow> bool" where
  "is_free b m \<longleftrightarrow> tag (m b) \<noteq> 0"

definition mark_free :: "u32 \<Rightarrow> mem \<Rightarrow> mem" where
  "mark_free b m = m(b := m b OR 1)"

definition mark_used :: "u32 \<Rightarrow> mem \<Rightarrow> mem" where
  "mark_used b m = m(b := untag (m b))"

definition block_to_rbnode :: "u32 \<Rightarrow> u32" where "block_to_rbnode b = b + 4"

definition rbnode_to_block :: "u32 \<Rightarrow> u32" where "rbnode_to_block n = n - 4"

definition rbnode_to_user :: "u32 \<Rightarrow> u32" where "rbnode_to_user n = n + 4"

definition block_to_user :: "u32 \<Rightarrow> u32" where "block_to_user b = b + USER_PTR_OFFSET"

definition user_to_block :: "u32 \<Rightarrow> u32" where "user_to_block p = p - USER_PTR_OFFSET"

definition get_size :: "u32 \<Rightarrow> mem \<Rightarrow> u32" where
  "get_size b m = rb_data m (block_to_rbnode b)"

definition set_size :: "u32 \<Rightarrow> u32 \<Rightarrow> mem \<Rightarrow> mem" where
  "set_size b s m = m(block_to_rbnode b := s)"

definition get_footer :: "u32 \<Rightarrow> mem \<Rightarrow> u32" where
  "get_footer b m = b + get_size b m - 8"

definition get_left_footer :: "u32 \<Rightarrow> u32" where
  "get_left_footer b = b - 8"

definition get_next_block :: "u32 \<Rightarrow> mem \<Rightarrow> u32" where
  "get_next_block b m = b + get_size b m"

definition footer_header :: "u32 \<Rightarrow> mem \<Rightarrow> u32" where
  "footer_header f m = m (f + 4)"

definition set_footer_header :: "u32 \<Rightarrow> u32 \<Rightarrow> mem \<Rightarrow> mem" where
  "set_footer_header f h m = m(f + 4 := h)"

definition get_block_size :: "u32 \<Rightarrow> u32" where
  "get_block_size sz =
     (let s = rounded_size (sz + USER_PTR_OFFSET + 8)
      in if s < MIN_BLOCK_SIZE then MIN_BLOCK_SIZE else s)"

section \<open>The callbacks of the tree\<close>

record alloc_args =
  alignment :: u32
  address :: u32

text \<open>
  The loop that grows an alignment gap until a block fits in it. It is entered with a
  non-zero alignment only, and ends for every such alignment, the ones that wrap around
  included.
\<close>

function grow_offset :: "u32 \<Rightarrow> u32 \<Rightarrow> u32" where
  "grow_offset al offset =
     (if al \<noteq> 0 \<and> offset \<noteq> 0 \<and> offset < MIN_BLOCK_SIZE then grow_offset al (offset + al) else offset)"
  by pat_completeness auto

lemma wrap_down:
  assumes "2 ^ 31 \<le> unat (al::u32)" "unat (a::u32) < 28" "unat (a + al) < 28"
  shows "unat (a + al) < unat a"
proof -
  have "unat (a + al) = (unat a + unat al) mod 2 ^ 32" by (simp add: unat_word_ariths)
  moreover have "unat al < 2 ^ 32" using unsigned_less [of al] by simp
  ultimately show ?thesis using assms
    by (cases "unat a + unat al < 2 ^ 32") (auto simp: mod_if)
qed

lemma step_up:
  assumes "unat (al::u32) < 2 ^ 31" "al \<noteq> 0" "unat (a::u32) < 28"
  shows "unat a < unat (a + al)"
proof -
  have "unat (a + al) = (unat a + unat al) mod 2 ^ 32" by (simp add: unat_word_ariths)
  with assms show ?thesis by (simp add: unat_gt_0)
qed

termination grow_offset
proof (relation "measure (\<lambda>(al, a). if 28 \<le> unat a then 0
    else if unat al < 2 ^ 31 then 29 - unat a else Suc (unat a))", simp)
  fix al offset :: u32
  assume "al \<noteq> 0 \<and> offset \<noteq> 0 \<and> offset < MIN_BLOCK_SIZE"
  then have "al \<noteq> 0" "unat offset < 28" by (auto simp: MIN_BLOCK_SIZE_def word_less_nat_alt)
  then show "((al, offset + al), al, offset) \<in> measure (\<lambda>(al, a). if 28 \<le> unat a then 0
      else if unat al < 2 ^ 31 then 29 - unat a else Suc (unat a))"
    using wrap_down [of al offset] step_up [of al offset] by auto
qed

declare grow_offset.simps [simp del]

definition compare :: "mem \<Rightarrow> u32 \<Rightarrow> u32 \<Rightarrow> alloc_args option \<Rightarrow> int" where
  "compare m node data args =
     (if rb_data m node < data then -1
      else case args of
        Some a \<Rightarrow>
          if alignment a \<noteq> 0
          then (let offset = (alignment a - rbnode_to_user node mod alignment a) mod alignment a;
                    offset = grow_offset (alignment a) offset
                in if rb_data m node - offset < data then -1 else 0)
          else if rb_data m node > data then 1 else 0
      | None \<Rightarrow> if rb_data m node > data then 1 else 0)"

definition select_dup :: "mem \<Rightarrow> u32 \<Rightarrow> alloc_args option \<Rightarrow> int" where
  "select_dup m node args =
     (if node = 0 then 0
      else case args of
        Some a \<Rightarrow> if address a \<noteq> 0 \<and> node \<noteq> address a then 0 else 1
      | None \<Rightarrow> 1)"

section \<open>The comparison orders the tree\<close>

interpretation exact: insert_order compare None
  by unfold_locales (auto simp: compare_def)

interpretation by_address: insert_order compare "Some \<lparr>alignment = 0, address = a\<rparr>" for a
  by unfold_locales (auto simp: compare_def)

text \<open>
  The search for a block to remove, with and without an alignment: an alignment accepts every
  block that is large enough behind its gap, and never turns to the left of one.
\<close>

interpretation searching: remove_search compare data args for data args
  by unfold_locales (auto simp: compare_def Let_def split: option.splits if_splits)

text \<open>
  With no alignment and with alignment one the verdicts cut the tree in two, so that the block
  that is found is the smallest one that is large enough.
\<close>

lemma exact_cut:
  "cut_off A (rb_data m) (verdict compare data None m)"
  "cut_off A (rb_data m) (verdict compare data (Some \<lparr>alignment = 0, address = a\<rparr>) m)"
  by (auto simp: cut_off_def verdict_def compare_def)

lemma best_fit_verdict:
  "verdict compare data (Some \<lparr>alignment = 1, address = a\<rparr>) m n = (if rb_data m n < data then - 1 else 0)"
  by (simp add: verdict_def compare_def grow_offset.simps)

lemma best_fit_cut:
  "cut_off A (rb_data m) (verdict compare data (Some \<lparr>alignment = 1, address = a\<rparr>) m)"
  by (auto simp: cut_off_def best_fit_verdict)

lemma select_any: "select_dup m n (Some \<lparr>alignment = al, address = 0\<rparr>) \<noteq> 0 \<longleftrightarrow> n \<noteq> 0"
  by (simp add: select_dup_def)

lemma select_address:
  "select_dup m n (Some \<lparr>alignment = al, address = a\<rparr>) \<noteq> 0 \<longleftrightarrow> n \<noteq> 0 \<and> (a = 0 \<or> n = a)"
  by (simp add: select_dup_def)

text \<open>A two-node memory on which the insertion theorem is applied.\<close>

definition two_nodes :: mem where
  "two_nodes = (\<lambda>_. 0)(0x100 := 40, 0x200 := 64)"

lemma separated_example: "separated {0x300, 0x200, 0x100}"
  by (simp add: separated_def node_words_def untag_def)

theorem insert_rbnode_correct_witness:
  "inserted 0x300 0x200 (N E 0x100 False [] E) two_nodes
     (init_rbtree (rb_tree.make 0 0 0 compare select_dup) compare select_dup\<lparr>root := 0x100\<rparr>)
     (insert_rbnode 0x300
        (init_rbtree (rb_tree.make 0 0 0 compare select_dup) compare select_dup\<lparr>root := 0x100\<rparr>)
        0x200 None two_nodes)"
  by (rule insert_rbnode_correct)
    (use separated_example exact.insert_order_axioms in
      \<open>auto simp: init_rbtree_def rb_tree.make_def two_nodes_def rep.simps get_link_def is_red_def
         rb_invariant_def ordered_def\<close>)

theorem remove_rbnode_correct_witness:
  "removed 0x300 (N E 0x100 False [] E) two_nodes
     (init_rbtree (rb_tree.make 0 0 0 compare select_dup) compare select_dup\<lparr>root := 0x100\<rparr>)
     (\<lambda>n. n \<noteq> 0) (verdict compare 28 (Some \<lparr>alignment = 1, address = 0\<rparr>) two_nodes)
     (remove_rbnode 0x300
        (init_rbtree (rb_tree.make 0 0 0 compare select_dup) compare select_dup\<lparr>root := 0x100\<rparr>)
        28 (Some \<lparr>alignment = 1, address = 0\<rparr>) two_nodes)"
proof -
  have "separated {0x300, 0x100}" using separated_example by (simp add: separated_def)
  with searching.remove_search_axioms select_any
  show ?thesis
    using remove_rbnode_correct
      [of "init_rbtree (rb_tree.make 0 0 0 compare select_dup) compare select_dup\<lparr>root := 0x100\<rparr>" 28
        "Some \<lparr>alignment = 1, address = 0\<rparr>" "0x300" "N E 0x100 False [] E" two_nodes "\<lambda>n. n \<noteq> 0"]
    by (simp add: init_rbtree_def rb_tree.make_def two_nodes_def rep.simps get_link_def is_red_def
        rb_invariant_def ordered_def dup_keys_def)
qed

end
