(* ===== verification/Placement.thy ===== *)
theory Placement
  imports Kernel_Prelude
begin

text \<open>
  The allocator of \<^verbatim>\<open>kernel/kheap.c\<close> before the kernel heap exists: \<open>kmalloc_int\<close> hands out
  memory from \<open>placement_address\<close> upwards. \<open>voffset\<close> is the linker symbol \<open>kernel_voffset\<close>, the
  distance between the kernel's virtual and physical addresses. The contract a client of
  \<open>kmalloc_ap\<close> relies on is the locale \<open>page_provider\<close>.
\<close>

section \<open>Placement allocation\<close>

definition place_align :: "u32 \<Rightarrow> u32 \<Rightarrow> u32" where
  "place_align al p = (if al \<noteq> 0 \<and> p mod al \<noteq> 0 then p - p mod al + al else p)"

definition kmalloc_place :: "u32 \<Rightarrow> u32 \<Rightarrow> u32 \<Rightarrow> u32 \<Rightarrow> u32 \<times> u32 \<times> u32" where
  "kmalloc_place voffset sz al p =
     (let p = place_align al p in (p, p - voffset, p + sz))"

definition kmalloc_ap_place :: "u32 \<Rightarrow> u32 \<Rightarrow> u32 \<Rightarrow> u32 \<times> u32 \<times> u32" where
  "kmalloc_ap_place voffset sz p = kmalloc_place voffset sz 0x1000 p"

lemma place_align_le:
  assumes "al \<noteq> 0" "unat p + unat al < 2 ^ 32"
  shows "unat p \<le> unat (place_align al p) \<and> unat (place_align al p) < unat p + unat al"
proof (cases "p mod al = 0")
  case True
  with assms show ?thesis by (simp add: place_align_def unat_gt_0)
next
  case False
  have m: "unat (p mod al) = unat p mod unat al" by (rule unat_mod)
  have lt: "unat p mod unat al < unat al" using assms(1) by (simp add: unat_gt_0)
  have le: "p mod al \<le> p" using m by (simp add: word_le_nat_alt)
  have sub: "unat (p - p mod al) = unat p - unat p mod unat al"
    using unat_sub [OF le] m by simp
  have "unat (p - p mod al + al) = unat p - unat p mod unat al + unat al"
    using assms(2) sub by (subst unat_add_lem [THEN iffD1]) auto
  moreover have "0 < unat p mod unat al" using False m by (metis gr0I unat_eq_zero)
  moreover have "unat p mod unat al \<le> unat p" by simp
  ultimately show ?thesis using False assms(1) lt by (simp add: place_align_def)
qed

lemma page_dvd: "(a :: u32) mod 0x1000 = 0 \<longleftrightarrow> 4096 dvd unat a"
proof -
  have "unat (a mod 0x1000) = unat a mod 4096" by (simp add: unat_mod)
  then show ?thesis by (metis unat_eq_zero dvd_eq_mod_eq_0)
qed

lemma aligned_minus:
  assumes "(a :: u32) mod 0x1000 = 0" "b mod 0x1000 = 0"
  shows "(a - b) mod 0x1000 = 0"
proof -
  have d: "4096 dvd unat a" "4096 dvd unat b" using assms by (auto simp: page_dvd)
  have "4096 dvd unat (a - b)"
  proof (cases "unat b \<le> unat a")
    case True
    then show ?thesis using d by (simp add: unat_sub_if' dvd_diff_nat)
  next
    case False
    have "(4096::nat) dvd 4294967296" by simp
    then have "4096 dvd (unat a + 4294967296) - unat b" using d by (intro dvd_diff_nat dvd_add)
    then show ?thesis using False by (simp add: unat_sub_if')
  qed
  then show ?thesis by (simp add: page_dvd)
qed

lemma place_align_page: "place_align 0x1000 p mod 0x1000 = 0"
proof (cases "p mod 0x1000 = 0")
  case False
  have "p - p mod 0x1000 = p div 0x1000 * 0x1000" by (simp add: minus_mod_eq_div_mult)
  moreover have "4096 dvd unat (p div 0x1000 * 0x1000)"
    by (simp add: unat_word_ariths unat_div dvd_mod)
  ultimately have "(p - p mod 0x1000) mod 0x1000 = 0" by (simp add: page_dvd)
  then have "(p - p mod 0x1000 - (- 0x1000)) mod 0x1000 = 0" by (rule aligned_minus) simp
  then show ?thesis using False by (simp add: place_align_def)
qed (simp add: place_align_def)

section \<open>What the paging code needs of its allocator\<close>

text \<open>
  \<open>owned h\<close> are the addresses handed out so far, \<open>room h\<close> says that one more page can be, and
  \<open>view\<close> gives the address at which the kernel sees a page of physical memory. A new page
  table is at a non-null address that no earlier one has, and the page its physical address
  lies in is the one the kernel sees there.
\<close>

locale page_provider =
  fixes kap :: "u32 \<Rightarrow> 'h \<Rightarrow> u32 \<times> u32 \<times> 'h" and owned :: "'h \<Rightarrow> u32 set" and room :: "'h \<Rightarrow> bool"
    and view :: "u32 \<Rightarrow> u32"
  assumes fresh_page: "room h \<Longrightarrow> kap 0x1000 h = (a, phys, h') \<Longrightarrow> a \<noteq> 0 \<and> a \<notin> owned h"
    and owned_grows: "room h \<Longrightarrow> kap 0x1000 h = (a, phys, h') \<Longrightarrow> insert a (owned h) \<subseteq> owned h'"
    and page_seen: "room h \<Longrightarrow> kap 0x1000 h = (a, phys, h') \<Longrightarrow> view (phys div 0x1000 * 0x1000) = a"

definition placed_below :: "u32 \<Rightarrow> u32 set" where
  "placed_below p = {a. a < p}"

definition place_room :: "u32 \<Rightarrow> u32 \<Rightarrow> bool" where
  "place_room voffset p \<longleftrightarrow> p \<noteq> 0 \<and> unat p + 0x2000 < 2 ^ 32 \<and> voffset mod 0x1000 = 0"

text \<open>Before the heap exists the kernel sees physical memory from \<open>kernel_voffset\<close> on.\<close>

definition kernel_view :: "u32 \<Rightarrow> u32 \<Rightarrow> u32" where
  "kernel_view voffset phys = phys + voffset"

lemma kmalloc_ap_place_fresh:
  assumes "place_room v p" "kmalloc_ap_place v 0x1000 p = (a, phys, p')"
  shows "a \<noteq> 0 \<and> a \<notin> placed_below p \<and> insert a (placed_below p) \<subseteq> placed_below p'"
proof -
  have a: "a = place_align 0x1000 p" "p' = a + 0x1000"
    using assms(2) by (auto simp: kmalloc_ap_place_def kmalloc_place_def Let_def)
  have b: "unat p \<le> unat a" "unat a < unat p + 0x1000"
    using place_align_le [of "0x1000" p] assms(1) a by (auto simp: place_room_def)
  have "unat p' = unat a + 0x1000"
    unfolding a(2) using b assms(1) by (subst unat_add_lem [THEN iffD1]) (auto simp: place_room_def)
  moreover have "0 < unat p" using assms(1) by (simp add: place_room_def unat_gt_0)
  ultimately show ?thesis
    using b by (auto simp: placed_below_def word_less_nat_alt)
qed

lemma kmalloc_ap_place_seen:
  assumes "place_room v p" "kmalloc_ap_place v sz p = (a, phys, p')"
  shows "kernel_view v (phys div 0x1000 * 0x1000) = a"
proof -
  have a: "a = place_align 0x1000 p" "phys = a - v"
    using assms(2) by (auto simp: kmalloc_ap_place_def kmalloc_place_def Let_def)
  have "phys mod 0x1000 = 0"
    unfolding a by (rule aligned_minus [OF place_align_page]) (use assms(1) in \<open>simp add: place_room_def\<close>)
  then have "phys div 0x1000 * 0x1000 = phys" using div_mult_mod_eq [of phys "0x1000"] by simp
  then show ?thesis by (simp add: kernel_view_def a(2))
qed

interpretation placement: page_provider "kmalloc_ap_place v" placed_below "place_room v" "kernel_view v" for v
  by unfold_locales (use kmalloc_ap_place_fresh in blast, use kmalloc_ap_place_fresh in blast, rule kmalloc_ap_place_seen)

end
