(* ===== verification/Paging.thy ===== *)
theory Paging
  imports Frames Placement
begin

text \<open>
  Page tables and directories of \<^verbatim>\<open>kernel/paging.c\<close>. A page table is a function from its
  1024 indices to entries and lives at an address in \<open>page_tables\<close>; the pointer to a page
  table entry that \<open>get_page\<close> returns is the pair of the table's address and the index. The
  allocator \<open>kmalloc_ap\<close> is an argument \<open>kap\<close> of the functions that call it: it maps a size
  and the allocator's state to the virtual address, the physical address and the new state.
  What the processor finds for an address is \<open>page_access\<close>.
\<close>

section \<open>Entries\<close>

record pte =
  present :: bool
  read_write :: bool
  user_supervisor :: bool
  write_through :: bool
  cache_disabled :: bool
  accessed :: bool
  dirty :: bool
  pt_attr_index :: bool
  global_page :: bool
  available :: "3 word"
  frame :: "20 word"

record pde =
  pde_present :: bool
  pde_read_write :: bool
  pde_user_supervisor :: bool
  pde_write_through :: bool
  pde_cache_disabled :: bool
  pde_accessed :: bool
  pde_reserved :: bool
  pde_page_size :: bool
  pde_global_page :: bool
  pde_available :: "3 word"
  page_table_base :: "20 word"

definition zero_pte :: pte where
  "zero_pte = \<lparr>present = False, read_write = False, user_supervisor = False, write_through = False,
     cache_disabled = False, accessed = False, dirty = False, pt_attr_index = False,
     global_page = False, available = 0, frame = 0\<rparr>"

definition zero_pde :: pde where
  "zero_pde = \<lparr>pde_present = False, pde_read_write = False, pde_user_supervisor = False,
     pde_write_through = False, pde_cache_disabled = False, pde_accessed = False,
     pde_reserved = False, pde_page_size = False, pde_global_page = False, pde_available = 0,
     page_table_base = 0\<rparr>"

type_synonym page_table = "nat \<Rightarrow> pte"

record page_dir =
  entries :: "nat \<Rightarrow> pde"
  entries_phys_addr :: u32
  tables :: "nat \<Rightarrow> u32"

record 'h vm =
  phys_frames :: frame_state
  page_tables :: "u32 \<Rightarrow> page_table"
  heap :: 'h

type_synonym page_ptr = "u32 \<times> nat"

definition PAGE_DIRECTORY_INDEX :: "u32 \<Rightarrow> nat" where
  "PAGE_DIRECTORY_INDEX virt = unat (drop_bit 22 virt AND 0x3ff)"

definition PAGE_TABLE_INDEX :: "u32 \<Rightarrow> nat" where
  "PAGE_TABLE_INDEX virt = unat (drop_bit 12 virt AND 0x3ff)"

section \<open>Pages\<close>

definition get_pte :: "page_ptr \<Rightarrow> 'h vm \<Rightarrow> pte" where
  "get_pte p s = page_tables s (fst p) (snd p)"

definition set_pte :: "page_ptr \<Rightarrow> pte \<Rightarrow> 'h vm \<Rightarrow> 'h vm" where
  "set_pte p e s = s\<lparr>page_tables := (page_tables s)(fst p := (page_tables s (fst p))(snd p := e))\<rparr>"

definition alloc_page :: "page_ptr \<Rightarrow> bool \<Rightarrow> bool \<Rightarrow> 'h vm \<Rightarrow> 'h vm" where
  "alloc_page p is_kernel is_writeable s =
     (let page = get_pte p s in
      if frame page \<noteq> 0
      then set_pte p (page\<lparr>present := True, read_write := is_writeable,
                           user_supervisor := \<not> is_kernel\<rparr>) s
      else let f = first_free_frame (phys_frames s) in
        if f = -1 then s
        else set_pte p (page\<lparr>frame := ucast f, present := True, read_write := is_writeable,
                             user_supervisor := \<not> is_kernel\<rparr>)
               (s\<lparr>phys_frames := set_frame f (phys_frames s)\<rparr>))"

definition map_page :: "page_ptr \<Rightarrow> bool \<Rightarrow> bool \<Rightarrow> u32 \<Rightarrow> 'h vm \<Rightarrow> 'h vm" where
  "map_page p is_kernel is_writeable phys s =
     (let f = phys div FRAME_SIZE;
          s = set_pte p ((get_pte p s)\<lparr>present := True, read_write := is_writeable,
                 user_supervisor := \<not> is_kernel, frame := ucast f\<rparr>) s
      in if f < nframes (phys_frames s)
         then s\<lparr>phys_frames := set_frame f (phys_frames s)\<rparr> else s)"

definition free_page :: "page_ptr \<Rightarrow> 'h vm \<Rightarrow> 'h vm" where
  "free_page p s =
     (let page = get_pte p s;
          s = (if frame page \<noteq> 0
               then s\<lparr>phys_frames := clear_frame (ucast (frame page)) (phys_frames s)\<rparr> else s)
      in set_pte p (page\<lparr>present := False, frame := 0\<rparr>) s)"

definition get_page ::
  "(u32 \<Rightarrow> 'h \<Rightarrow> u32 \<times> u32 \<times> 'h) \<Rightarrow> u32 \<Rightarrow> bool \<Rightarrow> page_dir \<Rightarrow> 'h vm
     \<Rightarrow> page_ptr option \<times> page_dir \<times> 'h vm" where
  "get_page kap virt mk dir s =
     (let i = PAGE_DIRECTORY_INDEX virt in
      if tables dir i \<noteq> 0 then (Some (tables dir i, PAGE_TABLE_INDEX virt), dir, s)
      else if mk
      then let (table, phys, h) = kap 0x1000 (heap s);
               dir = dir\<lparr>tables := (tables dir)(i := table)\<rparr>;
               s = s\<lparr>heap := h, page_tables := (page_tables s)(table := \<lambda>_. zero_pte)\<rparr>;
               dir = dir\<lparr>entries := (entries dir)(i := (entries dir i)\<lparr>pde_present := True,
                       pde_read_write := True, pde_user_supervisor := True,
                       page_table_base := ucast (drop_bit 12 phys)\<rparr>)\<rparr>
           in (Some (tables dir i, PAGE_TABLE_INDEX virt), dir, s)
      else (None, dir, s))"

section \<open>Directories\<close>

text \<open>
  \<open>clone_page_table\<close> calls \<open>copy_frame\<close> for every mapped page; \<open>copy_frame\<close> is not
  implemented in the source and stops the machine, which is the result \<open>None\<close>.
\<close>

definition copy_frame :: "u32 \<Rightarrow> u32 \<Rightarrow> 'h vm \<Rightarrow> 'h vm option" where
  "copy_frame src dst s = None"

fun clone_pages :: "page_table \<Rightarrow> u32 \<Rightarrow> nat list \<Rightarrow> 'h vm \<Rightarrow> 'h vm option" where
  "clone_pages table clone [] s = Some s"
| "clone_pages table clone (i # is) s =
     (if frame (table i) \<noteq> 0
      then let s = alloc_page (clone, i) False False s;
               f = frame (get_pte (clone, i) s);
               s = set_pte (clone, i) ((table i)\<lparr>frame := f\<rparr>) s
           in case copy_frame (ucast (frame (table i)) * FRAME_SIZE) (ucast f * FRAME_SIZE) s of
                None \<Rightarrow> None
              | Some s \<Rightarrow> clone_pages table clone is s
      else clone_pages table clone is s)"

definition clone_page_table ::
  "(u32 \<Rightarrow> 'h \<Rightarrow> u32 \<times> u32 \<times> 'h) \<Rightarrow> u32 \<Rightarrow> 'h vm \<Rightarrow> (u32 \<times> u32 \<times> 'h vm) option" where
  "clone_page_table kap table s =
     (let (clone, phys, h) = kap 0x1000 (heap s);
          s = s\<lparr>heap := h, page_tables := (page_tables s)(clone := \<lambda>_. zero_pte)\<rparr>
      in map_option (\<lambda>s. (clone, phys, s)) (clone_pages (page_tables s table) clone [0..<1024] s))"

fun clone_tables ::
  "(u32 \<Rightarrow> 'h \<Rightarrow> u32 \<times> u32 \<times> 'h) \<Rightarrow> page_dir \<Rightarrow> page_dir \<Rightarrow> nat list \<Rightarrow> page_dir \<Rightarrow> 'h vm
     \<Rightarrow> (page_dir \<times> 'h vm) option" where
  "clone_tables kap kernel_directory dir [] clone s = Some (clone, s)"
| "clone_tables kap kernel_directory dir (i # is) clone s =
     (if tables dir i = 0 then clone_tables kap kernel_directory dir is clone s
      else if tables kernel_directory i = tables dir i
      then clone_tables kap kernel_directory dir is
             (clone\<lparr>tables := (tables clone)(i := tables dir i),
                    entries := (entries clone)(i := entries dir i)\<rparr>) s
      else case clone_page_table kap (tables dir i) s of
          None \<Rightarrow> None
        | Some (table, phys, s) \<Rightarrow>
            clone_tables kap kernel_directory dir is
              (clone\<lparr>tables := (tables clone)(i := table),
                     entries := (entries clone)(i :=
                       (entries dir i)\<lparr>page_table_base := ucast (drop_bit 12 phys)\<rparr>)\<rparr>) s)"

definition clone_page_directory ::
  "(u32 \<Rightarrow> 'h \<Rightarrow> u32 \<times> u32 \<times> 'h) \<Rightarrow> page_dir \<Rightarrow> page_dir \<Rightarrow> 'h vm \<Rightarrow> (page_dir \<times> 'h vm) option" where
  "clone_page_directory kap kernel_directory dir s =
     (let (clone_addr, phys, h) = kap 8196 (heap s)
      in clone_tables kap kernel_directory dir [0..<1024]
           \<lparr>entries = \<lambda>_. zero_pde, entries_phys_addr = phys, tables = \<lambda>_. 0\<rparr> (s\<lparr>heap := h\<rparr>))"

section \<open>Initialisation and faults\<close>

text \<open>
  \<open>raw\<close> is what memory holds where the bitmap is placed, of which \<open>memset\<close> clears the first
  bytes; \<open>p\<close> is the placement address, since \<open>kmalloc_a\<close> runs before the heap exists.
\<close>

definition paging_init :: "u32 \<Rightarrow> (nat \<Rightarrow> u32) \<Rightarrow> u32 \<Rightarrow> frame_state \<times> u32" where
  "paging_init mem_size raw p =
     (let n = mem_size div FRAME_SIZE;
          p = place_align FRAME_SIZE p
      in (\<lparr>frames = (\<lambda>i. raw i AND NOT (mask (8 * min 4 (unat (n div 8) - 4 * i)))),
           nframes = n, used_frames = 0\<rparr>,
          p + n div 8))"

text \<open>The reasons a page fault is reported with, from the error code the processor pushes.\<close>

definition page_fault_reasons :: "u32 \<Rightarrow> string list" where
  "page_fault_reasons err_code =
     (if err_code AND 1 = 0 then [''not present ''] else []) @
     (if err_code AND 2 \<noteq> 0 then [''read-only ''] else []) @
     (if err_code AND 4 \<noteq> 0 then [''user-mode ''] else []) @
     (if err_code AND 8 \<noteq> 0 then [''reserved ''] else []) @
     (if err_code AND 16 \<noteq> 0 then [''id ''] else [])"

section \<open>Address arithmetic\<close>

lemma and_3ff: "unat (w AND 0x3ff) = unat (w::u32) mod 1024"
proof -
  have "(0x3ff :: u32) = mask 10" by (simp add: mask_eq_exp_minus_1)
  then show ?thesis using unat_and_mask [of w 10] by simp
qed

lemma indices_nat:
  "PAGE_DIRECTORY_INDEX virt = unat virt div 2 ^ 22"
  "PAGE_TABLE_INDEX virt = unat virt div 2 ^ 12 mod 1024"
proof -
  show "PAGE_TABLE_INDEX virt = unat virt div 2 ^ 12 mod 1024"
    by (simp add: PAGE_TABLE_INDEX_def and_3ff unat_drop_bit)
  have "unat virt < 2 ^ 32" using unsigned_less [of virt] by simp
  then have "unat virt div 2 ^ 22 < 1024" by (simp add: div_less_iff_less_mult)
  then show "PAGE_DIRECTORY_INDEX virt = unat virt div 2 ^ 22"
    by (simp add: PAGE_DIRECTORY_INDEX_def and_3ff unat_drop_bit)
qed

lemma index_bounds: "PAGE_DIRECTORY_INDEX virt < 1024" "PAGE_TABLE_INDEX virt < 1024"
  by (simp_all add: PAGE_DIRECTORY_INDEX_def PAGE_TABLE_INDEX_def and_3ff)

text \<open>The two indices and the offset identify an address.\<close>

lemma same_page:
  "PAGE_DIRECTORY_INDEX v = PAGE_DIRECTORY_INDEX w \<and> PAGE_TABLE_INDEX v = PAGE_TABLE_INDEX w \<longleftrightarrow>
     unat v div 2 ^ 12 = unat w div 2 ^ 12"
proof -
  have d: "unat v div 2 ^ 22 = unat v div 2 ^ 12 div 1024" "unat w div 2 ^ 22 = unat w div 2 ^ 12 div 1024"
    by (simp_all add: div_mult2_eq [symmetric])
  show ?thesis unfolding indices_nat d by (metis div_mult_mod_eq)
qed

section \<open>The accesses a directory allows\<close>

text \<open>
  What the processor does with an address, with pages of 4 KiB (the bootstrap code clears the
  bit for larger ones): it finds the directory entry, the page table at the physical address
  this entry names, and the entry there. Both must be present; the page may be written, and
  may be used in user mode, when both entries allow it. \<open>view\<close> gives the address at which the
  kernel, and so \<open>page_tables\<close>, has the table of a physical address. The field \<open>tables\<close> is the
  kernel's own record and plays no part.
\<close>

definition page_access :: "(u32 \<Rightarrow> u32) \<Rightarrow> page_dir \<Rightarrow> 'h vm \<Rightarrow> u32 \<Rightarrow> (u32 \<times> bool \<times> bool) option" where
  "page_access view dir s v =
     (let d = entries dir (PAGE_DIRECTORY_INDEX v);
          e = page_tables s (view (ucast (page_table_base d) * 0x1000)) (PAGE_TABLE_INDEX v)
      in if pde_present d \<and> present e
         then Some (ucast (frame e) * 0x1000 + (v AND 0xfff), pde_read_write d \<and> read_write e,
                pde_user_supervisor d \<and> user_supervisor e)
         else None)"

text \<open>The directory entries agree with the kernel's record of the tables.\<close>

definition entry_ok :: "(u32 \<Rightarrow> u32) \<Rightarrow> u32 \<Rightarrow> pde \<Rightarrow> bool" where
  "entry_ok view table d \<longleftrightarrow>
     (if table = 0 then \<not> pde_present d
      else pde_present d \<and> pde_read_write d \<and> pde_user_supervisor d \<and>
        view (ucast (page_table_base d) * 0x1000) = table)"

definition dir_ok :: "(u32 \<Rightarrow> u32) \<Rightarrow> u32 set \<Rightarrow> page_dir \<Rightarrow> bool" where
  "dir_ok view owned dir \<longleftrightarrow> (\<forall>i. entry_ok view (tables dir i) (entries dir i)) \<and>
     (\<forall>i. tables dir i \<noteq> 0 \<longrightarrow> tables dir i \<in> owned) \<and>
     (\<forall>i j. tables dir i \<noteq> 0 \<longrightarrow> tables dir i = tables dir j \<longrightarrow> i = j)"

lemma get_set_pte: "get_pte q (set_pte p e s) = (if q = p then e else get_pte q s)"
  by (cases p; cases q) (auto simp: get_pte_def set_pte_def)

lemma set_pte_others [simp]:
  "phys_frames (set_pte p e s) = phys_frames s" "heap (set_pte p e s) = heap s"
  by (simp_all add: set_pte_def)

lemma get_pte_others [simp]:
  "get_pte p (s\<lparr>phys_frames := f\<rparr>) = get_pte p s" "get_pte p (s\<lparr>heap := h\<rparr>) = get_pte p s"
  by (simp_all add: get_pte_def)

lemma page_access_phys [simp]:
  "page_access view dir (s\<lparr>phys_frames := f\<rparr>) v = page_access view dir s v"
  "page_access view dir (s\<lparr>heap := h\<rparr>) v = page_access view dir s v"
  by (simp_all add: page_access_def)

text \<open>The access that an entry of a page table gives.\<close>

definition pte_access :: "pte \<Rightarrow> u32 \<Rightarrow> (u32 \<times> bool \<times> bool) option" where
  "pte_access e v =
     (if present e then Some (ucast (frame e) * 0x1000 + (v AND 0xfff), read_write e, user_supervisor e) else None)"

lemma page_access_pte:
  assumes "entry_ok view (tables dir (PAGE_DIRECTORY_INDEX v)) (entries dir (PAGE_DIRECTORY_INDEX v))"
  shows "page_access view dir s v =
     (let p = (tables dir (PAGE_DIRECTORY_INDEX v), PAGE_TABLE_INDEX v)
      in if fst p \<noteq> 0 then pte_access (get_pte p s) v else None)"
  using assms by (auto simp: page_access_def pte_access_def entry_ok_def get_pte_def Let_def split: if_splits)

lemma dir_ok_entry: "dir_ok view A dir \<Longrightarrow> entry_ok view (tables dir i) (entries dir i)"
  by (simp add: dir_ok_def)

text \<open>Changing one entry changes the accesses to its page and to no other.\<close>

lemma page_access_set_pte:
  assumes "dir_ok view A dir" "p = (tables dir (PAGE_DIRECTORY_INDEX v), PAGE_TABLE_INDEX v)"
    "tables dir (PAGE_DIRECTORY_INDEX v) \<noteq> 0"
  shows "page_access view dir (set_pte p e s) w =
    (if unat w div 2 ^ 12 = unat v div 2 ^ 12 then pte_access e w else page_access view dir s w)"
proof -
  have "(tables dir (PAGE_DIRECTORY_INDEX w), PAGE_TABLE_INDEX w) = p \<longleftrightarrow>
      unat w div 2 ^ 12 = unat v div 2 ^ 12"
    using assms unfolding same_page [symmetric] dir_ok_def by auto
  moreover have "tables dir (PAGE_DIRECTORY_INDEX w) \<noteq> 0" if "unat w div 2 ^ 12 = unat v div 2 ^ 12"
    using that assms(3) same_page by metis
  ultimately show ?thesis
    unfolding page_access_pte [OF dir_ok_entry [OF assms(1)]] Let_def get_set_pte by auto
qed

lemma frame_of_phys: "(ucast (ucast (phys div 0x1000 :: u32) :: 20 word) :: u32) = phys div 0x1000"
proof -
  have "unat phys < 2 ^ 32" using unsigned_less [of phys] by simp
  then have "unat (phys div 0x1000) < 2 ^ 20"
    by (simp add: unat_div div_less_iff_less_mult)
  then show ?thesis
    by (simp add: word_unat_eq_iff unsigned_ucast_eq unsigned_take_bit_eq take_bit_nat_eq_self)
qed

lemma drop_page: "drop_bit 12 (phys :: u32) = phys div 0x1000"
  by (simp add: drop_bit_eq_div)

text \<open>What \<open>map_page\<close> writes.\<close>

lemma map_page_access:
  assumes "dir_ok view A dir" "tables dir (PAGE_DIRECTORY_INDEX v) \<noteq> 0"
    "p = (tables dir (PAGE_DIRECTORY_INDEX v), PAGE_TABLE_INDEX v)"
  shows "page_access view dir (map_page p is_kernel is_writeable phys s) w =
    (if unat w div 2 ^ 12 = unat v div 2 ^ 12
     then Some (phys div 0x1000 * 0x1000 + (w AND 0xfff), is_writeable, \<not> is_kernel)
     else page_access view dir s w)"
  by (simp add: map_page_def Let_def FRAME_SIZE_def frame_of_phys pte_access_def
      page_access_set_pte [OF assms(1,3,2)])

context page_provider
begin

lemma get_page_new:
  assumes "room (heap s)" "dir_ok view (owned (heap s)) dir" "kap 0x1000 (heap s) = (a, phys, h)"
    "tables dir (PAGE_DIRECTORY_INDEX v) = 0" "get_page kap v True dir s = (p, dir', s')"
  shows "dir_ok view (owned (heap s')) dir'" "page_access view dir' s' w = page_access view dir s w"
proof -
  let ?i = "PAGE_DIRECTORY_INDEX v"
  note fresh = fresh_page [OF assms(1,3)] owned_grows [OF assms(1,3)] page_seen [OF assms(1,3)]
  have t: "tables dir' = (tables dir)(?i := a)" "heap s' = h"
      "page_tables s' = (page_tables s)(a := \<lambda>_. zero_pte)"
      "entries dir' = (entries dir)(?i := (entries dir ?i)\<lparr>pde_present := True, pde_read_write := True,
         pde_user_supervisor := True, page_table_base := ucast (drop_bit 12 phys)\<rparr>)"
    using assms(3-5) by (auto simp: get_page_def Let_def)
  have "entry_ok view (tables dir' i) (entries dir' i)" for i
    using dir_ok_entry [OF assms(2), of i] fresh by (simp add: t entry_ok_def drop_page frame_of_phys)
  then show d': "dir_ok view (owned (heap s')) dir'"
    using assms(2) fresh unfolding dir_ok_def t(1,2) by auto
  have "tables dir j \<noteq> a \<or> tables dir j = 0" for j
    using assms(2) fresh(1) unfolding dir_ok_def by metis
  then show "page_access view dir' s' w = page_access view dir s w"
    unfolding page_access_pte [OF dir_ok_entry [OF assms(2)]] page_access_pte [OF dir_ok_entry [OF d']]
    using assms(4) by (auto simp: t get_pte_def pte_access_def zero_pte_def Let_def)
qed

lemma get_page_found:
  assumes "room (heap s)" "dir_ok view (owned (heap s)) dir" "get_page kap v True dir s = (p, dir', s')"
  shows "p = Some (tables dir' (PAGE_DIRECTORY_INDEX v), PAGE_TABLE_INDEX v)"
    "tables dir' (PAGE_DIRECTORY_INDEX v) \<noteq> 0" "dir_ok view (owned (heap s')) dir'"
    "page_access view dir' s' w = page_access view dir s w" "phys_frames s' = phys_frames s"
proof -
  let ?i = "PAGE_DIRECTORY_INDEX v"
  obtain a phys h where k: "kap 0x1000 (heap s) = (a, phys, h)" by (cases "kap 0x1000 (heap s)")
  show "p = Some (tables dir' ?i, PAGE_TABLE_INDEX v)" "phys_frames s' = phys_frames s"
    "tables dir' ?i \<noteq> 0"
    using assms(3) k fresh_page [OF assms(1) k] by (auto simp: get_page_def Let_def split: if_splits)
  show "dir_ok view (owned (heap s')) dir'" "page_access view dir' s' w = page_access view dir s w"
    using get_page_new [OF assms(1,2) k _ assms(3)] assms(2,3)
    by (cases "tables dir ?i = 0"; simp add: get_page_def)+
qed

lemma map_page_accesses:
  assumes "room (heap s)" "dir_ok view (owned (heap s)) dir"
    "get_page kap v True dir s = (Some p, dir', s')"
  shows "page_access view dir' (map_page p is_kernel is_writeable phys s') w =
    (if unat w div 2 ^ 12 = unat v div 2 ^ 12
     then Some (phys div 0x1000 * 0x1000 + (w AND 0xfff), is_writeable, \<not> is_kernel)
     else page_access view dir s w)"
proof -
  note g = get_page_found [OF assms]
  have p: "p = (tables dir' (PAGE_DIRECTORY_INDEX v), PAGE_TABLE_INDEX v)" using g(1) by simp
  show ?thesis using g(4) by (simp add: map_page_access [OF g(3,2) p])
qed

end

text \<open>
  C4. Mapping a page through \<open>get_page\<close> and \<open>map_page\<close> with the early allocator makes the
  processor, walking the directory and the page table it names, find the requested physical
  page for its addresses, with the requested rights; for every other address it finds what it
  found before, also when a new page table had to be made. The directory entries agree with
  the kernel's record of the tables before, and the offset of the kernel is page-aligned.
\<close>

theorem map_page_translation:
  assumes "place_room voffset (heap s)" "dir_ok (kernel_view voffset) (placed_below (heap s)) dir"
    and "get_page (kmalloc_ap_place voffset) v True dir s = (Some p, dir', s')"
  shows "page_access (kernel_view voffset) dir' (map_page p is_kernel is_writeable phys s') w =
    (if unat w div 2 ^ 12 = unat v div 2 ^ 12
     then Some (phys div 0x1000 * 0x1000 + (w AND 0xfff), is_writeable, \<not> is_kernel)
     else page_access (kernel_view voffset) dir s w)"
  by (rule placement.map_page_accesses [OF assms])

definition empty_dir :: page_dir where
  "empty_dir = \<lparr>entries = \<lambda>_. zero_pde, entries_phys_addr = 0, tables = \<lambda>_. 0\<rparr>"

definition boot_vm :: "u32 vm" where
  "boot_vm = \<lparr>phys_frames = \<lparr>frames = \<lambda>_. 0, nframes = 1024, used_frames = 0\<rparr>,
     page_tables = \<lambda>_ _. zero_pte, heap = 0xc0200000\<rparr>"

theorem map_page_translation_witness:
  "page_access (kernel_view 0xc0000000)
     (fst (snd (get_page (kmalloc_ap_place 0xc0000000) 0xc0105000 True empty_dir boot_vm)))
     (map_page (0xc0200000, 0x105) False True 0x7000
        (snd (snd (get_page (kmalloc_ap_place 0xc0000000) 0xc0105000 True empty_dir boot_vm))))
     0xc0105123 = Some (0x7123, True, True)"
proof -
  let ?g = "get_page (kmalloc_ap_place 0xc0000000) 0xc0105000 True empty_dir boot_vm"
  have "fst ?g = Some (0xc0200000, 0x105)"
    by (simp add: get_page_def empty_dir_def boot_vm_def kmalloc_ap_place_def kmalloc_place_def
        place_align_def PAGE_DIRECTORY_INDEX_def PAGE_TABLE_INDEX_def Let_def)
  then have "?g = (Some (0xc0200000, 0x105), fst (snd ?g), snd (snd ?g))"
    by (metis prod.collapse)
  from map_page_translation [OF _ _ this, of False True "0x7000" "0xc0105123"]
  show ?thesis by (simp add: place_room_def boot_vm_def dir_ok_def entry_ok_def empty_dir_def zero_pde_def)
qed

end
