(* ===== verification/Mem_Alloc.thy ===== *)
theory Mem_Alloc
  imports Mem_Block Rb_Remove Paging
begin

text \<open>
  The operations of the allocator of \<^verbatim>\<open>kernel/mem_alloc.c\<close>: \<open>expand\<close>, \<open>contract\<close>, \<open>alloc\<close>, \<open>free\<close>
  and \<open>create_mem_allocator\<close>. The state is the allocator's structure, the memory in which the
  blocks and their tree nodes lie, and the virtual memory of \<^verbatim>\<open>kernel/paging.c\<close>. Two arguments
  stand for what the functions find around them: \<open>kap\<close> is the \<open>kmalloc_ap\<close> that \<open>get_page\<close>
  calls for a missing page table, \<open>head\<close> the stack address of the dummy root that the tree
  functions declare. A result \<open>None\<close> is a run that never returns: a failed assertion, which
  stops the machine, a null page entry, or a loop or recursion without an end.
\<close>

section \<open>State\<close>

record allocator =
  mem_tree :: "alloc_args rb_tree"
  start_address :: u32
  end_address :: u32
  min_size :: u32
  max_size :: u32
  page_directory :: page_dir
  supervisor :: u8
  readonly :: u8
  mem_used :: u32

record 'h heap_state =
  ram :: mem
  vm_state :: "'h vm"
  heap_alloc :: allocator

type_synonym 'h kap = "u32 \<Rightarrow> 'h \<Rightarrow> u32 \<times> u32 \<times> 'h"

section \<open>Moving the end of the heap\<close>

definition page_up :: "u32 \<Rightarrow> u32" where
  "page_up a = (if a mod FRAME_SIZE \<noteq> 0 then a - a mod FRAME_SIZE + FRAME_SIZE else a)"

definition expand_page :: "'h kap \<Rightarrow> 'h heap_state \<Rightarrow> 'h heap_state option" where
  "expand_page kap s =
     (let al = heap_alloc s;
          (p, dir, v) = get_page kap (end_address al) True (page_directory al) (vm_state s)
      in case p of
           None \<Rightarrow> None
         | Some p \<Rightarrow>
             Some (s\<lparr>vm_state := alloc_page p (supervisor al \<noteq> 0) (readonly al = 0) v,
                     heap_alloc := al\<lparr>page_directory := dir,
                                      end_address := end_address al + FRAME_SIZE\<rparr>\<rparr>))"

partial_function (option) expand_loop :: "'h kap \<Rightarrow> u32 \<Rightarrow> 'h heap_state \<Rightarrow> 'h heap_state option" where
  "expand_loop kap new_end s =
     (if end_address (heap_alloc s) < new_end
      then Option.bind (expand_page kap s) (expand_loop kap new_end)
      else Some s)"

definition expand :: "'h kap \<Rightarrow> u32 \<Rightarrow> 'h heap_state \<Rightarrow> 'h heap_state option" where
  "expand kap new_end s =
     (if new_end \<le> end_address (heap_alloc s) then Some s
      else let new_end = page_up new_end
        in if new_end > start_address (heap_alloc s) + max_size (heap_alloc s) then Some s
           else expand_loop kap new_end s)"

definition contract_page :: "'h kap \<Rightarrow> 'h heap_state \<Rightarrow> 'h heap_state option" where
  "contract_page kap s =
     (let al = heap_alloc s;
          (p, dir, v) = get_page kap (end_address al - FRAME_SIZE) False (page_directory al) (vm_state s)
      in case p of
           None \<Rightarrow> None
         | Some p \<Rightarrow>
             Some (s\<lparr>vm_state := free_page p v,
                     heap_alloc := al\<lparr>page_directory := dir,
                                      end_address := end_address al - FRAME_SIZE\<rparr>\<rparr>))"

partial_function (option) contract_loop :: "'h kap \<Rightarrow> u32 \<Rightarrow> 'h heap_state \<Rightarrow> 'h heap_state option" where
  "contract_loop kap new_end s =
     (if end_address (heap_alloc s) > new_end
      then Option.bind (contract_page kap s) (contract_loop kap new_end)
      else Some s)"

definition contract :: "'h kap \<Rightarrow> u32 \<Rightarrow> 'h heap_state \<Rightarrow> (u32 \<times> 'h heap_state) option" where
  "contract kap new_end s =
     (let al = heap_alloc s in
      if new_end \<ge> end_address al then Some (0, s)
      else let new_end = page_up new_end;
               new_end = (if new_end - start_address al < min_size al
                          then start_address al + min_size al else new_end)
           in map_option (\<lambda>s. (end_address (heap_alloc s), s)) (contract_loop kap new_end s))"

section \<open>The tree of free blocks\<close>

definition tree_remove ::
  "u32 \<Rightarrow> u32 \<Rightarrow> alloc_args \<Rightarrow> 'h heap_state \<Rightarrow> (u32 \<times> 'h heap_state) option" where
  "tree_remove head sz args s =
     map_option (\<lambda>(m, t, n). (n, s\<lparr>ram := m, heap_alloc := (heap_alloc s)\<lparr>mem_tree := t\<rparr>\<rparr>))
       (remove_rbnode head (mem_tree (heap_alloc s)) sz (Some args) (ram s))"

definition tree_insert :: "u32 \<Rightarrow> u32 \<Rightarrow> 'h heap_state \<Rightarrow> 'h heap_state option" where
  "tree_insert head n s =
     map_option (\<lambda>(m, t, r). s\<lparr>ram := m, heap_alloc := (heap_alloc s)\<lparr>mem_tree := t\<rparr>\<rparr>)
       (insert_rbnode head (mem_tree (heap_alloc s)) n None (ram s))"

text \<open>Header size, magic words and footer of a block, as they are written again and again.\<close>

definition write_footer :: "u32 \<Rightarrow> mem \<Rightarrow> mem" where
  "write_footer b m = (let f = get_footer b m in set_magic f (set_footer_header f b m))"

definition write_block :: "u32 \<Rightarrow> u32 \<Rightarrow> mem \<Rightarrow> mem" where
  "write_block b sz m = write_footer b (set_magic b (set_size b sz m))"

definition left_is_free :: "u32 \<Rightarrow> allocator \<Rightarrow> mem \<Rightarrow> bool" where
  "left_is_free f al m \<longleftrightarrow>
     footer_header f m \<ge> start_address al \<and> check_magic f m \<and>
     check_magic (footer_header f m) m \<and> is_free (footer_header f m) m"

section \<open>Allocation\<close>

text \<open>
  The branch of \<open>alloc\<close> that has found no block, up to its recursive call. The first component
  is false where the source returns the null pointer instead.
\<close>

definition alloc_expand :: "'h kap \<Rightarrow> u32 \<Rightarrow> u32 \<Rightarrow> 'h heap_state \<Rightarrow> (bool \<times> 'h heap_state) option" where
  "alloc_expand kap head requested_size s =
     (let old_end = end_address (heap_alloc s) in
      case expand kap (old_end + requested_size) s of
        None \<Rightarrow> None
      | Some s \<Rightarrow>
          let hole = old_end;
              m = write_block hole (end_address (heap_alloc s) - old_end) (ram s);
              hole_footer = get_footer hole m;
              left_footer = get_left_footer old_end;
              s = s\<lparr>ram := m\<rparr>
          in if left_is_free left_footer (heap_alloc s) m
             then let left = footer_header left_footer m in
                  (case tree_remove head (get_size left m)
                          \<lparr>alignment = 0, address = block_to_rbnode left\<rparr> s of
                     None \<Rightarrow> None
                   | Some (left_node, s) \<Rightarrow>
                       if left_node = 0 then Some (False, s)
                       else let left_block = rbnode_to_block left_node; m = ram s;
                                m = set_size left_block (get_size left_block m + get_size hole m) m;
                                m = set_footer_header hole_footer left_block m;
                                m = mark_free left_block m
                            in map_option (Pair True) (tree_insert head left_node (s\<lparr>ram := m\<rparr>)))
             else map_option (Pair True)
                    (tree_insert head (block_to_rbnode hole) (s\<lparr>ram := mark_free hole m\<rparr>)))"

text \<open>The loop that makes the gap before an aligned block large enough for a block.\<close>

function pad_offset :: "u32 \<Rightarrow> u32 \<Rightarrow> u32" where
  "pad_offset al offset =
     (if al \<noteq> 0 \<and> offset < MIN_BLOCK_SIZE then pad_offset al (offset + al) else offset)"
  by pat_completeness auto

termination pad_offset
proof (relation "measure (\<lambda>(al, a). if 28 \<le> unat a then 0
    else if unat al < 2 ^ 31 then 29 - unat a else Suc (unat a))", simp)
  fix al offset :: u32
  assume "al \<noteq> 0 \<and> offset < MIN_BLOCK_SIZE"
  then have "al \<noteq> 0" "unat offset < 28" by (auto simp: MIN_BLOCK_SIZE_def word_less_nat_alt)
  then show "((al, offset + al), al, offset) \<in> measure (\<lambda>(al, a). if 28 \<le> unat a then 0
      else if unat al < 2 ^ 31 then 29 - unat a else Suc (unat a))"
    using wrap_down [of al offset] step_up [of al offset] by auto
qed

declare pad_offset.simps [simp del]

text \<open>The gap becomes a free block of its own, and the rest of the block is the aligned one.\<close>

definition alloc_align :: "u32 \<Rightarrow> u32 \<Rightarrow> u32 \<Rightarrow> 'h heap_state \<Rightarrow> (u32 \<times> 'h heap_state) option" where
  "alloc_align head al block s =
     (if block_to_user block mod al \<noteq> 0
      then let offset = pad_offset al (al - block_to_user block mod al);
               new_block = block + offset;
               m = ram s;
               m = set_size new_block (get_size block m - offset) m;
               m = write_footer new_block m
           in if offset < MIN_BLOCK_SIZE then None
              else let m = set_magic block m;
                       m = set_size block offset m;
                       m = write_footer block m;
                       m = mark_free block m
                   in map_option (Pair new_block)
                        (tree_insert head (block_to_rbnode block) (s\<lparr>ram := m\<rparr>))
      else Some (block, s))"

text \<open>What the request does not need of the block goes back to the tree, if it is a block.\<close>

definition alloc_split :: "u32 \<Rightarrow> u32 \<Rightarrow> u32 \<Rightarrow> 'h heap_state \<Rightarrow> 'h heap_state option" where
  "alloc_split head requested_size block s =
     (let m = ram s;
          block_size = get_size block m;
          frag_size = block_size - requested_size
      in if frag_size > 0 \<and> frag_size \<ge> MIN_BLOCK_SIZE
         then let m = write_block block requested_size m;
                  next_block = get_next_block block m;
                  m = write_block next_block frag_size m;
                  m = mark_free next_block m
              in tree_insert head (block_to_rbnode next_block) (s\<lparr>ram := m\<rparr>)
         else Some s)"

definition alloc_block ::
  "u32 \<Rightarrow> u32 \<Rightarrow> u32 \<Rightarrow> u32 \<Rightarrow> 'h heap_state \<Rightarrow> (u32 \<times> 'h heap_state) option" where
  "alloc_block head requested_size al node s =
     (case alloc_align head al (rbnode_to_block node) s of
        None \<Rightarrow> None
      | Some (block, s) \<Rightarrow>
          (case alloc_split head requested_size block s of
             None \<Rightarrow> None
           | Some s \<Rightarrow>
               let m = mark_used block (ram s)
               in Some (block_to_user block, s\<lparr>ram := m, heap_alloc := (heap_alloc s)
                    \<lparr>mem_used := mem_used (heap_alloc s) + get_size block m\<rparr>\<rparr>)))"

partial_function (option) alloc ::
  "'h kap \<Rightarrow> u32 \<Rightarrow> u32 \<Rightarrow> u32 \<Rightarrow> 'h heap_state \<Rightarrow> (u32 \<times> 'h heap_state) option" where
  "alloc kap head sz align s =
     (let requested_size = get_block_size sz;
          align = (if align = 0 then 1 else align)
      in case tree_remove head requested_size \<lparr>alignment = align, address = 0\<rparr> s of
           None \<Rightarrow> None
         | Some (node, s) \<Rightarrow>
             if node = 0
             then (case alloc_expand kap head requested_size s of
                     None \<Rightarrow> None
                   | Some (ok, s) \<Rightarrow> if ok then alloc kap head sz align s else Some (0, s))
             else alloc_block head requested_size align node s)"

section \<open>Release\<close>

text \<open>The merge with the right neighbour; the first component is false where \<open>free\<close> returns.\<close>

definition merge_right :: "u32 \<Rightarrow> u32 \<Rightarrow> 'h heap_state \<Rightarrow> (bool \<times> 'h heap_state) option" where
  "merge_right head block s =
     (let m = ram s; neighbour = get_next_block block m in
      if neighbour + get_size neighbour m \<le> end_address (heap_alloc s) \<and>
         check_magic neighbour m \<and> check_magic (get_footer neighbour m) m \<and> is_free neighbour m
      then (case tree_remove head (get_size neighbour m)
                   \<lparr>alignment = 0, address = block_to_rbnode neighbour\<rparr> s of
              None \<Rightarrow> None
            | Some (n, s) \<Rightarrow>
                if n = 0 then Some (False, s)
                else let m = ram s;
                         m = set_size block (get_size block m + get_size neighbour m) m;
                         m = mark_free block m;
                         m = set_footer_header (get_footer block m) block m
                     in Some (True, s\<lparr>ram := m\<rparr>))
      else Some (True, s))"

definition merge_left :: "u32 \<Rightarrow> u32 \<Rightarrow> 'h heap_state \<Rightarrow> (u32 option \<times> 'h heap_state) option" where
  "merge_left head block s =
     (let m = ram s; footer = get_left_footer block in
      if left_is_free footer (heap_alloc s) m
      then let neighbour = footer_header footer m in
           (case tree_remove head (get_size neighbour m)
                   \<lparr>alignment = 0, address = block_to_rbnode neighbour\<rparr> s of
              None \<Rightarrow> None
            | Some (n, s) \<Rightarrow>
                if n = 0 then Some (None, s)
                else let m = ram s;
                         m = set_size neighbour (get_size neighbour m + get_size block m) m;
                         m = mark_free neighbour m;
                         m = set_footer_header (get_footer neighbour m) neighbour m
                     in Some (Some neighbour, s\<lparr>ram := m\<rparr>))
      else Some (Some block, s))"

text \<open>The last block of the heap gives its pages back; false when nothing of it is left.\<close>

definition trim :: "'h kap \<Rightarrow> u32 \<Rightarrow> 'h heap_state \<Rightarrow> (bool \<times> 'h heap_state) option" where
  "trim kap block s =
     (let al = heap_alloc s in
      if get_footer block (ram s) + 8 = end_address al \<and>
         end_address al - start_address al > min_size al
      then let block_size = get_size block (ram s) in
           (case contract kap block s of
              None \<Rightarrow> None
            | Some (new_end, s) \<Rightarrow>
                let space_removed = end_address al - new_end
                in if block_size - space_removed > 0
                   then let m = set_size block (block_size - space_removed) (ram s);
                            m = mark_free block m;
                            footer = get_footer block m;
                            m = set_footer_header footer block (set_magic footer m)
                        in Some (True, s\<lparr>ram := m\<rparr>)
                   else Some (False, s))
      else Some (True, s))"

definition free_block :: "'h kap \<Rightarrow> u32 \<Rightarrow> u32 \<Rightarrow> 'h heap_state \<Rightarrow> 'h heap_state option" where
  "free_block kap head block s =
     (case merge_right head block s of
        None \<Rightarrow> None
      | Some (ok, s) \<Rightarrow>
          if \<not> ok then Some s
          else case merge_left head block s of
              None \<Rightarrow> None
            | Some (b, s) \<Rightarrow>
                (case b of
                   None \<Rightarrow> Some s
                 | Some block \<Rightarrow>
                     (case trim kap block s of
                        None \<Rightarrow> None
                      | Some (ins, s) \<Rightarrow>
                          if ins then tree_insert head (block_to_rbnode block) s else Some s)))"

definition free :: "'h kap \<Rightarrow> u32 \<Rightarrow> u32 \<Rightarrow> 'h heap_state \<Rightarrow> 'h heap_state option" where
  "free kap head p s =
     (if p = 0 then Some s
      else let block = user_to_block p; m = ram s in
        if \<not> check_magic block m then None
        else if is_free block m then Some s
        else let m = mark_free block m in
          if \<not> check_magic (get_footer block m) m then None
          else free_block kap head block
                 (s\<lparr>ram := m, heap_alloc := (heap_alloc s)
                    \<lparr>mem_used := mem_used (heap_alloc s) - get_size block m\<rparr>\<rparr>))"

section \<open>Creation\<close>

text \<open>
  The allocator's structure takes the first 48 bytes of its heap. \<open>tree0\<close> is what is found
  there, since \<open>init_rbtree\<close> sets the root and the callbacks only; \<open>None\<close> inside is the null
  pointer returned for bounds that are not page-aligned.
\<close>

definition SIZEOF_ALLOCATOR :: u32 where "SIZEOF_ALLOCATOR = 48"

definition granular_start :: "u32 \<Rightarrow> u32" where
  "granular_start a =
     (let a = a + SIZEOF_ALLOCATOR
      in if a mod MIN_BLOCK_SIZE \<noteq> 0 then a - a mod MIN_BLOCK_SIZE + MIN_BLOCK_SIZE else a)"

definition create_mem_allocator ::
  "u32 \<Rightarrow> alloc_args rb_tree \<Rightarrow> u32 \<Rightarrow> u32 \<Rightarrow> u32 \<Rightarrow> u32 \<Rightarrow> u8 \<Rightarrow> u8 \<Rightarrow> page_dir \<Rightarrow> mem \<Rightarrow> 'h vm
     \<Rightarrow> 'h heap_state option option" where
  "create_mem_allocator head tree0 start endd mn mx sv ro dir m v =
     (if start mod FRAME_SIZE \<noteq> 0 \<or> endd mod FRAME_SIZE \<noteq> 0 then Some None
      else let start = granular_start start;
               al = \<lparr>mem_tree = init_rbtree tree0 compare select_dup, start_address = start,
                     end_address = endd, min_size = mn, max_size = mx, page_directory = dir,
                     supervisor = sv, readonly = ro, mem_used = 0\<rparr>;
               hole = start;
               m = write_block hole (endd - start) m;
               m = mark_free hole m
           in map_option Some
                (tree_insert head (block_to_rbnode hole) \<lparr>ram = m, vm_state = v, heap_alloc = al\<rparr>))"

definition mem_free :: "allocator \<Rightarrow> u32" where
  "mem_free al = end_address al - start_address al - mem_used al"

end
