(* ===== verification/Mem_Alloc_Props.thy ===== *)
theory Mem_Alloc_Props
  imports Mem_Alloc
begin

text \<open>
  What the allocator of \<^verbatim>\<open>kernel/mem_alloc.c\<close> does: the size of a block, where \<open>expand\<close> and
  \<open>contract\<close> leave the end of the heap, and that both return.
\<close>

section \<open>Rounding\<close>

lemma frame_size_nat: "unat FRAME_SIZE = 4096"
  by (simp add: FRAME_SIZE_def)

lemma unat_mod_frame: "unat (a mod FRAME_SIZE) = unat a mod 4096"
  by (simp add: unat_mod frame_size_nat)

lemma aligned_nat: "a mod FRAME_SIZE = 0 \<longleftrightarrow> unat a mod 4096 = 0"
  using unat_mod_frame [of a] by (metis unat_eq_zero)

lemma aligned_below:
  assumes "a mod FRAME_SIZE = 0" "b mod FRAME_SIZE = 0" "a < b"
  shows "unat a + 4096 \<le> unat b"
proof -
  have "4096 dvd unat a" "4096 dvd unat b" using assms(1,2) by (auto simp: aligned_nat)
  then have "4096 dvd unat b - unat a" by (rule dvd_diff_nat [rotated])
  moreover have "0 < unat b - unat a" using assms(3) by (simp add: word_less_nat_alt)
  ultimately have "4096 \<le> unat b - unat a" by (rule dvd_imp_le)
  then show ?thesis by simp
qed

lemma next_page:
  assumes "a mod FRAME_SIZE = 0" "b mod FRAME_SIZE = 0" "a < b"
  shows "unat (a + FRAME_SIZE) = unat a + 4096" "(a + FRAME_SIZE) mod FRAME_SIZE = 0" "a + FRAME_SIZE \<le> b"
proof -
  have le: "unat a + 4096 \<le> unat b" by (rule aligned_below [OF assms])
  moreover have "unat b < 2 ^ 32" using unsigned_less [of b] by simp
  ultimately show n: "unat (a + FRAME_SIZE) = unat a + 4096"
    by (subst unat_add_lem [THEN iffD1]) (auto simp: frame_size_nat)
  show "(a + FRAME_SIZE) mod FRAME_SIZE = 0" using assms(1) by (simp add: aligned_nat n)
  show "a + FRAME_SIZE \<le> b" using le n by (simp add: word_le_nat_alt)
qed

lemma page_down:
  "unat (a - a mod FRAME_SIZE) = unat a - unat a mod 4096" "(a - a mod FRAME_SIZE) mod FRAME_SIZE = 0"
proof -
  have "a mod FRAME_SIZE \<le> a" by (simp add: word_le_nat_alt unat_mod_frame)
  then show n: "unat (a - a mod FRAME_SIZE) = unat a - unat a mod 4096"
    by (simp add: unat_sub unat_mod_frame)
  show "(a - a mod FRAME_SIZE) mod FRAME_SIZE = 0"
    unfolding aligned_nat n by (simp add: minus_mod_eq_mult_div)
qed

lemma page_up_aligned: "page_up a mod FRAME_SIZE = 0"
proof (cases "a mod FRAME_SIZE = 0")
  case False
  have "unat (a - a mod FRAME_SIZE + FRAME_SIZE) mod 4096 =
      (unat a - unat a mod 4096 + 4096) mod 4096"
    by (simp add: unat_word_ariths(1) page_down frame_size_nat mod_mod_cancel)
  also have "\<dots> = 0" by (simp add: minus_mod_eq_mult_div)
  finally show ?thesis using False by (simp add: page_up_def aligned_nat)
qed (simp add: page_up_def)

section \<open>Moving the end of the heap\<close>

lemma get_page_makes: "\<exists>p dir v. get_page kap virt True d s = (Some p, dir, v)"
  by (cases "kap 0x1000 (heap s)") (simp add: get_page_def Let_def)

lemma expand_page_steps:
  "\<exists>v dir. expand_page kap s = Some (s\<lparr>vm_state := v,
     heap_alloc := (heap_alloc s)\<lparr>page_directory := dir, end_address := end_address (heap_alloc s) + FRAME_SIZE\<rparr>\<rparr>)"
proof -
  let ?al = "heap_alloc s"
  obtain p dir v where "get_page kap (end_address ?al) True (page_directory ?al) (vm_state s) = (Some p, dir, v)"
    using get_page_makes by blast
  then have "expand_page kap s = Some (s\<lparr>vm_state := alloc_page p (supervisor ?al \<noteq> 0) (readonly ?al = 0) v,
      heap_alloc := ?al\<lparr>page_directory := dir, end_address := end_address ?al + FRAME_SIZE\<rparr>\<rparr>)"
    by (simp only: expand_page_def Let_def prod.case option.case)
  then show ?thesis by blast
qed

definition resized :: "u32 \<Rightarrow> 'h heap_state \<Rightarrow> 'h heap_state \<Rightarrow> bool" where
  "resized e s s' \<longleftrightarrow> (\<exists>v dir. s' = s\<lparr>vm_state := v,
     heap_alloc := (heap_alloc s)\<lparr>page_directory := dir, end_address := e\<rparr>\<rparr>)"

lemma resized_self: "resized (end_address (heap_alloc s)) s s"
  unfolding resized_def
  by (rule exI [of _ "vm_state s"], rule exI [of _ "page_directory (heap_alloc s)"]) simp

lemma resized_trans: "resized d s s' \<Longrightarrow> resized e s' s'' \<Longrightarrow> resized e s s''"
  unfolding resized_def by clarify (simp, blast)

lemma resized_end: "resized e s s' \<Longrightarrow> end_address (heap_alloc s') = e"
  by (auto simp: resized_def)

text \<open>Nothing of the allocator but the end of the heap and its page directory has changed.\<close>

definition only_end_moved :: "allocator \<Rightarrow> allocator \<Rightarrow> bool" where
  "only_end_moved al al' \<longleftrightarrow>
     mem_tree al' = mem_tree al \<and> start_address al' = start_address al \<and> min_size al' = min_size al \<and>
     max_size al' = max_size al \<and> supervisor al' = supervisor al \<and> readonly al' = readonly al \<and>
     mem_used al' = mem_used al"

lemma resized_rest:
  "resized e s s' \<Longrightarrow> ram s' = ram s" "resized e s s' \<Longrightarrow> only_end_moved (heap_alloc s) (heap_alloc s')"
  by (auto simp: resized_def only_end_moved_def)

lemma expand_loop_ends:
  assumes "new_end mod FRAME_SIZE = 0" "end_address (heap_alloc s) mod FRAME_SIZE = 0"
    "end_address (heap_alloc s) \<le> new_end"
  shows "\<exists>s'. expand_loop kap new_end s = Some s' \<and> resized new_end s s'"
  using assms
proof (induction "unat new_end - unat (end_address (heap_alloc s))" arbitrary: s rule: less_induct)
  case less
  let ?e = "end_address (heap_alloc s)"
  show ?case
  proof (cases "?e < new_end")
    case False
    then have e: "?e = new_end" using less.prems(3) by simp
    then have "expand_loop kap new_end s = Some s" by (subst expand_loop.simps) simp
    then show ?thesis using resized_self [of s] unfolding e by blast
  next
    case True
    note n = next_page [OF less.prems(2,1) True]
    obtain s1 where s1: "expand_page kap s = Some s1" "resized (?e + FRAME_SIZE) s s1"
      using expand_page_steps [of kap s] unfolding resized_def by blast
    have e1: "end_address (heap_alloc s1) = ?e + FRAME_SIZE" by (rule resized_end [OF s1(2)])
    have "unat new_end - unat (?e + FRAME_SIZE) < unat new_end - unat ?e"
      using n(1) True by (simp add: word_less_nat_alt)
    then obtain s' where "expand_loop kap new_end s1 = Some s'" "resized new_end s1 s'"
      using less.hyps [of s1] less.prems(1) n(2,3) unfolding e1 by blast
    moreover have "expand_loop kap new_end s = expand_loop kap new_end s1"
      using True s1(1) by (subst expand_loop.simps) simp
    ultimately show ?thesis using resized_trans [OF s1(2)] by auto
  qed
qed

lemma expand_result:
  assumes "end_address (heap_alloc s) mod FRAME_SIZE = 0"
  shows "\<exists>s'. expand kap new_end s = Some s' \<and>
    resized (if new_end \<le> end_address (heap_alloc s) \<or>
                page_up new_end > start_address (heap_alloc s) + max_size (heap_alloc s)
             then end_address (heap_alloc s) else max (end_address (heap_alloc s)) (page_up new_end)) s s'"
proof -
  let ?al = "heap_alloc s"
  consider (refused) "new_end \<le> end_address ?al \<or> page_up new_end > start_address ?al + max_size ?al"
    | (wrapped) "\<not> (new_end \<le> end_address ?al \<or> page_up new_end > start_address ?al + max_size ?al)"
        "page_up new_end < end_address ?al"
    | (grown) "\<not> (new_end \<le> end_address ?al \<or> page_up new_end > start_address ?al + max_size ?al)"
        "end_address ?al \<le> page_up new_end"
    by fastforce
  then show ?thesis
  proof cases
    case refused
    then show ?thesis using resized_self [of s] by (auto simp: expand_def Let_def)
  next
    case wrapped
    then have "expand kap new_end s = Some s"
      by (subst expand_def) (simp add: Let_def expand_loop.simps less_not_sym)
    then show ?thesis using wrapped resized_self [of s] by (auto simp: max_def)
  next
    case grown
    then show ?thesis
      using expand_loop_ends [OF page_up_aligned assms grown(2), of kap]
      by (auto simp: expand_def Let_def max_def)
  qed
qed

lemma contract_loop_ends:
  assumes "end_address (heap_alloc s) mod FRAME_SIZE = 0" "t \<le> end_address (heap_alloc s)"
    "\<And>v. t - t mod FRAME_SIZE \<le> v \<Longrightarrow> v < end_address (heap_alloc s) \<Longrightarrow>
       tables (page_directory (heap_alloc s)) (PAGE_DIRECTORY_INDEX v) \<noteq> 0"
  shows "\<exists>s'. contract_loop kap t s = Some s' \<and> resized (t - t mod FRAME_SIZE) s s'"
  using assms
proof (induction "unat (end_address (heap_alloc s))" arbitrary: s rule: less_induct)
  case less
  let ?e = "end_address (heap_alloc s)" and ?d = "page_directory (heap_alloc s)"
  show ?case
  proof (cases "?e > t")
    case False
    then have e: "?e = t" using less.prems(2) by simp
    then have "contract_loop kap t s = Some s" by (subst contract_loop.simps) simp
    moreover have "t - t mod FRAME_SIZE = ?e" using less.prems(1) e by simp
    ultimately show ?thesis using resized_self [of s] by auto
  next
    case True
    have down: "t - t mod FRAME_SIZE \<le> t" by (simp add: word_le_nat_alt page_down)
    have le: "unat (t - t mod FRAME_SIZE) + 4096 \<le> unat ?e"
      by (rule aligned_below [OF page_down(2) less.prems(1)]) (use True down in simp)
    then have sub: "unat (?e - FRAME_SIZE) = unat ?e - 4096"
      by (subst unat_sub) (simp_all add: word_le_nat_alt frame_size_nat)
    have al: "(?e - FRAME_SIZE) mod FRAME_SIZE = 0"
      using less.prems(1) le unfolding aligned_nat sub by (metis add_leE le_mod_geq)
    have lt: "?e - FRAME_SIZE < ?e" "t - t mod FRAME_SIZE \<le> ?e - FRAME_SIZE"
      using le by (simp_all add: word_less_nat_alt word_le_nat_alt sub)
    have tab: "tables ?d (PAGE_DIRECTORY_INDEX (?e - FRAME_SIZE)) \<noteq> 0"
      using less.prems(3) lt by blast
    define s1 where "s1 = s\<lparr>vm_state := free_page (tables ?d (PAGE_DIRECTORY_INDEX (?e - FRAME_SIZE)),
        PAGE_TABLE_INDEX (?e - FRAME_SIZE)) (vm_state s),
      heap_alloc := (heap_alloc s)\<lparr>page_directory := ?d, end_address := ?e - FRAME_SIZE\<rparr>\<rparr>"
    have step: "contract_page kap s = Some s1"
      using tab by (simp add: contract_page_def get_page_def Let_def s1_def)
    have r1: "resized (?e - FRAME_SIZE) s s1" unfolding resized_def s1_def by blast
    have e1: "end_address (heap_alloc s1) = ?e - FRAME_SIZE" "page_directory (heap_alloc s1) = ?d"
      by (simp_all add: s1_def)
    have loop: "contract_loop kap t s = contract_loop kap t s1"
      using True step by (subst contract_loop.simps) simp
    show ?thesis
    proof (cases "t \<le> ?e - FRAME_SIZE")
      case True
      have "v < ?e - FRAME_SIZE \<Longrightarrow> v < ?e" for v using lt(1) by (meson order.strict_trans)
      then obtain s' where "contract_loop kap t s1 = Some s'" "resized (t - t mod FRAME_SIZE) s1 s'"
        using less.hyps [of s1] less.prems(3) al True lt(1) unfolding e1 by (metis word_less_nat_alt)
      then show ?thesis using resized_trans [OF r1] loop by auto
    next
      case False
      then have "\<not> t < end_address (heap_alloc s1)" unfolding e1 by simp
      then have stop: "contract_loop kap t s1 = Some s1" by (subst contract_loop.simps) simp
      have "\<not> ?e - FRAME_SIZE > t - t mod FRAME_SIZE"
      proof
        assume "?e - FRAME_SIZE > t - t mod FRAME_SIZE"
        from aligned_below [OF page_down(2) al this]
        have "unat t - unat t mod 4096 + 4096 \<le> unat ?e - 4096" by (simp only: page_down sub)
        moreover have "unat ?e - 4096 < unat t" using False by (simp add: word_le_nat_alt sub)
        moreover have "unat t mod 4096 < 4096" by simp
        ultimately show False by linarith
      qed
      then have "?e - FRAME_SIZE = t - t mod FRAME_SIZE" using lt(2) by simp
      then show ?thesis using loop stop r1 by simp
    qed
  qed
qed

section \<open>Where the heap ends\<close>

text \<open>
  \<open>expand\<close> always returns when the heap ends on a page boundary. A new end that is not
  behind the old one, or that rounded up to a page is beyond \<open>start_address + max_size\<close>, is
  refused and changes nothing; otherwise the heap ends at the rounded address afterwards,
  and of the rest only the page directory and the virtual memory behind it may differ.
\<close>

theorem expand_moves_end:
  assumes "end_address (heap_alloc s) mod FRAME_SIZE = 0"
  shows "\<exists>s'. expand kap new_end s = Some s' \<and>
    (let al = heap_alloc s; al' = heap_alloc s'
     in end_address al' =
          (if new_end \<le> end_address al \<or> page_up new_end > start_address al + max_size al
           then end_address al else max (end_address al) (page_up new_end)) \<and>
        end_address al' mod FRAME_SIZE = 0 \<and>
        (end_address al' = end_address al \<or> end_address al' \<le> start_address al + max_size al) \<and>
        ram s' = ram s \<and> only_end_moved al al')"
proof -
  define e where "e = (if new_end \<le> end_address (heap_alloc s) \<or>
      page_up new_end > start_address (heap_alloc s) + max_size (heap_alloc s)
    then end_address (heap_alloc s) else max (end_address (heap_alloc s)) (page_up new_end))"
  obtain s' where s': "expand kap new_end s = Some s'" "resized e s s'"
    using expand_result [OF assms] unfolding e_def by blast
  have "e mod FRAME_SIZE = 0" using assms page_up_aligned [of new_end] by (simp add: max_def e_def)
  moreover have "e = end_address (heap_alloc s) \<or> e \<le> start_address (heap_alloc s) + max_size (heap_alloc s)"
    by (auto simp: max_def not_less e_def)
  ultimately show ?thesis
    using s'(1) resized_rest [OF s'(2)] resized_end [OF s'(2)] unfolding e_def [symmetric] Let_def
    by metis
qed

text \<open>The address down to which \<open>contract\<close> gives pages back.\<close>

definition contract_target :: "u32 \<Rightarrow> allocator \<Rightarrow> u32" where
  "contract_target a al =
     (if page_up a - start_address al < min_size al then start_address al + min_size al else page_up a)"

lemma contract_result:
  assumes "end_address (heap_alloc s) mod FRAME_SIZE = 0" "a < end_address (heap_alloc s)"
    "t = contract_target a (heap_alloc s)"
    "\<And>v. t - t mod FRAME_SIZE \<le> v \<Longrightarrow> v < end_address (heap_alloc s) \<Longrightarrow>
       tables (page_directory (heap_alloc s)) (PAGE_DIRECTORY_INDEX v) \<noteq> 0"
  shows "\<exists>s'. contract kap a s = Some (end_address (heap_alloc s'), s') \<and>
    resized (if t \<le> end_address (heap_alloc s) then t - t mod FRAME_SIZE else end_address (heap_alloc s)) s s'"
proof -
  have c: "contract kap a s =
      map_option (\<lambda>s. (end_address (heap_alloc s), s)) (contract_loop kap t s)"
    using assms(2) by (simp add: contract_def Let_def assms(3) contract_target_def not_le [symmetric])
  show ?thesis
  proof (cases "t \<le> end_address (heap_alloc s)")
    case True
    then show ?thesis unfolding c using contract_loop_ends [OF assms(1) True assms(4), of kap] by auto
  next
    case False
    then have "\<not> t < end_address (heap_alloc s)" by simp
    then have "contract_loop kap t s = Some s" by (subst contract_loop.simps) simp
    then show ?thesis unfolding c using False resized_self [of s] by simp
  qed
qed

text \<open>
  \<open>contract\<close> returns when the heap ends on a page boundary and its pages have page tables.
  It frees whole pages down to the page in which its target lies, so it ends at or below the
  target; the target is the requested address rounded up, or \<open>start_address + min_size\<close> when
  that would leave less than \<open>min_size\<close>. The second kind of target need not be a multiple of
  the page size, and the heap is then smaller than \<open>min_size\<close>, by less than a page.
\<close>

theorem contract_moves_end:
  assumes "end_address (heap_alloc s) mod FRAME_SIZE = 0" "a < end_address (heap_alloc s)"
    "t = contract_target a (heap_alloc s)" "t \<le> end_address (heap_alloc s)"
    "\<And>v. t - t mod FRAME_SIZE \<le> v \<Longrightarrow> v < end_address (heap_alloc s) \<Longrightarrow>
       tables (page_directory (heap_alloc s)) (PAGE_DIRECTORY_INDEX v) \<noteq> 0"
  shows "\<exists>s'. contract kap a s = Some (end_address (heap_alloc s'), s') \<and>
    (let al = heap_alloc s; al' = heap_alloc s'
     in end_address al' = t - t mod FRAME_SIZE \<and> end_address al' mod FRAME_SIZE = 0 \<and>
        end_address al' \<le> t \<and> unat t < unat (end_address al') + 4096 \<and>
        ram s' = ram s \<and> only_end_moved al al')"
proof -
  obtain s' where s': "contract kap a s = Some (end_address (heap_alloc s'), s')"
    "resized (t - t mod FRAME_SIZE) s s'"
    using contract_result [OF assms(1-3,5)] assms(4) by auto
  have "unat t mod 4096 < 4096" by simp
  then have "unat t < unat t - unat t mod 4096 + 4096" by linarith
  then have "unat t < unat (t - t mod FRAME_SIZE) + 4096" by (simp add: page_down)
  moreover have "t - t mod FRAME_SIZE \<le> t" by (simp add: word_le_nat_alt page_down)
  ultimately show ?thesis
    using s'(1) page_down(2) [of t] resized_rest [OF s'(2)] resized_end [OF s'(2)]
    unfolding Let_def by metis
qed

text \<open>A heap of three pages at \<open>0x101000\<close> whose directory has the one page table it needs.\<close>

definition small_allocator :: allocator where
  "small_allocator = \<lparr>mem_tree = rb_tree.make 0 0 0 compare select_dup, start_address = 0x10104c,
     end_address = 0x104000, min_size = 0x1000, max_size = 0x5000,
     page_directory = \<lparr>entries = \<lambda>_. zero_pde, entries_phys_addr = 0, tables = \<lambda>_. 0x2000\<rparr>,
     supervisor = 1, readonly = 0, mem_used = 0\<rparr>"

definition small_heap :: "unit heap_state" where
  "small_heap = \<lparr>ram = \<lambda>_. 0,
     vm_state = \<lparr>phys_frames = \<lparr>frames = \<lambda>_. 0, nframes = 64, used_frames = 0\<rparr>,
       page_tables = \<lambda>_ _. zero_pte, heap = ()\<rparr>,
     heap_alloc = small_allocator\<rparr>"

theorem expand_moves_end_witness:
  "\<exists>s'. expand (\<lambda>_ _. (0, 0, ())) 0x104020 small_heap = Some s' \<and> end_address (heap_alloc s') = 0x105000"
  using expand_moves_end [of small_heap "\<lambda>_ _. (0, 0, ())" "0x104020"]
  by (auto simp: small_heap_def small_allocator_def FRAME_SIZE_def page_up_def max_def Let_def only_end_moved_def)

theorem contract_moves_end_witness:
  "\<exists>s'. contract (\<lambda>_ _. (0, 0, ())) 0x10104c small_heap = Some (0x102000, s') \<and>
     end_address (heap_alloc s') - start_address (heap_alloc s') = 0xfb4"
  using contract_moves_end [of small_heap "0x10104c" "0x10204c" "\<lambda>_ _. (0, 0, ())"]
  by (auto simp: small_heap_def small_allocator_def FRAME_SIZE_def page_up_def contract_target_def Let_def
      only_end_moved_def)

section \<open>The size of a block\<close>

lemma block_size_nat:
  assumes "unat sz + 19 < 2 ^ 32"
  shows "unat (get_block_size sz) = max 28 ((unat sz + 19) div 4 * 4)"
proof -
  have "unat (sz + 19) = unat sz + 19" using assms by (subst unat_add_lem [THEN iffD1]) auto
  then have d: "unat ((sz + 19) div 4) = (unat sz + 19) div 4" by (simp add: unat_div)
  have "(unat sz + 19) div 4 * 4 \<le> unat sz + 19" by simp
  then have "unat ((sz + 19) div 4 * 4) = (unat sz + 19) div 4 * 4"
    using assms d by (subst unat_mult_lem [THEN iffD1]) auto
  moreover have "get_block_size sz = (if (sz + 19) div 4 * 4 < 28 then 28 else (sz + 19) div 4 * 4)"
    by (simp add: get_block_size_def rounded_size_def MIN_BLOCK_SIZE_def USER_PTR_OFFSET_def Let_def add.commute)
  ultimately show ?thesis by (simp add: word_less_nat_alt max_def)
qed

text \<open>
  C40. As long as the sum does not wrap around, the block for a request is the request and the
  sixteen bytes around it rounded up to a multiple of four, or 28 bytes, those of a free block's
  header and footer, when that is more. So its size is a multiple of four and has room for
  the request, and it is 28 or exceeds the request and the sixteen bytes by less than four.
\<close>

theorem block_size_bounds:
  assumes "unat sz + 19 < 2 ^ 32"
  shows "unat (get_block_size sz) = max 28 ((unat sz + 19) div 4 * 4) \<and>
    unat (get_block_size sz) mod 4 = 0 \<and> 28 \<le> unat (get_block_size sz) \<and>
    unat sz + 16 \<le> unat (get_block_size sz) \<and>
    (unat (get_block_size sz) = 28 \<or> unat (get_block_size sz) < unat sz + 20)"
  unfolding block_size_nat [OF assms] by (simp add: max_def) linarith

theorem block_size_bounds_witness: "unat (get_block_size 101) = 120 \<and> unat (get_block_size 0) = 28"
  using block_size_bounds [of 101] block_size_bounds [of 0] by simp

end
