(* ===== verification/Block_Layout.thy ===== *)
theory Block_Layout
  imports Mem_Alloc_Props
begin

text \<open>
  The blocks of \<^verbatim>\<open>kernel/mem_alloc.c\<close> as they lie in memory: which words belong to a block, which
  of them are its header and footer, and what the functions that write a block leave there.
\<close>

section \<open>Blocks in memory\<close>

definition fits :: "u32 \<Rightarrow> u32 \<Rightarrow> bool" where
  "fits b sz \<longleftrightarrow> 28 \<le> unat sz \<and> unat b + unat sz < 2 ^ 32"

definition block_words :: "u32 \<Rightarrow> u32 \<Rightarrow> u32 set" where
  "block_words b sz = {b, b + 4, b + sz - 8, b + sz - 4}"

definition block_at :: "u32 \<Rightarrow> u32 \<Rightarrow> bool \<Rightarrow> mem \<Rightarrow> bool" where
  "block_at b sz fr m \<longleftrightarrow> get_size b m = sz \<and> check_magic b m \<and> is_free b m = fr \<and>
     check_magic (b + sz - 8) m \<and> footer_header (b + sz - 8) m = b"

lemma block_offset_nat: "fits b sz \<Longrightarrow> unat c \<le> unat sz \<Longrightarrow> unat (b + c) = unat b + unat c"
  by (subst unat_add_lem [THEN iffD1]) (auto simp: fits_def)

lemma back_nat:
  assumes "fits b sz" "unat c \<le> unat sz"
  shows "unat (b + sz - c) = unat b + unat sz - unat c"
  using block_offset_nat [OF assms(1), of sz] assms by (subst unat_sub) (simp_all add: word_le_nat_alt)

lemma block_nat:
  assumes "fits b sz"
  shows "unat (b + 4) = unat b + 4" "unat (b + 8) = unat b + 8" "unat (b + 12) = unat b + 12"
    "unat (b + 16) = unat b + 16" "unat (b + sz - 8) = unat b + unat sz - 8"
    "unat (b + sz - 4) = unat b + unat sz - 4"
proof -
  have le: "28 \<le> unat sz" using assms by (simp add: fits_def)
  show "unat (b + 4) = unat b + 4" "unat (b + 8) = unat b + 8" "unat (b + 12) = unat b + 12"
    "unat (b + 16) = unat b + 16"
    using block_offset_nat [OF assms, of 4] block_offset_nat [OF assms, of 8] block_offset_nat [OF assms, of 12]
      block_offset_nat [OF assms, of 16] le by simp_all
  show "unat (b + sz - 8) = unat b + unat sz - 8" "unat (b + sz - 4) = unat b + unat sz - 4"
    using back_nat [OF assms, of 8] back_nat [OF assms, of 4] le by simp_all
qed

lemma block_words_region: "fits b sz \<Longrightarrow> block_words b sz \<subseteq> region b sz"
  using block_nat [of b sz] by (auto simp: block_words_def region_def fits_def)

lemma node_words_block: "node_words (b + 4) = {b + 4, b + 8, b + 12, b + 16}"
  by (simp add: node_words_def add.assoc)

lemma link_words_block: "link_words {b + 4} = {b + 8, b + 12, b + 16}"
  by (simp add: link_words_def add.assoc)

lemma node_region: "fits b sz \<Longrightarrow> node_words (b + 4) \<subseteq> region b sz"
  using block_nat [of b sz] by (auto simp: node_words_block region_def fits_def)

lemma block_words_distinct:
  "fits b sz \<Longrightarrow> distinct [b, b + 4, b + 8, b + 12, b + 16, b + sz - 8, b + sz - 4]"
  using block_nat [of b sz] by (auto simp: word_unat_eq_iff fits_def)

lemma block_at_cong:
  "block_at b sz fr m \<Longrightarrow> (\<And>w. w \<in> block_words b sz \<Longrightarrow> m' w = m w) \<Longrightarrow> block_at b sz fr m'"
  by (simp add: block_at_def block_words_def get_size_def rb_data_def block_to_rbnode_def check_magic_def
      is_free_def footer_header_def)

lemmas field_defs = get_size_def set_size_def rb_data_def block_to_rbnode_def check_magic_def set_magic_def
  is_free_def mark_free_def mark_used_def footer_header_def set_footer_header_def get_footer_def

lemma footer_word: "b + sz - 8 + 4 = b + sz - (4::u32)"
  by simp

lemma write_block_at:
  assumes "fits b sz"
  shows "block_at b sz (is_free b m) (write_block b sz m)"
    "w \<notin> block_words b sz \<Longrightarrow> write_block b sz m w = m w"
  using block_words_distinct [OF assms]
  by (auto simp: block_at_def write_block_def write_footer_def Let_def field_defs footer_word block_words_def)

lemma mark_block:
  assumes "fits b sz" "block_at b sz fr m"
  shows "block_at b sz True (mark_free b m)" "block_at b sz False (mark_used b m)"
  using block_words_distinct [OF assms(1)] assms(2)
  by (auto simp: block_at_def field_defs footer_word)

lemma mark_frame: "w \<noteq> b \<Longrightarrow> mark_free b m w = m w" "w \<noteq> b \<Longrightarrow> mark_used b m w = m w"
  by (simp_all add: mark_free_def mark_used_def)

lemma links_outside:
  assumes "fits b sz"
  shows "block_words b sz \<inter> link_words {b + 4} = {}"
  using block_words_distinct [OF assms] unfolding block_words_def link_words_block by auto

lemma regions_split:
  assumes "fits b (u + r)" "unat (u + r) = unat u + unat r"
  shows "region b u \<inter> region (b + u) r = {}" "region b (u + r) = region b u \<union> region (b + u) r"
proof -
  have "unat (b + u) = unat b + unat u" using assms by (intro block_offset_nat [OF assms(1)]) simp
  then show "region b u \<inter> region (b + u) r = {}" "region b (u + r) = region b u \<union> region (b + u) r"
    using assms(2) by (auto simp: region_def)
qed

section \<open>Words and parity\<close>

lemma even_nat: "even (w::u32) \<longleftrightarrow> even (unat w)"
proof -
  have "unat (w mod 2) = unat w mod 2" by (simp add: unat_mod)
  then show ?thesis by (metis even_iff_mod_2_eq_zero unat_eq_zero)
qed

section \<open>What an operation touches\<close>

text \<open>Only memory in \<open>W\<close> and the tree of free blocks have changed.\<close>

definition touched :: "u32 set \<Rightarrow> 'h heap_state \<Rightarrow> 'h heap_state \<Rightarrow> bool" where
  "touched W s s' \<longleftrightarrow> (\<forall>w. w \<notin> W \<longrightarrow> ram s' w = ram s w) \<and> vm_state s' = vm_state s \<and>
     heap_alloc s' = (heap_alloc s)\<lparr>mem_tree := mem_tree (heap_alloc s')\<rparr>"

lemma touched_fields:
  assumes "touched W s s'"
  shows "start_address (heap_alloc s') = start_address (heap_alloc s)"
    "end_address (heap_alloc s') = end_address (heap_alloc s)"
    "min_size (heap_alloc s') = min_size (heap_alloc s)" "max_size (heap_alloc s') = max_size (heap_alloc s)"
    "mem_used (heap_alloc s') = mem_used (heap_alloc s)" "vm_state s' = vm_state s"
    "w \<notin> W \<Longrightarrow> ram s' w = ram s w" "page_directory (heap_alloc s') = page_directory (heap_alloc s)"
proof -
  obtain t where "heap_alloc s' = (heap_alloc s)\<lparr>mem_tree := t\<rparr>" using assms unfolding touched_def by blast
  then show "start_address (heap_alloc s') = start_address (heap_alloc s)"
    "end_address (heap_alloc s') = end_address (heap_alloc s)"
    "min_size (heap_alloc s') = min_size (heap_alloc s)" "max_size (heap_alloc s') = max_size (heap_alloc s)"
    "mem_used (heap_alloc s') = mem_used (heap_alloc s)" "vm_state s' = vm_state s"
    "w \<notin> W \<Longrightarrow> ram s' w = ram s w" "page_directory (heap_alloc s') = page_directory (heap_alloc s)"
    using assms unfolding touched_def by simp_all
qed

lemma even_untag: "untag w = w \<longleftrightarrow> even w"
proof -
  have b: "bit (untag w) n \<longleftrightarrow> bit w n \<and> n \<noteq> 0" for n
    using bit_imp_le_length [of w n]
    by (simp add: untag_def bit_and_iff bit_not_iff_eq bit_1_iff) auto
  have "untag w = w" if "\<not> bit w 0"
  proof (rule bit_word_eqI)
    show "bit (untag w) n = bit w n" for n using b [of n] that by (cases "n = 0") auto
  qed
  moreover have "\<not> bit w 0" if "untag w = w" using b [of 0] that by simp
  ultimately show ?thesis by (auto simp: bit_0)
qed

lemma node_tagged: "even b \<Longrightarrow> untag (b + 4) = b + (4::u32)"
  by (simp add: even_untag)

lemma node_nonnull: "fits b sz \<Longrightarrow> b + 4 \<noteq> 0"
  using block_nat(1) [of b sz] by (metis add_eq_0_iff_both_eq_0 unat_0 zero_neq_numeral)

lemma touched_trans:
  assumes "touched V s s'" "touched W s' s''"
  shows "touched (V \<union> W) s s''"
proof -
  obtain t t' where "heap_alloc s' = (heap_alloc s)\<lparr>mem_tree := t\<rparr>" "heap_alloc s'' = (heap_alloc s')\<lparr>mem_tree := t'\<rparr>"
    using assms unfolding touched_def by blast
  then show ?thesis using assms unfolding touched_def by simp
qed

lemma touched_mono: "touched V s s' \<Longrightarrow> V \<subseteq> W \<Longrightarrow> touched W s s'"
  by (auto simp: touched_def)

lemma touched_ram: "(\<And>w. w \<notin> W \<Longrightarrow> m w = ram s w) \<Longrightarrow> touched W s (s\<lparr>ram := m\<rparr>)"
  by (simp add: touched_def)

end
