(* ===== verification/Free_Tree.thy ===== *)
theory Free_Tree
  imports Block_Layout
begin

text \<open>
  The tree of free blocks as the allocator of \<^verbatim>\<open>kernel/mem_alloc.c\<close> sees it: a set of nodes. The
  insertion adds one; the best-fit search takes a node of the least sufficient size; the search
  for a known node takes that node and no other one of the same size.
\<close>

section \<open>What is taken from the slots\<close>

definition slot_nodes :: "(u32 \<times> u32 list) list \<Rightarrow> u32 list" where
  "slot_nodes xs = concat (map (\<lambda>(a, ds). a # ds) xs)"

lemma slot_nodes_simps [simp]:
  "slot_nodes [] = []" "slot_nodes ((a, ds) # xs) = a # ds @ slot_nodes xs"
  "slot_nodes (xs @ ys) = slot_nodes xs @ slot_nodes ys"
  by (simp_all add: slot_nodes_def)

lemma addrs_nodes: "addrs t = slot_nodes (slots t)"
  by (simp add: slot_nodes_def addrs_slots)

lemma nodes_ins: "set (slot_nodes (ins_slots K x xs)) = insert x (set (slot_nodes xs))"
  by (induction K x xs rule: ins_slots.induct) auto

lemma node_key:
  assumes "dup_keys K xs" "n \<in> set (slot_nodes xs)"
  shows "\<exists>a\<in>fst ` set xs. K n = K a"
  using assms by (induction xs) (auto simp: dup_keys_def)

lemma take_slot_nodes:
  assumes "take_slot P a ds = Some (x, rest)" "distinct (a # ds)"
  shows "x \<in> insert a (set ds)" "set (slot_nodes rest) = insert a (set ds) - {x}"
  using assms(2) by (cases rule: take_slot_cases [OF assms(1)]; auto)+

lemma taken_node:
  assumes xs: "xs = as @ (a, ds) # bs" and take: "take_slot P a ds = Some (x, rest)"
    and d: "distinct (slot_nodes xs)" and k: "dup_keys K xs"
  shows "x \<in> set (slot_nodes xs)" "K x = K a"
    "set (slot_nodes (as @ rest @ bs)) = set (slot_nodes xs) - {x}"
proof -
  have dd: "distinct (a # ds)" using d xs by simp
  note t = take_slot_nodes [OF take dd]
  show "x \<in> set (slot_nodes xs)" "K x = K a" using t(1) xs k by (auto simp: dup_keys_def)
  have "x \<notin> set (slot_nodes as)" "x \<notin> set (slot_nodes bs)" using d xs t(1) by auto
  then show "set (slot_nodes (as @ rest @ bs)) = set (slot_nodes xs) - {x}" using t(2) xs by auto
qed

lemma extract_hit: "x \<in> set xs \<Longrightarrow> P x \<Longrightarrow> \<exists>us y vs. List.extract P xs = Some (us, y, vs) \<and> P y"
  by (induction xs) (auto simp: extract_Cons_code)

lemma take_some:
  assumes "n \<in> insert a (set ds)" "P n"
  shows "\<exists>x rest. take_slot P a ds = Some (x, rest)"
proof (cases ds)
  case (Cons d es)
  show ?thesis
  proof (cases "List.extract P ds")
    case None
    then have "n = a" using assms extract_hit [of n ds P] by auto
    then show ?thesis using None Cons assms(2) by auto
  next
    case (Some r)
    then show ?thesis using Cons by (cases r) auto
  qed
qed simp

lemma taken_best:
  assumes t: "taken P C True xs tree xs' tree' f" and o: "ordered K xs" "dup_keys K xs" "distinct (slot_nodes xs)"
    and C: "\<And>n. C n = (if K n < u then - 1 else 0)" and P: "\<And>n. P n \<longleftrightarrow> n \<noteq> 0" and z: "0 \<notin> set (slot_nodes xs)"
  shows "if \<exists>n\<in>set (slot_nodes xs). u \<le> K n
    then f \<in> set (slot_nodes xs) \<and> u \<le> K f \<and> (\<forall>n\<in>set (slot_nodes xs). u \<le> K n \<longrightarrow> K f \<le> K n) \<and>
      set (slot_nodes xs') = set (slot_nodes xs) - {f}
    else f = 0 \<and> set (slot_nodes xs') = set (slot_nodes xs)"
  using t unfolding taken_def
proof (elim disjE exE conjE)
  fix as a ds bs
  assume xs: "xs = as @ (a, ds) # bs" and a: "C a = 0" and lo: "True \<longrightarrow> (\<forall>s\<in>set as. C (fst s) < 0)"
    and c: "case take_slot P a ds of None \<Rightarrow> f = 0 \<and> xs' = xs \<and> tree' = tree
      | Some (x, rest) \<Rightarrow> f = x \<and> xs' = as @ rest @ bs \<and>
          tree' = (if ds = [] then tree\<lparr>num_nodes := num_nodes tree - 1\<rparr> else tree\<lparr>num_dup := num_dup tree - 1\<rparr>)"
  have "a \<noteq> 0" using z xs by auto
  then obtain x rest where x: "take_slot P a ds = Some (x, rest)" using take_some [of a a ds P] P by auto
  have f: "f = x" "xs' = as @ rest @ bs" using c x by auto
  have ua: "u \<le> K a" using a C [of a] by (auto split: if_splits)
  note tn = taken_node [OF xs x o(3,2)]
  have "K f \<le> K n" if n: "n \<in> set (slot_nodes xs)" "u \<le> K n" for n
  proof -
    obtain b where b: "b \<in> fst ` set xs" "K n = K b" using node_key [OF o(2) n(1)] by blast
    have "b \<notin> fst ` set as" using lo C n(2) b(2) by (auto split: if_splits)
    then have "b = a \<or> b \<in> fst ` set bs" using b(1) xs by auto
    then show ?thesis using o(1) xs b(2) f(1) tn(2) by (auto simp: ordered_append ordered_Cons)
  qed
  then show ?thesis using tn ua f by auto
next
  assume f: "f = 0" "xs' = xs" "True \<longrightarrow> (\<forall>s\<in>set xs. C (fst s) \<noteq> 0)"
  have "\<not> u \<le> K n" if "n \<in> set (slot_nodes xs)" for n
    using node_key [OF o(2) that] f(3) C by (auto split: if_splits)
  then show ?thesis using f by auto
qed

lemma taken_exact:
  assumes t: "taken P C True xs tree xs' tree' f" and o: "ordered K xs" "dup_keys K xs" "distinct (slot_nodes xs)"
    and C: "\<And>n. C n = 0 \<longleftrightarrow> K n = K x" and P: "\<And>n. P n \<longleftrightarrow> n = x" and x: "x \<in> set (slot_nodes xs)"
  shows "f = x \<and> set (slot_nodes xs') = set (slot_nodes xs) - {x}"
  using t unfolding taken_def
proof (elim disjE exE conjE)
  fix as a ds bs
  assume xs: "xs = as @ (a, ds) # bs" and a: "C a = 0"
    and c: "case take_slot P a ds of None \<Rightarrow> f = 0 \<and> xs' = xs \<and> tree' = tree
      | Some (x, rest) \<Rightarrow> f = x \<and> xs' = as @ rest @ bs \<and>
          tree' = (if ds = [] then tree\<lparr>num_nodes := num_nodes tree - 1\<rparr> else tree\<lparr>num_dup := num_dup tree - 1\<rparr>)"
  have ka: "K a = K x" using a C by simp
  have "dup_keys K as" "dup_keys K bs" using o(2) xs by (auto simp: dup_keys_def)
  moreover have "\<forall>s\<in>set as. K (fst s) < K x" "\<forall>s\<in>set bs. K x < K (fst s)"
    using o(1) unfolding xs ka [symmetric] by (simp_all add: ordered_append ordered_Cons)
  ultimately have "x \<notin> set (slot_nodes as)" "x \<notin> set (slot_nodes bs)"
    using node_key [of K as x] node_key [of K bs x] by fastforce+
  then have xa: "x \<in> insert a (set ds)" using x xs by auto
  obtain y rest where y: "take_slot P a ds = Some (y, rest)" using take_some [OF xa, of P] P by auto
  have "y = x" using take_slot_cases [OF y] P xa by (metis empty_set insert_iff singletonD)
  then show ?thesis using taken_node [OF xs y o(3,2)] c y by auto
next
  assume "f = 0" "xs' = xs" "True \<longrightarrow> (\<forall>s\<in>set xs. C (fst s) \<noteq> 0)"
  then show ?thesis using node_key [OF o(2) x] C by auto
qed

section \<open>The set of free nodes\<close>

definition free_tree :: "u32 set \<Rightarrow> alloc_args rb_tree \<Rightarrow> mem \<Rightarrow> bool" where
  "free_tree A tree m \<longleftrightarrow> compare_fn tree = compare \<and> select_dup_fn tree = select_dup \<and>
     (\<exists>t. rep m (root tree) t \<and> rb_invariant t \<and> distinct (addrs t) \<and> set (addrs t) = A \<and>
        ordered (rb_data m) (slots t) \<and> dup_keys (rb_data m) (slots t))"

lemma same_words_nodes:
  assumes "\<And>w. w \<in> \<Union> (node_words ` A) \<Longrightarrow> m' w = m w"
  shows "same_nodes A m m'" "a \<in> A \<Longrightarrow> rb_data m' a = rb_data m a"
proof -
  show "same_nodes A m m'"
    unfolding same_nodes_def
  proof (intro ballI conjI allI impI)
    fix a assume "a \<in> A"
    then have e: "w \<in> node_words a \<Longrightarrow> m' w = m w" for w using assms by blast
    show "is_red m' a = is_red m a" using e by (simp add: is_red_def node_words_def)
    show "get_link m' a j = get_link m a j" if "j < 3" for j
      using e [OF link_addr_node_words [OF that]] by (simp add: get_link_def)
  qed
  show "a \<in> A \<Longrightarrow> rb_data m' a = rb_data m a" using assms by (auto simp: rb_data_def node_words_def)
qed

lemma free_tree_cong:
  assumes "free_tree A tree m" "\<And>w. w \<in> \<Union> (node_words ` A) \<Longrightarrow> m' w = m w"
  shows "free_tree A tree m'"
proof -
  obtain t where t: "rep m (root tree) t" "rb_invariant t" "distinct (addrs t)" "set (addrs t) = A"
    "ordered (rb_data m) (slots t)" "dup_keys (rb_data m) (slots t)"
    using assms(1) by (auto simp: free_tree_def)
  note w = same_words_nodes [OF assms(2)]
  have "a \<in> set (addrs t) \<Longrightarrow> rb_data m a = rb_data m' a" for a using w(2) t(4) by simp
  note k = keys_cong [OF this]
  have "rep m' (root tree) t" using rep_same [of t m m'] w(1) t(1,4) by simp
  then show ?thesis using assms(1) t k by (auto simp: free_tree_def)
qed

lemma free_tree_none: "root tree = 0 \<Longrightarrow> compare_fn tree = compare \<Longrightarrow> select_dup_fn tree = select_dup
    \<Longrightarrow> free_tree {} tree m"
  by (auto simp: free_tree_def rb_invariant_def ordered_def dup_keys_def intro!: exI [of _ E])

lemma tree_insert_free:
  assumes f: "free_tree A (mem_tree (heap_alloc s)) (ram s)" and sep: "separated (insert head (insert n A))"
    and n: "n \<notin> A" "head \<notin> insert n A"
  shows "\<exists>s'. tree_insert head n s = Some s' \<and> free_tree (insert n A) (mem_tree (heap_alloc s')) (ram s') \<and>
    touched (link_words (insert n A) \<union> node_words head) s s'"
proof -
  let ?tree = "mem_tree (heap_alloc s)" and ?m = "ram s"
  obtain t where c: "compare_fn ?tree = compare" "select_dup_fn ?tree = select_dup"
    and t: "rep ?m (root ?tree) t" "rb_invariant t" "distinct (addrs t)" "set (addrs t) = A"
      "ordered (rb_data ?m) (slots t)" "dup_keys (rb_data ?m) (slots t)"
    using f by (auto simp: free_tree_def)
  have "inserted head n t ?m ?tree (insert_rbnode head ?tree n None ?m)"
    by (rule insert_inserts) (use c t n sep exact.insert_order_axioms in auto)
  then obtain m' r nn nd t' where i: "insert_rbnode head ?tree n None ?m = Some (m', ?tree\<lparr>root := r, num_nodes := nn, num_dup := nd\<rparr>, 1)"
    "rep m' r t'" "rb_invariant t'" "distinct (addrs t')" "slots t' = ins_slots (rb_data ?m) n (slots t)"
    "ordered (rb_data m') (slots t')" "\<And>w. w \<notin> link_words (insert n A) \<union> node_words head \<Longrightarrow> m' w = ?m w"
    unfolding inserted_def t(4) by blast
  have A': "set (addrs t') = insert n A" using t(4) i(5) by (simp add: addrs_nodes nodes_ins)
  have "rb_data ?m a = rb_data m' a" if "a \<in> set (addrs t')" for a
  proof -
    have a: "a \<in> insert n A" using that A' by simp
    have "a \<notin> node_words head"
      using separated_disjoint [OF sep, of a head a] a n(2) by (auto simp: node_words_def)
    moreover have "a \<notin> link_words (insert n A)"
    proof
      assume "a \<in> link_words (insert n A)"
      then obtain b where b: "b \<in> insert n A" "a \<in> {b + 4, b + 8, b + 12}" unfolding link_words_def by blast
      then show False
        using link_addr_not_data [OF sep, of b a 0] link_addr_not_data [OF sep, of b a 1]
          link_addr_not_data [OF sep, of b a 2] a by simp
    qed
    ultimately show ?thesis using i(7) by (simp add: rb_data_def)
  qed
  then have k: "dup_keys (rb_data ?m) (slots t') = dup_keys (rb_data m') (slots t')" by (rule keys_cong(2))
  have "dup_keys (rb_data ?m) (slots t')" unfolding i(5) by (rule dup_keys_ins [OF t(6)])
  then have "dup_keys (rb_data m') (slots t')" using k by simp
  then have "free_tree (insert n A) (?tree\<lparr>root := r, num_nodes := nn, num_dup := nd\<rparr>) m'"
    using c i A' by (auto simp: free_tree_def)
  then show ?thesis using i(1,7) by (auto simp: tree_insert_def touched_def)
qed

lemma taken_callbacks:
  "taken P C Q xs tree xs' tree' f \<Longrightarrow> compare_fn tree' = compare_fn tree \<and> select_dup_fn tree' = select_dup_fn tree"
  unfolding taken_def by (auto split: option.splits)

lemma tree_remove_taken:
  fixes s :: "'h heap_state"
  defines "C sz args \<equiv> verdict compare sz (Some args) (ram s)"
  assumes f: "free_tree A (mem_tree (heap_alloc s)) (ram s)" and sep: "separated (insert head A)" "head \<notin> A"
    and cut: "cut_off A (rb_data (ram s)) (C sz args)" and sel: "\<And>m a. select_dup m a (Some args) \<noteq> 0 \<longleftrightarrow> P a"
  shows "\<exists>n s' xs xs' (tree :: alloc_args rb_tree) tree'. tree_remove head sz args s = Some (n, s') \<and>
    taken P (C sz args) True xs tree xs' tree' n \<and> ordered (rb_data (ram s)) xs \<and> dup_keys (rb_data (ram s)) xs \<and>
    distinct (slot_nodes xs) \<and> set (slot_nodes xs) = A \<and>
    free_tree (set (slot_nodes xs')) (mem_tree (heap_alloc s')) (ram s') \<and>
    touched (link_words A \<union> node_words head) s s'"
proof -
  let ?tree = "mem_tree (heap_alloc s)" and ?m = "ram s"
  obtain t where c: "compare_fn ?tree = compare" "select_dup_fn ?tree = select_dup"
    and t: "rep ?m (root ?tree) t" "rb_invariant t" "distinct (addrs t)" "set (addrs t) = A"
      "ordered (rb_data ?m) (slots t)" "dup_keys (rb_data ?m) (slots t)"
    using f by (auto simp: free_tree_def)
  have "removed head t ?m ?tree P (verdict (compare_fn ?tree) sz (Some args) ?m) (remove_rbnode head ?tree sz (Some args) ?m)"
    by (rule remove_removes) (use c t sep sel searching.remove_search_axioms in auto)
  then obtain m' tree' r n t' where i: "remove_rbnode head ?tree sz (Some args) ?m = Some (m', tree'\<lparr>root := r\<rparr>, n)"
    "rep m' r t'" "rb_invariant t'" "distinct (addrs t')" "ordered (rb_data m') (slots t')" "dup_keys (rb_data m') (slots t')"
    "taken P (C sz args) (cut_off A (rb_data ?m) (C sz args)) (slots t) ?tree (slots t') tree' n"
    "\<And>w. w \<notin> link_words A \<union> node_words head \<Longrightarrow> m' w = ?m w"
    unfolding removed_def t(4) c C_def by blast
  have tk: "taken P (C sz args) True (slots t) ?tree (slots t') tree' n" using i(7) cut by simp
  have "free_tree (set (slot_nodes (slots t'))) (tree'\<lparr>root := r\<rparr>) m'"
    using c i taken_callbacks [OF tk] by (auto simp: free_tree_def addrs_nodes)
  moreover define s' where "s' = s\<lparr>ram := m', heap_alloc := (heap_alloc s)\<lparr>mem_tree := tree'\<lparr>root := r\<rparr>\<rparr>\<rparr>"
  have "tree_remove head sz args s = Some (n, s')" "touched (link_words A \<union> node_words head) s s'"
    using i(1,8) by (simp_all add: tree_remove_def touched_def s'_def)
  moreover have "mem_tree (heap_alloc s') = tree'\<lparr>root := r\<rparr>" "ram s' = m'" by (simp_all add: s'_def)
  ultimately show ?thesis
    using tk t(3-6) unfolding addrs_nodes by simp blast
qed

text \<open>The search of \<open>alloc\<close>: a node of the least size that is large enough, or none.\<close>

lemma tree_remove_best:
  assumes f: "free_tree A (mem_tree (heap_alloc s)) (ram s)" and sep: "separated (insert head A)" "head \<notin> A"
  shows "\<exists>n s'. tree_remove head u \<lparr>alignment = 1, address = 0\<rparr> s = Some (n, s') \<and>
    touched (link_words A \<union> node_words head) s s' \<and>
    (if \<exists>a\<in>A. u \<le> rb_data (ram s) a
     then n \<in> A \<and> u \<le> rb_data (ram s) n \<and> (\<forall>a\<in>A. u \<le> rb_data (ram s) a \<longrightarrow> rb_data (ram s) n \<le> rb_data (ram s) a) \<and>
       free_tree (A - {n}) (mem_tree (heap_alloc s')) (ram s')
     else n = 0 \<and> free_tree A (mem_tree (heap_alloc s')) (ram s'))"
proof -
  let ?C = "verdict compare u (Some \<lparr>alignment = 1, address = 0\<rparr>) (ram s)"
  from tree_remove_taken [OF f sep best_fit_cut select_any, of u]
  obtain n s' xs xs' and tree tree' :: "alloc_args rb_tree" where t: "tree_remove head u \<lparr>alignment = 1, address = 0\<rparr> s = Some (n, s')"
    "taken (\<lambda>n. n \<noteq> 0) ?C True xs tree xs' tree' n" "ordered (rb_data (ram s)) xs" "dup_keys (rb_data (ram s)) xs"
    "distinct (slot_nodes xs)" "set (slot_nodes xs) = A"
    "free_tree (set (slot_nodes xs')) (mem_tree (heap_alloc s')) (ram s')"
    "touched (link_words A \<union> node_words head) s s'"
    by blast
  have "0 \<notin> set (slot_nodes xs)" using t(6) separated_nz [OF sep(1)] by auto
  from taken_best [OF t(2-5) best_fit_verdict _ this] show ?thesis
    using t(1,7,8) unfolding t(6) by (auto split: if_splits)
qed

text \<open>The search of \<open>free\<close> for a neighbour: it takes that node and no other one of its size.\<close>

lemma tree_remove_node:
  assumes f: "free_tree A (mem_tree (heap_alloc s)) (ram s)" and sep: "separated (insert head A)" "head \<notin> A"
    and n: "n \<in> A" "rb_data (ram s) n = sz"
  shows "\<exists>s'. tree_remove head sz \<lparr>alignment = 0, address = n\<rparr> s = Some (n, s') \<and>
    touched (link_words A \<union> node_words head) s s' \<and> free_tree (A - {n}) (mem_tree (heap_alloc s')) (ram s')"
proof -
  let ?C = "verdict compare sz (Some \<lparr>alignment = 0, address = n\<rparr>) (ram s)"
  have nz: "n \<noteq> 0" using n(1) separated_nz [OF sep(1)] by auto
  have sel: "select_dup m a (Some \<lparr>alignment = 0, address = n\<rparr>) \<noteq> 0 \<longleftrightarrow> a = n" for m a
    using nz by (auto simp: select_address)
  from tree_remove_taken [OF f sep exact_cut(2) sel, of sz]
  obtain x s' xs xs' and tree tree' :: "alloc_args rb_tree" where t: "tree_remove head sz \<lparr>alignment = 0, address = n\<rparr> s = Some (x, s')"
    "taken (\<lambda>a. a = n) ?C True xs tree xs' tree' x" "ordered (rb_data (ram s)) xs" "dup_keys (rb_data (ram s)) xs"
    "distinct (slot_nodes xs)" "set (slot_nodes xs) = A"
    "free_tree (set (slot_nodes xs')) (mem_tree (heap_alloc s')) (ram s')"
    "touched (link_words A \<union> node_words head) s s'"
    by blast
  have C: "?C a = 0 \<longleftrightarrow> rb_data (ram s) a = rb_data (ram s) n" for a
    using n(2) by (auto simp: verdict_def compare_def sgn_if)
  have "x = n \<and> set (slot_nodes xs') = set (slot_nodes xs) - {n}"
    by (rule taken_exact [OF t(2-5) C]) (use n(1) t(6) in auto)
  then show ?thesis using t by auto
qed

end
