(* ===== verification/Heap_Blocks.thy ===== *)
theory Heap_Blocks
  imports Free_Tree
begin

text \<open>
  The heap of \<^verbatim>\<open>kernel/mem_alloc.c\<close> as a list of blocks: each has an address, a size and a flag that
  says whether it is free. The blocks lie one behind the other from the start of the heap to
  its end, and the nodes of the free ones form the tree. The lemmas say how the list follows the
  three kinds of steps the allocator is made of: taking a node out of the tree, putting one in,
  and writing new blocks over a stretch of old ones.
\<close>

section \<open>Blocks that cover a stretch of memory\<close>

type_synonym block = "u32 \<times> u32 \<times> bool"

fun tiles :: "u32 \<Rightarrow> block list \<Rightarrow> u32 \<Rightarrow> bool" where
  "tiles b [] e \<longleftrightarrow> b = e"
| "tiles b ((a, sz, fr) # bs) e \<longleftrightarrow>
     a = b \<and> fits b sz \<and> 4 dvd unat b \<and> 4 dvd unat sz \<and> tiles (b + sz) bs e"

definition span :: "u32 \<Rightarrow> u32 \<Rightarrow> u32 set" where
  "span b e = {w. unat b \<le> unat w \<and> unat w < unat e}"

lemma tiles_append: "tiles b (xs @ ys) e \<longleftrightarrow> (\<exists>c. tiles b xs c \<and> tiles c ys e)"
  by (induction b xs e rule: tiles.induct) auto

lemma fits_end: "fits b sz \<Longrightarrow> unat (b + sz) = unat b + unat sz"
  using block_offset_nat [of b sz sz] by simp

lemma tiles_le: "tiles b bs e \<Longrightarrow> unat b \<le> unat e"
  by (induction b bs e rule: tiles.induct) (auto simp: fits_end)

lemma span_region: "fits b sz \<Longrightarrow> span b (b + sz) = region b sz"
  by (simp add: span_def region_def fits_end)

lemma span_split: "unat b \<le> unat c \<Longrightarrow> unat c \<le> unat e \<Longrightarrow> span b e = span b c \<union> span c e"
  by (auto simp: span_def)

lemma span_apart: "span b c \<inter> span c e = {}"
  by (auto simp: span_def)

lemma tiles_block:
  "tiles b bs e \<Longrightarrow> (a, sz, fr) \<in> set bs \<Longrightarrow>
     fits a sz \<and> 4 dvd unat a \<and> 4 dvd unat sz \<and> region a sz \<subseteq> span b e"
proof (induction b bs e rule: tiles.induct)
  case (2 b a' sz' fr' bs e)
  have t: "tiles (b + sz') bs e" "fits b sz'" using 2(2) by auto
  have le: "unat b \<le> unat (b + sz')" "unat (b + sz') \<le> unat e" using t(2) tiles_le [OF t(1)] by (auto simp: fits_end)
  show ?case using 2 t span_region [OF t(2)] span_split [OF le] by auto
qed simp

lemma tiles_first: "tiles b ((a, sz, fr) # bs) e \<Longrightarrow> fits a sz \<and> unat (a + sz) = unat a + unat sz \<and> tiles (a + sz) bs e"
  by (auto simp: fits_end)

lemma tiles_disjoint:
  "tiles b bs e \<Longrightarrow> (a, sz, fr) \<in> set bs \<Longrightarrow> (a', sz', fr') \<in> set bs \<Longrightarrow> (a, sz, fr) \<noteq> (a', sz', fr') \<Longrightarrow>
     region a sz \<inter> region a' sz' = {}"
proof (induction b bs e rule: tiles.induct)
  case (2 b c r f bs e)
  have t: "tiles (b + r) bs e" "fits b r" "c = b" using 2(2) by auto
  have out: "region x y \<inter> region c r = {}" if "(x, y, g) \<in> set bs" for x y g
    using tiles_block [OF t(1) that] span_region [OF t(2)] span_apart [of b "b + r" e] t(3) by blast
  show ?case using 2 t(1) out by fastforce
qed simp

lemma block_start: "fits a sz \<Longrightarrow> a \<in> region a sz"
  by (simp add: region_def fits_def)

lemma write_outside:
  assumes "fits b sz" "w \<notin> region b sz"
  shows "write_block b sz m w = m w" "mark_free b m w = m w" "mark_used b m w = m w"
proof -
  have "w \<notin> block_words b sz" "w \<noteq> b" using assms block_words_region [OF assms(1)] block_start [OF assms(1)] by auto
  then show "write_block b sz m w = m w" "mark_free b m w = m w" "mark_used b m w = m w"
    using write_block_at(2) [OF assms(1)] mark_frame by simp_all
qed

section \<open>The words of the blocks\<close>

definition nodes :: "block list \<Rightarrow> u32 set" where
  "nodes bs = (\<lambda>b. fst b + 4) ` set bs"

definition free_nodes :: "block list \<Rightarrow> u32 set" where
  "free_nodes bs = nodes (filter (\<lambda>b. snd (snd b)) bs)"

definition used_region :: "block list \<Rightarrow> u32 set" where
  "used_region bs = (\<Union>(a, sz, fr)\<in>set bs. if fr then {} else region a sz)"

definition blocks_at :: "block list \<Rightarrow> mem \<Rightarrow> bool" where
  "blocks_at bs m \<longleftrightarrow> (\<forall>(a, sz, fr)\<in>set bs. block_at a sz fr m)"

lemma nodes_simps [simp]:
  "nodes [] = {}" "nodes (b # bs) = insert (fst b + 4) (nodes bs)" "nodes (xs @ ys) = nodes xs \<union> nodes ys"
  by (auto simp: nodes_def)

lemma free_nodes_simps [simp]:
  "free_nodes [] = {}" "free_nodes ((a, sz, fr) # bs) = (if fr then insert (a + 4) (free_nodes bs) else free_nodes bs)"
  "free_nodes (xs @ ys) = free_nodes xs \<union> free_nodes ys"
  by (auto simp: free_nodes_def)

lemma free_nodes_nodes: "free_nodes bs \<subseteq> nodes bs"
  by (auto simp: free_nodes_def nodes_def)

lemma used_region_simps [simp]:
  "used_region [] = {}" "used_region ((a, sz, fr) # bs) = (if fr then {} else region a sz) \<union> used_region bs"
  "used_region (xs @ ys) = used_region xs \<union> used_region ys"
  by (auto simp: used_region_def)

lemma blocks_at_simps [simp]:
  "blocks_at [] m" "blocks_at ((a, sz, fr) # bs) m \<longleftrightarrow> block_at a sz fr m \<and> blocks_at bs m"
  "blocks_at (xs @ ys) m \<longleftrightarrow> blocks_at xs m \<and> blocks_at ys m"
  by (auto simp: blocks_at_def ball_Un)

lemma node_of: "n \<in> nodes bs \<longleftrightarrow> (\<exists>a sz fr. (a, sz, fr) \<in> set bs \<and> n = a + 4)"
  by (force simp: nodes_def)

lemma free_node_of: "n \<in> free_nodes bs \<longleftrightarrow> (\<exists>a sz. (a, sz, True) \<in> set bs \<and> n = a + 4)"
  by (force simp: free_nodes_def nodes_def)

lemma used_region_span: "tiles b bs e \<Longrightarrow> used_region bs \<subseteq> span b e"
  using tiles_block [of b bs e] by (fastforce simp: used_region_def split: if_splits)

lemma node_words_span: "tiles b bs e \<Longrightarrow> \<Union> (node_words ` nodes bs) \<subseteq> span b e"
  using tiles_block [of b bs e] node_region by (fastforce simp: node_of)

lemma links_in_nodes: "link_words A \<subseteq> \<Union> (node_words ` A)"
  by (auto simp: link_words_def node_words_def)

lemma links_off_blocks:
  assumes t: "tiles b bs e" and c: "(c, r, f) \<in> set bs"
  shows "block_words c r \<inter> link_words (nodes bs) = {}"
proof -
  have fc: "fits c r" using tiles_block [OF t c] by blast
  have "block_words c r \<inter> link_words {a + 4} = {}" if a: "(a, sz, g) \<in> set bs" for a sz g
  proof (cases "(a, sz, g) = (c, r, f)")
    case True
    then show ?thesis using links_outside [OF fc] by simp
  next
    case False
    have fa: "fits a sz" using tiles_block [OF t a] by blast
    have "link_words {a + 4} \<subseteq> region a sz" using node_region [OF fa] links_in_nodes [of "{a + 4}"] by auto
    then show ?thesis using block_words_region [OF fc] tiles_disjoint [OF t a c False] by blast
  qed
  then show ?thesis by (fastforce simp: link_words_def node_of)
qed

lemma links_off_used:
  assumes t: "tiles b bs e"
  shows "used_region bs \<inter> link_words (free_nodes bs) = {}"
proof -
  have "region c r \<inter> link_words {a + 4} = {}" if c: "(c, r, False) \<in> set bs" and a: "(a, sz, True) \<in> set bs" for a sz c r
  proof -
    have fa: "fits a sz" using tiles_block [OF t a] by blast
    have "link_words {a + 4} \<subseteq> region a sz" using node_region [OF fa] links_in_nodes [of "{a + 4}"] by auto
    then show ?thesis using tiles_disjoint [OF t a c] by blast
  qed
  then show ?thesis by (fastforce simp: used_region_def link_words_def free_node_of split: if_splits)
qed

lemma blocks_at_cong:
  assumes "blocks_at bs m" "\<And>c r f w. (c, r, f) \<in> set bs \<Longrightarrow> w \<in> block_words c r \<Longrightarrow> m' w = m w"
  shows "blocks_at bs m'"
  unfolding blocks_at_def
proof clarify
  fix c r f assume c: "(c, r, f) \<in> set bs"
  then have "block_at c r f m" using assms(1) by (auto simp: blocks_at_def)
  then show "block_at c r f m'" by (rule block_at_cong) (rule assms(2) [OF c])
qed

lemma nodes_separated:
  assumes t: "tiles b bs e"
  shows "separated (nodes bs)"
  unfolding separated_def
proof (intro conjI ballI impI)
  fix n assume "n \<in> nodes bs"
  then obtain a sz fr where a: "(a, sz, fr) \<in> set bs" "n = a + 4" by (auto simp: node_of)
  note f = tiles_block [OF t a(1)]
  show "n \<noteq> 0" using node_nonnull [of a sz] f a(2) by simp
  have "4 dvd unat a" using f by simp
  then have "even a" unfolding even_nat by presburger
  then show "untag n = n" using node_tagged a(2) by simp
next
  fix n n' assume "n \<in> nodes bs" "n' \<in> nodes bs" "n \<noteq> n'"
  then obtain a sz fr a' sz' fr' where a: "(a, sz, fr) \<in> set bs" "(a', sz', fr') \<in> set bs" "n = a + 4" "n' = a' + 4" "a \<noteq> a'"
    by (auto simp: node_of)
  have "region a sz \<inter> region a' sz' = {}" using tiles_disjoint [OF t a(1,2)] a(5) by blast
  moreover have "node_words n \<subseteq> region a sz" "node_words n' \<subseteq> region a' sz'"
    using node_region tiles_block [OF t a(1)] tiles_block [OF t a(2)] a(3,4) by auto
  ultimately show "node_words n \<inter> node_words n' = {}" by blast
qed

section \<open>A heap with a list of blocks\<close>

text \<open>
  The dummy root of the tree functions, on the stack, lies outside the addresses the heap may
  reach, and so does what the header check reads in front of the first block.
\<close>

definition heap_bounds :: "u32 \<Rightarrow> u32 \<Rightarrow> u32 \<Rightarrow> u32 \<Rightarrow> bool" where
  "heap_bounds head b e mx \<longleftrightarrow> head \<noteq> 0 \<and> untag head = head \<and> 8 \<le> unat b \<and>
     unat b + unat mx < 2 ^ 32 \<and> unat e \<le> unat b + unat mx \<and>
     (\<forall>w\<in>node_words head. \<not> (unat b - 8 \<le> unat w \<and> unat w \<le> unat b + unat mx))"

abbreviation heap_room :: "u32 \<Rightarrow> allocator \<Rightarrow> bool" where
  "heap_room head al \<equiv> heap_bounds head (start_address al) (end_address al) (max_size al)"

definition laid :: "u32 \<Rightarrow> block list \<Rightarrow> u32 set \<Rightarrow> 'h heap_state \<Rightarrow> bool" where
  "laid head bs A s \<longleftrightarrow> tiles (start_address (heap_alloc s)) bs (end_address (heap_alloc s)) \<and>
     blocks_at bs (ram s) \<and> A \<subseteq> nodes bs \<and> free_tree A (mem_tree (heap_alloc s)) (ram s) \<and>
     heap_room head (heap_alloc s)"

lemma laidD:
  assumes "laid head bs A s"
  shows "tiles (start_address (heap_alloc s)) bs (end_address (heap_alloc s))" "blocks_at bs (ram s)"
    "A \<subseteq> nodes bs" "free_tree A (mem_tree (heap_alloc s)) (ram s)" "heap_room head (heap_alloc s)"
  using assms by (auto simp: laid_def)

lemma room_span:
  "heap_room head al \<Longrightarrow> node_words head \<inter> span (start_address al) (end_address al) = {}"
  by (fastforce simp: heap_bounds_def span_def)

lemma laid_separated:
  assumes "laid head bs A s"
  shows "separated (insert head (nodes bs))" "head \<notin> nodes bs"
proof -
  note l = laidD [OF assms]
  have apart: "node_words head \<inter> node_words n = {}" if "n \<in> nodes bs" for n
    using that node_words_span [OF l(1)] room_span [OF l(5)] by blast
  then show "head \<notin> nodes bs" by (fastforce simp: node_words_def)
  show "separated (insert head (nodes bs))"
    using nodes_separated [OF l(1)] apart l(5) unfolding separated_def heap_bounds_def by blast
qed

lemma touched_room:
  assumes "touched W s s'"
  shows "heap_room head (heap_alloc s') = heap_room head (heap_alloc s)"
  using touched_fields [OF assms] by (simp add: heap_bounds_def)

subsection \<open>Tree nodes\<close>

lemma laid_links:
  assumes l: "laid head bs A s" and t: "touched (link_words (nodes bs) \<union> node_words head) s s'"
    and f: "free_tree B (mem_tree (heap_alloc s')) (ram s')" "B \<subseteq> nodes bs"
  shows "laid head bs B s'"
proof -
  note d = laidD [OF l] and e = touched_fields [OF t]
  have "blocks_at bs (ram s')"
  proof (rule blocks_at_cong [OF d(2)])
    fix c r g w assume c: "(c, r, g) \<in> set bs" and w: "w \<in> block_words c r"
    have "w \<in> span (start_address (heap_alloc s)) (end_address (heap_alloc s))"
      using tiles_block [OF d(1) c] block_words_region [of c r] w by blast
    then show "ram s' w = ram s w"
      using e(7) [of w] links_off_blocks [OF d(1) c] w room_span [OF d(5)] by blast
  qed
  then show ?thesis using d f e touched_room [OF t] by (simp add: laid_def)
qed

lemma laid_insert:
  assumes l: "laid head bs A s" and n: "n \<in> nodes bs" "n \<notin> A"
  shows "\<exists>s'. tree_insert head n s = Some s' \<and> laid head bs (insert n A) s' \<and>
    touched (link_words (insert n A) \<union> node_words head) s s'"
proof -
  note sep = laid_separated [OF l] and A = laidD(3) [OF l]
  have sub: "insert n A \<subseteq> nodes bs" using n A by blast
  have "separated (insert head (insert n A))" by (rule separated_subset [OF sep(1)]) (use sub in blast)
  moreover have "head \<notin> insert n A" using sub sep(2) by blast
  ultimately obtain s' where s': "tree_insert head n s = Some s'"
    "free_tree (insert n A) (mem_tree (heap_alloc s')) (ram s')"
    "touched (link_words (insert n A) \<union> node_words head) s s'"
    using tree_insert_free [OF laidD(4) [OF l]] n(2) by blast
  have "touched (link_words (nodes bs) \<union> node_words head) s s'"
    by (rule touched_mono [OF s'(3)]) (use link_words_mono [OF sub] in blast)
  then show ?thesis using laid_links [OF l _ s'(2) sub] s'(1,3) by blast
qed

lemma laid_remove:
  assumes l: "laid head bs A s" and n: "n \<in> A" "rb_data (ram s) n = sz"
  shows "\<exists>s'. tree_remove head sz \<lparr>alignment = 0, address = n\<rparr> s = Some (n, s') \<and> laid head bs (A - {n}) s' \<and>
    touched (link_words A \<union> node_words head) s s'"
proof -
  note sep = laid_separated [OF l] and A = laidD(3) [OF l]
  have "separated (insert head A)" by (rule separated_subset [OF sep(1)]) (use A in blast)
  moreover have "head \<notin> A" using A sep(2) by blast
  ultimately obtain s' where s': "tree_remove head sz \<lparr>alignment = 0, address = n\<rparr> s = Some (n, s')"
    "touched (link_words A \<union> node_words head) s s'" "free_tree (A - {n}) (mem_tree (heap_alloc s')) (ram s')"
    using tree_remove_node [OF laidD(4) [OF l]] n by blast
  have "touched (link_words (nodes bs) \<union> node_words head) s s'"
    by (rule touched_mono [OF s'(2)]) (use link_words_mono [OF A] in blast)
  then show ?thesis using laid_links [OF l _ s'(3)] s'(1,2) A by blast
qed

lemma node_once:
  assumes "tiles b (xs @ (a, sz, fr) # ys) e"
  shows "a + 4 \<notin> nodes (xs @ ys)"
proof
  assume "a + 4 \<in> nodes (xs @ ys)"
  then have n: "a + 4 \<in> nodes xs \<or> a + 4 \<in> nodes ys" by simp
  obtain c where t: "tiles b xs c" "tiles c ((a, sz, fr) # ys) e" using assms unfolding tiles_append by blast
  note f = tiles_first [OF t(2)]
  have w: "a + 4 \<in> node_words (a + 4)" by (simp add: node_words_def)
  have "a + 4 \<in> region a sz" using node_region [of a sz] f w by blast
  then have "unat c \<le> unat (a + 4)" "unat (a + 4) < unat (a + sz)" using t(2) f by (auto simp: region_def)
  moreover have "a + 4 \<in> span b c \<or> a + 4 \<in> span (a + sz) e"
    using n w node_words_span [OF t(1)] node_words_span [of "a + sz" ys e] f by fast
  ultimately show False by (auto simp: span_def)
qed

lemma laid_best:
  assumes l: "laid head bs (free_nodes bs) s"
  shows "\<exists>n s'. tree_remove head u \<lparr>alignment = 1, address = 0\<rparr> s = Some (n, s') \<and>
    touched (link_words (free_nodes bs) \<union> node_words head) s s' \<and>
    (if \<exists>a sz. (a, sz, True) \<in> set bs \<and> u \<le> sz
     then \<exists>xs a sz ys. bs = xs @ (a, sz, True) # ys \<and> n = a + 4 \<and> u \<le> sz \<and>
       (\<forall>c r. (c, r, True) \<in> set bs \<longrightarrow> u \<le> r \<longrightarrow> sz \<le> r) \<and> laid head bs (free_nodes (xs @ ys)) s'
     else n = 0 \<and> laid head bs (free_nodes bs) s')"
proof -
  let ?A = "free_nodes bs"
  note sep = laid_separated [OF l] and D = laidD [OF l]
  have key: "rb_data (ram s) (a + 4) = sz" if "(a, sz, True) \<in> set bs" for a sz
    using D(2) that by (fastforce simp: blocks_at_def block_at_def get_size_def block_to_rbnode_def)
  have sub: "touched (link_words ?A \<union> node_words head) s s' \<Longrightarrow> touched (link_words (nodes bs) \<union> node_words head) s s'" for s'
    by (erule touched_mono) (use link_words_mono [OF D(3)] in blast)
  have "separated (insert head ?A)" by (rule separated_subset [OF sep(1)]) (use D(3) in blast)
  moreover have "head \<notin> ?A" using D(3) sep(2) by blast
  ultimately obtain n s' where r: "tree_remove head u \<lparr>alignment = 1, address = 0\<rparr> s = Some (n, s')"
      "touched (link_words ?A \<union> node_words head) s s'"
    and c: "if \<exists>a\<in>?A. u \<le> rb_data (ram s) a
     then n \<in> ?A \<and> u \<le> rb_data (ram s) n \<and> (\<forall>a\<in>?A. u \<le> rb_data (ram s) a \<longrightarrow> rb_data (ram s) n \<le> rb_data (ram s) a) \<and>
       free_tree (?A - {n}) (mem_tree (heap_alloc s')) (ram s')
     else n = 0 \<and> free_tree ?A (mem_tree (heap_alloc s')) (ram s')"
    using tree_remove_best [OF D(4)] by blast
  have ex: "(\<exists>a\<in>?A. u \<le> rb_data (ram s) a) \<longleftrightarrow> (\<exists>a sz. (a, sz, True) \<in> set bs \<and> u \<le> sz)"
    using key by (fastforce simp: free_node_of)
  show ?thesis
  proof (cases "\<exists>a sz. (a, sz, True) \<in> set bs \<and> u \<le> sz")
    case False
    then show ?thesis using c r laid_links [OF l sub [OF r(2)] _ D(3)] unfolding ex by auto
  next
    case True
    have n: "n \<in> ?A" "u \<le> rb_data (ram s) n" "\<forall>a\<in>?A. u \<le> rb_data (ram s) a \<longrightarrow> rb_data (ram s) n \<le> rb_data (ram s) a"
      "free_tree (?A - {n}) (mem_tree (heap_alloc s')) (ram s')"
      using c True unfolding ex by auto
    obtain a sz where a: "(a, sz, True) \<in> set bs" "n = a + 4" using n(1) by (auto simp: free_node_of)
    obtain xs ys where xy: "bs = xs @ (a, sz, True) # ys" using split_list [OF a(1)] by blast
    have "?A - {n} = free_nodes (xs @ ys)"
      using node_once [OF D(1) [unfolded xy]] free_nodes_nodes [of "xs @ ys"] a(2) unfolding xy by auto
    then have "laid head bs (free_nodes (xs @ ys)) s'"
      using laid_links [OF l sub [OF r(2)] n(4)] D(3) by auto
    moreover have "\<forall>c r. (c, r, True) \<in> set bs \<longrightarrow> u \<le> r \<longrightarrow> sz \<le> r"
      using n(3) key a by (metis free_node_of)
    moreover have "u \<le> sz" using n(2) key [OF a(1)] a(2) by simp
    ultimately show ?thesis using r xy a(2) unfolding if_P [OF True] by blast
  qed
qed

subsection \<open>Writing blocks over a stretch\<close>

lemma tiles_middle:
  assumes "tiles b (xs @ zs @ ys) e" "tiles c zs d" "zs \<noteq> []"
  shows "tiles b xs c" "tiles d ys e"
proof -
  obtain c' d' where t: "tiles b xs c'" "tiles c' zs d'" "tiles d' ys e"
    using assms(1) unfolding tiles_append by blast
  obtain z zs' where z: "zs = z # zs'" using assms(3) by (cases zs) auto
  obtain a sz fr where "z = (a, sz, fr)" by (cases z) auto
  then have "c' = c" using t(2) assms(2) z by auto
  moreover have "d' = d" using t(2) assms(2) unfolding \<open>c' = c\<close>
  proof (induction zs arbitrary: c)
    case (Cons z zs)
    then show ?case by (cases z) auto
  qed simp
  ultimately show "tiles b xs c" "tiles d ys e" using t by auto
qed

lemma laid_write:
  assumes l: "laid head (xs @ zs @ ys) A s" and zs: "zs \<noteq> []" "tiles c zs d" "tiles c zs' d"
    and A: "A \<subseteq> nodes (xs @ ys)" and m: "blocks_at zs' m" "\<And>w. w \<notin> span c d \<Longrightarrow> m w = ram s w"
  shows "laid head (xs @ zs' @ ys) A (s\<lparr>ram := m\<rparr>)" "touched (span c d) s (s\<lparr>ram := m\<rparr>)"
proof -
  note D = laidD [OF l]
  note t = tiles_middle [OF D(1) zs(2,1)]
  have out: "span (start_address (heap_alloc s)) c \<inter> span c d = {}" "span d (end_address (heap_alloc s)) \<inter> span c d = {}"
    by (auto simp: span_def)
  have "blocks_at xs m"
  proof (rule blocks_at_cong [of _ "ram s"])
    show "blocks_at xs (ram s)" using D(2) by simp
    fix a r f w assume a: "(a, r, f) \<in> set xs" "w \<in> block_words a r"
    then have "w \<notin> span c d" using tiles_block [OF t(1) a(1)] block_words_region out(1) by blast
    then show "m w = ram s w" by (rule m(2))
  qed
  moreover have "blocks_at ys m"
  proof (rule blocks_at_cong [of _ "ram s"])
    show "blocks_at ys (ram s)" using D(2) by simp
    fix a r f w assume a: "(a, r, f) \<in> set ys" "w \<in> block_words a r"
    then have "w \<notin> span c d" using tiles_block [OF t(2) a(1)] block_words_region out(2) by blast
    then show "m w = ram s w" by (rule m(2))
  qed
  moreover have "tiles (start_address (heap_alloc s)) (xs @ zs' @ ys) (end_address (heap_alloc s))"
    using t zs(3) unfolding tiles_append by blast
  moreover have "free_tree A (mem_tree (heap_alloc s)) m"
  proof (rule free_tree_cong [OF D(4)])
    fix w assume "w \<in> \<Union> (node_words ` A)"
    then have "w \<in> span (start_address (heap_alloc s)) c \<union> span d (end_address (heap_alloc s))"
      using A node_words_span [OF t(1)] node_words_span [OF t(2)] by fastforce
    then have "w \<notin> span c d" using out by blast
    then show "m w = ram s w" by (rule m(2))
  qed
  ultimately show "laid head (xs @ zs' @ ys) A (s\<lparr>ram := m\<rparr>)"
    using m(1) D(5) A by (auto simp: laid_def)
  show "touched (span c d) s (s\<lparr>ram := m\<rparr>)" by (rule touched_ram) (rule m(2))
qed

lemma whole_block:
  assumes "tiles b (xs @ (a, sz, fr) # ys) e"
  shows "tiles a [(a, sz, fr')] (a + sz)" "fits a sz" "4 dvd unat a" "4 dvd unat sz" "span a (a + sz) = region a sz"
    "region a sz \<subseteq> span b e"
  using tiles_block [OF assms, of a sz fr] span_region [of a sz] by auto

lemma middle_apart:
  assumes t: "tiles b (xs @ (a, sz, fr) # ys) e"
  shows "region a sz \<inter> used_region (xs @ ys) = {}" "region a sz \<inter> \<Union> (node_words ` nodes (xs @ ys)) = {}"
proof -
  note w = whole_block [OF t]
  have t': "tiles b (xs @ [(a, sz, fr)] @ ys) e" using t by simp
  have "[(a, sz, fr)] \<noteq> []" by simp
  note m = tiles_middle [OF t' w(1) this]
  have "region a sz \<inter> (span b a \<union> span (a + sz) e) = {}"
    unfolding w(5) [symmetric] by (auto simp: span_def)
  moreover have "used_region (xs @ ys) \<subseteq> span b a \<union> span (a + sz) e"
    using used_region_span [OF m(1)] used_region_span [OF m(2)] by auto
  moreover have "\<Union> (node_words ` nodes (xs @ ys)) \<subseteq> span b a \<union> span (a + sz) e"
    using node_words_span [OF m(1)] node_words_span [OF m(2)] by auto
  ultimately show "region a sz \<inter> used_region (xs @ ys) = {}" "region a sz \<inter> \<Union> (node_words ` nodes (xs @ ys)) = {}"
    by blast+
qed

text \<open>Rewriting one block whose node is not in the tree.\<close>

lemma laid_rewrite:
  assumes l: "laid head (xs @ (a, sz, fr) # ys) A s" and A: "A \<subseteq> nodes (xs @ ys)"
    and zs: "tiles a zs (a + sz)" "blocks_at zs m" and m: "\<And>w. w \<notin> region a sz \<Longrightarrow> m w = ram s w"
  shows "laid head (xs @ zs @ ys) A (s\<lparr>ram := m\<rparr>)" "touched (region a sz) s (s\<lparr>ram := m\<rparr>)"
proof -
  note w = whole_block [OF laidD(1) [OF l]]
  have l': "laid head (xs @ [(a, sz, fr)] @ ys) A s" using l by simp
  have out: "w \<notin> span a (a + sz) \<Longrightarrow> m w = ram s w" for w using m w(5) by simp
  show "laid head (xs @ zs @ ys) A (s\<lparr>ram := m\<rparr>)"
    by (rule laid_write(1) [OF l' _ w(1) zs(1) A zs(2) out]) simp
  show "touched (region a sz) s (s\<lparr>ram := m\<rparr>)" by (rule touched_ram) (rule m)
qed

subsection \<open>Joining two blocks\<close>

definition join :: "u32 \<Rightarrow> u32 \<Rightarrow> mem \<Rightarrow> mem" where
  "join c sz m = set_footer_header (c + sz - 8) c (mark_free c (set_size c sz m))"

lemma join_block:
  assumes "fits c (l + k)" "block_at c l f m" "block_at (c + l) k g m"
  shows "block_at c (l + k) True (join c (l + k) m)" "w \<notin> region c (l + k) \<Longrightarrow> join c (l + k) m w = m w"
proof -
  note d = block_words_distinct [OF assms(1)]
  show "block_at c (l + k) True (join c (l + k) m)"
    using d assms(2,3) by (auto simp: block_at_def join_def field_defs footer_word add.assoc)
  assume "w \<notin> region c (l + k)"
  then have "w \<notin> block_words c (l + k)" using block_words_region [OF assms(1)] by blast
  then show "join c (l + k) m w = m w" by (simp add: join_def block_words_def field_defs footer_word)
qed

lemma two_blocks:
  assumes "tiles b (xs @ (c, l, f) # (d, k, g) # ys) e"
  shows "d = c + l" "fits c (l + k)" "unat (l + k) = unat l + unat k" "tiles c [(c, l, f), (d, k, g)] (c + (l + k))"
    "tiles c [(c, l + k, h)] (c + (l + k))" "region c (l + k) \<subseteq> span b e" "fits c l" "fits d k"
proof -
  obtain c' where t: "tiles b xs c'" "tiles c' ((c, l, f) # (d, k, g) # ys) e" using assms unfolding tiles_append by blast
  then have q: "c' = c" "d = c + l" "fits c l" "fits d k" "4 dvd unat c" "4 dvd unat l" "4 dvd unat k" "4 dvd unat d"
    by auto
  show "d = c + l" "fits c l" "fits d k" by (rule q)+
  have n: "unat d = unat c + unat l" using fits_end [OF q(3)] q(2) by simp
  have lt: "unat c + unat l + unat k < 2 ^ 32" using q(4) n by (simp add: fits_def)
  then show lk: "unat (l + k) = unat l + unat k" by (subst unat_add_lem [THEN iffD1]) auto
  show f: "fits c (l + k)" using lk lt q(3) by (simp add: fits_def)
  show "tiles c [(c, l, f), (d, k, g)] (c + (l + k))" using q by (simp add: add.assoc)
  have "4 dvd unat (l + k)" using q(6,7) lk by simp
  then show "tiles c [(c, l + k, h)] (c + (l + k))" using q f by simp
  have "region c (l + k) = region c l \<union> region d k" using regions_split(2) [OF f lk] q(2) by simp
  then show "region c (l + k) \<subseteq> span b e"
    using tiles_block [OF assms, of c l f] tiles_block [OF assms, of d k g] by auto
qed

lemma laid_join:
  assumes l: "laid head (xs @ (c, l, f) # (d, k, g) # ys) A s" and A: "A \<subseteq> nodes (xs @ ys)"
  shows "laid head (xs @ (c, l + k, True) # ys) A (s\<lparr>ram := join c (l + k) (ram s)\<rparr>)"
    "touched (region c (l + k)) s (s\<lparr>ram := join c (l + k) (ram s)\<rparr>)"
proof -
  note D = laidD [OF l] and w = two_blocks [OF laidD(1) [OF l]]
  have b: "block_at c l f (ram s)" "block_at (c + l) k g (ram s)" using D(2) w(1) by auto
  note j = join_block [OF w(2) b]
  have l': "laid head (xs @ [(c, l, f), (d, k, g)] @ ys) A s" using l by simp
  have out: "v \<notin> span c (c + (l + k)) \<Longrightarrow> join c (l + k) (ram s) v = ram s v" for v
    using j(2) span_region [OF w(2)] by simp
  have "laid head (xs @ [(c, l + k, True)] @ ys) A (s\<lparr>ram := join c (l + k) (ram s)\<rparr>)"
    by (rule laid_write(1) [OF l' _ w(4,5) A _ out]) (use j(1) in simp_all)
  then show "laid head (xs @ (c, l + k, True) # ys) A (s\<lparr>ram := join c (l + k) (ram s)\<rparr>)" by simp
  show "touched (region c (l + k)) s (s\<lparr>ram := join c (l + k) (ram s)\<rparr>)" by (rule touched_ram) (rule j(2))
qed

lemma block_fields:
  assumes "laid head bs A s" "(a, sz, fr) \<in> set bs"
  shows "get_size a (ram s) = sz" "rb_data (ram s) (a + 4) = sz" "is_free a (ram s) = fr" "check_magic a (ram s)"
    "get_footer a (ram s) = a + sz - 8" "check_magic (a + sz - 8) (ram s)" "footer_header (a + sz - 8) (ram s) = a"
proof -
  have "block_at a sz fr (ram s)" using laidD(2) [OF assms(1)] assms(2) by (auto simp: blocks_at_def)
  then show "get_size a (ram s) = sz" "rb_data (ram s) (a + 4) = sz" "is_free a (ram s) = fr" "check_magic a (ram s)"
    "get_footer a (ram s) = a + sz - 8" "check_magic (a + sz - 8) (ram s)" "footer_header (a + sz - 8) (ram s) = a"
    by (simp_all add: block_at_def get_size_def block_to_rbnode_def get_footer_def)
qed

text \<open>Two neighbours become one block; the one that was in the tree leaves it first.\<close>

lemma laid_absorb:
  assumes l: "laid head (ws @ (c, l, f) # (d, k, g) # ys) (insert p (free_nodes (ws @ ys))) s"
    and p: "p = c + 4 \<and> psz = l \<or> p = d + 4 \<and> psz = k"
  shows "\<exists>s2. tree_remove head psz \<lparr>alignment = 0, address = p\<rparr> s = Some (p, s2) \<and>
    get_size c (ram s2) = l \<and> get_size d (ram s2) = k \<and>
    laid head (ws @ (c, l + k, True) # ys) (free_nodes (ws @ ys)) (s2\<lparr>ram := join c (l + k) (ram s2)\<rparr>) \<and>
    touched (region c (l + k) \<union> link_words (insert p (free_nodes (ws @ ys))) \<union> node_words head) s
      (s2\<lparr>ram := join c (l + k) (ram s2)\<rparr>)"
proof -
  let ?bs = "ws @ (c, l, f) # (d, k, g) # ys" and ?A = "free_nodes (ws @ ys)"
  have in_bs: "(c, l, f) \<in> set ?bs" "(d, k, g) \<in> set ?bs" by simp_all
  have t: "tiles (start_address (heap_alloc s)) ?bs (end_address (heap_alloc s))" by (rule laidD(1) [OF l])
  have "c + 4 \<notin> ?A" using node_once [of _ ws c l f "(d, k, g) # ys"] t free_nodes_nodes [of "ws @ ys"] by auto
  moreover have "d + 4 \<notin> ?A"
    using node_once [of _ "ws @ [(c, l, f)]" d k g ys] t free_nodes_nodes [of "ws @ ys"] by auto
  ultimately have A: "insert p ?A - {p} = ?A" using p by auto
  have "rb_data (ram s) p = psz" using p block_fields(2) [OF l in_bs(1)] block_fields(2) [OF l in_bs(2)] by auto
  from laid_remove [OF l _ this]
  obtain s2 where s2: "tree_remove head psz \<lparr>alignment = 0, address = p\<rparr> s = Some (p, s2)" "laid head ?bs ?A s2"
    "touched (link_words (insert p ?A) \<union> node_words head) s s2" unfolding A by blast
  note j = laid_join [OF s2(2) free_nodes_nodes]
  have "touched (region c (l + k) \<union> link_words (insert p ?A) \<union> node_words head) s (s2\<lparr>ram := join c (l + k) (ram s2)\<rparr>)"
    by (rule touched_mono [OF touched_trans [OF s2(3) j(2)]]) blast
  then show ?thesis
    using s2(1) j(1) block_fields(1) [OF s2(2) in_bs(1)] block_fields(1) [OF s2(2) in_bs(2)] by blast
qed

text \<open>What the footer in front of a block says about its left neighbour.\<close>

lemma left_neighbour:
  assumes l: "laid head (xs @ (a, sz, fr) # ys) A s" and w: "\<not> check_magic (start_address (heap_alloc s) - 8) (ram s)"
  shows "left_is_free (a - 8) (heap_alloc s) (ram s) \<longleftrightarrow> xs \<noteq> [] \<and> snd (snd (last xs))"
    "xs = ws @ [(c, r, g)] \<Longrightarrow> footer_header (a - 8) (ram s) = c"
proof -
  have before: "c + r = a \<and> start_address (heap_alloc s) \<le> c" if xs: "xs = ws @ [(c, r, g)]" for ws c r g
  proof -
    have "tiles (start_address (heap_alloc s)) (ws @ (c, r, g) # (a, sz, fr) # ys) (end_address (heap_alloc s))"
      using laidD(1) [OF l] xs by simp
    then obtain c' where "tiles (start_address (heap_alloc s)) ws c'" "tiles c' ((c, r, g) # (a, sz, fr) # ys) (end_address (heap_alloc s))"
      unfolding tiles_append by blast
    then show ?thesis using tiles_le by (auto simp: word_le_nat_alt)
  qed
  have field: "block_at c r g (ram s)" if "xs = ws @ [(c, r, g)]" for ws c r g
    using laidD(2) [OF l] that by simp
  show head: "footer_header (a - 8) (ram s) = c" if "xs = ws @ [(c, r, g)]" for ws c r g
    using field [OF that] before [OF that] by (auto simp: block_at_def)
  show "left_is_free (a - 8) (heap_alloc s) (ram s) \<longleftrightarrow> xs \<noteq> [] \<and> snd (snd (last xs))"
  proof (cases xs rule: rev_cases)
    case Nil
    then have "a = start_address (heap_alloc s)" using laidD(1) [OF l] by simp
    then show ?thesis using w Nil by (simp add: left_is_free_def)
  next
    case (snoc ws x)
    obtain c r g where x: "x = (c, r, g)" by (cases x) auto
    then have xs: "xs = ws @ [(c, r, g)]" using snoc by simp
    have "block_at c r g (ram s)" "c + r - 8 = a - 8" using field [OF xs] before [OF xs] by auto
    then show ?thesis
      using head [OF xs] before [OF xs] xs by (auto simp: left_is_free_def block_at_def)
  qed
qed

section \<open>The invariant\<close>

definition coalesced :: "block list \<Rightarrow> bool" where
  "coalesced bs \<longleftrightarrow> successively (\<lambda>x y. \<not> (snd (snd x) \<and> snd (snd y))) bs"

definition used_size :: "block list \<Rightarrow> u32" where
  "used_size bs = sum_list (map (\<lambda>(a, sz, fr). if fr then 0 else sz) bs)"

definition heap_ok :: "u32 \<Rightarrow> block list \<Rightarrow> 'h heap_state \<Rightarrow> bool" where
  "heap_ok head bs s \<longleftrightarrow> laid head bs (free_nodes bs) s \<and> coalesced bs \<and>
     mem_used (heap_alloc s) = used_size bs \<and> end_address (heap_alloc s) mod FRAME_SIZE = 0 \<and>
     \<not> check_magic (start_address (heap_alloc s) - 8) (ram s)"

lemma coalesced_append:
  "coalesced (xs @ ys) \<longleftrightarrow> coalesced xs \<and> coalesced ys \<and>
     (xs = [] \<or> ys = [] \<or> \<not> (snd (snd (last xs)) \<and> snd (snd (hd ys))))"
  by (simp add: coalesced_def successively_append_iff)

lemma coalesced_Cons:
  "coalesced (x # xs) \<longleftrightarrow> coalesced xs \<and> (xs = [] \<or> \<not> (snd (snd x) \<and> snd (snd (hd xs))))"
  by (cases xs) (auto simp: coalesced_def)

lemma coalesced_nil [simp]: "coalesced []"
  by (simp add: coalesced_def)

lemma used_size_simps [simp]:
  "used_size [] = 0" "used_size ((a, sz, fr) # bs) = (if fr then 0 else sz) + used_size bs"
  "used_size (xs @ ys) = used_size xs + used_size ys"
  by (simp_all add: used_size_def)

lemma free_links_span:
  assumes "tiles b bs e"
  shows "link_words (free_nodes bs) \<subseteq> span b e"
proof -
  have "link_words (free_nodes bs) \<subseteq> link_words (nodes bs)" by (rule link_words_mono [OF free_nodes_nodes])
  also have "\<dots> \<subseteq> \<Union> (node_words ` nodes bs)" by (rule links_in_nodes)
  also have "\<dots> \<subseteq> span b e" by (rule node_words_span [OF assms])
  finally show ?thesis .
qed

lemma heap_okD:
  assumes "heap_ok head bs s"
  shows "laid head bs (free_nodes bs) s" "coalesced bs" "mem_used (heap_alloc s) = used_size bs"
    "end_address (heap_alloc s) mod FRAME_SIZE = 0" "\<not> check_magic (start_address (heap_alloc s) - 8) (ram s)"
    "tiles (start_address (heap_alloc s)) bs (end_address (heap_alloc s))" "heap_room head (heap_alloc s)"
  using assms by (auto simp: heap_ok_def laid_def)

lemma laid_mem_used: "laid head bs A (s\<lparr>heap_alloc := (heap_alloc s)\<lparr>mem_used := v\<rparr>\<rparr>) = laid head bs A s"
  by (simp add: laid_def heap_bounds_def)

text \<open>
  An operation leaves the blocks in use alone, and everything outside the addresses the heap
  may reach, apart from the dummy root on the stack.
\<close>

definition unharmed :: "u32 \<Rightarrow> block list \<Rightarrow> 'h heap_state \<Rightarrow> 'h heap_state \<Rightarrow> bool" where
  "unharmed head bs s s' \<longleftrightarrow>
     (\<forall>w. w \<notin> node_words head \<longrightarrow>
        w \<in> used_region bs \<or> w \<notin> span (start_address (heap_alloc s)) (start_address (heap_alloc s) + max_size (heap_alloc s)) \<longrightarrow>
        ram s' w = ram s w) \<and>
     start_address (heap_alloc s') = start_address (heap_alloc s) \<and>
     min_size (heap_alloc s') = min_size (heap_alloc s) \<and> max_size (heap_alloc s') = max_size (heap_alloc s)"

lemma unharmed_trans:
  "unharmed head bs s s' \<Longrightarrow> unharmed head bs s' s'' \<Longrightarrow> unharmed head bs s s''"
  by (simp add: unharmed_def)

lemma unharmed_sub: "unharmed head bs s s' \<Longrightarrow> used_region cs \<subseteq> used_region bs \<Longrightarrow> unharmed head cs s s'"
  by (auto simp: unharmed_def)

lemma room_nat:
  "heap_room head al \<Longrightarrow> unat (start_address al + max_size al) = unat (start_address al) + unat (max_size al)"
  by (subst unat_add_lem [THEN iffD1]) (auto simp: heap_bounds_def)

lemma touched_unharmed:
  assumes t: "touched W s s'" and r: "heap_room head (heap_alloc s)"
    and W: "W \<subseteq> span (start_address (heap_alloc s)) (end_address (heap_alloc s)) \<union> node_words head"
    and u: "W \<inter> used_region bs \<subseteq> node_words head"
  shows "unharmed head bs s s'"
proof -
  have "W \<subseteq> span (start_address (heap_alloc s)) (start_address (heap_alloc s) + max_size (heap_alloc s)) \<union> node_words head"
    using W r room_nat [OF r] by (auto simp: span_def heap_bounds_def)
  then show ?thesis using touched_fields [OF t] u unfolding unharmed_def by blast
qed

lemma unharmed_wall:
  assumes "unharmed head bs s s'" "heap_room head (heap_alloc s)" "\<not> check_magic (start_address (heap_alloc s) - 8) (ram s)"
  shows "\<not> check_magic (start_address (heap_alloc s') - 8) (ram s')"
proof -
  let ?b = "start_address (heap_alloc s)"
  have n: "unat (?b - 8) = unat ?b - 8" using assms(2) by (subst unat_sub) (auto simp: heap_bounds_def word_le_nat_alt)
  have "?b - 8 \<notin> node_words head" using assms(2) n by (auto simp: heap_bounds_def)
  moreover have "?b - 8 \<notin> span ?b (?b + max_size (heap_alloc s))"
    using assms(2) n by (auto simp: span_def heap_bounds_def)
  ultimately have "ram s' (?b - 8) = ram s (?b - 8)" using assms(1) by (simp add: unharmed_def)
  then show ?thesis using assms(1,3) by (simp add: check_magic_def unharmed_def)
qed

lemma unharmed_mem_used: "unharmed head bs s (s'\<lparr>heap_alloc := (heap_alloc s')\<lparr>mem_used := v\<rparr>\<rparr>) = unharmed head bs s s'"
  by (simp add: unharmed_def)

end
