(* ===== verification/Heap_Alloc.thy ===== *)
theory Heap_Alloc
  imports Heap_Blocks
begin

text \<open>
  Allocation from a heap with any number of blocks: \<open>alloc\<close> takes the smallest free block that is
  large enough, splits it when the rest is a block, and grows the heap when there is none.
\<close>

section \<open>Splitting a block\<close>

definition carve :: "u32 \<Rightarrow> u32 \<Rightarrow> u32 \<Rightarrow> bool \<Rightarrow> block list" where
  "carve a sz u fr = (if 28 \<le> unat sz - unat u then [(a, u, fr), (a + u, sz - u, True)] else [(a, sz, fr)])"

lemma carve_tiles:
  assumes "fits a sz" "4 dvd unat a" "4 dvd unat sz" "4 dvd unat u" "28 \<le> unat u" "u \<le> sz"
  shows "tiles a (carve a sz u fr) (a + sz)"
proof -
  have sub: "unat (sz - u) = unat sz - unat u" using assms(6) by (simp add: unat_sub)
  have au: "unat (a + u) = unat a + unat u" using block_offset_nat [OF assms(1)] assms(6) by (simp add: word_le_nat_alt)
  have "4 dvd unat (a + u)" "4 dvd unat (sz - u)" using assms(2-4) unfolding au sub by simp_all
  moreover have "fits a u" using assms(1,5,6) by (auto simp: fits_def word_le_nat_alt)
  moreover have "fits (a + u) (sz - u)" if "28 \<le> unat sz - unat u" using assms(1) that by (simp add: fits_def au sub)
  ultimately show ?thesis using assms by (simp add: carve_def add.assoc)
qed

lemma laid_split:
  assumes l: "laid head (xs @ (a, sz, fr) # ys) A s" and A: "A \<subseteq> nodes (xs @ ys)"
    and u: "4 dvd unat u" "28 \<le> unat u" "u \<le> sz"
  shows "\<exists>s'. alloc_split head u a s = Some s' \<and>
    laid head (xs @ carve a sz u fr @ ys) (if 28 \<le> unat sz - unat u then insert (a + u + 4) A else A) s' \<and>
    touched (region a sz \<union> link_words A \<union> node_words head) s s'"
proof -
  note D = laidD [OF l] and w = whole_block [OF laidD(1) [OF l]]
  have sub: "unat (sz - u) = unat sz - unat u" using u(3) by (simp add: unat_sub)
  have gs: "get_size a (ram s) = sz" "is_free a (ram s) = fr" using D(2) by (auto simp: block_at_def)
  show ?thesis
  proof (cases "28 \<le> unat sz - unat u")
    case False
    then have "\<not> (sz - u > 0 \<and> sz - u \<ge> MIN_BLOCK_SIZE)"
      by (simp add: MIN_BLOCK_SIZE_def word_le_nat_alt sub)
    then have "alloc_split head u a s = Some s" unfolding alloc_split_def Let_def gs(1) by (rule if_not_P)
    then show ?thesis using l False by (simp add: carve_def touched_def)
  next
    case True
    define m1 where "m1 = write_block a u (ram s)"
    define m2 where "m2 = mark_free (a + u) (write_block (a + u) (sz - u) m1)"
    have t: "tiles a (carve a sz u fr) (a + sz)" by (rule carve_tiles [OF w(2-4) u])
    then have f: "fits a u" "fits (a + u) (sz - u)" using True by (auto simp: carve_def)
    have f': "fits a (u + (sz - u))" "unat (u + (sz - u)) = unat u + unat (sz - u)"
      using w(2) sub u(3) by (simp_all add: word_le_nat_alt)
    note sp = regions_split [OF f'] block_words_region [OF f(1)]
    have out1: "w \<notin> region a u \<Longrightarrow> m1 w = ram s w" for w
      using write_outside [OF f(1)] by (simp add: m1_def)
    have out2: "w \<notin> region (a + u) (sz - u) \<Longrightarrow> m2 w = m1 w" for w
      using write_outside [OF f(2)] by (simp add: m2_def)
    have b1: "block_at a u fr m1" using write_block_at(1) [OF f(1)] gs(2) by (auto simp: m1_def)
    have "block_at a u fr m2"
      by (rule block_at_cong [OF b1], rule out2) (use sp(1,3) in blast)
    moreover have "block_at (a + u) (sz - u) True m2"
      unfolding m2_def by (rule mark_block(1) [OF f(2) write_block_at(1) [OF f(2)]])
    ultimately have "blocks_at (carve a sz u fr) m2" using True by (simp add: carve_def)
    moreover have "m2 w = ram s w" if "w \<notin> region a sz" for w
      using that out1 out2 sp(2) by auto
    ultimately have l2: "laid head (xs @ carve a sz u fr @ ys) A (s\<lparr>ram := m2\<rparr>)" "touched (region a sz) s (s\<lparr>ram := m2\<rparr>)"
      using laid_rewrite [OF l A t] by auto
    have new: "a + u + 4 \<notin> A"
    proof -
      have "a + u + 4 \<in> region (a + u) (sz - u)"
        using node_region [OF f(2)] by (auto simp: node_words_def)
      then have "a + u + 4 \<in> region a sz" using sp(2) by auto
      moreover have "n \<in> \<Union> (node_words ` nodes (xs @ ys))" if "n \<in> A" for n
        using A that by (force simp: node_words_def)
      ultimately show ?thesis using middle_apart(2) [OF D(1)] by blast
    qed
    have "a + u + 4 \<in> nodes (xs @ carve a sz u fr @ ys)" using True by (simp add: carve_def)
    from laid_insert [OF l2(1) this new]
    obtain s' where s': "tree_insert head (a + u + 4) (s\<lparr>ram := m2\<rparr>) = Some s'"
      "laid head (xs @ carve a sz u fr @ ys) (insert (a + u + 4) A) s'"
      "touched (link_words (insert (a + u + 4) A) \<union> node_words head) (s\<lparr>ram := m2\<rparr>) s'" by blast
    have "get_next_block a m1 = a + u" using b1 by (simp add: get_next_block_def block_at_def)
    moreover have "sz - u > 0 \<and> sz - u \<ge> MIN_BLOCK_SIZE"
      using True by (simp add: MIN_BLOCK_SIZE_def word_le_nat_alt word_less_nat_alt sub)
    ultimately have "alloc_split head u a s = Some s'"
      using s'(1) by (simp add: alloc_split_def Let_def gs(1) m1_def [symmetric] m2_def [symmetric] block_to_rbnode_def)
    moreover have "link_words {a + u + 4} \<subseteq> region a sz"
      using links_in_nodes [of "{a + u + 4}"] node_region [OF f(2)] sp(2) by auto
    then have "link_words (insert (a + u + 4) A) \<subseteq> region a sz \<union> link_words A" by (auto simp: link_words_def)
    then have "touched (region a sz \<union> link_words A \<union> node_words head) s s'"
      by (intro touched_mono [OF touched_trans [OF l2(2) s'(3)]]) blast
    ultimately show ?thesis using s'(2) True by simp
  qed
qed

section \<open>Taking a block\<close>

definition carved_size :: "u32 \<Rightarrow> u32 \<Rightarrow> u32" where
  "carved_size sz u = (if 28 \<le> unat sz - unat u then u else sz)"

definition carved_rest :: "u32 \<Rightarrow> u32 \<Rightarrow> u32 \<Rightarrow> block list" where
  "carved_rest a sz u = (if 28 \<le> unat sz - unat u then [(a + u, sz - u, True)] else [])"

lemma carve_eq: "carve a sz u fr = (a, carved_size sz u, fr) # carved_rest a sz u"
  by (simp add: carve_def carved_size_def carved_rest_def)

lemma mark_used_laid:
  assumes l: "laid head (xs @ (a, k, fr) # ys) A s" and A: "A \<subseteq> nodes (xs @ ys)"
  defines "m \<equiv> mark_used a (ram s)"
  shows "laid head (xs @ (a, k, False) # ys) A (s\<lparr>ram := m\<rparr>)" "touched (region a k) s (s\<lparr>ram := m\<rparr>)" "get_size a m = k"
proof -
  note w = whole_block [OF laidD(1) [OF l]]
  have "block_at a k fr (ram s)" using laidD(2) [OF l] by simp
  then have b: "block_at a k False m" unfolding m_def by (rule mark_block(2) [OF w(2)])
  then show "get_size a m = k" by (simp add: block_at_def)
  have out: "v \<notin> region a k \<Longrightarrow> m v = ram s v" for v using write_outside(3) [OF w(2)] by (simp add: m_def)
  have "blocks_at [(a, k, False)] m" using b by simp
  from laid_rewrite [OF l A w(1) this out]
  show "laid head (xs @ (a, k, False) # ys) A (s\<lparr>ram := m\<rparr>)" "touched (region a k) s (s\<lparr>ram := m\<rparr>)" by simp_all
qed

lemma region_prefix: "unat k \<le> unat sz \<Longrightarrow> region a k \<subseteq> region a sz"
  by (auto simp: region_def)

lemma take_block:
  assumes l: "laid head (xs @ (a, sz, fr) # ys) (free_nodes (xs @ ys)) s"
    and u: "4 dvd unat u" "28 \<le> unat u" "u \<le> sz"
  defines "bs' \<equiv> xs @ carve a sz u False @ ys"
  shows "\<exists>s1 s'. alloc_block head u 1 (a + 4) s = Some (a + 8, s') \<and> laid head bs' (free_nodes bs') s' \<and>
    touched (region a sz \<union> link_words (free_nodes (xs @ ys)) \<union> node_words head) s s1 \<and>
    s' = s1\<lparr>heap_alloc := (heap_alloc s1)\<lparr>mem_used := mem_used (heap_alloc s1) + carved_size sz u\<rparr>\<rparr>"
proof -
  let ?A = "free_nodes (xs @ ys)" and ?k = "carved_size sz u" and ?r = "carved_rest a sz u"
  let ?B = "if 28 \<le> unat sz - unat u then insert (a + u + 4) ?A else ?A"
  obtain s2 where s2: "alloc_split head u a s = Some s2" "laid head (xs @ carve a sz u fr @ ys) ?B s2"
    "touched (region a sz \<union> link_words ?A \<union> node_words head) s s2"
    using laid_split [OF l free_nodes_nodes u] by blast
  have B: "?B = free_nodes bs'" by (simp add: bs'_def carve_eq carved_rest_def)
  have l2: "laid head (xs @ (a, ?k, fr) # (?r @ ys)) (free_nodes bs') s2" using s2(2) unfolding B carve_eq by simp
  have "free_nodes bs' \<subseteq> nodes (xs @ (?r @ ys))"
    using free_nodes_nodes [of "xs @ ?r @ ys"] by (simp add: bs'_def carve_eq)
  note l3 = mark_used_laid [OF l2 this]
  define s3 where "s3 = s2\<lparr>ram := mark_used a (ram s2)\<rparr>"
  define s4 where "s4 = s3\<lparr>heap_alloc := (heap_alloc s3)\<lparr>mem_used := mem_used (heap_alloc s3) + ?k\<rparr>\<rparr>"
  have "alloc_align head 1 a s = Some (a, s)" by (simp add: alloc_align_def)
  then have "alloc_block head u 1 (a + 4) s = Some (a + 8, s4)"
    using s2(1) l3(3) by (simp add: alloc_block_def rbnode_to_block_def Let_def s3_def s4_def
        block_to_user_def USER_PTR_OFFSET_def)
  moreover have "laid head bs' (free_nodes bs') s4"
    using l3(1) unfolding s4_def laid_mem_used by (simp add: s3_def bs'_def carve_eq)
  moreover have "region a ?k \<subseteq> region a sz"
    by (rule region_prefix) (use u(3) in \<open>simp add: carved_size_def word_le_nat_alt\<close>)
  then have "touched (region a sz \<union> link_words ?A \<union> node_words head) s s3"
    unfolding s3_def by (intro touched_mono [OF touched_trans [OF s2(3) l3(2)]]) blast
  ultimately show ?thesis unfolding s4_def by blast
qed

lemma coalesced_carve:
  "coalesced (xs @ (a, sz, True) # ys) \<Longrightarrow> coalesced (xs @ carve a sz u False @ ys)"
  by (auto simp: coalesced_append coalesced_Cons carve_def)

lemma block_size_fits:
  assumes "unat n + 19 < 2 ^ 32"
  shows "4 dvd unat (get_block_size n)" "28 \<le> unat (get_block_size n)"
  using block_size_nat [OF assms] by (simp_all add: max_def)

lemma alloc_fit:
  assumes ok: "heap_ok head bs s" and u: "u = get_block_size n" "unat n + 19 < 2 ^ 32" and al: "al = 0 \<or> al = 1"
    and ex: "\<exists>a sz. (a, sz, True) \<in> set bs \<and> u \<le> sz"
  shows "\<exists>xs a sz ys s'. bs = xs @ (a, sz, True) # ys \<and> u \<le> sz \<and>
    (\<forall>c r. (c, r, True) \<in> set bs \<longrightarrow> u \<le> r \<longrightarrow> sz \<le> r) \<and> alloc kap head n al s = Some (a + 8, s') \<and>
    heap_ok head (xs @ carve a sz u False @ ys) s' \<and> unharmed head bs s s' \<and>
    end_address (heap_alloc s') = end_address (heap_alloc s) \<and>
    page_directory (heap_alloc s') = page_directory (heap_alloc s)"
proof -
  note k = heap_okD [OF ok] and us = block_size_fits [OF u(2), folded u(1)]
  obtain nd s1 xs a sz ys where r: "tree_remove head u \<lparr>alignment = 1, address = 0\<rparr> s = Some (nd, s1)"
      "touched (link_words (free_nodes bs) \<union> node_words head) s s1" "bs = xs @ (a, sz, True) # ys" "nd = a + 4" "u \<le> sz"
      "\<forall>c r. (c, r, True) \<in> set bs \<longrightarrow> u \<le> r \<longrightarrow> sz \<le> r" "laid head bs (free_nodes (xs @ ys)) s1"
    using laid_best [OF k(1), of u] unfolding if_P [OF ex] by blast
  define bs' where "bs' = xs @ carve a sz u False @ ys"
  from take_block [OF r(7) [unfolded r(3)] us r(5), folded bs'_def]
  obtain s2 s' where t: "alloc_block head u 1 (a + 4) s1 = Some (a + 8, s')" "laid head bs' (free_nodes bs') s'"
    "touched (region a sz \<union> link_words (free_nodes (xs @ ys)) \<union> node_words head) s1 s2"
    "s' = s2\<lparr>heap_alloc := (heap_alloc s2)\<lparr>mem_used := mem_used (heap_alloc s2) + carved_size sz u\<rparr>\<rparr>" by blast
  let ?W = "region a sz \<union> link_words (free_nodes bs) \<union> node_words head"
  have tb: "tiles (start_address (heap_alloc s)) (xs @ (a, sz, True) # ys) (end_address (heap_alloc s))" using k(6) r(3) by simp
  note w = whole_block [OF tb]
  have lw: "link_words (free_nodes (xs @ ys)) \<subseteq> link_words (free_nodes bs)"
    by (rule link_words_mono) (auto simp: r(3))
  have t2: "touched ?W s s2" by (rule touched_mono [OF touched_trans [OF r(2) t(3)]]) (use lw in blast)
  note f = touched_fields [OF t2]
  have "unharmed head bs s s2"
  proof (rule touched_unharmed [OF t2 k(7)])
    show "?W \<subseteq> span (start_address (heap_alloc s)) (end_address (heap_alloc s)) \<union> node_words head"
      using w(6) free_links_span [OF k(6)] by blast
    have "region a sz \<inter> used_region bs = {}" using middle_apart(1) [OF tb] by (simp add: r(3))
    then show "?W \<inter> used_region bs \<subseteq> node_words head" using links_off_used [OF k(6)] by blast
  qed
  then have un: "unharmed head bs s s'" by (simp add: t(4) unharmed_mem_used)
  have "a + 4 \<noteq> 0" by (rule node_nonnull [OF w(2)])
  then have "alloc kap head n al s = Some (a + 8, s')"
    using r(1,4) t(1) al by (subst alloc.simps) (auto simp: u(1) [symmetric])
  moreover have "heap_ok head bs' s'"
    using t(2) coalesced_carve k(2) unharmed_wall [OF un k(7,5)] f(2,5) k(3,4)
    by (simp add: heap_ok_def t(4) bs'_def r(3) carve_eq carved_rest_def)
  moreover have "end_address (heap_alloc s') = end_address (heap_alloc s)"
    "page_directory (heap_alloc s') = page_directory (heap_alloc s)"
    using f(2,8) by (simp_all add: t(4))
  ultimately show ?thesis using r(3,5,6) un unfolding bs'_def by blast
qed

end
