(* ===== verification/Heap_Grow.thy ===== *)
theory Heap_Grow
  imports Heap_Alloc
begin

text \<open>
  Allocation when no free block is large enough: the heap grows by whole pages, the new pages
  become a free block or join the free block at the end, and the second search succeeds.
\<close>

section \<open>The new end\<close>

definition can_grow :: "u32 \<Rightarrow> allocator \<Rightarrow> bool" where
  "can_grow u al \<longleftrightarrow> (unat (end_address al) + unat u + 4095) div 4096 * 4096 \<le> unat (start_address al) + unat (max_size al)"

lemma round_up_nat:
  "(n + 4095) div 4096 * 4096 = (if n mod 4096 = 0 then n else n - n mod 4096 + 4096)" for n :: nat
proof -
  have "(n + 4095) div 4096 = n div 4096 + (n mod 4096 + 4095) div 4096" by (simp add: div_add1_eq [of n 4095])
  moreover have "(n mod 4096 + 4095) div 4096 = (if n mod 4096 = 0 then 0 else 1)"
  proof (cases "n mod 4096 = 0")
    case False
    have "n mod 4096 < 4096" by simp
    then have "n mod 4096 + 4095 = 4096 + (n mod 4096 - 1)" "n mod 4096 - 1 < 4096" using False by linarith+
    then show ?thesis using False by simp
  qed simp
  moreover have "n div 4096 * 4096 = n - n mod 4096" by (rule minus_mod_eq_div_mult [symmetric])
  ultimately show ?thesis by (simp add: add_mult_distrib)
qed

lemma page_up_nat:
  assumes "(unat a + 4095) div 4096 * 4096 < 2 ^ 32"
  shows "unat (page_up a) = (unat a + 4095) div 4096 * 4096"
proof (cases "a mod FRAME_SIZE = 0")
  case True
  then show ?thesis by (simp add: page_up_def round_up_nat aligned_nat)
next
  case False
  then have nz: "unat a mod 4096 \<noteq> 0" by (simp add: aligned_nat)
  have "unat (a - a mod FRAME_SIZE) + unat FRAME_SIZE < 2 ^ 32"
    using assms nz unfolding round_up_nat page_down frame_size_nat by simp
  then have "unat (a - a mod FRAME_SIZE + FRAME_SIZE) = unat (a - a mod FRAME_SIZE) + unat FRAME_SIZE"
    by (subst unat_add_lem [THEN iffD1]) auto
  then show ?thesis using False nz by (simp add: page_up_def round_up_nat page_down frame_size_nat)
qed

lemma grown_end:
  assumes "heap_room head al" "can_grow u al"
  defines "e \<equiv> page_up (end_address al + u)"
  shows "unat (end_address al + u) = unat (end_address al) + unat u" "unat (end_address al) + unat u \<le> unat e"
    "unat e \<le> unat (start_address al) + unat (max_size al)" "e mod FRAME_SIZE = 0"
proof -
  let ?n = "unat (end_address al) + unat u"
  have le: "?n \<le> (?n + 4095) div 4096 * 4096"
    unfolding round_up_nat using mod_less_divisor [of 4096 ?n] by (auto simp del: mod_less_divisor)
  then have "?n < 2 ^ 32" using assms(1,2) by (simp add: can_grow_def heap_bounds_def)
  then show s: "unat (end_address al + u) = ?n" by (subst unat_add_lem [THEN iffD1]) auto
  have "unat e = (?n + 4095) div 4096 * 4096"
    using page_up_nat [of "end_address al + u"] assms(1,2) unfolding e_def s by (simp add: can_grow_def heap_bounds_def)
  then show "?n \<le> unat e" "unat e \<le> unat (start_address al) + unat (max_size al)"
    using le assms(2) by (simp_all add: can_grow_def)
  show "e mod FRAME_SIZE = 0" unfolding e_def by (rule page_up_aligned)
qed

lemma expand_grows:
  assumes r: "heap_room head (heap_alloc s)" and g: "can_grow u (heap_alloc s)" and u: "0 < unat u"
    and e: "end_address (heap_alloc s) mod FRAME_SIZE = 0"
  shows "\<exists>s'. expand kap (end_address (heap_alloc s) + u) s = Some s' \<and> resized (page_up (end_address (heap_alloc s) + u)) s s'"
proof -
  let ?al = "heap_alloc s"
  let ?e = "page_up (end_address ?al + u)"
  note n = grown_end [OF r g]
  have "\<not> (end_address ?al + u \<le> end_address ?al \<or> ?e > start_address ?al + max_size ?al)"
    using n u room_nat [OF r] by (simp add: word_le_nat_alt word_less_nat_alt)
  moreover have "max (end_address ?al) ?e = ?e"
    using n by (simp add: max_def word_le_nat_alt)
  ultimately show ?thesis using expand_result [OF e, of kap "end_address ?al + u"] by simp
qed

section \<open>The new block\<close>

lemma laid_extend:
  assumes l: "laid head bs A s" and r: "resized e' s s1" and e: "e = end_address (heap_alloc s)"
    and al: "e mod FRAME_SIZE = 0" "e' mod FRAME_SIZE = 0"
    and n: "unat e + 28 \<le> unat e'" "unat e' \<le> unat (start_address (heap_alloc s)) + unat (max_size (heap_alloc s))"
  defines "m \<equiv> write_block e (e' - e) (ram s)"
  shows "laid head (bs @ [(e, e' - e, is_free e (ram s))]) A (s1\<lparr>ram := m\<rparr>)" "fits e (e' - e)"
proof -
  note D = laidD [OF l]
  have end1: "end_address (heap_alloc s1) = e'" by (rule resized_end [OF r])
  have rest: "only_end_moved (heap_alloc s) (heap_alloc s1)" by (rule resized_rest(2) [OF r])
  have k: "unat (e' - e) = unat e' - unat e" using n(1) by (subst unat_sub) (auto simp: word_le_nat_alt)
  show f: "fits e (e' - e)" using n unat_less_32 [of e'] by (simp add: fits_def k)
  have "4096 dvd unat e" "4096 dvd unat e'" using al by (auto simp: aligned_nat)
  moreover have "(4::nat) dvd 4096" by simp
  ultimately have d: "4 dvd unat e" "4 dvd unat e'" by (meson dvd_trans)+
  then have "4 dvd unat (e' - e)" unfolding k by simp
  then have "tiles (start_address (heap_alloc s)) (bs @ [(e, e' - e, is_free e (ram s))]) e'"
    using D(1) f d(1) e unfolding tiles_append by (intro exI [of _ e]) simp
  moreover have out: "m w = ram s w" if "w \<in> span (start_address (heap_alloc s)) e" for w
    unfolding m_def by (rule write_outside(1) [OF f]) (use that in \<open>auto simp: span_def region_def\<close>)
  have "blocks_at bs m"
  proof (rule blocks_at_cong [OF D(2)])
    fix c r g w assume c: "(c, r, g) \<in> set bs" "w \<in> block_words c r"
    show "m w = ram s w" by (rule out) (use tiles_block [OF D(1) c(1)] block_words_region [of c r] c(2) e in blast)
  qed
  moreover have "block_at e (e' - e) (is_free e (ram s)) m" unfolding m_def by (rule write_block_at(1) [OF f])
  moreover have "free_tree A (mem_tree (heap_alloc s)) m"
    by (rule free_tree_cong [OF D(4)], rule out) (use node_words_span [OF D(1)] D(3) e in blast)
  moreover have "heap_room head (heap_alloc s1)"
    using D(5) n(2) rest end1 unfolding heap_bounds_def only_end_moved_def by simp
  ultimately show "laid head (bs @ [(e, e' - e, is_free e (ram s))]) A (s1\<lparr>ram := m\<rparr>)"
    using rest D(3) end1 by (auto simp: laid_def only_end_moved_def)
qed

definition grown :: "block list \<Rightarrow> u32 \<Rightarrow> u32 \<Rightarrow> block list" where
  "grown bs e k = (case rev bs of
     (c, l, True) # ws \<Rightarrow> rev ws @ [(c, l + k, True)]
   | _ \<Rightarrow> bs @ [(e, k, True)])"

lemma grown_simps:
  "grown (ws @ [(c, l, True)]) e k = ws @ [(c, l + k, True)]"
  "bs = [] \<or> \<not> snd (snd (last bs)) \<Longrightarrow> grown bs e k = bs @ [(e, k, True)]"
  by (cases bs rule: rev_cases; auto simp: grown_def split: bool.splits)+

lemma join_swapped:
  "fits c sz \<Longrightarrow> mark_free c (set_footer_header (c + sz - 8) c (set_size c sz m)) = join c sz m"
  using block_words_distinct [of c sz]
  by (auto simp: join_def field_defs footer_word fun_upd_twist)

lemma grow_join:
  assumes l: "laid head (ws @ (c, l, True) # [(e, k, fr)]) (insert (c + 4) (free_nodes ws)) s"
  shows "\<exists>s2 s'. tree_remove head l \<lparr>alignment = 0, address = c + 4\<rparr> s = Some (c + 4, s2) \<and>
    get_size c (ram s2) = l \<and> get_size e (ram s2) = k \<and> e = c + l \<and> fits c (l + k) \<and>
    tree_insert head (c + 4) (s2\<lparr>ram := join c (l + k) (ram s2)\<rparr>) = Some s' \<and>
    laid head (ws @ [(c, l + k, True)]) (insert (c + 4) (free_nodes ws)) s' \<and>
    touched (region c (l + k) \<union> link_words (insert (c + 4) (free_nodes ws)) \<union> node_words head) s s'"
proof -
  let ?A = "insert (c + 4) (free_nodes ws)"
  note two = two_blocks [OF laidD(1) [OF l]]
  obtain s2 where s2: "tree_remove head l \<lparr>alignment = 0, address = c + 4\<rparr> s = Some (c + 4, s2)"
    "get_size c (ram s2) = l" "get_size e (ram s2) = k"
    "laid head (ws @ [(c, l + k, True)]) (free_nodes ws) (s2\<lparr>ram := join c (l + k) (ram s2)\<rparr>)"
    "touched (region c (l + k) \<union> link_words ?A \<union> node_words head) s (s2\<lparr>ram := join c (l + k) (ram s2)\<rparr>)"
    using laid_absorb [of head ws c l True e k fr "[]" "c + 4" s l] l by auto
  have "c + 4 \<notin> free_nodes ws"
    using node_once [OF laidD(1) [OF s2(4)]] free_nodes_nodes [of ws] by auto
  then obtain s' where s': "tree_insert head (c + 4) (s2\<lparr>ram := join c (l + k) (ram s2)\<rparr>) = Some s'"
    "laid head (ws @ [(c, l + k, True)]) ?A s'"
    "touched (link_words ?A \<union> node_words head) (s2\<lparr>ram := join c (l + k) (ram s2)\<rparr>) s'"
    using laid_insert [OF s2(4), of "c + 4"] by auto
  have "touched (region c (l + k) \<union> link_words ?A \<union> node_words head) s s'"
    by (rule touched_mono [OF touched_trans [OF s2(5) s'(3)]]) blast
  then show ?thesis using s2(1-3) s'(1,2) two(1,2) by blast
qed

lemma grow_append:
  assumes l: "laid head (bs @ [(e, k, fr)]) (free_nodes bs) s"
  shows "\<exists>s'. tree_insert head (e + 4) (s\<lparr>ram := mark_free e (ram s)\<rparr>) = Some s' \<and>
    laid head (bs @ [(e, k, True)]) (insert (e + 4) (free_nodes bs)) s' \<and>
    touched (region e k \<union> link_words (free_nodes bs) \<union> node_words head) s s'"
proof -
  note w = whole_block [OF laidD(1) [OF l]]
  have out: "v \<notin> region e k \<Longrightarrow> mark_free e (ram s) v = ram s v" for v by (rule write_outside(2) [OF w(2)])
  have "block_at e k fr (ram s)" using laidD(2) [OF l] by simp
  then have "blocks_at [(e, k, True)] (mark_free e (ram s))" using mark_block(1) [OF w(2)] by simp
  note l1 = laid_rewrite [OF l, unfolded append_Nil2, OF free_nodes_nodes w(1) this out]
  have "e + 4 \<notin> free_nodes bs" using node_once [OF laidD(1) [OF l]] free_nodes_nodes [of bs] by auto
  then obtain s' where s': "tree_insert head (e + 4) (s\<lparr>ram := mark_free e (ram s)\<rparr>) = Some s'"
    "laid head (bs @ [(e, k, True)]) (insert (e + 4) (free_nodes bs)) s'"
    "touched (link_words (insert (e + 4) (free_nodes bs)) \<union> node_words head) (s\<lparr>ram := mark_free e (ram s)\<rparr>) s'"
    using laid_insert [OF l1(1), of "e + 4"] by auto
  have "link_words {e + 4} \<subseteq> region e k" using links_in_nodes [of "{e + 4}"] node_region [OF w(2)] by auto
  then have "link_words (insert (e + 4) (free_nodes bs)) \<subseteq> region e k \<union> link_words (free_nodes bs)"
    by (auto simp: link_words_def)
  then have "touched (region e k \<union> link_words (free_nodes bs) \<union> node_words head) s s'"
    by (intro touched_mono [OF touched_trans [OF l1(2) s'(3)]]) auto
  then show ?thesis using s'(1,2) by blast
qed

text \<open>The branch of \<open>alloc\<close> that grows the heap.\<close>

lemma resized_write:
  assumes r: "resized e' s s1" and room: "heap_room head (heap_alloc s)" and e: "e = end_address (heap_alloc s)"
    and f: "fits e (e' - e)" and n: "unat e' \<le> unat (start_address (heap_alloc s)) + unat (max_size (heap_alloc s))"
    and t: "tiles (start_address (heap_alloc s)) bs e"
  shows "unharmed head bs s (s1\<lparr>ram := write_block e (e' - e) (ram s)\<rparr>)"
proof -
  let ?m = "write_block e (e' - e) (ram s)"
  have le: "unat (start_address (heap_alloc s)) \<le> unat e" by (rule tiles_le [OF t])
  have "region e (e' - e) = span e e'" using span_region [OF f] by simp
  then have W: "region e (e' - e) \<subseteq> span (start_address (heap_alloc s)) (start_address (heap_alloc s) + max_size (heap_alloc s))"
    and U: "region e (e' - e) \<inter> used_region bs = {}"
    using le n room_nat [OF room] used_region_span [OF t] by (auto simp: span_def)
  have out: "?m w = ram s w" if "w \<notin> region e (e' - e)" for w by (rule write_outside(1) [OF f that])
  have "?m w = ram s w" if "w \<in> used_region bs \<or>
      w \<notin> span (start_address (heap_alloc s)) (start_address (heap_alloc s) + max_size (heap_alloc s))" for w
    by (rule out) (use that W U in blast)
  then show ?thesis using resized_rest(2) [OF r] by (simp add: unharmed_def only_end_moved_def)
qed

lemma coalesced_grown: "coalesced bs \<Longrightarrow> coalesced (grown bs e k)"
proof (cases bs rule: rev_cases)
  case (snoc ws x)
  assume "coalesced bs"
  then show ?thesis
    using snoc by (cases x) (auto simp: grown_def coalesced_append coalesced_Cons split: bool.splits)
qed (simp add: grown_def coalesced_Cons)

lemma used_grown [simp]: "used_size (grown bs e k) = used_size bs"
proof (cases bs rule: rev_cases)
  case (snoc ws x)
  then show ?thesis by (cases x) (auto simp: grown_def split: bool.splits)
qed (simp add: grown_def)

lemma laid_unharmed:
  assumes l: "laid head cs A s" and t: "touched (W \<union> link_words (free_nodes bs) \<union> node_words head) s s'"
    and b: "tiles (start_address (heap_alloc s)) bs e" "unat e \<le> unat (end_address (heap_alloc s))"
    and W: "W \<subseteq> span (start_address (heap_alloc s)) (end_address (heap_alloc s))" "W \<inter> used_region bs = {}"
  shows "unharmed head bs s s'"
proof (rule touched_unharmed [OF t laidD(5) [OF l]])
  have "span (start_address (heap_alloc s)) e \<subseteq> span (start_address (heap_alloc s)) (end_address (heap_alloc s))"
    using b(2) by (auto simp: span_def)
  then show "W \<union> link_words (free_nodes bs) \<union> node_words head
      \<subseteq> span (start_address (heap_alloc s)) (end_address (heap_alloc s)) \<union> node_words head"
    using W(1) free_links_span [OF b(1)] by blast
  show "(W \<union> link_words (free_nodes bs) \<union> node_words head) \<inter> used_region bs \<subseteq> node_words head"
    using W(2) links_off_used [OF b(1)] by blast
qed

lemma alloc_expand_eq:
  assumes "expand kap (end_address (heap_alloc s) + u) s = Some s1" "e = end_address (heap_alloc s)"
    "k = end_address (heap_alloc s1) - e" "m = write_block e k (ram s1)"
  shows "alloc_expand kap head u s =
    (if left_is_free (e - 8) (heap_alloc s1) m
     then case tree_remove head (get_size (footer_header (e - 8) m) m)
            \<lparr>alignment = 0, address = footer_header (e - 8) m + 4\<rparr> (s1\<lparr>ram := m\<rparr>) of
            None \<Rightarrow> None
          | Some (n, s2) \<Rightarrow>
              if n = 0 then Some (False, s2)
              else let b = rbnode_to_block n
                in map_option (Pair True) (tree_insert head n (s2\<lparr>ram := mark_free b (set_footer_header (get_footer e m) b
                     (set_size b (get_size b (ram s2) + get_size e (ram s2)) (ram s2)))\<rparr>))
     else map_option (Pair True) (tree_insert head (e + 4) (s1\<lparr>ram := mark_free e m\<rparr>)))"
  unfolding alloc_expand_def Let_def assms(1) assms(2-4) get_left_footer_def block_to_rbnode_def by simp

lemma alloc_expand_joins:
  assumes l: "laid head (ws @ (c, l, True) # [(e, k, fr)]) (insert (c + 4) (free_nodes ws)) (s1\<lparr>ram := m\<rparr>)"
    and wall: "\<not> check_magic (start_address (heap_alloc s1) - 8) m"
    and x: "expand kap (end_address (heap_alloc s) + u) s = Some s1" "e = end_address (heap_alloc s)"
      "k = end_address (heap_alloc s1) - e" "m = write_block e k (ram s1)"
  shows "\<exists>s'. alloc_expand kap head u s = Some (True, s') \<and>
    laid head (ws @ [(c, l + k, True)]) (insert (c + 4) (free_nodes ws)) s' \<and>
    touched (region c (l + k) \<union> link_words (insert (c + 4) (free_nodes ws)) \<union> node_words head) (s1\<lparr>ram := m\<rparr>) s'"
proof -
  let ?s = "s1\<lparr>ram := m\<rparr>"
  obtain s2 s' where g: "tree_remove head l \<lparr>alignment = 0, address = c + 4\<rparr> ?s = Some (c + 4, s2)"
    "get_size c (ram s2) = l" "get_size e (ram s2) = k" "e = c + l" "fits c (l + k)"
    "tree_insert head (c + 4) (s2\<lparr>ram := join c (l + k) (ram s2)\<rparr>) = Some s'"
    "laid head (ws @ [(c, l + k, True)]) (insert (c + 4) (free_nodes ws)) s'"
    "touched (region c (l + k) \<union> link_words (insert (c + 4) (free_nodes ws)) \<union> node_words head) ?s s'"
    using grow_join [OF l] by blast
  have l': "laid head ((ws @ [(c, l, True)]) @ (e, k, fr) # []) (insert (c + 4) (free_nodes ws)) ?s" using l by simp
  have left: "left_is_free (e - 8) (heap_alloc s1) m" "footer_header (e - 8) m = c"
    using left_neighbour(1) [OF l'] left_neighbour(2) [OF l' _ refl] wall by simp_all
  have gs: "get_size c m = l" "get_footer e m = c + (l + k) - 8"
    using block_fields(1) [OF l, of c l True] block_fields(5) [OF l, of e k fr] g(4) by simp_all
  have "c + 4 \<noteq> 0" by (rule node_nonnull [OF g(5)])
  then have "alloc_expand kap head u s = Some (True, s')"
    unfolding alloc_expand_eq [OF x] if_P [OF left(1)] left(2) gs
    by (simp add: g(1-3,6) join_swapped [OF g(5)] rbnode_to_block_def Let_def)
  then show ?thesis using g(7,8) by blast
qed

lemma alloc_expand_lays:
  assumes l: "laid head (bs @ [(e, k, fr)]) (free_nodes bs) (s1\<lparr>ram := m\<rparr>)"
    and wall: "\<not> check_magic (start_address (heap_alloc s1) - 8) m"
    and x: "expand kap (end_address (heap_alloc s) + u) s = Some s1" "e = end_address (heap_alloc s)"
      "k = end_address (heap_alloc s1) - e" "m = write_block e k (ram s1)"
  shows "\<exists>s' W. alloc_expand kap head u s = Some (True, s') \<and> laid head (grown bs e k) (free_nodes (grown bs e k)) s' \<and>
    touched (W \<union> link_words (free_nodes bs) \<union> node_words head) (s1\<lparr>ram := m\<rparr>) s' \<and>
    W \<subseteq> span (start_address (heap_alloc s1)) (end_address (heap_alloc s1)) \<and> W \<inter> used_region bs = {}"
proof (cases "bs \<noteq> [] \<and> snd (snd (last bs))")
  case True
  then obtain ws c l where bs: "bs = ws @ [(c, l, True)]" by (cases bs rule: rev_cases) auto
  have l': "laid head (ws @ (c, l, True) # [(e, k, fr)]) (insert (c + 4) (free_nodes ws)) (s1\<lparr>ram := m\<rparr>)"
    using l bs by simp
  obtain s' where s': "alloc_expand kap head u s = Some (True, s')"
    "laid head (ws @ [(c, l + k, True)]) (insert (c + 4) (free_nodes ws)) s'"
    "touched (region c (l + k) \<union> link_words (insert (c + 4) (free_nodes ws)) \<union> node_words head) (s1\<lparr>ram := m\<rparr>) s'"
    using alloc_expand_joins [OF l' wall x] by blast
  note t = tiles_middle [of _ ws "[(c, l, True), (e, k, fr)]" "[]"] two_blocks [OF laidD(1) [OF l']]
  have "tiles (start_address (heap_alloc s1)) ws c" using t(1) [OF _ t(6)] laidD(1) [OF l'] by simp
  then have "used_region ws \<subseteq> span (start_address (heap_alloc s1)) c" by (rule used_region_span)
  then have "region c (l + k) \<inter> used_region bs = {}" by (auto simp: bs span_def region_def)
  moreover have "region c (l + k) \<subseteq> span (start_address (heap_alloc s1)) (end_address (heap_alloc s1))" using t(8) by simp
  ultimately show ?thesis using s' by (intro exI [of _ s'] exI [of _ "region c (l + k)"]) (simp add: bs grown_simps(1))
next
  case False
  then have gr: "grown bs e k = bs @ [(e, k, True)]" using grown_simps(2) by blast
  have "\<not> left_is_free (e - 8) (heap_alloc s1) m"
    using left_neighbour(1) [OF l] wall False by simp
  moreover obtain s' where s': "tree_insert head (e + 4) (s1\<lparr>ram := mark_free e m\<rparr>) = Some s'"
    "laid head (bs @ [(e, k, True)]) (insert (e + 4) (free_nodes bs)) s'"
    "touched (region e k \<union> link_words (free_nodes bs) \<union> node_words head) (s1\<lparr>ram := m\<rparr>) s'"
    using grow_append [OF l] by auto
  ultimately have "alloc_expand kap head u s = Some (True, s')" by (simp add: alloc_expand_eq [OF x])
  moreover have "region e k \<inter> used_region bs = {}" using middle_apart(1) [OF laidD(1) [OF l]] by simp
  moreover have "region e k \<subseteq> span (start_address (heap_alloc s1)) (end_address (heap_alloc s1))"
    using whole_block(6) [OF laidD(1) [OF l]] by simp
  ultimately show ?thesis
    using s'(2,3) unfolding gr by (intro exI [of _ s'] exI [of _ "region e k"]) simp
qed

lemma alloc_expand_ok:
  assumes ok: "heap_ok head bs s" and u: "28 \<le> unat u" and g: "can_grow u (heap_alloc s)"
    and e: "e = end_address (heap_alloc s)" "e' = page_up (e + u)"
  shows "\<exists>s'. alloc_expand kap head u s = Some (True, s') \<and> heap_ok head (grown bs e (e' - e)) s' \<and>
    unharmed head bs s s' \<and> end_address (heap_alloc s') = e'"
proof -
  note k = heap_okD [OF ok]
  note n = grown_end [OF k(7) g, folded e(1), folded e(2)]
  obtain s1 where s1: "expand kap (end_address (heap_alloc s) + u) s = Some s1" "resized e' s s1"
    using expand_grows [OF k(7) g _ k(4), of kap] u unfolding e by auto
  define m where "m = write_block e (e' - e) (ram s)"
  have le: "unat e + 28 \<le> unat e'" using n(2) u by simp
  note x = laid_extend [OF k(1) s1(2) e(1) k(4) [folded e(1)] n(4) le n(3), folded m_def]
  have end1: "end_address (heap_alloc s1) = e'" by (rule resized_end [OF s1(2)])
  have ro: "ram s1 = ram s" "only_end_moved (heap_alloc s) (heap_alloc s1)" using resized_rest [OF s1(2)] .
  have un1: "unharmed head bs s (s1\<lparr>ram := m\<rparr>)"
    unfolding m_def by (rule resized_write [OF s1(2) k(7) e(1) x(2) n(3) k(6) [folded e(1)]])
  have wall: "\<not> check_magic (start_address (heap_alloc s1) - 8) m" using unharmed_wall [OF un1 k(7,5)] by simp
  have eq: "e' - e = end_address (heap_alloc s1) - e" "m = write_block e (e' - e) (ram s1)"
    by (simp_all add: end1 m_def ro(1))
  obtain s' W where s': "alloc_expand kap head u s = Some (True, s')"
    "laid head (grown bs e (e' - e)) (free_nodes (grown bs e (e' - e))) s'"
    "touched (W \<union> link_words (free_nodes bs) \<union> node_words head) (s1\<lparr>ram := m\<rparr>) s'"
    "W \<subseteq> span (start_address (heap_alloc s1)) (end_address (heap_alloc s1))" "W \<inter> used_region bs = {}"
    using alloc_expand_lays [OF x(1) wall s1(1) e(1) eq] by blast
  have st: "start_address (heap_alloc s1) = start_address (heap_alloc s)" "mem_used (heap_alloc s1) = mem_used (heap_alloc s)"
    using ro(2) by (simp_all add: only_end_moved_def)
  have "unharmed head bs (s1\<lparr>ram := m\<rparr>) s'"
    by (rule laid_unharmed [OF x(1) s'(3), of e]) (use k(6) e(1) st end1 le s'(4,5) in simp_all)
  with un1 have un: "unharmed head bs s s'" by (rule unharmed_trans)
  have "heap_ok head (grown bs e (e' - e)) s'"
    using s'(2) coalesced_grown [OF k(2)] k(3) touched_fields [OF s'(3)] st(2) end1 n(4) unharmed_wall [OF un k(7,5)]
    by (simp add: heap_ok_def)
  then show ?thesis using s'(1) un touched_fields(2) [OF s'(3)] end1 by auto
qed

section \<open>Allocation\<close>

definition has_fit :: "u32 \<Rightarrow> block list \<Rightarrow> bool" where
  "has_fit u bs \<longleftrightarrow> list_ex (\<lambda>(a, sz, fr). fr \<and> u \<le> sz) bs"

text \<open>The blocks from which a request is served: the old ones, or those of the grown heap.\<close>

definition served_from :: "u32 \<Rightarrow> block list \<Rightarrow> allocator \<Rightarrow> block list" where
  "served_from u bs al = (if has_fit u bs then bs
     else grown bs (end_address al) (page_up (end_address al + u) - end_address al))"

lemma has_fit_iff: "has_fit u bs \<longleftrightarrow> (\<exists>a sz. (a, sz, True) \<in> set bs \<and> u \<le> sz)"
  by (force simp: has_fit_def list_ex_iff)

lemma used_region_grown: "used_region (grown bs e k) = used_region bs"
proof (cases bs rule: rev_cases)
  case (snoc ws x)
  then show ?thesis by (cases x) (auto simp: grown_def split: bool.splits)
qed (simp add: grown_def)

lemma grown_fit:
  assumes t: "tiles b bs e" "tiles b (grown bs e (e' - e)) e'" and u: "unat e + unat u \<le> unat e'"
  shows "has_fit u (grown bs e (e' - e))"
proof (cases "bs \<noteq> [] \<and> snd (snd (last bs))")
  case False
  then have g: "grown bs e (e' - e) = bs @ [(e, e' - e, True)]" using grown_simps(2) by blast
  have "u \<le> e' - e" using u by (simp add: word_le_nat_alt unat_sub)
  then show ?thesis using g by (auto simp: has_fit_def)
next
  case True
  then obtain ws c l where bs: "bs = ws @ [(c, l, True)]" by (cases bs rule: rev_cases) auto
  let ?z = "l + (e' - e)"
  have g: "grown bs e (e' - e) = ws @ [(c, ?z, True)]" by (simp add: bs grown_simps(1))
  have "unat c \<le> unat e" using t(1) unfolding bs tiles_append by (auto simp: fits_end)
  moreover have "fits c ?z" "e' = c + ?z" using t(2) unfolding g tiles_append by auto
  then have "unat e' = unat c + unat ?z" using fits_end by metis
  ultimately have "u \<le> ?z" using u by (simp add: word_le_nat_alt)
  then show ?thesis unfolding g by (simp add: has_fit_def)
qed

lemma alloc_serves:
  assumes ok: "heap_ok head bs s" and u: "u = get_block_size n" "unat n + 19 < 2 ^ 32"
    and room: "has_fit u bs \<or> can_grow u (heap_alloc s)"
  shows "\<exists>xs a sz ys s'. served_from u bs (heap_alloc s) = xs @ (a, sz, True) # ys \<and> u \<le> sz \<and>
    (\<forall>c r. (c, r, True) \<in> set (served_from u bs (heap_alloc s)) \<longrightarrow> u \<le> r \<longrightarrow> sz \<le> r) \<and>
    alloc kap head n 0 s = Some (a + 8, s') \<and> heap_ok head (xs @ carve a sz u False @ ys) s' \<and> unharmed head bs s s' \<and>
    end_address (heap_alloc s') = (if has_fit u bs then end_address (heap_alloc s) else page_up (end_address (heap_alloc s) + u))"
proof (cases "has_fit u bs")
  case True
  then have "served_from u bs (heap_alloc s) = bs" by (simp add: served_from_def)
  then show ?thesis
    unfolding if_P [OF True] using alloc_fit [OF ok u, of 0 kap] True [unfolded has_fit_iff] by metis
next
  case False
  let ?e = "end_address (heap_alloc s)"
  define e' where "e' = page_up (?e + u)"
  define gs where "gs = grown bs ?e (e' - ?e)"
  have sp: "served_from u bs (heap_alloc s) = gs" using False by (simp add: served_from_def gs_def e'_def)
  note k = heap_okD [OF ok] and us = block_size_fits [OF u(2), folded u(1)]
  have nex: "\<not> (\<exists>a sz. (a, sz, True) \<in> set bs \<and> u \<le> sz)" using False has_fit_iff by blast
  obtain s1 where r: "tree_remove head u \<lparr>alignment = 1, address = 0\<rparr> s = Some (0, s1)"
    "touched (link_words (free_nodes bs) \<union> node_words head) s s1" "laid head bs (free_nodes bs) s1"
    using laid_best [OF k(1), of u] unfolding if_not_P [OF nex] by blast
  note f = touched_fields [OF r(2)]
  have un1: "unharmed head bs s s1"
    by (rule laid_unharmed [OF k(1) _ k(6), of "{}"]) (use r(2) in simp_all)
  have ok1: "heap_ok head bs s1"
    using r(3) k f unharmed_wall [OF un1 k(7,5)] by (simp add: heap_ok_def)
  have "can_grow u (heap_alloc s1)" using room False f by (simp add: can_grow_def)
  from alloc_expand_ok [OF ok1 us(2) this refl refl, of kap]
  obtain s2 where s2: "alloc_expand kap head u s1 = Some (True, s2)" "heap_ok head gs s2"
    "unharmed head bs s1 s2" "end_address (heap_alloc s2) = e'"
    unfolding f(2) gs_def e'_def by blast
  have st: "start_address (heap_alloc s2) = start_address (heap_alloc s)" using s2(3) f(1) by (simp add: unharmed_def)
  have "unat ?e + unat u \<le> unat e'" using grown_end(2) [OF k(7)] room False by (simp add: e'_def)
  then have fit: "has_fit u gs"
    using grown_fit [OF k(6), of e' u] heap_okD(6) [OF s2(2)] unfolding s2(4) st gs_def by blast
  obtain xs a sz ys s' where a: "gs = xs @ (a, sz, True) # ys" "u \<le> sz"
    "\<forall>c r. (c, r, True) \<in> set gs \<longrightarrow> u \<le> r \<longrightarrow> sz \<le> r" "alloc kap head n 1 s2 = Some (a + 8, s')"
    "heap_ok head (xs @ carve a sz u False @ ys) s'" "unharmed head gs s2 s'" "end_address (heap_alloc s') = e'"
    using alloc_fit [OF s2(2) u, of 1 kap] fit s2(4) unfolding has_fit_iff by metis
  have "alloc kap head n 0 s = Some (a + 8, s')"
    using r(1) s2(1) a(4) by (subst alloc.simps) (simp add: u(1) [symmetric])
  moreover have "unharmed head bs s2 s'" using a(6) by (simp add: unharmed_def gs_def used_region_grown)
  then have "unharmed head bs s s'" using unharmed_trans [OF un1 unharmed_trans [OF s2(3)]] by blast
  moreover have "end_address (heap_alloc s') = (if has_fit u bs then ?e else page_up (?e + u))"
    using a(7) False by (simp add: e'_def)
  ultimately show ?thesis unfolding sp using a(1-3,5) by blast
qed

end
