(* ===== verification/Heap_Free.thy ===== *)
theory Heap_Free
  imports Heap_Grow
begin

text \<open>
  Release of a block of a heap with any number of blocks: \<open>free\<close> joins it with the free
  neighbours on its right and on its left, gives whole pages back when the result is the last
  block, and puts what is left into the tree.
\<close>

section \<open>Joining with the neighbours\<close>

fun absorb_right :: "u32 \<Rightarrow> block list \<Rightarrow> u32 \<times> block list" where
  "absorb_right sz ((d, k, True) # ys) = (sz + k, ys)"
| "absorb_right sz ys = (sz, ys)"

definition absorb_left :: "block list \<Rightarrow> u32 \<Rightarrow> u32 \<Rightarrow> block list \<times> u32 \<times> u32" where
  "absorb_left xs a sz = (case rev xs of (c, l, True) # ws \<Rightarrow> (rev ws, c, l + sz) | _ \<Rightarrow> (xs, a, sz))"

lemma absorb_left_simps:
  "absorb_left (ws @ [(c, l, True)]) a sz = (ws, c, l + sz)"
  "xs = [] \<or> \<not> snd (snd (last xs)) \<Longrightarrow> absorb_left xs a sz = (xs, a, sz)"
  by (cases xs rule: rev_cases; auto simp: absorb_left_def split: bool.splits)+

lemma footer_after: "get_footer c (mark_free c (set_size c z m)) = c + z - 8"
  by (simp add: field_defs)

lemma next_fields:
  assumes l: "laid head (xs @ (a, sz, f) # (d, k, g) # ys) A s"
  shows "get_next_block a (ram s) = d" "d + k \<le> end_address (heap_alloc s)"
proof -
  note t = laidD(1) [OF l]
  have "get_size a (ram s) = sz" using block_fields(1) [OF l, of a sz f] by simp
  then show "get_next_block a (ram s) = d" using two_blocks(1) [OF t] by (simp add: get_next_block_def)
  obtain c where "tiles c ((a, sz, f) # (d, k, g) # ys) (end_address (heap_alloc s))" using t unfolding tiles_append by blast
  then have "tiles (d + k) ys (end_address (heap_alloc s))" by auto
  then show "d + k \<le> end_address (heap_alloc s)" using tiles_le by (simp add: word_le_nat_alt)
qed

lemma merge_right_stays:
  assumes l: "laid head (xs @ (a, sz, True) # ys) A s" and ys: "ys = [] \<or> \<not> snd (snd (hd ys))"
    and wall: "ys = [] \<longrightarrow> \<not> check_magic (end_address (heap_alloc s)) (ram s)"
  shows "merge_right head a s = Some (True, s)"
proof -
  let ?d = "get_next_block a (ram s)"
  have "\<not> (check_magic ?d (ram s) \<and> is_free ?d (ram s))"
  proof (cases ys)
    case Nil
    have "get_size a (ram s) = sz" using block_fields(1) [OF l, of a sz True] by simp
    moreover have "a + sz = end_address (heap_alloc s)" using laidD(1) [OF l] Nil unfolding tiles_append by auto
    ultimately show ?thesis using wall Nil by (simp add: get_next_block_def)
  next
    case (Cons y zs)
    obtain d k g where y: "y = (d, k, g)" by (cases y) auto
    have l': "laid head (xs @ (a, sz, True) # (d, k, g) # zs) A s" using l Cons y by simp
    have "is_free d (ram s) = g" using block_fields(3) [OF l', of d k g] by simp
    then show ?thesis using next_fields(1) [OF l'] ys Cons y by simp
  qed
  then show ?thesis unfolding merge_right_def Let_def by (intro if_not_P) blast
qed

lemma merge_right_joins:
  assumes l: "laid head (xs @ (a, sz, True) # (d, k, True) # ys) (free_nodes (xs @ (d, k, True) # ys)) s"
  shows "\<exists>s'. merge_right head a s = Some (True, s') \<and> laid head (xs @ (a, sz + k, True) # ys) (free_nodes (xs @ ys)) s' \<and>
    touched (region a (sz + k) \<union> link_words (free_nodes (xs @ (d, k, True) # ys)) \<union> node_words head) s s'"
proof -
  let ?bs = "xs @ (a, sz, True) # (d, k, True) # ys"
  have A: "free_nodes (xs @ (d, k, True) # ys) = insert (d + 4) (free_nodes (xs @ ys))" by simp
  obtain s2 where s2: "tree_remove head k \<lparr>alignment = 0, address = d + 4\<rparr> s = Some (d + 4, s2)"
    "get_size a (ram s2) = sz" "get_size d (ram s2) = k"
    "laid head (xs @ (a, sz + k, True) # ys) (free_nodes (xs @ ys)) (s2\<lparr>ram := join a (sz + k) (ram s2)\<rparr>)"
    "touched (region a (sz + k) \<union> link_words (free_nodes (xs @ (d, k, True) # ys)) \<union> node_words head) s
      (s2\<lparr>ram := join a (sz + k) (ram s2)\<rparr>)"
    using laid_absorb [of head xs a sz True d k True ys "d + 4" s k] l unfolding A by blast
  have in_bs: "(d, k, True) \<in> set ?bs" by simp
  note bf = block_fields [OF l in_bs] and nx = next_fields [OF l]
  have "fits d k" by (rule two_blocks(8) [OF laidD(1) [OF l]])
  then have "d + 4 \<noteq> 0" by (rule node_nonnull)
  then have "merge_right head a s = Some (True, s2\<lparr>ram := join a (sz + k) (ram s2)\<rparr>)"
    using s2(1-3) bf nx by (simp add: merge_right_def Let_def block_to_rbnode_def footer_after join_def)
  then show ?thesis using s2(4,5) by blast
qed

lemma merge_right_ok:
  assumes l: "laid head (xs @ (a, sz, True) # ys) (free_nodes (xs @ ys)) s" and k: "absorb_right sz ys = (k, ys')"
    and wall: "ys = [] \<longrightarrow> \<not> check_magic (end_address (heap_alloc s)) (ram s)"
  shows "\<exists>s'. merge_right head a s = Some (True, s') \<and> laid head (xs @ (a, k, True) # ys') (free_nodes (xs @ ys')) s' \<and>
    touched (region a k \<union> link_words (free_nodes (xs @ ys)) \<union> node_words head) s s'"
proof (cases "ys = [] \<or> \<not> snd (snd (hd ys))")
  case True
  then have "k = sz" "ys' = ys" using k by (cases "(sz, ys)" rule: absorb_right.cases; auto)+
  moreover have "touched (region a k \<union> link_words (free_nodes (xs @ ys)) \<union> node_words head) s s"
    by (simp add: touched_def)
  ultimately show ?thesis using merge_right_stays [OF l True wall] l by auto
next
  case False
  then obtain d r zs where ys: "ys = (d, r, True) # zs" by (cases ys) auto
  then show ?thesis using merge_right_joins [of head xs a sz d r zs s] l k by auto
qed

lemma merge_left_ok:
  assumes l: "laid head (xs @ (a, sz, True) # ys) (free_nodes (xs @ ys)) s" and k: "absorb_left xs a sz = (xs', b, k)"
    and wall: "\<not> check_magic (start_address (heap_alloc s) - 8) (ram s)"
  shows "\<exists>s'. merge_left head a s = Some (Some b, s') \<and> laid head (xs' @ (b, k, True) # ys) (free_nodes (xs' @ ys)) s' \<and>
    touched (region b k \<union> link_words (free_nodes (xs @ ys)) \<union> node_words head) s s'"
proof (cases "xs \<noteq> [] \<and> snd (snd (last xs))")
  case False
  then have "xs' = xs" "b = a" "k = sz" using k absorb_left_simps(2) [of xs a sz] by auto
  moreover have "\<not> left_is_free (get_left_footer a) (heap_alloc s) (ram s)"
    using left_neighbour(1) [OF l wall] False by (simp add: get_left_footer_def)
  then have "merge_left head a s = Some (Some a, s)" unfolding merge_left_def Let_def by (rule if_not_P)
  ultimately show ?thesis using l by (auto simp: touched_def)
next
  case True
  then obtain ws c r where xs: "xs = ws @ [(c, r, True)]" by (cases xs rule: rev_cases) auto
  then have e: "xs' = ws" "b = c" "k = r + sz" using k by (auto simp: absorb_left_simps(1))
  have l': "laid head (ws @ (c, r, True) # (a, sz, True) # ys) (insert (c + 4) (free_nodes (ws @ ys))) s"
    using l xs by simp
  obtain s2 where s2: "tree_remove head r \<lparr>alignment = 0, address = c + 4\<rparr> s = Some (c + 4, s2)"
    "get_size c (ram s2) = r" "get_size a (ram s2) = sz"
    "laid head (ws @ (c, r + sz, True) # ys) (free_nodes (ws @ ys)) (s2\<lparr>ram := join c (r + sz) (ram s2)\<rparr>)"
    "touched (region c (r + sz) \<union> link_words (insert (c + 4) (free_nodes (ws @ ys))) \<union> node_words head) s
      (s2\<lparr>ram := join c (r + sz) (ram s2)\<rparr>)"
    using laid_absorb [OF l', of r] by blast
  have left: "left_is_free (get_left_footer a) (heap_alloc s) (ram s)" "footer_header (get_left_footer a) (ram s) = c"
    using left_neighbour(1) [OF l wall] left_neighbour(2) [OF l wall xs] True by (simp_all add: get_left_footer_def)
  have "get_size c (ram s) = r" using block_fields(1) [OF l', of c r True] by simp
  moreover have "c + 4 \<noteq> 0" using node_nonnull [OF two_blocks(7) [OF laidD(1) [OF l']]] .
  ultimately have "merge_left head a s = Some (Some c, s2\<lparr>ram := join c (r + sz) (ram s2)\<rparr>)"
    using s2(1-3) left by (simp add: merge_left_def Let_def block_to_rbnode_def footer_after join_def)
  then show ?thesis using s2(4,5) by (simp add: e xs)
qed

section \<open>Giving pages back\<close>

definition page_floor :: "u32 \<Rightarrow> u32" where
  "page_floor a = a - a mod FRAME_SIZE"

lemma floor_above: "p mod 4096 = 0 \<Longrightarrow> p \<le> t \<Longrightarrow> p \<le> t - t mod 4096" for p t :: nat
proof -
  assume "p mod 4096 = 0" "p \<le> t"
  then have "p div 4096 \<le> t div 4096" "p = p div 4096 * 4096" by (auto intro: div_le_mono)
  then show ?thesis unfolding minus_mod_eq_div_mult by simp
qed

text \<open>Where the heap ends after a release whose block is the last one of a heap larger than \<open>min_size\<close>.\<close>

definition trimmed_end :: "u32 \<Rightarrow> allocator \<Rightarrow> u32" where
  "trimmed_end b al = page_floor (contract_target b al)"

lemma trim_target:
  assumes e: "end_address al mod FRAME_SIZE = 0" and b: "start_address al \<le> b" "b < end_address al"
    and mn: "min_size al < end_address al - start_address al"
  shows "contract_target b al \<le> end_address al" "b \<le> trimmed_end b al" "trimmed_end b al \<le> end_address al"
    "trimmed_end b al mod FRAME_SIZE = 0"
proof -
  let ?p = "(unat b + 4095) div 4096 * 4096"
  have n: "unat (start_address al) \<le> unat b" "unat b < unat (end_address al)"
    using b by (simp_all add: word_le_nat_alt word_less_nat_alt)
  obtain q where q: "unat (end_address al) = 4096 * q" using e by (auto simp: aligned_nat)
  have "(unat b + 4095) div 4096 < q + 1" using n(2) q by (simp add: less_mult_imp_div_less)
  then have "?p \<le> unat (end_address al)" using q by simp
  moreover from this have "?p < 2 ^ 32" using unat_less_32 [of "end_address al"] by simp
  then have pu: "unat (page_up b) = ?p" by (rule page_up_nat)
  moreover have bp: "unat b \<le> ?p" unfolding round_up_nat using mod_less_divisor [of 4096 "unat b"] by (auto simp del: mod_less_divisor)
  ultimately have pe: "unat b \<le> unat (page_up b)" "unat (page_up b) \<le> unat (end_address al)" by simp_all
  have mn': "unat (min_size al) < unat (end_address al) - unat (start_address al)"
    using mn n by (simp add: word_less_nat_alt unat_sub word_le_nat_alt)
  have sm: "unat (start_address al + min_size al) = unat (start_address al) + unat (min_size al)"
    using mn' unat_less_32 [of "end_address al"] by (subst unat_add_lem [THEN iffD1]) auto
  have fl: "unat (page_floor x) \<le> unat x" for x by (simp add: page_floor_def page_down)
  show al: "trimmed_end b al mod FRAME_SIZE = 0" by (simp add: trimmed_end_def page_floor_def page_down(2))
  show t: "contract_target b al \<le> end_address al"
    using sm mn' pe by (auto simp: contract_target_def word_le_nat_alt less_diff_conv)
  then show "trimmed_end b al \<le> end_address al"
    using fl [of "contract_target b al"] by (simp add: trimmed_end_def word_le_nat_alt)
  have "page_up b \<le> contract_target b al"
  proof (cases "page_up b - start_address al < min_size al")
    case True
    then have "unat (page_up b) - unat (start_address al) < unat (min_size al)"
      using pe n by (simp add: word_less_nat_alt unat_sub word_le_nat_alt)
    then show ?thesis using True sm by (simp add: contract_target_def word_le_nat_alt)
  qed (simp add: contract_target_def)
  then have "unat (page_up b) \<le> unat (trimmed_end b al)"
    using page_up_aligned [of b] floor_above [of "unat (page_up b)" "unat (contract_target b al)"]
    by (simp add: trimmed_end_def page_floor_def word_le_nat_alt page_down aligned_nat)
  then show "b \<le> trimmed_end b al" using pe by (simp add: word_le_nat_alt)
qed

lemma trim_stays:
  assumes l: "laid head (xs @ (b, k, True) # ys) A s"
    and c: "ys \<noteq> [] \<or> end_address (heap_alloc s) - start_address (heap_alloc s) \<le> min_size (heap_alloc s)"
  shows "trim kap b s = Some (True, s)"
proof -
  let ?e = "end_address (heap_alloc s)"
  have f: "get_footer b (ram s) + 8 = b + k" using block_fields(5) [OF l, of b k True] by simp
  have "\<not> (b + k = ?e \<and> ?e - start_address (heap_alloc s) > min_size (heap_alloc s))"
  proof (cases ys)
    case (Cons y zs)
    obtain d r g where y: "y = (d, r, g)" by (cases y) auto
    have "tiles (start_address (heap_alloc s)) (xs @ (b, k, True) # (d, r, g) # zs) ?e" using laidD(1) [OF l] Cons y by simp
    then obtain c where "tiles c ((b, k, True) # (d, r, g) # zs) ?e" unfolding tiles_append by blast
    then have "d = b + k" "fits d r" "tiles (d + r) zs ?e" by auto
    then have "unat (b + k) < unat ?e" using tiles_le [of "d + r" zs ?e] by (auto simp: fits_end fits_def)
    then show ?thesis by auto
  qed (use c in auto)
  then show ?thesis unfolding trim_def Let_def f by (rule if_not_P)
qed

lemma laid_shrink:
  assumes l: "laid head (xs @ [(b, k, fr)]) A s" and A: "A \<subseteq> nodes xs" and r: "resized e' s s1"
    and e: "b \<le> e'" "e' \<le> end_address (heap_alloc s)"
  shows "e' = b \<Longrightarrow> laid head xs A s1"
    "28 \<le> unat (e' - b) \<Longrightarrow> e' mod FRAME_SIZE = 0 \<Longrightarrow> block_at b (e' - b) True m \<Longrightarrow>
       (\<And>w. w \<notin> region b (e' - b) \<Longrightarrow> m w = ram s w) \<Longrightarrow> laid head (xs @ [(b, e' - b, True)]) A (s1\<lparr>ram := m\<rparr>)"
proof -
  note D = laidD [OF l]
  have end1: "end_address (heap_alloc s1) = e'" by (rule resized_end [OF r])
  have rest: "only_end_moved (heap_alloc s) (heap_alloc s1)" "ram s1 = ram s" using resized_rest [OF r] by auto
  have room: "heap_room head (heap_alloc s1)"
    using D(5) e(2) end1 rest(1) by (simp add: heap_bounds_def only_end_moved_def word_le_nat_alt)
  have t: "tiles (start_address (heap_alloc s)) xs b" "4 dvd unat b" using D(1) unfolding tiles_append by auto
  show "laid head xs A s1" if "e' = b"
    using D(2,4) A t room rest end1 that by (simp add: laid_def only_end_moved_def)
  assume k: "28 \<le> unat (e' - b)" "e' mod FRAME_SIZE = 0" "block_at b (e' - b) True m"
    and out: "\<And>w. w \<notin> region b (e' - b) \<Longrightarrow> m w = ram s w"
  have n: "unat (e' - b) = unat e' - unat b" using e(1) by (simp add: unat_sub)
  have f: "fits b (e' - b)" using k(1) n e(1) unat_less_32 [of e'] by (simp add: fits_def word_le_nat_alt)
  have "4096 dvd unat e'" "(4::nat) dvd 4096" using k(2) by (auto simp: aligned_nat)
  then have "4 dvd unat e'" by (meson dvd_trans)
  then have "4 dvd unat (e' - b)" unfolding n using t(2) by simp
  then have tt: "tiles (start_address (heap_alloc s)) (xs @ [(b, e' - b, True)]) e'"
    using t f unfolding tiles_append by (intro exI [of _ b]) simp
  have same: "m w = ram s w" if "w \<in> span (start_address (heap_alloc s)) b" for w
    by (rule out) (use that in \<open>auto simp: span_def region_def\<close>)
  have "blocks_at xs m"
  proof (rule blocks_at_cong [of _ "ram s"])
    show "blocks_at xs (ram s)" using D(2) by simp
    fix c r g w assume c: "(c, r, g) \<in> set xs" "w \<in> block_words c r"
    show "m w = ram s w" by (rule same) (use tiles_block [OF t(1) c(1)] block_words_region [of c r] c(2) in blast)
  qed
  moreover have "free_tree A (mem_tree (heap_alloc s)) m"
    by (rule free_tree_cong [OF D(4)], rule same) (use node_words_span [OF t(1)] A in blast)
  ultimately show "laid head (xs @ [(b, e' - b, True)]) A (s1\<lparr>ram := m\<rparr>)"
    using k(3) A tt room rest end1 by (auto simp: laid_def only_end_moved_def)
qed

text \<open>What a release needs of the heap's last pages: page tables, and that no sliver is left.\<close>

definition trimmable :: "u32 \<Rightarrow> allocator \<Rightarrow> bool" where
  "trimmable b al \<longleftrightarrow> (trimmed_end b al = b \<or> unat b + 28 \<le> unat (trimmed_end b al)) \<and>
     (\<forall>v. trimmed_end b al \<le> v \<longrightarrow> v < end_address al \<longrightarrow> tables (page_directory al) (PAGE_DIRECTORY_INDEX v) \<noteq> 0)"

lemma trim_cuts:
  assumes l: "laid head (xs @ [(b, k, True)]) A s" and A: "A \<subseteq> nodes xs"
    and e: "end_address (heap_alloc s) mod FRAME_SIZE = 0"
    and mn: "min_size (heap_alloc s) < end_address (heap_alloc s) - start_address (heap_alloc s)"
    and tr: "trimmable b (heap_alloc s)" and e': "e' = trimmed_end b (heap_alloc s)"
  shows "\<exists>s'. trim kap b s = Some (e' \<noteq> b, s') \<and> end_address (heap_alloc s') = e' \<and>
    laid head (if e' = b then xs else xs @ [(b, e' - b, True)]) A s' \<and> e' mod FRAME_SIZE = 0 \<and>
    only_end_moved (heap_alloc s) (heap_alloc s') \<and> (\<forall>w. w \<notin> region b k \<longrightarrow> ram s' w = ram s w)"
proof -
  let ?al = "heap_alloc s"
  note D = laidD [OF l] and w = whole_block [OF laidD(1) [OF l]]
  have bk: "b + k = end_address ?al" "start_address ?al \<le> b"
    using D(1) tiles_le unfolding tiles_append by (auto simp: word_le_nat_alt)
  have lt: "b < end_address ?al" using bk(1) w(2) fits_end [OF w(2)] by (auto simp: word_less_nat_alt fits_def)
  note tt = trim_target [OF e bk(2) lt mn, folded e']
  have bf: "get_footer b (ram s) + 8 = end_address ?al" "get_size b (ram s) = k"
    using block_fields(5) [OF l, of b k True] block_fields(1) [OF l, of b k True] bk(1) by simp_all
  obtain s1 where s1: "contract kap b s = Some (end_address (heap_alloc s1), s1)" "resized e' s s1"
    using contract_result [OF e lt refl, of kap] tr tt(1) unfolding trimmable_def e' trimmed_end_def page_floor_def by auto
  have end1: "end_address (heap_alloc s1) = e'" by (rule resized_end [OF s1(2)])
  note rest = resized_rest [OF s1(2)]
  have left: "k - (end_address ?al - e') = e' - b" using bk(1) by (simp add: algebra_simps)
  note sh = laid_shrink [OF l A s1(2) tt(2,3)]
  show ?thesis
  proof (cases "e' = b")
    case True
    then have "trim kap b s = Some (False, s1)"
      using s1(1) mn bf left by (simp add: trim_def Let_def end1)
    then show ?thesis using True sh(1) rest end1 tt(4) by auto
  next
    case False
    then have big: "unat b + 28 \<le> unat e'" using tr by (simp add: trimmable_def e')
    have n: "unat (e' - b) = unat e' - unat b" using tt(2) by (simp add: unat_sub)
    have f: "fits b (e' - b)" using big n unat_less_32 [of e'] by (simp add: fits_def)
    define m2 where "m2 = mark_free b (set_size b (e' - b) (ram s1))"
    define m3 where "m3 = set_footer_header (get_footer b m2) b (set_magic (get_footer b m2) m2)"
    have "check_magic b (ram s)" using block_fields(4) [OF l, of b k True] by simp
    then have bm: "block_at b (e' - b) True m3"
      using block_words_distinct [OF f] rest(1)
      by (auto simp: block_at_def m3_def m2_def field_defs footer_word)
    have out: "v \<notin> region b (e' - b) \<Longrightarrow> m3 v = ram s v" for v
    proof -
      assume "v \<notin> region b (e' - b)"
      then have "v \<notin> block_words b (e' - b)" using block_words_region [OF f] by blast
      then show ?thesis using rest(1) by (simp add: m3_def m2_def field_defs footer_word block_words_def)
    qed
    have "e' - b > 0" using big n by (simp add: word_less_nat_alt)
    then have "trim kap b s = Some (True, s1\<lparr>ram := m3\<rparr>)"
      using s1(1) mn by (simp add: trim_def Let_def end1 bf left m2_def [symmetric] m3_def [symmetric])
    moreover have "laid head (xs @ [(b, e' - b, True)]) A (s1\<lparr>ram := m3\<rparr>)"
      by (rule sh(2) [OF _ tt(4) bm out]) (use big n in simp_all)
    moreover have "region b (e' - b) \<subseteq> region b k"
      using tt(3) n bk(1) fits_end [OF w(2)] by (intro region_prefix) (auto simp: word_le_nat_alt)
    then have "\<forall>v. v \<notin> region b k \<longrightarrow> m3 v = ram s v" using out by blast
    ultimately show ?thesis using False rest(2) end1 tt(4) by auto
  qed
qed

section \<open>Release\<close>

definition coalesce :: "block list \<Rightarrow> u32 \<Rightarrow> u32 \<Rightarrow> block list \<Rightarrow> block list \<times> u32 \<times> u32 \<times> block list" where
  "coalesce xs a sz ys =
     (let (k, ys') = absorb_right sz ys; (xs', b, k) = absorb_left xs a k in (xs', b, k, ys'))"

text \<open>Whether pages are given back, and the blocks afterwards.\<close>

definition shrinks :: "block list \<Rightarrow> allocator \<Rightarrow> bool" where
  "shrinks ys al \<longleftrightarrow> ys = [] \<and> min_size al < end_address al - start_address al"

definition released :: "block list \<Rightarrow> u32 \<Rightarrow> u32 \<Rightarrow> block list \<Rightarrow> allocator \<Rightarrow> block list" where
  "released xs b k ys al =
     (if shrinks ys al
      then if trimmed_end b al = b then xs else xs @ [(b, trimmed_end b al - b, True)]
      else xs @ (b, k, True) # ys)"

lemma trim_cong:
  assumes "start_address al' = start_address al" "end_address al' = end_address al" "min_size al' = min_size al"
    "page_directory al' = page_directory al"
  shows "shrinks ys al' = shrinks ys al" "trimmed_end b al' = trimmed_end b al" "trimmable b al' = trimmable b al"
    "released xs b k ys al' = released xs b k ys al"
  using assms by (simp_all add: shrinks_def trimmable_def released_def trimmed_end_def contract_target_def)

lemma absorb_right_used: "absorb_right sz ys = (k, ys') \<Longrightarrow> used_region ys' = used_region ys \<and> used_size ys' = used_size ys"
  by (cases "(sz, ys)" rule: absorb_right.cases) auto

lemma absorb_left_used:
  assumes "absorb_left xs a sz = (xs', b, k)"
  shows "used_region xs' = used_region xs \<and> used_size xs' = used_size xs"
proof (cases "xs \<noteq> [] \<and> snd (snd (last xs))")
  case True
  then obtain ws c l where "xs = ws @ [(c, l, True)]" by (cases xs rule: rev_cases) auto
  then show ?thesis using assms by (auto simp: absorb_left_simps(1))
next
  case False
  then show ?thesis using assms absorb_left_simps(2) [of xs a sz] by auto
qed

lemma coalesced_right: "coalesced ((a, sz, g) # ys) \<Longrightarrow> absorb_right sz ys = (k, ys') \<Longrightarrow> coalesced ((a, k, True) # ys')"
  by (cases "(sz, ys)" rule: absorb_right.cases) (auto simp: coalesced_Cons)

lemma coalesced_left:
  assumes "coalesced xs" "coalesced ((a, sz, True) # ys)" "absorb_left xs a sz = (xs', b, k)"
  shows "coalesced (xs' @ (b, k, True) # ys)" "coalesced xs'"
proof -
  have "coalesced (xs' @ (b, k, True) # ys) \<and> coalesced xs'"
  proof (cases "xs \<noteq> [] \<and> snd (snd (last xs))")
    case True
    then obtain ws c l where "xs = ws @ [(c, l, True)]" by (cases xs rule: rev_cases) auto
    then show ?thesis using assms by (auto simp: absorb_left_simps(1) coalesced_append coalesced_Cons)
  next
    case False
    then show ?thesis
      using assms absorb_left_simps(2) [of xs a sz] by (auto simp: coalesced_append coalesced_Cons)
  qed
  then show "coalesced (xs' @ (b, k, True) # ys)" "coalesced xs'" by auto
qed

lemma coalesce_facts:
  assumes "coalesce xs a sz ys = (xs', b, k, ys')"
  shows "used_region (xs' @ ys') = used_region (xs @ ys)" "used_size (xs' @ ys') = used_size (xs @ ys)"
    "coalesced (xs @ (a, sz, g) # ys) \<Longrightarrow> coalesced (xs' @ (b, k, True) # ys')"
proof -
  obtain r where r: "absorb_right sz ys = (r, ys')" "absorb_left xs a r = (xs', b, k)"
    using assms by (auto simp: coalesce_def split: prod.splits)
  show "used_region (xs' @ ys') = used_region (xs @ ys)" "used_size (xs' @ ys') = used_size (xs @ ys)"
    using absorb_right_used [OF r(1)] absorb_left_used [OF r(2)] by simp_all
  assume "coalesced (xs @ (a, sz, g) # ys)"
  then have "coalesced xs" "coalesced ((a, sz, g) # ys)" by (simp_all add: coalesced_append)
  then show "coalesced (xs' @ (b, k, True) # ys')" using coalesced_left(1) [OF _ coalesced_right [OF _ r(1)] r(2)] by blast
qed

lemma released_facts:
  assumes "coalesced (xs @ (b, k, True) # ys)"
  shows "coalesced (released xs b k ys al)" "used_region (released xs b k ys al) = used_region (xs @ ys)"
    "used_size (released xs b k ys al) = used_size (xs @ ys)"
  using assms by (auto simp: released_def shrinks_def coalesced_append coalesced_Cons)

text \<open>One merge, seen from outside.\<close>

lemma merge_unharmed:
  assumes l: "laid head (xs @ (a, sz, True) # ys) (free_nodes (xs @ ys)) s"
    and l': "laid head (xs' @ (b, k, True) # ys') A s'"
    and t: "touched (region b k \<union> link_words (free_nodes (xs @ ys)) \<union> node_words head) s s'"
    and u: "used_region (xs' @ ys') = used_region (xs @ ys)"
  shows "unharmed head (xs @ ys) s s'"
proof -
  let ?bs = "xs @ (a, sz, True) # ys"
  note f = touched_fields [OF t]
  have "link_words (free_nodes (xs @ ys)) \<subseteq> link_words (free_nodes ?bs)" by (rule link_words_mono) auto
  then have t': "touched (region b k \<union> link_words (free_nodes ?bs) \<union> node_words head) s s'"
    by (intro touched_mono [OF t]) blast
  have "used_region ?bs = used_region (xs' @ ys')" using u by simp
  then have "unharmed head ?bs s s'"
    using whole_block(6) [OF laidD(1) [OF l']] middle_apart(1) [OF laidD(1) [OF l']]
    by (intro laid_unharmed [OF l t' laidD(1) [OF l]]) (simp_all add: f(1,2))
  then show ?thesis by (rule unharmed_sub) simp
qed

text \<open>After the merges, the end of the heap may move and the block joins the tree.\<close>

lemma trim_unharmed:
  assumes l: "laid head (xs @ (b, k, True) # ys) A s" and m: "only_end_moved (heap_alloc s) (heap_alloc s')"
    and out: "\<forall>w. w \<notin> region b k \<longrightarrow> ram s' w = ram s w"
  shows "unharmed head (xs @ ys) s s'"
proof -
  note w = whole_block(6) [OF laidD(1) [OF l]] and r = laidD(5) [OF l]
  have "region b k \<subseteq> span (start_address (heap_alloc s)) (start_address (heap_alloc s) + max_size (heap_alloc s))"
    using w r room_nat [OF r] by (auto simp: span_def heap_bounds_def)
  moreover have "region b k \<inter> used_region (xs @ ys) = {}" by (rule middle_apart(1) [OF laidD(1) [OF l]])
  ultimately have "\<forall>w. w \<in> used_region (xs @ ys) \<or> w \<notin> span (start_address (heap_alloc s)) (start_address (heap_alloc s) + max_size (heap_alloc s))
      \<longrightarrow> ram s' w = ram s w"
    using out by blast
  then show ?thesis using m by (simp add: unharmed_def only_end_moved_def)
qed

lemma insert_unharmed:
  assumes l: "laid head (xs @ (b, k, True) # ys) (free_nodes (xs @ ys)) s"
  shows "\<exists>s'. tree_insert head (b + 4) s = Some s' \<and>
    laid head (xs @ (b, k, True) # ys) (free_nodes (xs @ (b, k, True) # ys)) s' \<and> unharmed head (xs @ ys) s s' \<and>
    end_address (heap_alloc s') = end_address (heap_alloc s) \<and> mem_used (heap_alloc s') = mem_used (heap_alloc s)"
proof -
  let ?bs = "xs @ (b, k, True) # ys"
  have "b + 4 \<notin> free_nodes (xs @ ys)"
    using node_once [OF laidD(1) [OF l]] free_nodes_nodes [of "xs @ ys"] by blast
  moreover have A: "insert (b + 4) (free_nodes (xs @ ys)) = free_nodes ?bs" by simp
  ultimately obtain s' where s': "tree_insert head (b + 4) s = Some s'" "laid head ?bs (free_nodes ?bs) s'"
    "touched (link_words (free_nodes ?bs) \<union> node_words head) s s'"
    using laid_insert [OF l, of "b + 4"] unfolding A by auto
  have "unharmed head ?bs s s'" by (rule laid_unharmed [OF l _ laidD(1) [OF l], of "{}"]) (use s'(3) in simp_all)
  then have "unharmed head (xs @ ys) s s'" by (rule unharmed_sub) simp
  then show ?thesis using s' touched_fields [OF s'(3)] by blast
qed

lemma finish_ok:
  assumes l: "laid head (xs @ (b, k, True) # ys) (free_nodes (xs @ ys)) s"
    and e: "end_address (heap_alloc s) mod FRAME_SIZE = 0" and tr: "shrinks ys (heap_alloc s) \<longrightarrow> trimmable b (heap_alloc s)"
  defines "bs' \<equiv> released xs b k ys (heap_alloc s)"
  shows "\<exists>ins s1 s'. trim kap b s = Some (ins, s1) \<and>
    (if ins then tree_insert head (b + 4) s1 else Some s1) = Some s' \<and> laid head bs' (free_nodes bs') s' \<and>
    unharmed head (xs @ ys) s s' \<and> end_address (heap_alloc s') mod FRAME_SIZE = 0 \<and>
    mem_used (heap_alloc s') = mem_used (heap_alloc s)"
proof (cases "shrinks ys (heap_alloc s)")
  case False
  then have "trim kap b s = Some (True, s)" by (intro trim_stays [OF l]) (auto simp: shrinks_def)
  moreover have "bs' = xs @ (b, k, True) # ys" using False by (simp add: bs'_def released_def)
  moreover obtain s' where "tree_insert head (b + 4) s = Some s'"
    "laid head (xs @ (b, k, True) # ys) (free_nodes (xs @ (b, k, True) # ys)) s'" "unharmed head (xs @ ys) s s'"
    "end_address (heap_alloc s') = end_address (heap_alloc s)" "mem_used (heap_alloc s') = mem_used (heap_alloc s)"
    using insert_unharmed [OF l] by blast
  ultimately show ?thesis using e by (intro exI [of _ True] exI [of _ s] exI [of _ s']) simp
next
  case True
  then have ys: "ys = []" and mn: "min_size (heap_alloc s) < end_address (heap_alloc s) - start_address (heap_alloc s)"
    by (auto simp: shrinks_def)
  define e' where "e' = trimmed_end b (heap_alloc s)"
  have bs': "bs' = (if e' = b then xs else xs @ [(b, e' - b, True)])" using True by (simp add: bs'_def released_def e'_def)
  have l0: "laid head (xs @ [(b, k, True)]) (free_nodes xs) s" using l ys by simp
  from trim_cuts [OF l0 free_nodes_nodes e mn tr [rule_format, OF True] e'_def, of kap]
  obtain s1 where s1: "trim kap b s = Some (e' \<noteq> b, s1)" "end_address (heap_alloc s1) = e'"
    "laid head bs' (free_nodes xs) s1" "e' mod FRAME_SIZE = 0" "only_end_moved (heap_alloc s) (heap_alloc s1)"
    "\<forall>w. w \<notin> region b k \<longrightarrow> ram s1 w = ram s w" unfolding bs' by metis
  have un: "unharmed head (xs @ ys) s s1" by (rule trim_unharmed [OF l s1(5,6)])
  have mu: "mem_used (heap_alloc s1) = mem_used (heap_alloc s)" using s1(5) by (simp add: only_end_moved_def)
  show ?thesis
  proof (cases "e' = b")
    case True
    then show ?thesis using s1 un mu bs' by (intro exI [of _ False] exI [of _ s1]) simp
  next
    case False
    then have l1: "laid head (xs @ (b, e' - b, True) # []) (free_nodes (xs @ [])) s1" using s1(3) bs' by simp
    obtain s' where s': "tree_insert head (b + 4) s1 = Some s'" "laid head bs' (free_nodes bs') s'"
      "unharmed head (xs @ ys) s1 s'" "end_address (heap_alloc s') = e'" "mem_used (heap_alloc s') = mem_used (heap_alloc s1)"
      using insert_unharmed [OF l1] False unfolding s1(2) bs' ys append_Nil2 if_not_P [OF False] by blast
    have "unharmed head (xs @ ys) s s'" by (rule unharmed_trans [OF un s'(3)])
    then show ?thesis using s1(1,4) s' False mu by (intro exI [of _ True] exI [of _ s1] exI [of _ s']) simp
  qed
qed

lemma free_block_ok:
  assumes l: "laid head (xs @ (a, sz, True) # ys) (free_nodes (xs @ ys)) s"
    and w: "\<not> check_magic (start_address (heap_alloc s) - 8) (ram s)"
      "ys = [] \<longrightarrow> \<not> check_magic (end_address (heap_alloc s)) (ram s)"
    and e: "end_address (heap_alloc s) mod FRAME_SIZE = 0" and c: "coalesce xs a sz ys = (xs', b, k, ys')"
    and tr: "shrinks ys' (heap_alloc s) \<longrightarrow> trimmable b (heap_alloc s)"
  defines "bs' \<equiv> released xs' b k ys' (heap_alloc s)"
  shows "\<exists>s'. free_block kap head a s = Some s' \<and> laid head bs' (free_nodes bs') s' \<and> unharmed head (xs @ ys) s s' \<and>
    end_address (heap_alloc s') mod FRAME_SIZE = 0 \<and> mem_used (heap_alloc s') = mem_used (heap_alloc s)"
proof -
  obtain r where r: "absorb_right sz ys = (r, ys')" "absorb_left xs a r = (xs', b, k)"
    using c by (auto simp: coalesce_def split: prod.splits)
  obtain s1 where s1: "merge_right head a s = Some (True, s1)" "laid head (xs @ (a, r, True) # ys') (free_nodes (xs @ ys')) s1"
    "touched (region a r \<union> link_words (free_nodes (xs @ ys)) \<union> node_words head) s s1"
    using merge_right_ok [OF l r(1) w(2)] by blast
  have u1: "used_region (xs @ ys') = used_region (xs @ ys)" using absorb_right_used [OF r(1)] by simp
  have un1: "unharmed head (xs @ ys) s s1" by (rule merge_unharmed [OF l s1(2,3) u1])
  have w1: "\<not> check_magic (start_address (heap_alloc s1) - 8) (ram s1)"
    by (rule unharmed_wall [OF un1 laidD(5) [OF l] w(1)])
  obtain s2 where s2: "merge_left head a s1 = Some (Some b, s2)" "laid head (xs' @ (b, k, True) # ys') (free_nodes (xs' @ ys')) s2"
    "touched (region b k \<union> link_words (free_nodes (xs @ ys')) \<union> node_words head) s1 s2"
    using merge_left_ok [OF s1(2) r(2) w1] by blast
  have u2: "used_region (xs' @ ys') = used_region (xs @ ys')" using absorb_left_used [OF r(2)] by simp
  have un2: "unharmed head (xs @ ys) s1 s2"
    by (rule unharmed_sub [OF merge_unharmed [OF s1(2) s2(2,3) u2]]) (simp add: u1 [simplified])
  note f = touched_fields [OF touched_trans [OF s1(3) s2(3)]]
  note al = trim_cong [OF f(1-3,8)]
  have bs': "released xs' b k ys' (heap_alloc s2) = bs'" by (simp add: al(4) bs'_def)
  have e2: "end_address (heap_alloc s2) mod FRAME_SIZE = 0" using e f(2) by simp
  have tr2: "shrinks ys' (heap_alloc s2) \<longrightarrow> trimmable b (heap_alloc s2)" using tr al by simp
  obtain ins s3 s' where s3: "trim kap b s2 = Some (ins, s3)" "(if ins then tree_insert head (b + 4) s3 else Some s3) = Some s'"
    "laid head bs' (free_nodes bs') s'" "unharmed head (xs' @ ys') s2 s'" "end_address (heap_alloc s') mod FRAME_SIZE = 0"
    "mem_used (heap_alloc s') = mem_used (heap_alloc s2)"
    using finish_ok [OF s2(2) e2 tr2, of kap] unfolding bs' by metis
  have "unharmed head (xs @ ys) s2 s'" by (rule unharmed_sub [OF s3(4)]) (simp add: u2 [simplified] u1 [simplified])
  then have "unharmed head (xs @ ys) s s'" using unharmed_trans [OF un1 unharmed_trans [OF un2]] by blast
  moreover have "free_block kap head a s = Some s'"
    using s1(1) s2(1) s3(1,2) by (simp add: free_block_def block_to_rbnode_def split: if_splits)
  ultimately show ?thesis using s3(3,5,6) f(5) by auto
qed

lemma free_releases:
  assumes ok: "heap_ok head (xs @ (a, sz, False) # ys) s" and c: "coalesce xs a sz ys = (xs', b, k, ys')"
    and w: "ys = [] \<longrightarrow> \<not> check_magic (end_address (heap_alloc s)) (ram s)"
    and tr: "shrinks ys' (heap_alloc s) \<longrightarrow> trimmable b (heap_alloc s)"
  shows "\<exists>s'. free kap head (a + 8) s = Some s' \<and> heap_ok head (released xs' b k ys' (heap_alloc s)) s' \<and>
    unharmed head (xs @ ys) s s'"
proof -
  let ?bs = "xs @ (a, sz, False) # ys" and ?bs' = "released xs' b k ys' (heap_alloc s)"
  note K = heap_okD [OF ok] and wb = whole_block [OF heap_okD(6) [OF ok]]
  have l0: "laid head ?bs (free_nodes (xs @ ys)) s" using K(1) by simp
  note bf = block_fields [OF l0, of a sz False, simplified]
  define m1 where "m1 = mark_free a (ram s)"
  define s1 where "s1 = s\<lparr>ram := m1, heap_alloc := (heap_alloc s)\<lparr>mem_used := mem_used (heap_alloc s) - sz\<rparr>\<rparr>"
  have "block_at a sz False (ram s)" using laidD(2) [OF l0] by simp
  then have b1: "block_at a sz True m1" unfolding m1_def by (rule mark_block(1) [OF wb(2)])
  then have bl: "blocks_at [(a, sz, True)] m1" by simp
  have out: "v \<notin> region a sz \<Longrightarrow> m1 v = ram s v" for v unfolding m1_def by (rule write_outside(2) [OF wb(2)])
  note lr = laid_rewrite [OF l0 free_nodes_nodes wb(1) bl out]
  have l1: "laid head (xs @ (a, sz, True) # ys) (free_nodes (xs @ ys)) s1"
    using lr(1) laid_mem_used [of head "xs @ (a, sz, True) # ys" "free_nodes (xs @ ys)" "mem_used (heap_alloc s) - sz" "s\<lparr>ram := m1\<rparr>"]
    by (simp add: s1_def)
  have un0: "unharmed head (xs @ ys) s s1"
    using touched_unharmed [OF lr(2) K(7), of "xs @ ys"] wb(6) middle_apart(1) [OF K(6)]
    unfolding s1_def unharmed_def by auto
  have w1: "\<not> check_magic (start_address (heap_alloc s1) - 8) (ram s1)" by (rule unharmed_wall [OF un0 K(7,5)])
  have e0: "end_address (heap_alloc s) \<notin> region a sz" using wb(6) by (auto simp: span_def)
  note al = trim_cong [of "heap_alloc s1" "heap_alloc s", unfolded s1_def, simplified, folded s1_def]
  have bs': "released xs' b k ys' (heap_alloc s1) = ?bs'" by (simp add: s1_def al(4))
  have w2: "ys = [] \<longrightarrow> \<not> check_magic (end_address (heap_alloc s1)) (ram s1)"
    using w out [OF e0] by (simp add: s1_def check_magic_def)
  have tr1: "shrinks ys' (heap_alloc s1) \<longrightarrow> trimmable b (heap_alloc s1)" using tr by (simp add: s1_def al)
  have e1: "end_address (heap_alloc s1) mod FRAME_SIZE = 0" using K(4) by (simp add: s1_def)
  obtain s' where s': "free_block kap head a s1 = Some s'" "laid head ?bs' (free_nodes ?bs') s'" "unharmed head (xs @ ys) s1 s'"
    "end_address (heap_alloc s') mod FRAME_SIZE = 0" "mem_used (heap_alloc s') = mem_used (heap_alloc s1)"
    using free_block_ok [OF l1 w1 w2 e1 c tr1, of kap] unfolding bs' by metis
  have un: "unharmed head (xs @ ys) s s'" by (rule unharmed_trans [OF un0 s'(3)])
  have "a + 8 \<noteq> 0" using block_nat(2) [OF wb(2)] by (metis add_eq_0_iff_both_eq_0 unat_0 zero_neq_numeral)
  moreover have "get_footer a m1 = a + sz - 8" "check_magic (a + sz - 8) m1" "get_size a m1 = sz"
    using b1 by (simp_all add: get_footer_def block_at_def)
  ultimately have "free kap head (a + 8) s = Some s'"
    using bf s'(1) by (simp add: free_def user_to_block_def USER_PTR_OFFSET_def Let_def m1_def [symmetric] s1_def)
  moreover note cf = coalesce_facts [OF c]
  note rf = released_facts [OF cf(3) [OF K(2)], of "heap_alloc s"]
  have "mem_used (heap_alloc s') = used_size ?bs'"
    unfolding rf(3) cf(2) s'(5) using K(3) by (simp add: s1_def)
  ultimately show ?thesis
    using s'(2,4) rf(1) unharmed_wall [OF un K(7,5)] un by (auto simp: heap_ok_def)
qed

end
