(* ===== verification/Heap_Run.thy ===== *)
theory Heap_Run
  imports Heap_Free
begin

text \<open>
  The life of a heap of \<^verbatim>\<open>kernel/mem_alloc.c\<close>: \<open>create_mem_allocator\<close> makes a heap that is one free
  block, and every sequence of allocations, releases and writes to allocated memory keeps the
  invariant \<open>heap_ok\<close>. The theorems on \<open>alloc\<close> and \<open>free\<close> themselves stand here too.
\<close>

section \<open>Creation\<close>

lemma granular_nat:
  assumes "unat a + 76 < 2 ^ 32"
  shows "unat (granular_start a) mod 28 = 0 \<and> unat a + 48 \<le> unat (granular_start a) \<and>
    unat (granular_start a) < unat a + 76"
proof -
  let ?c = "a + 48"
  have c: "unat ?c = unat a + 48" using assms by (subst unat_add_lem [THEN iffD1]) auto
  have m: "unat (?c mod 28) = unat ?c mod 28" by (simp add: unat_mod)
  have g: "granular_start a = (if ?c mod 28 \<noteq> 0 then ?c - ?c mod 28 + 28 else ?c)"
    by (simp add: granular_start_def Let_def SIZEOF_ALLOCATOR_def MIN_BLOCK_SIZE_def)
  show ?thesis
  proof (cases "?c mod 28 = 0")
    case True
    then have "unat ?c mod 28 = 0" using m by simp
    then show ?thesis using True c by (simp add: g)
  next
    case False
    then have nz: "unat ?c mod 28 \<noteq> 0" using m by (metis unat_eq_zero)
    have "?c mod 28 \<le> ?c" using m by (simp add: word_le_nat_alt)
    then have d: "unat (?c - ?c mod 28) = unat ?c - unat ?c mod 28" using m by (simp add: unat_sub)
    have lt: "unat ?c mod 28 < 28" by simp
    have "unat ?c - unat ?c mod 28 + 28 < 2 ^ 32" using nz assms c by linarith
    then have "unat (?c - ?c mod 28 + 28) = unat ?c - unat ?c mod 28 + 28"
      using d by (subst unat_add_lem [THEN iffD1]) auto
    moreover have "(unat ?c - unat ?c mod 28 + 28) mod 28 = 0" by (simp add: minus_mod_eq_mult_div)
    moreover have "unat ?c mod 28 \<le> unat ?c" by simp
    ultimately show ?thesis using False nz lt c unfolding g by auto
  qed
qed


lemma create_ok:
  assumes s: "unat start + 104 \<le> unat endd" "start mod FRAME_SIZE = 0" "endd mod FRAME_SIZE = 0"
    and b: "b = granular_start start" and r: "heap_bounds head b endd mx" and w: "\<not> check_magic (b - 8) m"
  shows "\<exists>s. create_mem_allocator head tree0 start endd mn mx sv ro dir m v = Some (Some s) \<and>
      heap_ok head [(b, endd - b, True)] s \<and> unat start + 48 \<le> unat b \<and> unat b < unat start + 76 \<and>
      start_address (heap_alloc s) = b \<and> end_address (heap_alloc s) = endd \<and>
      mem_used (heap_alloc s) = 0 \<and> mem_free (heap_alloc s) = endd - b \<and>
      (\<forall>w. w \<notin> region b (endd - b) \<union> node_words head \<longrightarrow> ram s w = m w) \<and>
      vm_state s = v \<and> page_directory (heap_alloc s) = dir \<and> min_size (heap_alloc s) = mn"
proof -
  define al where "al = \<lparr>mem_tree = init_rbtree tree0 compare select_dup, start_address = b,
      end_address = endd, min_size = mn, max_size = mx, page_directory = dir,
      supervisor = sv, readonly = ro, mem_used = 0\<rparr>"
  define s0 where "s0 = \<lparr>ram = mark_free b (write_block b (endd - b) m), vm_state = v, heap_alloc = al\<rparr>"
  have g: "unat b mod 28 = 0" "unat start + 48 \<le> unat b" "unat b < unat start + 76"
    using granular_nat [of start] s(1) unat_less_32 [of endd] by (auto simp: b)
  then have sub: "unat (endd - b) = unat endd - unat b"
    using s(1) by (subst unat_sub) (auto simp: word_le_nat_alt)
  have f: "fits b (endd - b)" using g s(1) unat_less_32 [of endd] by (simp add: fits_def sub)
  have "28 dvd unat b" "4096 dvd unat endd" using g(1) s(3) by (auto simp: aligned_nat)
  moreover have "(4::nat) dvd 28" "(4::nat) dvd 4096" by simp_all
  ultimately have d: "4 dvd unat b" "4 dvd unat endd" by (meson dvd_trans)+
  then have t: "tiles b [(b, endd - b, True)] endd" using f by (simp add: sub)
  have "block_at b (endd - b) True (ram s0)"
    using mark_block(1) [OF f write_block_at(1) [OF f]] by (simp add: s0_def)
  moreover have "free_tree {} (mem_tree al) (ram s0)" by (rule free_tree_none) (simp_all add: al_def init_rbtree_def)
  ultimately have l: "laid head ([] @ (b, endd - b, True) # []) (free_nodes ([] @ [])) s0"
    using t r by (simp add: laid_def s0_def al_def)
  have out: "ram s0 w = m w" if "w \<notin> region b (endd - b)" for w
    using write_outside [OF f that] by (simp add: s0_def)
  obtain s1 where s1: "tree_insert head (b + 4) s0 = Some s1" "laid head [(b, endd - b, True)] {b + 4} s1"
    "touched (link_words {b + 4} \<union> node_words head) s0 s1"
    using laid_insert [OF l, of "b + 4"] by auto
  note tf = touched_fields [OF s1(3)]
  have lw: "link_words {b + 4} \<subseteq> region b (endd - b)" using links_in_nodes [of "{b + 4}"] node_region [OF f] by auto
  have mem: "ram s1 w = m w" if "w \<notin> region b (endd - b) \<union> node_words head" for w
    using that tf(7) [of w] out lw by auto
  have "unat (b - 8) = unat b - 8" using r by (subst unat_sub) (auto simp: heap_bounds_def word_le_nat_alt)
  then have "b - 8 \<notin> region b (endd - b) \<union> node_words head" using r g(2) by (auto simp: region_def heap_bounds_def)
  then have "heap_ok head [(b, endd - b, True)] s1"
    using s1(2) w mem [of "b - 8"] tf s(3) by (simp add: heap_ok_def coalesced_Cons s0_def al_def check_magic_def)
  moreover have "create_mem_allocator head tree0 start endd mn mx sv ro dir m v = Some (Some s1)"
    using s(2,3) s1(1) by (simp add: create_mem_allocator_def Let_def block_to_rbnode_def b s0_def al_def)
  ultimately show ?thesis using g(2,3) tf mem by (auto simp: s0_def al_def mem_free_def)
qed

section \<open>What a program may write\<close>

lemma user_inside:
  assumes "fits b u"
  shows "region (b + 8) (u - 16) \<subseteq> region b u" "region (b + 8) (u - 16) \<inter> block_words b u = {}"
proof -
  have "unat (u - 16) = unat u - 16" using assms by (subst unat_sub) (auto simp: word_le_nat_alt fits_def)
  then show "region (b + 8) (u - 16) \<subseteq> region b u" "region (b + 8) (u - 16) \<inter> block_words b u = {}"
    using block_nat [OF assms] assms by (auto simp: region_def fits_def block_words_def)
qed

definition payload :: "block list \<Rightarrow> u32 set" where
  "payload bs = (\<Union>(a, sz, fr)\<in>set bs. if fr then {} else region (a + 8) (sz - 16))"

lemma payload_used:
  assumes "tiles b bs e"
  shows "payload bs \<subseteq> used_region bs"
proof
  fix w assume "w \<in> payload bs"
  then obtain a sz where a: "(a, sz, False) \<in> set bs" "w \<in> region (a + 8) (sz - 16)"
    by (auto simp: payload_def split: if_splits)
  then have "w \<in> region a sz" using tiles_block [OF assms a(1)] user_inside(1) by blast
  then show "w \<in> used_region bs" using a(1) by (force simp: used_region_def)
qed

lemma payload_off_blocks:
  assumes t: "tiles b bs e" and c: "(c, r, g) \<in> set bs"
  shows "block_words c r \<inter> payload bs = {}"
proof -
  have fc: "fits c r" using tiles_block [OF t c] by blast
  have "block_words c r \<inter> region (a + 8) (sz - 16) = {}" if a: "(a, sz, h) \<in> set bs" for a sz h
  proof (cases "(a, sz, h) = (c, r, g)")
    case True
    then show ?thesis using user_inside(2) [OF fc] by auto
  next
    case False
    have "fits a sz" using tiles_block [OF t a] by blast
    then show ?thesis
      using user_inside(1) [of a sz] tiles_disjoint [OF t a c False] block_words_region [OF fc] by blast
  qed
  then show ?thesis by (fastforce simp: payload_def split: if_splits)
qed

lemma used_off_free_nodes:
  assumes t: "tiles b bs e"
  shows "used_region bs \<inter> \<Union> (node_words ` free_nodes bs) = {}"
proof -
  have "region c r \<inter> node_words (a + 4) = {}" if c: "(c, r, False) \<in> set bs" and a: "(a, sz, True) \<in> set bs" for a sz c r
    using node_region [of a sz] tiles_block [OF t a] tiles_disjoint [OF t a c] by blast
  then show ?thesis by (fastforce simp: used_region_def free_node_of split: if_splits)
qed

lemma store_ok:
  assumes ok: "heap_ok head bs s" and m: "\<forall>w. w \<notin> payload bs \<longrightarrow> m w = ram s w"
  shows "heap_ok head bs (s\<lparr>ram := m\<rparr>)"
proof -
  note k = heap_okD [OF ok]
  note D = laidD [OF k(1)]
  have pu: "payload bs \<subseteq> used_region bs" by (rule payload_used [OF k(6)])
  have "blocks_at bs m"
  proof (rule blocks_at_cong [OF D(2)])
    fix c r g w assume "(c, r, g) \<in> set bs" "w \<in> block_words c r"
    then show "m w = ram s w" using m payload_off_blocks [OF k(6)] by blast
  qed
  moreover have "free_tree (free_nodes bs) (mem_tree (heap_alloc s)) m"
    by (rule free_tree_cong [OF D(4)]) (use m pu used_off_free_nodes [OF k(6)] in blast)
  moreover have "unharmed head [] s (s\<lparr>ram := m\<rparr>)"
  proof -
    have "span (start_address (heap_alloc s)) (end_address (heap_alloc s)) \<subseteq>
        span (start_address (heap_alloc s)) (start_address (heap_alloc s) + max_size (heap_alloc s))"
      using k(7) room_nat [OF k(7)] by (auto simp: span_def heap_bounds_def)
    then show ?thesis using m pu used_region_span [OF k(6)] unfolding unharmed_def by auto
  qed
  ultimately show ?thesis using k unharmed_wall [of head "[]" s "s\<lparr>ram := m\<rparr>"] by (simp add: heap_ok_def laid_def)
qed

section \<open>Every run keeps the invariant\<close>

definition take_at :: "u32 \<Rightarrow> u32 \<Rightarrow> block list \<Rightarrow> block list" where
  "take_at a u bs = concat (map (\<lambda>(c, sz, fr). if c = a then carve c sz u False else [(c, sz, fr)]) bs)"

lemma take_elsewhere: "a + 4 \<notin> nodes bs \<Longrightarrow> take_at a u bs = bs"
  by (induction bs) (auto simp: take_at_def)

text \<open>The right neighbour of the last block is memory behind the heap.\<close>

definition free_guard :: "block list \<Rightarrow> block list \<Rightarrow> u32 \<Rightarrow> 'h heap_state \<Rightarrow> bool" where
  "free_guard ys ys' b s \<longleftrightarrow> (ys = [] \<longrightarrow> \<not> check_magic (end_address (heap_alloc s)) (ram s)) \<and>
     (shrinks ys' (heap_alloc s) \<longrightarrow> trimmable b (heap_alloc s))"

inductive heap_run ::
  "'h kap \<Rightarrow> u32 \<Rightarrow> block list \<Rightarrow> 'h heap_state \<Rightarrow> block list \<Rightarrow> 'h heap_state \<Rightarrow> bool" for kap head bs0 s0 where
  run_start: "heap_run kap head bs0 s0 bs0 s0"
| run_alloc: "heap_run kap head bs0 s0 bs s \<Longrightarrow> unat n + 19 < 2 ^ 32 \<Longrightarrow> u = get_block_size n \<Longrightarrow>
    has_fit u bs \<or> can_grow u (heap_alloc s) \<Longrightarrow> alloc kap head n 0 s = Some (p, s') \<Longrightarrow>
    heap_run kap head bs0 s0 (take_at (p - 8) u (served_from u bs (heap_alloc s))) s'"
| run_free: "heap_run kap head bs0 s0 (xs @ (a, sz, False) # ys) s \<Longrightarrow> coalesce xs a sz ys = (xs', b, k, ys') \<Longrightarrow>
    free_guard ys ys' b s \<Longrightarrow> free kap head (a + 8) s = Some s' \<Longrightarrow>
    heap_run kap head bs0 s0 (released xs' b k ys' (heap_alloc s)) s'"
| run_store: "heap_run kap head bs0 s0 bs s \<Longrightarrow> \<forall>w. w \<notin> payload bs \<longrightarrow> m w = ram s w \<Longrightarrow>
    heap_run kap head bs0 s0 bs (s\<lparr>ram := m\<rparr>)"

definition free_size :: "block list \<Rightarrow> u32" where
  "free_size bs = sum_list (map (\<lambda>(a, sz, fr). if fr then sz else 0) bs)"

lemma tiles_sum: "tiles b bs e \<Longrightarrow> b + (used_size bs + free_size bs) = e"
  by (induction b bs e rule: tiles.induct) (auto simp: used_size_def free_size_def algebra_simps)

lemma alloc_step_ok:
  assumes ok: "heap_ok head bs s" and u: "u = get_block_size n" "unat n + 19 < 2 ^ 32"
    and room: "has_fit u bs \<or> can_grow u (heap_alloc s)" and a: "alloc kap head n 0 s = Some (p, s')"
  shows "heap_ok head (take_at (p - 8) u (served_from u bs (heap_alloc s))) s'"
proof -
  obtain xs b sz ys where r: "served_from u bs (heap_alloc s) = xs @ (b, sz, True) # ys" "p = b + 8" "u \<le> sz"
    "heap_ok head (xs @ carve b sz u False @ ys) s'"
    using alloc_serves [OF ok u room, of kap] a by auto
  have "tiles (start_address (heap_alloc s')) (xs @ carve b sz u False @ ys) (end_address (heap_alloc s'))"
    by (rule heap_okD(6) [OF r(4)])
  then have "b + 4 \<notin> nodes (xs @ ys)"
    using node_once [of _ xs b "carved_size sz u" False "carved_rest b sz u @ ys"] by (auto simp: carve_eq)
  then have "take_at b u (xs @ (b, sz, True) # ys) = xs @ carve b sz u False @ ys"
    using take_elsewhere [of b xs u] take_elsewhere [of b ys u] by (auto simp: take_at_def)
  then show ?thesis using r by simp
qed

lemma heap_run_ok: "heap_run kap head bs0 s0 bs s \<Longrightarrow> heap_ok head bs0 s0 \<Longrightarrow> heap_ok head bs s"
proof (induction rule: heap_run.induct)
  case (run_alloc bs s n u p s')
  then show ?case using alloc_step_ok by blast
next
  case (run_free xs a sz ys s xs' b k ys' s')
  then have ok: "heap_ok head (xs @ (a, sz, False) # ys) s" by blast
  have "ys = [] \<longrightarrow> \<not> check_magic (end_address (heap_alloc s)) (ram s)"
    "shrinks ys' (heap_alloc s) \<longrightarrow> trimmable b (heap_alloc s)"
    using run_free.hyps(3) by (auto simp: free_guard_def)
  from free_releases [OF ok run_free.hyps(2) this, of kap] show ?case using run_free.hyps(4) by auto
next
  case (run_store bs s m)
  then show ?case using store_ok by blast
qed

lemma user_size:
  assumes "unat n + 19 < 2 ^ 32" "u = get_block_size n" "u \<le> sz"
  shows "unat n + 16 \<le> unat (carved_size sz u)"
proof -
  have "unat n + 16 \<le> (unat n + 19) div 4 * 4" by linarith
  then have "unat n + 16 \<le> unat u" using block_size_nat [OF assms(1)] assms(2) by simp
  then show ?thesis using assms(3) by (simp add: carved_size_def word_le_nat_alt)
qed

section \<open>The theorems\<close>

text \<open>
  C17. \<open>create_mem_allocator\<close> refuses bounds that are not page-aligned. Otherwise, with room for
  its structure and a block, it ends, and leaves a heap that satisfies the invariant and whose
  one free block reaches from the first multiple of the smallest block size behind the
  structure to the end; nothing is in use, \<open>mem_free\<close> is the block's size, and memory outside
  the block and the dummy root has not changed.
\<close>

theorem create_makes_one_block:
  assumes "unat start + 104 \<le> unat endd" "b = granular_start start" "heap_bounds head b endd mx"
    "\<not> check_magic (b - 8) m"
  shows "if start mod FRAME_SIZE \<noteq> 0 \<or> endd mod FRAME_SIZE \<noteq> 0
    then create_mem_allocator head tree0 start endd mn mx sv ro dir m v = Some None
    else \<exists>s. create_mem_allocator head tree0 start endd mn mx sv ro dir m v = Some (Some s) \<and>
      heap_ok head [(b, endd - b, True)] s \<and> unat start + 48 \<le> unat b \<and> unat b < unat start + 76 \<and>
      start_address (heap_alloc s) = b \<and> end_address (heap_alloc s) = endd \<and>
      mem_used (heap_alloc s) = 0 \<and> mem_free (heap_alloc s) = endd - b \<and>
      (\<forall>w. w \<notin> region b (endd - b) \<union> node_words head \<longrightarrow> ram s w = m w)"
proof (cases "start mod FRAME_SIZE \<noteq> 0 \<or> endd mod FRAME_SIZE \<noteq> 0")
  case True
  then show ?thesis by (simp add: create_mem_allocator_def)
next
  case False
  then show ?thesis
    using create_ok [OF assms(1) _ _ assms(2-4), of tree0 mn sv ro dir v]
    by (simp only: if_False de_Morgan_disj not_not simp_thms) blast
qed

text \<open>
  C13. An allocation from a heap that satisfies the invariant returns, and keeps the invariant,
  whenever a free block is large enough or the heap may grow by enough pages. It takes the
  smallest free block that is large enough (from the grown heap when there was none), returns
  the address behind its header with room for the request, and splits off the rest when that
  is a block of its own. The blocks in use, and memory outside the reach of the heap, are as
  they were.
\<close>

theorem alloc_best_fit:
  assumes "heap_ok head bs s" "u = get_block_size n" "unat n + 19 < 2 ^ 32"
    "has_fit u bs \<or> can_grow u (heap_alloc s)"
  shows "\<exists>xs a sz ys s'. served_from u bs (heap_alloc s) = xs @ (a, sz, True) # ys \<and> u \<le> sz \<and>
    (\<forall>c r. (c, r, True) \<in> set (served_from u bs (heap_alloc s)) \<longrightarrow> u \<le> r \<longrightarrow> sz \<le> r) \<and>
    unat n + 16 \<le> unat (carved_size sz u) \<and> alloc kap head n 0 s = Some (a + 8, s') \<and>
    heap_ok head (xs @ carve a sz u False @ ys) s' \<and> unharmed head bs s s'"
  using alloc_serves [OF assms, of kap] user_size [OF assms(3,2)] by metis

text \<open>
  C14. Releasing a block in use of a heap that satisfies the invariant, under \<open>free_guard\<close>, returns
  and keeps the invariant: the block has become one with its free neighbours on both sides, or, at the end
  of a heap larger than \<open>min_size\<close>, has given its whole pages back. The other blocks in use are
  as they were. The guard asks, when the last block is released, that memory behind the end of
  the heap does not look like a block, and, when pages are given back, that they have page
  tables and leave nothing or a whole block; the code tests neither.
\<close>

theorem free_coalesces:
  assumes "heap_ok head (xs @ (a, sz, False) # ys) s" "coalesce xs a sz ys = (xs', b, k, ys')" "free_guard ys ys' b s"
  shows "\<exists>s'. free kap head (a + 8) s = Some s' \<and> heap_ok head (released xs' b k ys' (heap_alloc s)) s' \<and>
    unharmed head (xs @ ys) s s'"
  by (rule free_releases [OF assms(1,2)]) (use assms(3) in \<open>auto simp: free_guard_def\<close>)

text \<open>
  C15. The invariant is kept by every sequence of writes to allocated memory, of allocations
  without alignment whose size does not wrap around and that a free block or growth of the
  heap can serve, and of releases that satisfy \<open>free_guard\<close>: when the last block is released,
  memory behind the end of the heap does not look like a block, and when pages are given
  back, they have page tables and leave nothing or a whole block. Other releases may break it.
  The blocks lie inside the heap and do not overlap, so that no two allocations
  share memory, and \<open>mem_free\<close> is the sum of the sizes of the free blocks.
\<close>

theorem heap_run_keeps:
  assumes "heap_ok head bs0 s0" "heap_run kap head bs0 s0 bs s"
  shows "heap_ok head bs s \<and>
    (\<forall>a sz f c r g. (a, sz, f) \<in> set bs \<longrightarrow> (c, r, g) \<in> set bs \<longrightarrow> (a, sz, f) \<noteq> (c, r, g) \<longrightarrow> region a sz \<inter> region c r = {}) \<and>
    (\<forall>a sz f. (a, sz, f) \<in> set bs \<longrightarrow> region a sz \<subseteq> span (start_address (heap_alloc s)) (end_address (heap_alloc s))) \<and>
    mem_free (heap_alloc s) = free_size bs"
proof -
  have ok: "heap_ok head bs s" by (rule heap_run_ok [OF assms(2,1)])
  note k = heap_okD [OF ok]
  have "mem_free (heap_alloc s) = free_size bs"
    using tiles_sum [OF k(6)] k(3) by (auto simp: mem_free_def algebra_simps)
  then show ?thesis using ok tiles_disjoint [OF k(6)] tiles_block [OF k(6)] by blast
qed

text \<open>
  C16. An allocation without alignment that a free block can serve returns; when that block was
  split, its release gives the heap back: whatever the program has written between the header
  and the footer, \<open>free\<close> leaves the blocks that were there before, except that a heap larger
  than \<open>min_size\<close> gives the pages at its end back. In that last case the pages must have page
  tables, and the rest of the block must be nothing or a whole block.
\<close>

theorem alloc_free_cycle:
  assumes "heap_ok head bs s" "u = get_block_size n" "unat n + 19 < 2 ^ 32" "has_fit u bs"
  shows "\<exists>xs a sz ys s'. bs = xs @ (a, sz, True) # ys \<and> alloc kap head n 0 s = Some (a + 8, s') \<and>
    (28 \<le> unat sz - unat u \<longrightarrow> (shrinks ys (heap_alloc s) \<longrightarrow> trimmable a (heap_alloc s)) \<longrightarrow>
      (\<forall>m. (\<forall>w. w \<notin> region (a + 8) (u - 16) \<longrightarrow> m w = ram s' w) \<longrightarrow>
        (\<exists>s''. free kap head (a + 8) (s'\<lparr>ram := m\<rparr>) = Some s'' \<and> heap_ok head (released xs a sz ys (heap_alloc s)) s'')))"
proof -
  obtain xs a sz ys s' where a: "bs = xs @ (a, sz, True) # ys" "u \<le> sz" "alloc kap head n 0 s = Some (a + 8, s')"
    "heap_ok head (xs @ carve a sz u False @ ys) s'" "unharmed head bs s s'"
    "end_address (heap_alloc s') = end_address (heap_alloc s)" "page_directory (heap_alloc s') = page_directory (heap_alloc s)"
    using alloc_fit [OF assms(1-3), of 0 kap] assms(4) unfolding has_fit_iff by blast
  have "\<exists>s''. free kap head (a + 8) (s'\<lparr>ram := m\<rparr>) = Some s'' \<and> heap_ok head (released xs a sz ys (heap_alloc s)) s''"
    if r: "28 \<le> unat sz - unat u" and tr: "shrinks ys (heap_alloc s) \<longrightarrow> trimmable a (heap_alloc s)"
      and m: "\<forall>w. w \<notin> region (a + 8) (u - 16) \<longrightarrow> m w = ram s' w" for m
  proof -
    let ?bs = "xs @ (a, u, False) # (a + u, sz - u, True) # ys" and ?s = "s'\<lparr>ram := m\<rparr>"
    have ok: "heap_ok head ?bs s'" using a(4) r by (simp add: carve_def)
    have "region (a + 8) (u - 16) \<subseteq> payload ?bs" by (auto simp: payload_def)
    then have ok': "heap_ok head ?bs ?s" by (intro store_ok [OF ok]) (use m in blast)
    have "xs = [] \<or> \<not> snd (snd (last xs))" using heap_okD(2) [OF assms(1)] a(1) by (auto simp: coalesced_append)
    then have c: "coalesce xs a u ((a + u, sz - u, True) # ys) = (xs, a, sz, ys)"
      by (simp add: coalesce_def absorb_left_simps(2))
    have al: "shrinks ys (heap_alloc ?s) = shrinks ys (heap_alloc s)" "trimmable a (heap_alloc ?s) = trimmable a (heap_alloc s)"
      "released xs a sz ys (heap_alloc ?s) = released xs a sz ys (heap_alloc s)"
      using a(5) trim_cong [OF _ a(6) _ a(7)] by (simp_all add: unharmed_def)
    show ?thesis using free_releases [OF ok' c, of kap] tr unfolding al by blast
  qed
  then show ?thesis using a(1,3) by blast
qed

section \<open>A small heap\<close>

text \<open>A heap of two pages at \<open>0x101000\<close>, as \<open>create_mem_allocator\<close> leaves it.\<close>

definition fresh_ram :: mem where
  "fresh_ram = (\<lambda>_. 0)(0x101048 := 0xa1b2c3d5, 0x10104c := 0x1fb8, 0x102ff8 := 0xa1b2c3d4, 0x102ffc := 0x101048)"

definition fresh_heap :: "unit heap_state" where
  "fresh_heap = small_heap\<lparr>ram := fresh_ram, heap_alloc := small_allocator\<lparr>start_address := 0x101048,
     end_address := 0x103000, min_size := 0x1000, mem_tree := rb_tree.make 0x10104c 1 0 compare select_dup\<rparr>\<rparr>"

abbreviation fresh_blocks :: "block list" where
  "fresh_blocks \<equiv> [(0x101048, 0x1fb8, True)]"

lemma fresh_free: "free_tree {0x10104c} (mem_tree (heap_alloc fresh_heap)) (ram fresh_heap)"
  unfolding free_tree_def
  by (intro conjI exI [of _ "N E 0x10104c False [] E"])
    (simp_all add: fresh_heap_def fresh_ram_def rb_tree.make_def get_link_def is_red_def rb_invariant_def ordered_def
      dup_keys_def untag_def tag_def)

lemma fresh_ok: "heap_ok 0x9000 fresh_blocks fresh_heap"
  using fresh_free
  by (simp add: heap_ok_def laid_def fits_def block_at_def fresh_heap_def fresh_ram_def field_defs MAGIC_def untag_def
      tag_def heap_bounds_def small_allocator_def node_words_def FRAME_SIZE_def coalesced_Cons)

lemma fresh_fields:
  "start_address (heap_alloc fresh_heap) = 0x101048" "end_address (heap_alloc fresh_heap) = 0x103000"
  "min_size (heap_alloc fresh_heap) = 0x1000" "max_size (heap_alloc fresh_heap) = 0x5000"
  "tables (page_directory (heap_alloc fresh_heap)) i = 0x2000"
  by (simp_all add: fresh_heap_def small_allocator_def)

lemma block_size_100: "get_block_size 100 = 116"
  by (simp add: get_block_size_def rounded_size_def USER_PTR_OFFSET_def MIN_BLOCK_SIZE_def Let_def)

lemma block_size_8192: "get_block_size 0x2000 = 0x2010"
  by (simp add: get_block_size_def rounded_size_def USER_PTR_OFFSET_def MIN_BLOCK_SIZE_def Let_def)

lemma fresh_trim:
  "shrinks [] (heap_alloc fresh_heap)" "trimmed_end 0x101048 (heap_alloc fresh_heap) = 0x102000"
  "trimmable 0x101048 (heap_alloc fresh_heap)"
proof -
  show "shrinks [] (heap_alloc fresh_heap)" by (simp add: shrinks_def fresh_fields)
  show t: "trimmed_end 0x101048 (heap_alloc fresh_heap) = 0x102000"
    by (simp add: trimmed_end_def contract_target_def page_floor_def page_up_def FRAME_SIZE_def fresh_fields)
  show "trimmable 0x101048 (heap_alloc fresh_heap)" by (simp add: trimmable_def t fresh_fields)
qed

lemma fresh_alloc:
  obtains s' where "alloc kap 0x9000 100 0 fresh_heap = Some (0x101050, s')"
    "heap_ok 0x9000 [(0x101048, 116, False), (0x1010bc, 0x1f44, True)] s'" "unharmed 0x9000 fresh_blocks fresh_heap s'"
    "end_address (heap_alloc s') = 0x103000"
    "page_directory (heap_alloc s') = page_directory (heap_alloc fresh_heap)"
proof -
  have "\<exists>a sz. (a, sz, True) \<in> set fresh_blocks \<and> 116 \<le> sz" by simp
  from alloc_fit [OF fresh_ok block_size_100 [symmetric] _ _ this, of 0 kap]
  obtain xs a sz ys s' where a: "fresh_blocks = xs @ (a, sz, True) # ys" "alloc kap 0x9000 100 0 fresh_heap = Some (a + 8, s')"
    "heap_ok 0x9000 (xs @ carve a sz 116 False @ ys) s'" "unharmed 0x9000 fresh_blocks fresh_heap s'"
    "end_address (heap_alloc s') = end_address (heap_alloc fresh_heap)"
    "page_directory (heap_alloc s') = page_directory (heap_alloc fresh_heap)" by auto
  from a(1) have "xs = []" "a = 0x101048" "sz = 0x1fb8" "ys = []" by (cases xs; simp)+
  then show ?thesis using that a(2-6) by (simp add: carve_def fresh_fields)
qed

theorem create_makes_one_block_witness:
  "\<exists>s. create_mem_allocator 0x9000 (rb_tree.make 7 7 7 compare select_dup) 0x101000 0x103000 0x2000 0x5000
     1 0 (page_directory small_allocator) (\<lambda>_. 0) (vm_state small_heap) = Some (Some s) \<and>
     heap_ok 0x9000 fresh_blocks s \<and> mem_free (heap_alloc s) = 0x1fb8"
proof -
  have "(0x101048 :: u32) = granular_start 0x101000" "heap_bounds 0x9000 0x101048 0x103000 0x5000"
    "\<not> check_magic (0x101048 - 8) (\<lambda>_. 0)"
    by (simp_all add: granular_start_def SIZEOF_ALLOCATOR_def MIN_BLOCK_SIZE_def Let_def heap_bounds_def node_words_def
        untag_def check_magic_def MAGIC_def)
  from create_makes_one_block [OF _ this, of "rb_tree.make 7 7 7 compare select_dup" "0x2000" 1 0
      "page_directory small_allocator" "vm_state small_heap"]
  show ?thesis by (auto simp: FRAME_SIZE_def)
qed

text \<open>The heap has not enough room for 8192 bytes and grows by three pages.\<close>

theorem alloc_best_fit_witness:
  "\<exists>s'. alloc (\<lambda>_ _. (0, 0, ())) 0x9000 0x2000 0 fresh_heap = Some (0x101050, s') \<and>
     heap_ok 0x9000 [(0x101048, 0x2010, False), (0x103058, 0x2fa8, True)] s'"
proof -
  have g: "can_grow 0x2010 (heap_alloc fresh_heap)" by (simp add: can_grow_def fresh_fields)
  have sf: "served_from 0x2010 fresh_blocks (heap_alloc fresh_heap) = [(0x101048, 0x4fb8, True)]"
    by (simp add: served_from_def has_fit_def grown_def fresh_fields page_up_def FRAME_SIZE_def)
  from alloc_best_fit [OF fresh_ok block_size_8192 [symmetric] _ disjI2 [OF g], of "\<lambda>_ _. (0, 0, ())"]
  obtain xs a sz ys s' where a: "[(0x101048, 0x4fb8, True)] = xs @ (a, sz, True) # ys"
    "alloc (\<lambda>_ _. (0, 0, ())) 0x9000 0x2000 0 fresh_heap = Some (a + 8, s')"
    "heap_ok 0x9000 (xs @ carve a sz 0x2010 False @ ys) s'" unfolding sf by auto
  from a(1) have "xs = []" "a = 0x101048" "sz = 0x4fb8" "ys = []" by (cases xs; simp)+
  then show ?thesis using a(2,3) by (simp add: carve_def)
qed

theorem free_coalesces_witness:
  "\<exists>s' s''. alloc (\<lambda>_ _. (0, 0, ())) 0x9000 100 0 fresh_heap = Some (0x101050, s') \<and>
     free (\<lambda>_ _. (0, 0, ())) 0x9000 0x101050 s' = Some s'' \<and> heap_ok 0x9000 [(0x101048, 0xfb8, True)] s''"
proof -
  obtain s' where s': "alloc (\<lambda>_ _. (0, 0, ())) 0x9000 100 0 fresh_heap = Some (0x101050, s')"
    "heap_ok 0x9000 ([] @ (0x101048, 116, False) # [(0x1010bc, 0x1f44, True)]) s'" "unharmed 0x9000 fresh_blocks fresh_heap s'"
    "end_address (heap_alloc s') = 0x103000" "page_directory (heap_alloc s') = page_directory (heap_alloc fresh_heap)"
    using fresh_alloc [of "\<lambda>_ _. (0, 0, ())"] by auto
  have c: "coalesce [] 0x101048 116 [(0x1010bc, 0x1f44, True)] = ([], 0x101048, 0x1fb8, [])"
    by (simp add: coalesce_def absorb_left_def)
  have al: "shrinks [] (heap_alloc s')" "trimmed_end 0x101048 (heap_alloc s') = 0x102000" "trimmable 0x101048 (heap_alloc s')"
    using fresh_trim s'(3,4) trim_cong [OF _ _ _ s'(5)] by (simp_all add: unharmed_def fresh_fields)
  then have "free_guard [(0x1010bc, 0x1f44, True)] [] 0x101048 s'" by (simp add: free_guard_def)
  from free_coalesces [OF s'(2) c this, of "\<lambda>_ _. (0, 0, ())"]
  show ?thesis using s'(1) al by (auto simp: released_def)
qed

theorem heap_run_keeps_witness:
  "\<exists>s. heap_run (\<lambda>_ _. (0, 0, ())) 0x9000 fresh_blocks fresh_heap [(0x101048, 116, False), (0x1010bc, 0x1f44, True)] s \<and>
     mem_free (heap_alloc s) = 0x1f44"
proof -
  obtain s' where s': "alloc (\<lambda>_ _. (0, 0, ())) 0x9000 100 0 fresh_heap = Some (0x101050, s')"
    using fresh_alloc [of "\<lambda>_ _. (0, 0, ())"] by auto
  have f: "has_fit 116 fresh_blocks" by (simp add: has_fit_def)
  then have sf: "take_at (0x101050 - 8) 116 (served_from 116 fresh_blocks (heap_alloc fresh_heap)) =
      [(0x101048, 116, False), (0x1010bc, 0x1f44, True)]"
    by (simp add: served_from_def take_at_def carve_def)
  have r: "heap_run (\<lambda>_ _. (0, 0, ())) 0x9000 fresh_blocks fresh_heap [(0x101048, 116, False), (0x1010bc, 0x1f44, True)] s'"
    using run_alloc [OF run_start _ block_size_100 [symmetric] disjI1 [OF f] s'] unfolding sf by simp
  from heap_run_keeps [OF fresh_ok r] show ?thesis using r by (auto simp: free_size_def)
qed

theorem alloc_free_cycle_witness:
  "\<exists>s' s''. alloc (\<lambda>_ _. (0, 0, ())) 0x9000 100 0 fresh_heap = Some (0x101050, s') \<and>
     free (\<lambda>_ _. (0, 0, ())) 0x9000 0x101050 (s'\<lparr>ram := (ram s')(0x101060 := 0xa1b2c3d4)\<rparr>) = Some s'' \<and>
     heap_ok 0x9000 [(0x101048, 0xfb8, True)] s''"
proof -
  have f: "has_fit 116 fresh_blocks" and n: "unat (100::u32) + 19 < 2 ^ 32" by (simp_all add: has_fit_def)
  from alloc_free_cycle [OF fresh_ok block_size_100 [symmetric] n f, of "\<lambda>_ _. (0, 0, ())"]
  obtain xs a sz ys s' where a: "fresh_blocks = xs @ (a, sz, True) # ys"
    "alloc (\<lambda>_ _. (0, 0, ())) 0x9000 100 0 fresh_heap = Some (a + 8, s')"
    "28 \<le> unat sz - unat (116::u32) \<longrightarrow> (shrinks ys (heap_alloc fresh_heap) \<longrightarrow> trimmable a (heap_alloc fresh_heap)) \<longrightarrow>
      (\<forall>m. (\<forall>w. w \<notin> region (a + 8) (116 - 16) \<longrightarrow> m w = ram s' w) \<longrightarrow>
        (\<exists>s''. free (\<lambda>_ _. (0, 0, ())) 0x9000 (a + 8) (s'\<lparr>ram := m\<rparr>) = Some s'' \<and>
           heap_ok 0x9000 (released xs a sz ys (heap_alloc fresh_heap)) s''))"
    by blast
  from a(1) have e: "xs = []" "a = 0x101048" "sz = 0x1fb8" "ys = []" by (cases xs; simp)+
  have "\<forall>w. w \<notin> region (a + 8) (116 - 16) \<longrightarrow> ((ram s')(0x101060 := 0xa1b2c3d4)) w = ram s' w"
    by (simp add: region_def e)
  moreover have "released xs a sz ys (heap_alloc fresh_heap) = [(0x101048, 0xfb8, True)]"
    using fresh_trim by (simp add: released_def e)
  ultimately show ?thesis using a(2,3) fresh_trim(3) e by auto
qed

end
