(* ===== verification/Kheap.thy ===== *)
theory Kheap
  imports Heap_Run
begin

text \<open>
  \<^verbatim>\<open>kernel/kheap.c\<close>: \<open>kmalloc\<close> and its variants, over the placement allocation as long as the
  kernel heap does not exist and over \<open>alloc\<close> afterwards, and \<open>kfree\<close>. The functions run with
  interrupts disabled between \<open>irq_save\<close> and \<open>irq_restore\<close>, so each is one step. \<open>voffset\<close> is the
  linker symbol \<open>kernel_voffset\<close>, \<open>kdir\<close> the kernel's page directory; a result \<open>None\<close> is a run
  that does not return or goes through a null pointer.
\<close>

record 'h kheap_state =
  placement_address :: u32
  kheap :: "'h heap_state option"

text \<open>The physical address of a mapped virtual one, as \<open>kmalloc_int\<close> computes it.\<close>

definition phys_of :: "'h kap \<Rightarrow> page_dir \<Rightarrow> u32 \<Rightarrow> 'h heap_state \<Rightarrow> u32 option" where
  "phys_of kap kdir addr s =
     (case fst (get_page kap addr False kdir (vm_state s)) of
        None \<Rightarrow> None
      | Some p \<Rightarrow> Some (ucast (frame (get_pte p (vm_state s))) * FRAME_SIZE + (addr AND 0xfff)))"

definition kmalloc_int ::
  "'h kap \<Rightarrow> u32 \<Rightarrow> u32 \<Rightarrow> page_dir \<Rightarrow> u32 \<Rightarrow> u32 \<Rightarrow> bool \<Rightarrow> 'h kheap_state
     \<Rightarrow> (u32 \<times> u32 option \<times> 'h kheap_state) option" where
  "kmalloc_int kap head voffset kdir sz align phys k =
     (case kheap k of
        Some s \<Rightarrow>
          (case alloc kap head sz align s of
             None \<Rightarrow> None
           | Some (addr, s) \<Rightarrow>
               if phys
               then map_option (\<lambda>p. (addr, Some p, k\<lparr>kheap := Some s\<rparr>)) (phys_of kap kdir addr s)
               else Some (addr, None, k\<lparr>kheap := Some s\<rparr>))
      | None \<Rightarrow>
          let p = place_align align (placement_address k)
          in Some (p, if phys then Some (p - voffset) else None, k\<lparr>placement_address := p + sz\<rparr>))"

definition kmalloc ::
  "'h kap \<Rightarrow> u32 \<Rightarrow> u32 \<Rightarrow> page_dir \<Rightarrow> u32 \<Rightarrow> 'h kheap_state \<Rightarrow> (u32 \<times> 'h kheap_state) option" where
  "kmalloc kap head voffset kdir sz k =
     map_option (\<lambda>(a, p, k). (a, k)) (kmalloc_int kap head voffset kdir sz 0 False k)"

definition kmalloc_a ::
  "'h kap \<Rightarrow> u32 \<Rightarrow> u32 \<Rightarrow> page_dir \<Rightarrow> u32 \<Rightarrow> 'h kheap_state \<Rightarrow> (u32 \<times> 'h kheap_state) option" where
  "kmalloc_a kap head voffset kdir sz k =
     map_option (\<lambda>(a, p, k). (a, k)) (kmalloc_int kap head voffset kdir sz FRAME_SIZE False k)"

definition kmalloc_p ::
  "'h kap \<Rightarrow> u32 \<Rightarrow> u32 \<Rightarrow> page_dir \<Rightarrow> u32 \<Rightarrow> 'h kheap_state \<Rightarrow> (u32 \<times> u32 option \<times> 'h kheap_state) option" where
  "kmalloc_p kap head voffset kdir sz k = kmalloc_int kap head voffset kdir sz 0 True k"

definition kmalloc_ap ::
  "'h kap \<Rightarrow> u32 \<Rightarrow> u32 \<Rightarrow> page_dir \<Rightarrow> u32 \<Rightarrow> 'h kheap_state \<Rightarrow> (u32 \<times> u32 option \<times> 'h kheap_state) option" where
  "kmalloc_ap kap head voffset kdir sz k = kmalloc_int kap head voffset kdir sz FRAME_SIZE True k"

definition kfree :: "'h kap \<Rightarrow> u32 \<Rightarrow> u32 \<Rightarrow> 'h kheap_state \<Rightarrow> 'h kheap_state option" where
  "kfree kap head p k =
     (case kheap k of
        None \<Rightarrow> if p = 0 then Some k else None
      | Some s \<Rightarrow> map_option (\<lambda>s. k\<lparr>kheap := Some s\<rparr>) (free kap head p s))"

section \<open>Before the heap exists\<close>

lemma frame_multiple_nat: "unat (place_align FRAME_SIZE p) mod 4096 = 0"
proof (cases "p mod FRAME_SIZE = 0")
  case True
  then show ?thesis by (simp add: place_align_def aligned_nat)
next
  case False
  then have "place_align FRAME_SIZE p = page_up p" by (simp add: place_align_def page_up_def FRAME_SIZE_def)
  then show ?thesis using page_up_aligned [of p] by (simp add: aligned_nat)
qed

text \<open>
  The abstract view of the placement allocation is the one the paging code is proved with:
  \<open>kmalloc_ap\<close> before the heap exists is the provider \<open>kmalloc_ap_place\<close> of page tables.
\<close>

lemma kmalloc_ap_places:
  assumes "kheap k = None"
  shows "kmalloc_ap kap head voffset kdir sz k =
    (let (a, phys, p') = kmalloc_ap_place voffset sz (placement_address k)
     in Some (a, Some phys, k\<lparr>placement_address := p'\<rparr>))"
  using assms by (simp add: kmalloc_ap_def kmalloc_int_def kmalloc_ap_place_def kmalloc_place_def
      FRAME_SIZE_def Let_def)

text \<open>
  Before the kernel heap exists, \<open>kmalloc_ap\<close> returns a page-aligned address, less than a
  page above the old placement address and not below it, its physical counterpart
  \<open>kernel_voffset\<close> below, and moves the placement address behind the memory it hands out.
\<close>

theorem kmalloc_ap_before_heap:
  assumes "kheap k = None" "unat (placement_address k) + 4096 + unat sz < 2 ^ 32"
  shows "\<exists>a k'. kmalloc_ap kap head voffset kdir sz k = Some (a, Some (a - voffset), k') \<and>
    unat a mod 4096 = 0 \<and> unat (placement_address k) \<le> unat a \<and>
    unat a < unat (placement_address k) + 4096 \<and>
    unat (placement_address k') = unat a + unat sz \<and> kheap k' = None"
proof -
  let ?p = "placement_address k" and ?a = "place_align FRAME_SIZE (placement_address k)"
  have b: "unat ?p \<le> unat ?a" "unat ?a < unat ?p + 4096"
    using place_align_le [of FRAME_SIZE ?p] assms(2) by (auto simp: FRAME_SIZE_def)
  then have "unat (?a + sz) = unat ?a + unat sz" using assms(2) by (subst unat_add_lem [THEN iffD1]) auto
  then show ?thesis
    using b frame_multiple_nat [of ?p] assms(1) by (simp add: kmalloc_ap_def kmalloc_int_def Let_def)
qed

theorem kmalloc_ap_before_heap_witness:
  "\<exists>k'. kmalloc_ap (\<lambda>_ _. (0, 0, ())) 0x9000 0xc0000000 (page_directory small_allocator) 0x2004
     \<lparr>placement_address = 0xc0123456, kheap = None\<rparr> = Some (0xc0124000, Some 0x124000, k') \<and>
     unat (placement_address k') = unat (0xc0126004 :: u32)"
  using kmalloc_ap_before_heap [of "\<lparr>placement_address = 0xc0123456, kheap = None\<rparr>" "0x2004"
      "\<lambda>_ _. (0, 0, ())" "0x9000" "0xc0000000" "page_directory small_allocator"]
  by (auto simp: kmalloc_ap_def kmalloc_int_def place_align_def FRAME_SIZE_def Let_def)

section \<open>With the heap\<close>

text \<open>
  The abstract view of the heap: the set of pointers that have been handed out. It is a function
  of the state, since the memory determines the blocks.
\<close>

definition used_pointers :: "block list \<Rightarrow> u32 set" where
  "used_pointers bs = (\<lambda>b. fst b + 8) ` set (filter (\<lambda>b. \<not> snd (snd b)) bs)"

definition handed_out :: "u32 \<Rightarrow> 'h kheap_state \<Rightarrow> u32 set" where
  "handed_out head k = {p. \<exists>s bs. kheap k = Some s \<and> heap_ok head bs s \<and> p \<in> used_pointers bs}"

definition heap_serves :: "u32 \<Rightarrow> u32 \<Rightarrow> 'h kheap_state \<Rightarrow> bool" where
  "heap_serves head n k \<longleftrightarrow> (\<exists>s bs. kheap k = Some s \<and> heap_ok head bs s \<and>
     (has_fit (get_block_size n) bs \<or> can_grow (get_block_size n) (heap_alloc s)))"

lemma used_pointers_simps [simp]:
  "used_pointers [] = {}"
  "used_pointers ((a, sz, fr) # bs) = (if fr then used_pointers bs else insert (a + 8) (used_pointers bs))"
  "used_pointers (xs @ ys) = used_pointers xs \<union> used_pointers ys"
  by (auto simp: used_pointers_def)

lemma tiles_unique:
  "tiles b bs e \<Longrightarrow> tiles b cs e \<Longrightarrow> blocks_at bs m \<Longrightarrow> blocks_at cs m \<Longrightarrow> bs = cs"
proof (induction b bs e arbitrary: cs rule: tiles.induct)
  case (1 b e)
  have "cs = []"
  proof (cases cs)
    case (Cons c ds)
    then obtain sz fr where "fits b sz" "tiles (b + sz) ds b" using 1 by (cases c) auto
    then show ?thesis using tiles_le [of "b + sz" ds b] by (auto simp: fits_end fits_def)
  qed
  then show ?case by simp
next
  case (2 b a sz fr bs e)
  show ?case
  proof (cases cs)
    case Nil
    then show ?thesis using 2(2,3) tiles_le [of "b + sz" bs e] by (auto simp: fits_end fits_def)
  next
    case (Cons c ds)
    obtain r g where c: "c = (b, r, g)" "tiles (b + r) ds e" using 2(3) Cons by (cases c) auto
    have "r = sz" "g = fr" using 2(2,4,5) Cons c(1) by (auto simp: block_at_def)
    then show ?thesis using 2 Cons c by auto
  qed
qed

lemma heap_ok_unique: "heap_ok head bs s \<Longrightarrow> heap_ok head cs s \<Longrightarrow> bs = cs"
  by (rule tiles_unique) (auto simp: heap_ok_def laid_def)

lemma handed_out_eq:
  assumes "kheap k = Some s" "heap_ok head bs s"
  shows "handed_out head k = used_pointers bs"
proof (rule set_eqI)
  fix p
  have "p \<in> used_pointers bs" if "kheap k = Some t" "heap_ok head cs t" "p \<in> used_pointers cs" for t cs
  proof -
    have "t = s" using that(1) assms(1) by simp
    then show ?thesis using heap_ok_unique [OF _ assms(2)] that(2,3) by auto
  qed
  then show "p \<in> handed_out head k \<longleftrightarrow> p \<in> used_pointers bs"
    using assms unfolding handed_out_def by blast
qed

lemma pointer_once:
  assumes "tiles b (xs @ (a, sz, fr) # ys) e"
  shows "a + 8 \<notin> used_pointers (xs @ ys)"
  using node_once [OF assms] by (force simp: used_pointers_def nodes_def)

lemma used_served: "used_pointers (served_from u bs al) = used_pointers bs"
proof -
  have "used_pointers (grown bs e k) = used_pointers bs" for e k
  proof (cases bs rule: rev_cases)
    case (snoc ws x)
    then show ?thesis by (cases x) (auto simp: grown_def split: bool.splits)
  qed (simp add: grown_def)
  then show ?thesis by (simp add: served_from_def)
qed

lemma used_released:
  assumes "coalesce xs a sz ys = (xs', b, k, ys')"
  shows "used_pointers (released xs' b k ys' al) = used_pointers (xs @ ys)"
proof -
  obtain r where r: "absorb_right sz ys = (r, ys')" "absorb_left xs a r = (xs', b, k)"
    using assms by (auto simp: coalesce_def split: prod.splits)
  have "used_pointers ys' = used_pointers ys" using r(1) by (cases "(sz, ys)" rule: absorb_right.cases) auto
  moreover have "used_pointers xs' = used_pointers xs"
  proof (cases "xs \<noteq> [] \<and> snd (snd (last xs))")
    case True
    then obtain ws c l where "xs = ws @ [(c, l, True)]" by (cases xs rule: rev_cases) auto
    then show ?thesis using r(2) by (auto simp: absorb_left_simps(1))
  qed (use r(2) absorb_left_simps(2) [of xs a r] in auto)
  ultimately show ?thesis by (auto simp: released_def shrinks_def)
qed

lemma kmalloc_fresh:
  assumes n: "unat n + 19 < 2 ^ 32" and sv: "heap_serves head n k"
  shows "\<exists>p k'. kmalloc kap head voffset kdir n k = Some (p, k') \<and> p \<noteq> 0 \<and> p \<notin> handed_out head k \<and>
    handed_out head k' = insert p (handed_out head k)"
proof -
  obtain s bs where s: "kheap k = Some s" "heap_ok head bs s"
    "has_fit (get_block_size n) bs \<or> can_grow (get_block_size n) (heap_alloc s)"
    using sv by (auto simp: heap_serves_def)
  obtain xs a sz ys s' where a: "served_from (get_block_size n) bs (heap_alloc s) = xs @ (a, sz, True) # ys"
    "get_block_size n \<le> sz" "alloc kap head n 0 s = Some (a + 8, s')"
    "heap_ok head (xs @ carve a sz (get_block_size n) False @ ys) s'"
    using alloc_serves [OF s(2) refl n s(3), of kap] by blast
  let ?k' = "k\<lparr>kheap := Some s'\<rparr>"
  have km: "kmalloc kap head voffset kdir n k = Some (a + 8, ?k')"
    using s(1) a(3) by (simp add: kmalloc_def kmalloc_int_def)
  have t: "tiles (start_address (heap_alloc s')) (xs @ (a, carved_size sz (get_block_size n), False) #
      (carved_rest a sz (get_block_size n) @ ys)) (end_address (heap_alloc s'))"
    using heap_okD(6) [OF a(4)] by (simp add: carve_eq)
  have "a + 8 \<noteq> 0"
    using block_nat(2) [OF whole_block(2) [OF t]] by (metis add_eq_0_iff_both_eq_0 unat_0 zero_neq_numeral)
  moreover have old: "handed_out head k = used_pointers (xs @ ys)"
    using handed_out_eq [OF s(1,2)] used_served [of "get_block_size n" bs "heap_alloc s"] a(1) by simp
  moreover have "handed_out head ?k' = insert (a + 8) (used_pointers (xs @ ys))"
    using handed_out_eq [of ?k' s', OF _ a(4)] by (auto simp: carve_eq carved_rest_def)
  moreover have "a + 8 \<notin> used_pointers (xs @ ys)" using pointer_once [OF t] by (auto simp: carved_rest_def)
  ultimately show ?thesis using km by auto
qed

text \<open>The memory of the handed-out blocks; what a request returns lies outside of it.\<close>

definition handed_words :: "u32 \<Rightarrow> 'h kheap_state \<Rightarrow> u32 set" where
  "handed_words head k = {w. \<exists>s bs. kheap k = Some s \<and> heap_ok head bs s \<and> w \<in> payload bs}"

lemma handed_words_eq:
  assumes "kheap k = Some s" "heap_ok head bs s"
  shows "handed_words head k = payload bs"
proof (rule set_eqI)
  fix w
  have "w \<in> payload bs" if "kheap k = Some t" "heap_ok head cs t" "w \<in> payload cs" for t cs
  proof -
    have "t = s" using that(1) assms(1) by simp
    then show ?thesis using heap_ok_unique [OF _ assms(2)] that(2,3) by auto
  qed
  then show "w \<in> handed_words head k \<longleftrightarrow> w \<in> payload bs"
    using assms unfolding handed_words_def by blast
qed

lemma payload_simps [simp]:
  "payload [] = {}" "payload ((a, sz, True) # bs) = payload bs"
  "payload ((a, sz, False) # bs) = region (a + 8) (sz - 16) \<union> payload bs" "payload (xs @ ys) = payload xs \<union> payload ys"
  by (auto simp: payload_def)

lemma payload_served: "payload (served_from u bs al) = payload bs"
proof -
  have "payload (grown bs e k) = payload bs" for e k
  proof (cases bs rule: rev_cases)
    case (snoc ws x)
    then show ?thesis by (cases x) (auto simp: grown_def split: bool.splits)
  qed (simp add: grown_def)
  then show ?thesis by (simp add: served_from_def)
qed

lemma payload_apart:
  assumes t: "tiles b (xs @ (a, sz, fr) # ys) e"
  shows "region (a + 8) (sz - 16) \<inter> payload (xs @ ys) = {}"
proof -
  have a: "fits a sz" using whole_block(2) [OF t] .
  have "region (a + 8) (sz - 16) \<inter> region (c + 8) (r - 16) = {}" if c: "(c, r, g) \<in> set (xs @ ys)" for c r g
  proof -
    have ne: "(a, sz, fr) \<noteq> (c, r, g)" using node_once [OF t] c by (force simp: nodes_def)
    have m: "(a, sz, fr) \<in> set (xs @ (a, sz, fr) # ys)" "(c, r, g) \<in> set (xs @ (a, sz, fr) # ys)" using c by auto
    have "fits c r" using tiles_block [OF t m(2)] by blast
    then show ?thesis using tiles_disjoint [OF t m ne] user_inside(1) [OF a] user_inside(1) [of c r] by blast
  qed
  then show ?thesis unfolding payload_def by (fastforce split: if_splits)
qed

lemma kmalloc_words:
  assumes n: "unat n + 19 < 2 ^ 32" and sv: "heap_serves head n k" and km: "kmalloc kap head voffset kdir n k = Some (p, k')"
  shows "region p n \<inter> handed_words head k = {}" "handed_words head k \<union> region p n \<subseteq> handed_words head k'"
    "unat p + unat n < 2 ^ 32"
proof -
  let ?u = "get_block_size n"
  obtain s bs where s: "kheap k = Some s" "heap_ok head bs s" "has_fit ?u bs \<or> can_grow ?u (heap_alloc s)"
    using sv by (auto simp: heap_serves_def)
  obtain xs a sz ys s' where a: "served_from ?u bs (heap_alloc s) = xs @ (a, sz, True) # ys"
    "?u \<le> sz" "alloc kap head n 0 s = Some (a + 8, s')" "heap_ok head (xs @ carve a sz ?u False @ ys) s'"
    using alloc_serves [OF s(2) refl n s(3), of kap] by blast
  have pk: "p = a + 8" "kheap k' = Some s'" using km s(1) a(3) by (auto simp: kmalloc_def kmalloc_int_def)
  let ?c = "carved_size sz ?u" and ?ys = "carved_rest a sz ?u @ ys"
  have t: "tiles (start_address (heap_alloc s')) (xs @ (a, ?c, False) # ?ys) (end_address (heap_alloc s'))"
    using heap_okD(6) [OF a(4)] by (simp add: carve_eq)
  have old: "handed_words head k = payload (xs @ ys)"
    using handed_words_eq [OF s(1,2)] payload_served [of ?u bs "heap_alloc s"] a(1) by simp
  have rest: "payload (carved_rest a sz ?u) = {}" by (simp add: carved_rest_def)
  have new: "handed_words head k' = region p (?c - 16) \<union> payload (xs @ ys)"
    using handed_words_eq [OF pk(2) a(4)] rest by (auto simp: carve_eq pk(1))
  have f: "fits a ?c" by (rule whole_block(2) [OF t])
  have c: "unat n + 16 \<le> unat ?c" by (rule user_size [OF n refl a(2)])
  then have "unat (?c - 16) = unat ?c - 16" by (subst unat_sub) (auto simp: word_le_nat_alt)
  then have sub: "region p n \<subseteq> region p (?c - 16)" using c by (auto simp: region_def)
  show "region p n \<inter> handed_words head k = {}"
    using payload_apart [OF t] sub rest unfolding old pk(1) by auto
  show "handed_words head k \<union> region p n \<subseteq> handed_words head k'" using new old sub by auto
  have "unat p = unat a + 8" unfolding pk(1) using block_nat(2) [OF f] by simp
  then show "unat p + unat n < 2 ^ 32" using f c by (simp add: fits_def)
qed

text \<open>
  C18. Over the kernel heap, \<open>kmalloc\<close> and \<open>kfree\<close> are the operations of a set of pointers: a request
  that the heap can serve and whose size does not wrap around returns a new pointer, which is not
  null and has not been handed out, adds it to the set, and the memory behind it shares no byte
  with the memory of the pointers that had been handed out; releasing a pointer of the set takes
  it out of it, and nothing else, when its block satisfies \<open>free_guard\<close>: memory behind the end of
  the heap does not look like a block when the last block is released, and pages that are given
  back have page tables and leave nothing or a whole block.
\<close>

theorem kmalloc_kfree_refine:
  assumes k: "kheap k = Some s" "heap_ok head bs s"
  shows "(\<forall>n. unat n + 19 < 2 ^ 32 \<longrightarrow> heap_serves head n k \<longrightarrow>
      (\<exists>p k'. kmalloc kap head voffset kdir n k = Some (p, k') \<and> p \<noteq> 0 \<and> p \<notin> handed_out head k \<and>
        handed_out head k' = insert p (handed_out head k) \<and> region p n \<inter> handed_words head k = {})) \<and>
    (\<forall>xs a sz ys xs' b l ys'. bs = xs @ (a, sz, False) # ys \<longrightarrow> coalesce xs a sz ys = (xs', b, l, ys') \<longrightarrow>
      free_guard ys ys' b s \<longrightarrow> a + 8 \<in> handed_out head k \<and>
      (\<exists>k'. kfree kap head (a + 8) k = Some k' \<and> handed_out head k' = handed_out head k - {a + 8}))"
proof (intro conjI allI impI)
  show "\<exists>p k'. kmalloc kap head voffset kdir n k = Some (p, k') \<and> p \<noteq> 0 \<and> p \<notin> handed_out head k \<and>
      handed_out head k' = insert p (handed_out head k) \<and> region p n \<inter> handed_words head k = {}"
    if "unat n + 19 < 2 ^ 32" "heap_serves head n k" for n
    using kmalloc_fresh [OF that, of kap voffset kdir] kmalloc_words(1) [OF that] by blast
  fix xs a sz ys xs' b l ys'
  assume bs: "bs = xs @ (a, sz, False) # ys" and c: "coalesce xs a sz ys = (xs', b, l, ys')" and g: "free_guard ys ys' b s"
  have ok: "heap_ok head (xs @ (a, sz, False) # ys) s" using k(2) bs by simp
  have old: "handed_out head k = insert (a + 8) (used_pointers (xs @ ys))" using handed_out_eq [OF k(1) ok] by simp
  then show "a + 8 \<in> handed_out head k" by simp
  obtain s' where s': "free kap head (a + 8) s = Some s'" "heap_ok head (released xs' b l ys' (heap_alloc s)) s'"
    using free_releases [OF ok c, of kap] g by (auto simp: free_guard_def)
  let ?k' = "k\<lparr>kheap := Some s'\<rparr>"
  have "handed_out head ?k' = used_pointers (xs @ ys)"
    using handed_out_eq [of ?k' s', OF _ s'(2)] used_released [OF c] by simp
  moreover have "a + 8 \<notin> used_pointers (xs @ ys)" by (rule pointer_once [OF heap_okD(6) [OF ok]])
  moreover have "kfree kap head (a + 8) k = Some ?k'" using k(1) s'(1) by (simp add: kfree_def)
  ultimately show "\<exists>k'. kfree kap head (a + 8) k = Some k' \<and> handed_out head k' = handed_out head k - {a + 8}"
    using old by auto
qed

theorem kmalloc_kfree_refine_witness:
  "\<exists>p k'. kmalloc (\<lambda>_ _. (0, 0, ())) 0x9000 0xc0000000 (page_directory small_allocator) 100
     \<lparr>placement_address = 0, kheap = Some fresh_heap\<rparr> = Some (p, k') \<and> p \<noteq> 0 \<and> handed_out 0x9000 k' = {p}"
proof -
  let ?k = "\<lparr>placement_address = 0, kheap = Some fresh_heap\<rparr>"
  have k: "kheap ?k = Some fresh_heap" by simp
  have h: "handed_out 0x9000 ?k = {}" using handed_out_eq [OF k fresh_ok] by simp
  have "has_fit (get_block_size 100) fresh_blocks" by (simp add: has_fit_def block_size_100)
  then have sv: "heap_serves 0x9000 100 ?k" using fresh_ok by (auto simp: heap_serves_def)
  have n: "unat (100 :: u32) + 19 < 2 ^ 32" by simp
  note c = conjunct1 [OF kmalloc_kfree_refine [OF k fresh_ok, of "\<lambda>_ _. (0, 0, ())" "0xc0000000" "page_directory small_allocator"]]
  from mp [OF mp [OF spec [OF c, of 100] n] sv]
  show ?thesis unfolding h by (elim exE conjE) (intro exI conjI; assumption)
qed

end
