(* ===== verification/Handlers.thy ===== *)
theory Handlers
  imports Kernel_Prelude "HOL-Library.Monad_Syntax"
begin

text \<open>
  The interrupt handler lists of \<^verbatim>\<open>kernel/system.c\<close>. Every interrupt number has an array of 50
  slots, linked by \<^verbatim>\<open>next\<close> and \<^verbatim>\<open>prev\<close> pointers into the same array, and the index of its
  head. A pointer is the index of the slot it points to; a slot whose function pointer is 0
  is free.
\<close>

section \<open>State and operations\<close>

record handler =
  isr :: u32
  hnum :: u8
  hindex :: u32
  hnext :: "nat option"
  hprev :: "nat option"

record handler_table =
  slots :: "u8 \<Rightarrow> nat \<Rightarrow> handler"
  heads :: "u8 \<Rightarrow> nat"

definition MAX_HANDLERS :: nat where "MAX_HANDLERS = 50"

partial_function (option) tail_of :: "(nat \<Rightarrow> handler) \<Rightarrow> nat \<Rightarrow> nat option" where
  "tail_of hs h = (case hnext (hs h) of None \<Rightarrow> Some h | Some n \<Rightarrow> tail_of hs n)"

definition free_slot :: "(nat \<Rightarrow> handler) \<Rightarrow> nat option" where
  "free_slot hs = find (\<lambda>i. isr (hs i) = 0) [0..<MAX_HANDLERS]"

definition link_slot :: "u8 \<Rightarrow> u32 \<Rightarrow> nat \<Rightarrow> nat option \<Rightarrow> (nat \<Rightarrow> handler) \<Rightarrow> nat \<Rightarrow> handler" where
  "link_slot num handler n tail hs =
     (let hs = hs(n := (hs n)\<lparr>isr := handler, hnum := num, hnext := None\<rparr>)
      in case tail of
           Some h \<Rightarrow>
             let hs = hs(n := (hs n)\<lparr>hindex := hindex (hs h) + 1, hprev := Some h\<rparr>)
             in hs(h := (hs h)\<lparr>hnext := Some n\<rparr>)
         | None \<Rightarrow> hs(n := (hs n)\<lparr>hindex := 1, hprev := None\<rparr>))"

definition attach_interrupt_handler :: "u8 \<Rightarrow> u32 \<Rightarrow> handler_table \<Rightarrow> handler_table option" where
  "attach_interrupt_handler num handler t = do {
     let hs = slots t num;
     tail \<leftarrow> (if isr (hs (heads t num)) = 0 then Some None
              else map_option Some (tail_of hs (heads t num)));
     case free_slot hs of
       None \<Rightarrow> Some t
     | Some n \<Rightarrow> Some (t\<lparr>slots := (slots t)(num := link_slot num handler n tail hs)\<rparr>)
   }"

definition unlink_slot :: "u8 \<Rightarrow> nat \<Rightarrow> handler_table \<Rightarrow> handler_table" where
  "unlink_slot num h t =
     (let hs = slots t num; x = hs h;
          hs = (case hprev x of Some p \<Rightarrow> hs(p := (hs p)\<lparr>hnext := hnext x\<rparr>) | None \<Rightarrow> hs);
          hs = (case hnext x of Some n \<Rightarrow> hs(n := (hs n)\<lparr>hprev := hprev x\<rparr>) | None \<Rightarrow> hs);
          hd = (case (hnext x, hprev x) of (Some n, None) \<Rightarrow> n | _ \<Rightarrow> heads t num);
          hs = hs(h := (hs h)\<lparr>isr := 0\<rparr>)
      in t\<lparr>slots := (slots t)(num := hs), heads := (heads t)(num := hd)\<rparr>)"

partial_function (option) detach_loop :: "u8 \<Rightarrow> u32 \<Rightarrow> handler_table \<Rightarrow> nat \<Rightarrow> handler_table option" where
  "detach_loop num handler t h =
     (if isr (slots t num h) = handler then Some (unlink_slot num h t)
      else case hprev (slots t num h) of None \<Rightarrow> Some t | Some p \<Rightarrow> detach_loop num handler t p)"

definition detach_interrupt_handler :: "u8 \<Rightarrow> u32 \<Rightarrow> handler_table \<Rightarrow> handler_table option" where
  "detach_interrupt_handler num handler t =
     (if isr (slots t num (heads t num)) = 0 then Some t
      else Option.bind (tail_of (slots t num) (heads t num)) (detach_loop num handler t))"

definition get_interrupt_handler :: "u8 \<Rightarrow> handler_table \<Rightarrow> nat option" where
  "get_interrupt_handler num t =
     (if isr (slots t num (heads t num)) \<noteq> 0 then Some (heads t num) else None)"

section \<open>Lists of slots\<close>

definition first :: "nat list \<Rightarrow> nat option \<Rightarrow> nat option" where
  "first xs q = (case xs of [] \<Rightarrow> q | x # _ \<Rightarrow> Some x)"

definition final :: "nat list \<Rightarrow> nat option \<Rightarrow> nat option" where
  "final xs p = (if xs = [] then p else Some (last xs))"

lemma first_simps [simp]: "first [] q = q" "first (x # xs) q = Some x" "first (xs @ ys) q = first xs (first ys q)"
  by (auto simp: first_def split: list.split)

lemma final_simps [simp]: "final [] p = p" "final (x # xs) p = final xs (Some x)" "final (xs @ ys) p = final ys (final xs p)"
  by (auto simp: final_def)

text \<open>The slots \<open>xs\<close> follow each other between the slots \<open>p\<close> and \<open>q\<close>.\<close>

fun linked :: "(nat \<Rightarrow> handler) \<Rightarrow> nat option \<Rightarrow> nat list \<Rightarrow> nat option \<Rightarrow> bool" where
  "linked hs p [] q \<longleftrightarrow> True"
| "linked hs p (x # xs) q \<longleftrightarrow>
     hprev (hs x) = p \<and> hnext (hs x) = first xs q \<and> linked hs (Some x) xs q"

lemma linked_append:
  "linked hs p (xs @ ys) q \<longleftrightarrow> linked hs p xs (first ys q) \<and> linked hs (final xs p) ys q"
  by (induction xs arbitrary: p) auto

lemma linked_cong:
  "\<forall>x\<in>set xs. hnext (hs' x) = hnext (hs x) \<and> hprev (hs' x) = hprev (hs x) \<Longrightarrow>
    linked hs' p xs q = linked hs p xs q"
  by (induction xs arbitrary: p) auto

text \<open>
  The slots \<open>xs\<close> are the list of \<open>num\<close>: exactly they are in use, they are linked in this order,
  and the head is the first of them.
\<close>

definition handlers_ok :: "u8 \<Rightarrow> nat list \<Rightarrow> handler_table \<Rightarrow> bool" where
  "handlers_ok num xs t \<longleftrightarrow>
     distinct xs \<and> set xs = {i. i < MAX_HANDLERS \<and> isr (slots t num i) \<noteq> 0} \<and>
     linked (slots t num) None xs None \<and> heads t num < MAX_HANDLERS \<and>
     (xs \<noteq> [] \<longrightarrow> heads t num = hd xs)"

definition attached :: "u8 \<Rightarrow> nat list \<Rightarrow> handler_table \<Rightarrow> u32 list" where
  "attached num xs t = map (\<lambda>i. isr (slots t num i)) xs"

lemma tail_of_linked: "linked hs p xs None \<Longrightarrow> xs \<noteq> [] \<Longrightarrow> tail_of hs (hd xs) = Some (last xs)"
proof (induction xs arbitrary: p)
  case (Cons x xs)
  show ?case
  proof (cases xs)
    case Nil
    then show ?thesis using Cons.prems by (subst tail_of.simps) simp
  next
    case (Cons y ys)
    then show ?thesis using Cons.IH [of "Some x"] Cons.prems by (subst tail_of.simps) simp
  qed
qed simp

lemma free_slot_found:
  assumes "handlers_ok num xs t" "length xs < MAX_HANDLERS"
  obtains n where "free_slot (slots t num) = Some n" "n < MAX_HANDLERS" "isr (slots t num n) = 0" "n \<notin> set xs"
proof -
  have "distinct xs" using assms(1) by (simp add: handlers_ok_def)
  then have "card (set xs) < card {..<MAX_HANDLERS}"
    using assms(2) by (simp only: distinct_card card_lessThan)
  moreover have "set xs \<subseteq> {..<MAX_HANDLERS}" using assms(1) by (auto simp: handlers_ok_def)
  ultimately obtain i where "i < MAX_HANDLERS" "i \<notin> set xs"
    by (metis lessThan_iff less_irrefl subsetI subset_antisym)
  then have i: "i \<in> set [0..<MAX_HANDLERS]" "isr (slots t num i) = 0"
    using assms(1) by (auto simp: handlers_ok_def)
  then have "free_slot (slots t num) \<noteq> None" unfolding free_slot_def find_None_iff by auto
  then obtain n where n: "free_slot (slots t num) = Some n" by auto
  then have "n < MAX_HANDLERS" "isr (slots t num n) = 0"
    unfolding free_slot_def find_Some_iff by auto
  then show thesis using that n assms(1) by (auto simp: handlers_ok_def)
qed

lemma link_slot_fields:
  assumes "tail \<noteq> Some n"
  shows "isr (link_slot num handler n tail hs x) = (if x = n then handler else isr (hs x))"
    "hnext (link_slot num handler n tail hs x) =
      (if x = n then None else if tail = Some x then Some n else hnext (hs x))"
    "hprev (link_slot num handler n tail hs x) = (if x = n then tail else hprev (hs x))"
  using assms by (auto simp: link_slot_def Let_def split: option.splits)

text \<open>
  A new slot behind the last one. The head is right only when the list was not empty or the
  head index is the slot that was taken.
\<close>

lemma link_slot_linked:
  assumes "linked hs None xs None" "distinct (xs @ [n])"
  shows "linked (link_slot num handler n (final xs None) hs) None (xs @ [n]) None"
proof -
  have t: "final xs None \<noteq> Some n" using assms(2) by (auto simp: final_def)
  let ?hs = "link_slot num handler n (final xs None) hs"
  have "linked ?hs None xs (Some n)"
  proof (cases xs rule: rev_cases)
    case (snoc ys y)
    have "linked ?hs None ys (Some y) = linked hs None ys (Some y)"
      by (rule linked_cong) (use assms(2) snoc t in \<open>auto simp: link_slot_fields\<close>)
    then show ?thesis using assms snoc t by (auto simp: linked_append link_slot_fields)
  qed simp
  then show ?thesis using t by (simp add: linked_append link_slot_fields)
qed

lemma attach_tail:
  assumes "handlers_ok num xs t"
  shows "(if isr (slots t num (heads t num)) = 0 then Some None
      else map_option Some (tail_of (slots t num) (heads t num))) = Some (final xs None)"
proof (cases "xs = []")
  case True
  then show ?thesis using assms by (auto simp: handlers_ok_def)
next
  case False
  then have h: "heads t num = hd xs" "linked (slots t num) None xs None" using assms by (auto simp: handlers_ok_def)
  have "hd xs \<in> {i. i < MAX_HANDLERS \<and> isr (slots t num i) \<noteq> 0}"
    using assms False hd_in_set [of xs] by (auto simp: handlers_ok_def)
  then show ?thesis using False h tail_of_linked by (simp add: final_def)
qed

lemma attach_room:
  assumes "handlers_ok num xs t" "handler \<noteq> 0" "xs = [] \<Longrightarrow> heads t num = 0" "length xs < MAX_HANDLERS"
  shows "\<exists>t' n. attach_interrupt_handler num handler t = Some t' \<and> handlers_ok num (xs @ [n]) t' \<and>
    attached num (xs @ [n]) t' = attached num xs t @ [handler] \<and>
    (\<forall>k. k \<noteq> num \<longrightarrow> slots t' k = slots t k \<and> heads t' k = heads t k)"
proof -
  let ?hs = "slots t num"
  have ok: "distinct xs" "set xs = {i. i < MAX_HANDLERS \<and> isr (?hs i) \<noteq> 0}" "linked ?hs None xs None"
    "xs \<noteq> [] \<Longrightarrow> heads t num = hd xs" "heads t num < MAX_HANDLERS"
    using assms(1) by (auto simp: handlers_ok_def)
  obtain n where n: "free_slot ?hs = Some n" "n < MAX_HANDLERS" "isr (?hs n) = 0" "n \<notin> set xs"
    by (rule free_slot_found [OF assms(1,4)])
  define t' where "t' = t\<lparr>slots := (slots t)(num := link_slot num handler n (final xs None) ?hs)\<rparr>"
  have "final xs None \<noteq> Some n" using n(4) by (auto simp: final_def)
  note f = link_slot_fields [OF this]
  have a: "attach_interrupt_handler num handler t = Some t'"
    using attach_tail [OF assms(1)] n by (simp add: attach_interrupt_handler_def Let_def t'_def)
  have hd: "heads t num = hd (xs @ [n])"
  proof (cases "xs = []")
    case True
    then have "isr (?hs 0) = 0" using ok(2) by (auto simp: MAX_HANDLERS_def)
    then have "n = 0" using n(1)
      by (simp add: free_slot_def MAX_HANDLERS_def upt_rec [of 0])
    then show ?thesis using True assms(3) by simp
  qed (use ok(4) in simp)
  have "handlers_ok num (xs @ [n]) t'"
    unfolding handlers_ok_def using ok n hd link_slot_linked [OF ok(3), of n num handler] assms(2)
    by (auto simp: t'_def f)
  moreover have "attached num (xs @ [n]) t' = attached num xs t @ [handler]"
    using n(4) by (auto simp: attached_def t'_def f)
  ultimately show ?thesis
    using a by (intro exI [of _ t'] exI [of _ n]) (auto simp: t'_def)
qed

lemma attach_full:
  assumes "handlers_ok num xs t" "length xs = MAX_HANDLERS"
  shows "attach_interrupt_handler num handler t = Some t"
proof -
  have ok: "distinct xs" "set xs = {i. i < MAX_HANDLERS \<and> isr (slots t num i) \<noteq> 0}"
    using assms(1) by (auto simp: handlers_ok_def)
  have "card (set xs) = card {..<MAX_HANDLERS}" using ok(1) assms(2) by (simp add: distinct_card)
  moreover have "set xs \<subseteq> {..<MAX_HANDLERS}" using ok(2) by auto
  ultimately have "set xs = {..<MAX_HANDLERS}" by (simp add: card_subset_eq)
  then have "free_slot (slots t num) = None" using ok(2) unfolding free_slot_def find_None_iff by auto
  then show ?thesis using attach_tail [OF assms(1)] by (simp add: attach_interrupt_handler_def Let_def)
qed

text \<open>
  Claim C27. \<open>attach_interrupt_handler\<close> puts the handler behind those that are attached to the
  interrupt number, and leaves their order and every other number alone, as long as one of
  the 50 slots is free; a full list is left as it is. An empty list must have the head 0, as at
  the start: detaching the last handler may leave another head, from which the next handler
  that is attached is not found.
\<close>

theorem attach_appends:
  assumes "handlers_ok num xs t" "handler \<noteq> 0" "xs = [] \<Longrightarrow> heads t num = 0"
  shows "(length xs < MAX_HANDLERS \<longrightarrow>
      (\<exists>t' n. attach_interrupt_handler num handler t = Some t' \<and> handlers_ok num (xs @ [n]) t' \<and>
        attached num (xs @ [n]) t' = attached num xs t @ [handler] \<and>
        (\<forall>k. k \<noteq> num \<longrightarrow> slots t' k = slots t k \<and> heads t' k = heads t k))) \<and>
    (length xs = MAX_HANDLERS \<longrightarrow> attach_interrupt_handler num handler t = Some t)"
  using attach_room [OF assms] attach_full [OF assms(1)] by blast

definition no_handlers :: handler_table where
  "no_handlers = \<lparr>slots = \<lambda>_ _. \<lparr>isr = 0, hnum = 0, hindex = 0, hnext = None, hprev = None\<rparr>, heads = \<lambda>_. 0\<rparr>"

lemma no_handlers_ok: "handlers_ok num [] no_handlers" "heads no_handlers num = 0"
  by (simp_all add: handlers_ok_def no_handlers_def MAX_HANDLERS_def)

theorem attach_appends_witness:
  "\<exists>t n. attach_interrupt_handler 14 0xc0101000 no_handlers = Some t \<and> attached 14 [n] t = [0xc0101000]"
  using attach_appends [OF no_handlers_ok(1), of "0xc0101000" 14] no_handlers_ok(2)
  by (force simp: MAX_HANDLERS_def attached_def)

section \<open>Detaching\<close>

lemma detach_loop_finds:
  assumes "linked (slots t num) None (as @ h # bs) q" "isr (slots t num h) = handler"
    and "\<forall>b\<in>set bs. isr (slots t num b) \<noteq> handler"
  shows "detach_loop num handler t (last (h # bs)) = Some (unlink_slot num h t)"
  using assms(1,3)
proof (induction bs arbitrary: q rule: rev_induct)
  case Nil
  then show ?case using assms(2) by (subst detach_loop.simps) simp
next
  case (snoc c cs)
  have l: "linked (slots t num) None (as @ h # cs) (Some c)"
    and p: "hprev (slots t num c) = Some (last (h # cs))"
    using snoc.prems(1) linked_append [of "slots t num" None "as @ h # cs" "[c]" q]
    by (auto simp: final_def)
  then show ?case using snoc.IH [OF l] snoc.prems(2) by (subst detach_loop.simps) simp
qed

lemma unlink_slot_fields:
  assumes "hprev (slots t num h) \<noteq> Some h" "hnext (slots t num h) \<noteq> Some h"
  shows "isr (slots (unlink_slot num h t) num x) = (if x = h then 0 else isr (slots t num x))"
    "hnext (slots (unlink_slot num h t) num x) =
      (if hprev (slots t num h) = Some x then hnext (slots t num h) else hnext (slots t num x))"
    "hprev (slots (unlink_slot num h t) num x) =
      (if hnext (slots t num h) = Some x then hprev (slots t num h) else hprev (slots t num x))"
  using assms by (auto simp: unlink_slot_def Let_def split: option.splits)

lemma unlink_slot_linked:
  assumes "linked (slots t num) None (as @ h # bs) None" "distinct (as @ h # bs)"
  shows "linked (slots (unlink_slot num h t) num) None (as @ bs) None"
proof -
  let ?hs = "slots t num" and ?hs' = "slots (unlink_slot num h t) num"
  have l: "linked ?hs None as (Some h)" "hprev (?hs h) = final as None" "hnext (?hs h) = first bs None"
    "linked ?hs (Some h) bs None"
    using assms(1) by (auto simp: linked_append)
  have hn: "hprev (?hs h) \<noteq> Some h" "hnext (?hs h) \<noteq> Some h"
    using assms(2) l(2,3) by (auto simp: final_def first_def split: list.splits)
  note f = unlink_slot_fields [OF hn]
  have nb: "first bs None \<noteq> Some x" if "x \<in> set as" for x
    using that assms(2) by (auto simp: first_def split: list.splits)
  have na: "final as None \<noteq> Some x" if "x \<in> set bs" for x
  proof
    assume "final as None = Some x"
    then have "x \<in> set as" by (auto simp: final_def split: if_splits)
    then show False using that assms(2) by auto
  qed
  have "linked ?hs' None as (first bs None)"
  proof (cases as rule: rev_cases)
    case (snoc ys y)
    have "linked ?hs' None ys (Some y) = linked ?hs None ys (Some y)"
    proof (rule linked_cong, intro ballI)
      fix x assume "x \<in> set ys"
      moreover from this have "final as None \<noteq> Some x" using snoc assms(2) by auto
      ultimately show "hnext (?hs' x) = hnext (?hs x) \<and> hprev (?hs' x) = hprev (?hs x)"
        using nb [of x] snoc by (simp add: f l)
    qed
    moreover have "hprev (?hs' y) = hprev (?hs y)" "hnext (?hs' y) = first bs None"
      using nb [of y] snoc by (simp_all add: f l)
    ultimately show ?thesis using l(1) snoc by (simp add: linked_append)
  qed simp
  moreover have "linked ?hs' (final as None) bs None"
  proof (cases bs)
    case (Cons b cs)
    have "linked ?hs' (Some b) cs None = linked ?hs (Some b) cs None"
    proof (rule linked_cong, intro ballI)
      fix x assume "x \<in> set cs"
      moreover from this have "first bs None \<noteq> Some x" using Cons assms(2) by auto
      ultimately show "hnext (?hs' x) = hnext (?hs x) \<and> hprev (?hs' x) = hprev (?hs x)"
        using na [of x] Cons by (simp add: f l)
    qed
    moreover have "hnext (?hs' b) = hnext (?hs b)" "hprev (?hs' b) = final as None"
      using na [of b] Cons by (simp_all add: f l)
    ultimately show ?thesis using l(4) Cons by simp
  qed simp
  ultimately show ?thesis by (simp add: linked_append)
qed

text \<open>
  Claim C36. \<open>detach_interrupt_handler\<close> takes the last attachment of a handler out of the list
  and keeps the order of the others.
\<close>

theorem detach_removes_last:
  assumes "handlers_ok num (as @ h # bs) t" "isr (slots t num h) = handler"
    and "\<forall>b\<in>set bs. isr (slots t num b) \<noteq> handler"
  shows "\<exists>t'. detach_interrupt_handler num handler t = Some t' \<and> handlers_ok num (as @ bs) t' \<and>
    attached num (as @ bs) t' = attached num as t @ attached num bs t \<and>
    (\<forall>k. k \<noteq> num \<longrightarrow> slots t' k = slots t k \<and> heads t' k = heads t k)"
proof -
  let ?hs = "slots t num"
  define t' where "t' = unlink_slot num h t"
  have ok: "distinct (as @ h # bs)" "set (as @ h # bs) = {i. i < MAX_HANDLERS \<and> isr (?hs i) \<noteq> 0}"
    "linked ?hs None (as @ h # bs) None" "heads t num = hd (as @ h # bs)" "heads t num < MAX_HANDLERS"
    using assms(1) by (auto simp: handlers_ok_def)
  have l: "hprev (?hs h) = final as None" "hnext (?hs h) = first bs None"
    using ok(3) by (auto simp: linked_append)
  have hn: "hprev (?hs h) \<noteq> Some h" "hnext (?hs h) \<noteq> Some h"
    using ok(1) l by (auto simp: final_def first_def split: list.splits)
  note f = unlink_slot_fields [OF hn]
  have "hd (as @ h # bs) \<in> set (as @ h # bs)" by (rule hd_in_set) simp
  then have u: "isr (?hs (heads t num)) \<noteq> 0" unfolding ok(2) ok(4) [symmetric] by simp
  have "tail_of ?hs (heads t num) = Some (last (h # bs))"
    using tail_of_linked [OF ok(3)] ok(4) by (simp add: last_append)
  then have d: "detach_interrupt_handler num handler t = Some t'"
    using u detach_loop_finds [OF ok(3) assms(2,3)]
    by (simp add: detach_interrupt_handler_def t'_def)
  have hd: "heads t' num = (if as = [] \<and> bs \<noteq> [] then hd bs else heads t num)"
    using l by (auto simp: t'_def unlink_slot_def Let_def final_def first_def split: list.splits)
  have "hd bs \<in> set (as @ h # bs)" if "bs \<noteq> []" using that by simp
  then have "bs \<noteq> [] \<Longrightarrow> hd bs < MAX_HANDLERS" unfolding ok(2) by simp
  then have hd': "heads t' num < MAX_HANDLERS" "as @ bs \<noteq> [] \<longrightarrow> heads t' num = hd (as @ bs)"
    using hd ok(4,5) by (auto simp: hd_append)
  have "set (as @ bs) = set (as @ h # bs) - {h}" using ok(1) by auto
  also have "\<dots> = {i. i < MAX_HANDLERS \<and> isr (slots t' num i) \<noteq> 0}"
    unfolding ok(2) by (auto simp: t'_def f)
  finally have "handlers_ok num (as @ bs) t'"
    using ok(1) unlink_slot_linked [OF ok(3,1)] hd' unfolding handlers_ok_def t'_def [symmetric] by simp
  moreover have "attached num (as @ bs) t' = attached num as t @ attached num bs t"
    using ok(1) by (auto simp: attached_def t'_def f)
  ultimately show ?thesis using d by (auto simp: t'_def unlink_slot_def Let_def)
qed

text \<open>Two handlers of interrupt 33, and the list after both are detached again.\<close>

definition two_handlers :: handler_table where
  "two_handlers = no_handlers\<lparr>slots := (slots no_handlers)(33 := (slots no_handlers 33)
     (0 := \<lparr>isr = 16, hnum = 33, hindex = 1, hnext = Some 1, hprev = None\<rparr>,
      1 := \<lparr>isr = 32, hnum = 33, hindex = 2, hnext = None, hprev = Some 0\<rparr>))\<rparr>"

lemma two_handlers_ok: "handlers_ok 33 [0, 1] two_handlers"
  by (auto simp: handlers_ok_def two_handlers_def no_handlers_def MAX_HANDLERS_def split: if_splits)

theorem detach_removes_last_witness:
  "\<exists>t. detach_interrupt_handler 33 16 two_handlers = Some t \<and> attached 33 [1] t = [32]"
  using detach_removes_last [of 33 "[]" 0 "[1]" two_handlers 16] two_handlers_ok
  by (auto simp: two_handlers_def attached_def)

text \<open>
  A handler that is attached to an empty list whose head is not the first slot is
  lost: it is stored in the first slot, but the head still points to the free slot it had
  before, and no handler is found for the interrupt. Detaching the first of two handlers and
  then the second leaves such a list.
\<close>

theorem reattached_handler_lost:
  assumes "handlers_ok num [] t" "heads t num \<noteq> 0"
  shows "\<exists>t'. attach_interrupt_handler num handler t = Some t' \<and> isr (slots t' num 0) = handler \<and>
    get_interrupt_handler num t' = None"
proof -
  have free: "isr (slots t num i) = 0" if "i < MAX_HANDLERS" for i
    using assms(1) that by (auto simp: handlers_ok_def)
  have h: "heads t num < MAX_HANDLERS" using assms(1) by (simp add: handlers_ok_def)
  have "[0..<MAX_HANDLERS] = 0 # [1..<MAX_HANDLERS]" by (simp add: MAX_HANDLERS_def upt_rec [of 0])
  then have "free_slot (slots t num) = Some 0"
    using free [of 0] by (simp add: free_slot_def MAX_HANDLERS_def)
  then show ?thesis using free [OF h] assms(2)
    by (simp add: attach_interrupt_handler_def Let_def get_interrupt_handler_def link_slot_fields)
qed

definition emptied :: handler_table where
  "emptied = the (Option.bind (detach_interrupt_handler 33 16 two_handlers) (detach_interrupt_handler 33 32))"

lemma emptied_ok: "handlers_ok 33 [] emptied" "heads emptied 33 = 1"
proof -
  define t1 where "t1 = unlink_slot 33 0 two_handlers"
  have d1: "detach_interrupt_handler 33 16 two_handlers = Some t1"
    by (simp add: detach_interrupt_handler_def two_handlers_def t1_def no_handlers_ok(2)
        tail_of.simps detach_loop.simps)
  have d2: "detach_interrupt_handler 33 32 t1 = Some (unlink_slot 33 1 t1)"
    by (simp add: detach_interrupt_handler_def t1_def two_handlers_def unlink_slot_def no_handlers_def
        tail_of.simps detach_loop.simps)
  have e: "emptied = unlink_slot 33 1 t1" by (simp add: emptied_def d1 d2)
  show "heads emptied 33 = 1"
    unfolding e by (simp add: t1_def two_handlers_def unlink_slot_def no_handlers_def)
  show "handlers_ok 33 [] emptied"
    unfolding e by (auto simp: t1_def two_handlers_def unlink_slot_def no_handlers_def handlers_ok_def
        MAX_HANDLERS_def split: if_splits)
qed

theorem reattached_handler_lost_witness:
  "\<exists>t. attach_interrupt_handler 33 48 emptied = Some t \<and> isr (slots t 33 0) = 48 \<and>
    get_interrupt_handler 33 t = None"
  using reattached_handler_lost [OF emptied_ok(1), of 48] emptied_ok(2) by simp

end
