(* ===== verification/Paging_Boot.thy ===== *)
theory Paging_Boot
  imports Kheap Handlers
begin

text \<open>
  \<open>paging_finalize\<close> of \<^verbatim>\<open>kernel/paging.c\<close>, which ends the start-up of the memory subsystem: it
  makes the kernel's page directory with every page table of kernel space, maps the kernel,
  gives the heap its pages and creates the kernel heap. The early allocator is the placement
  allocation of \<^verbatim>\<open>kernel/kheap.c\<close>, whose state \<open>heap s\<close> is the placement address.
\<close>

definition KHEAP_START :: u32 where "KHEAP_START = 0xd0000000"

definition KHEAP_INITIAL_SIZE :: u32 where "KHEAP_INITIAL_SIZE = 0x00100000"

definition HEAP_MIN_SIZE :: u32 where "HEAP_MIN_SIZE = 0x00070000"

definition HEAP_MAX_SIZE :: u32 where "HEAP_MAX_SIZE = 0x00f00000"

partial_function (option) make_tables ::
  "u32 \<Rightarrow> u32 \<Rightarrow> page_dir \<Rightarrow> u32 vm \<Rightarrow> (page_dir \<times> u32 vm) option" where
  "make_tables voffset virt dir s =
     (if virt < 0xfffff000
      then let (p, dir, s) = get_page (kmalloc_ap_place voffset) virt True dir s
           in make_tables voffset (virt + FRAME_SIZE) dir s
      else Some (dir, s))"

partial_function (option) map_kernel ::
  "u32 \<Rightarrow> u32 \<Rightarrow> u32 \<Rightarrow> page_dir \<Rightarrow> u32 vm \<Rightarrow> (page_dir \<times> u32 vm) option" where
  "map_kernel voffset virt phys dir s =
     (if virt < heap s
      then let (p, dir, s) = get_page (kmalloc_ap_place voffset) virt True dir s
           in case p of
                None \<Rightarrow> None
              | Some p \<Rightarrow>
                  map_kernel voffset (virt + FRAME_SIZE) (phys + FRAME_SIZE) dir
                    (map_page p False False phys s)
      else Some (dir, s))"

partial_function (option) alloc_heap_pages ::
  "u32 \<Rightarrow> u32 \<Rightarrow> page_dir \<Rightarrow> u32 vm \<Rightarrow> (page_dir \<times> u32 vm) option" where
  "alloc_heap_pages voffset virt dir s =
     (if virt < KHEAP_START + KHEAP_INITIAL_SIZE
      then let (p, dir, s) = get_page (kmalloc_ap_place voffset) virt True dir s
           in case p of
                None \<Rightarrow> None
              | Some p \<Rightarrow> alloc_heap_pages voffset (virt + FRAME_SIZE) dir (alloc_page p False True s)
      else Some (dir, s))"

text \<open>
  \<open>fault\<close> is the address of \<open>page_fault\<close>, which is attached to interrupt 14. The result has the
  kernel directory, which is the current one from here on, the handlers, and the heap with
  the virtual memory it lies in. The directory structure takes 8196 bytes.
\<close>

definition paging_finalize ::
  "u32 \<Rightarrow> u32 \<Rightarrow> alloc_args rb_tree \<Rightarrow> u32 \<Rightarrow> handler_table \<Rightarrow> mem \<Rightarrow> u32 vm
     \<Rightarrow> (page_dir \<times> handler_table \<times> u32 heap_state option) option" where
  "paging_finalize voffset head tree0 fault t m s =
     (let s = s\<lparr>phys_frames := set_frame 0 (phys_frames s)\<rparr>;
          (addr, phys, h) = kmalloc_ap_place voffset 8196 (heap s);
          s = s\<lparr>heap := h\<rparr>;
          dir = \<lparr>entries = \<lambda>_. zero_pde, entries_phys_addr = phys, tables = \<lambda>_. 0\<rparr>
      in case make_tables voffset voffset dir s of
           None \<Rightarrow> None
         | Some (dir, s) \<Rightarrow>
             (case map_kernel voffset voffset 0 dir s of
                None \<Rightarrow> None
              | Some (dir, s) \<Rightarrow>
                  (case attach_interrupt_handler 14 fault t of
                     None \<Rightarrow> None
                   | Some t \<Rightarrow>
                       (case alloc_heap_pages voffset KHEAP_START dir s of
                          None \<Rightarrow> None
                        | Some (dir, s) \<Rightarrow>
                            map_option (\<lambda>hs. (dir, t, hs))
                              (create_mem_allocator head tree0 KHEAP_START (KHEAP_START + KHEAP_INITIAL_SIZE)
                                 HEAP_MIN_SIZE HEAP_MAX_SIZE 0 0 dir m s)))))"

section \<open>The page tables of kernel space\<close>

abbreviation boot_access :: "u32 \<Rightarrow> page_dir \<Rightarrow> 'h vm \<Rightarrow> u32 \<Rightarrow> (u32 \<times> bool \<times> bool) option" where
  "boot_access voffset \<equiv> page_access (kernel_view voffset)"

text \<open>How many page tables may still have to be made for the addresses from \<open>v\<close> on.\<close>

definition tables_needed :: "page_dir \<Rightarrow> u32 \<Rightarrow> nat" where
  "tables_needed dir v =
     1024 - PAGE_DIRECTORY_INDEX v - (if tables dir (PAGE_DIRECTORY_INDEX v) \<noteq> 0 then 1 else 0)"

definition ready :: "u32 \<Rightarrow> page_dir \<Rightarrow> u32 vm \<Rightarrow> bool" where
  "ready voffset dir s \<longleftrightarrow> heap s \<noteq> 0 \<and> voffset mod 0x1000 = 0 \<and>
     dir_ok (kernel_view voffset) (placed_below (heap s)) dir"

lemma place_grows:
  assumes "place_room v p" "kmalloc_ap_place v 0x1000 p = (a, phys, p')"
  shows "unat p \<le> unat p'" "unat p' < unat p + 0x2000"
proof -
  have a: "a = place_align 0x1000 p" "p' = a + 0x1000"
    using assms(2) by (auto simp: kmalloc_ap_place_def kmalloc_place_def Let_def)
  have b: "unat p \<le> unat a" "unat a < unat p + 0x1000"
    using place_align_le [of "0x1000" p] assms(1) a by (auto simp: place_room_def)
  have "unat p' = unat a + 0x1000"
    unfolding a(2) using b assms(1) by (subst unat_add_lem [THEN iffD1]) (auto simp: place_room_def)
  then show "unat p \<le> unat p'" "unat p' < unat p + 0x2000" using b by auto
qed

text \<open>One call of \<open>get_page\<close> during start-up.\<close>

lemma boot_get_page:
  assumes r: "ready voffset dir s" and room: "unat (heap s) + 0x2000 * Suc (tables_needed dir v) < 2 ^ 32"
    and g: "get_page (kmalloc_ap_place voffset) v True dir s = (p, dir', s')"
  shows "p = Some (tables dir' (PAGE_DIRECTORY_INDEX v), PAGE_TABLE_INDEX v)"
    "tables dir' (PAGE_DIRECTORY_INDEX v) \<noteq> 0" "ready voffset dir' s'" "boot_access voffset dir' s' w = boot_access voffset dir s w"
    "unat (heap s) \<le> unat (heap s')"
    "unat (heap s') + 0x2000 * Suc (tables_needed dir' v) \<le> unat (heap s) + 0x2000 * Suc (tables_needed dir v)"
    "tables dir i \<noteq> 0 \<Longrightarrow> tables dir' i \<noteq> 0"
proof -
  let ?i = "PAGE_DIRECTORY_INDEX v"
  have pr: "place_room voffset (heap s)" using r room by (simp add: ready_def place_room_def)
  have d: "dir_ok (kernel_view voffset) (placed_below (heap s)) dir" using r by (simp add: ready_def)
  note f = placement.get_page_found [OF pr d g]
  show "p = Some (tables dir' ?i, PAGE_TABLE_INDEX v)" "tables dir' ?i \<noteq> 0"
    "boot_access voffset dir' s' w = boot_access voffset dir s w" by (rule f)+
  obtain a phys h where k: "kmalloc_ap_place voffset 0x1000 (heap s) = (a, phys, h)"
    by (cases "kmalloc_ap_place voffset 0x1000 (heap s)")
  note pg = place_grows [OF pr k]
  have lt: "?i < 1024" by (rule index_bounds)
  have c: "if tables dir ?i = 0 then heap s' = h \<and> tables dir' = (tables dir)(?i := a)
      else heap s' = heap s \<and> dir' = dir"
    using g k by (auto simp: get_page_def Let_def split: if_splits)
  show g1: "unat (heap s) \<le> unat (heap s')" using c pg by (auto split: if_splits)
  show "ready voffset dir' s'"
    using f(3) r g1 by (auto simp: ready_def word_unat_eq_iff)
  show "unat (heap s') + 0x2000 * Suc (tables_needed dir' v) \<le> unat (heap s) + 0x2000 * Suc (tables_needed dir v)"
    using c pg lt f(2) by (auto simp: tables_needed_def split: if_splits)
  show "tables dir i \<noteq> 0 \<Longrightarrow> tables dir' i \<noteq> 0" using c f(2) by (auto split: if_splits)
qed

lemma page_step:
  assumes "v mod FRAME_SIZE = 0" "v < 0xfffff000"
  shows "unat (v + FRAME_SIZE) = unat v + 4096" "(v + FRAME_SIZE) mod FRAME_SIZE = 0" "v + FRAME_SIZE \<le> 0xfffff000"
proof -
  have "(0xfffff000 :: u32) mod FRAME_SIZE = 0" by (simp add: FRAME_SIZE_def)
  from next_page [OF assms(1) this assms(2)]
  show "unat (v + FRAME_SIZE) = unat v + 4096" "(v + FRAME_SIZE) mod FRAME_SIZE = 0" "v + FRAME_SIZE \<le> 0xfffff000"
    by auto
qed

lemma tables_needed_next:
  assumes "v mod FRAME_SIZE = 0" "v < 0xfffff000" "tables dir (PAGE_DIRECTORY_INDEX v) \<noteq> 0"
  shows "tables_needed dir (v + FRAME_SIZE) \<le> tables_needed dir v"
proof -
  have "PAGE_DIRECTORY_INDEX v \<le> PAGE_DIRECTORY_INDEX (v + FRAME_SIZE)"
    unfolding indices_nat page_step(1) [OF assms(1,2)] by (simp add: div_le_mono)
  then show ?thesis
    using assms(3) by (cases "PAGE_DIRECTORY_INDEX v = PAGE_DIRECTORY_INDEX (v + FRAME_SIZE)")
      (auto simp: tables_needed_def)
qed

lemma same_page_below:
  assumes "v mod FRAME_SIZE = 0" "v < 0xfffff000" "v \<le> w" "w < v + FRAME_SIZE"
  shows "PAGE_DIRECTORY_INDEX w = PAGE_DIRECTORY_INDEX v" "unat w div 2 ^ 12 = unat v div 2 ^ 12"
proof -
  obtain q where q: "unat v = 4096 * q" using assms(1) unfolding aligned_nat by (auto elim: dvdE)
  have "4096 * q \<le> unat w" "unat w < 4096 * q + 4096"
    using assms(3,4) page_step(1) [OF assms(1,2)] q by (auto simp: word_le_nat_alt word_less_nat_alt)
  then show e: "unat w div 2 ^ 12 = unat v div 2 ^ 12" using q by (simp add: div_nat_eqI)
  then show "PAGE_DIRECTORY_INDEX w = PAGE_DIRECTORY_INDEX v" using same_page by blast
qed

lemma make_tables_ok:
  assumes "ready voffset dir s" "unat (heap s) + 0x2000 * Suc (tables_needed dir v) < 2 ^ 32"
    "v mod FRAME_SIZE = 0" "v \<le> 0xfffff000"
  shows "\<exists>dir' s'. make_tables voffset v dir s = Some (dir', s') \<and> ready voffset dir' s' \<and>
    unat (heap s) \<le> unat (heap s') \<and> unat (heap s') \<le> unat (heap s) + 0x2000 * Suc (tables_needed dir v) \<and>
    (\<forall>w. boot_access voffset dir' s' w = boot_access voffset dir s w) \<and>
    (\<forall>w. v \<le> w \<longrightarrow> w < 0xfffff000 \<longrightarrow> tables dir' (PAGE_DIRECTORY_INDEX w) \<noteq> 0) \<and>
    (\<forall>i. tables dir i \<noteq> 0 \<longrightarrow> tables dir' i \<noteq> 0)"
  using assms
proof (induction "2 ^ 32 - unat v" arbitrary: v dir s rule: less_induct)
  case less
  show ?case
  proof (cases "v < 0xfffff000")
    case False
    then have "make_tables voffset v dir s = Some (dir, s)" by (subst make_tables.simps) simp
    moreover have "\<not> (v \<le> w \<and> w < 0xfffff000)" for w using False by auto
    ultimately show ?thesis using less.prems(1) by auto
  next
    case True
    obtain p dir1 s1 where g: "get_page (kmalloc_ap_place voffset) v True dir s = (p, dir1, s1)"
      by (cases "get_page (kmalloc_ap_place voffset) v True dir s")
    note b = boot_get_page [OF less.prems(1,2) g] and st = page_step [OF less.prems(3) True]
    let ?v = "v + FRAME_SIZE"
    have n: "tables_needed dir1 ?v \<le> tables_needed dir1 v"
      by (rule tables_needed_next [OF less.prems(3) True b(2)])
    have room: "unat (heap s1) + 0x2000 * Suc (tables_needed dir1 ?v) < 2 ^ 32"
      using b(6) n less.prems(2) by simp
    have meas: "2 ^ 32 - unat ?v < 2 ^ 32 - unat v" using st(1) unat_less_32 [of v] by simp
    from less.hyps [OF meas b(3) room st(2,3)]
    obtain dir' s' where r: "make_tables voffset ?v dir1 s1 = Some (dir', s')" "ready voffset dir' s'"
      "unat (heap s1) \<le> unat (heap s')" "unat (heap s') \<le> unat (heap s1) + 0x2000 * Suc (tables_needed dir1 ?v)"
      "\<And>w. boot_access voffset dir' s' w = boot_access voffset dir1 s1 w"
      "\<And>w. ?v \<le> w \<Longrightarrow> w < 0xfffff000 \<Longrightarrow> tables dir' (PAGE_DIRECTORY_INDEX w) \<noteq> 0"
      "\<And>i. tables dir1 i \<noteq> 0 \<Longrightarrow> tables dir' i \<noteq> 0" by blast
    have "make_tables voffset v dir s = Some (dir', s')"
      using True g r(1) by (subst make_tables.simps) simp
    moreover have "tables dir' (PAGE_DIRECTORY_INDEX w) \<noteq> 0" if "v \<le> w" "w < 0xfffff000" for w
      using same_page_below(1) [OF less.prems(3) True that(1)] r(6) [OF _ that(2)] r(7) b(2)
      by (cases "w < ?v") auto
    moreover have "unat (heap s') \<le> unat (heap s) + 0x2000 * Suc (tables_needed dir v)"
      using r(4) b(6) n by simp
    ultimately show ?thesis using r(2,3,5,7) b(4,5,7) by auto
  qed
qed

section \<open>The kernel and its heap\<close>

text \<open>With every table present, \<open>get_page\<close> changes nothing.\<close>

lemma get_page_present:
  "tables dir (PAGE_DIRECTORY_INDEX v) \<noteq> 0 \<Longrightarrow>
     get_page kap v crt dir s = (Some (tables dir (PAGE_DIRECTORY_INDEX v), PAGE_TABLE_INDEX v), dir, s)"
  by (simp add: get_page_def)

lemma map_page_heap: "heap (map_page p k w phys s) = heap s"
  by (simp add: map_page_def Let_def)

lemma page_base:
  assumes "v mod FRAME_SIZE = 0" "unat w div 2 ^ 12 = unat v div 2 ^ 12"
  shows "unat w = unat v + unat w mod 4096"
proof -
  obtain q where q: "unat v = 4096 * q" using assms(1) unfolding aligned_nat by (auto elim: dvdE)
  then have "unat w div 4096 = q" using assms(2) by simp
  then show ?thesis using q mult_div_mod_eq [of 4096 "unat w"] by simp
qed

lemma other_page:
  assumes "v mod FRAME_SIZE = 0" "w < v"
  shows "unat w div 2 ^ 12 \<noteq> unat v div 2 ^ 12"
proof
  assume "unat w div 2 ^ 12 = unat v div 2 ^ 12"
  from page_base [OF assms(1) this] have "unat v \<le> unat w" by simp
  then show False using assms(2) by (simp add: word_less_nat_alt)
qed

lemma linear_address:
  assumes "v mod FRAME_SIZE = 0" "voffset mod FRAME_SIZE = 0" "unat w div 2 ^ 12 = unat v div 2 ^ 12"
  shows "(v - voffset) div 0x1000 * 0x1000 + (w AND 0xfff) = w - voffset"
proof -
  have "(v - voffset) mod 0x1000 = 0" using aligned_minus [of v voffset] assms(1,2) by (simp add: FRAME_SIZE_def)
  moreover have "(v - voffset) div 0x1000 * 0x1000 + (v - voffset) mod 0x1000 = v - voffset"
    by (rule div_mult_mod_eq)
  ultimately have d: "(v - voffset) div 0x1000 * 0x1000 = v - voffset" by simp
  have "unat (w AND 0xfff) = unat w mod 4096"
    using unat_and_mask [of w 12] by (simp add: mask_eq_exp_minus_1)
  then have n: "unat w = unat v + unat (w AND 0xfff)" using page_base [OF assms(1,3)] by simp
  have "w = v + (w AND 0xfff)"
    using n unat_less_32 [of w] by (subst word_unat_eq_iff, subst unat_add_lem [THEN iffD1]) auto
  then have "w - v = w AND 0xfff" by (metis add_diff_cancel_left')
  then show ?thesis unfolding d by (simp add: algebra_simps)
qed

lemma map_kernel_ok:
  assumes "dir_ok (kernel_view voffset) A dir" "heap s \<le> 0xfffff000" "v mod FRAME_SIZE = 0" "v \<le> 0xfffff000"
    "voffset mod FRAME_SIZE = 0"
    "\<And>w. v \<le> w \<Longrightarrow> w < 0xfffff000 \<Longrightarrow> tables dir (PAGE_DIRECTORY_INDEX w) \<noteq> 0"
  shows "\<exists>s'. map_kernel voffset v (v - voffset) dir s = Some (dir, s') \<and> heap s' = heap s \<and>
    (\<forall>w. w < v \<longrightarrow> boot_access voffset dir s' w = boot_access voffset dir s w) \<and>
    (\<forall>w. v \<le> w \<longrightarrow> w < heap s \<longrightarrow> boot_access voffset dir s' w = Some (w - voffset, False, True))"
  using assms
proof (induction "2 ^ 32 - unat v" arbitrary: v s rule: less_induct)
  case less
  show ?case
  proof (cases "v < heap s")
    case False
    then have "map_kernel voffset v (v - voffset) dir s = Some (dir, s)" by (subst map_kernel.simps) simp
    moreover have "\<not> (v \<le> w \<and> w < heap s)" for w using False by auto
    ultimately show ?thesis by auto
  next
    case True
    then have lt: "v < 0xfffff000" using less.prems(2) by simp
    let ?v = "v + FRAME_SIZE" and ?p = "(tables dir (PAGE_DIRECTORY_INDEX v), PAGE_TABLE_INDEX v)"
    let ?s = "map_page ?p False False (v - voffset) s"
    note st = page_step [OF less.prems(3) lt]
    have tb: "tables dir (PAGE_DIRECTORY_INDEX v) \<noteq> 0" by (rule less.prems(6) [OF order.refl lt])
    note tr = map_page_access [OF less.prems(1) tb refl, of False False "v - voffset" s]
    have vv: "v < ?v" using st(1) by (simp add: word_less_nat_alt)
    have meas: "2 ^ 32 - unat ?v < 2 ^ 32 - unat v" using st(1) unat_less_32 [of v] by simp
    have h: "heap ?s \<le> 0xfffff000" using less.prems(2) by (simp add: map_page_heap)
    have "?v \<le> w \<Longrightarrow> w < 0xfffff000 \<Longrightarrow> tables dir (PAGE_DIRECTORY_INDEX w) \<noteq> 0" for w
      using less.prems(6) vv by (meson order.strict_implies_order order.trans)
    from less.hyps [OF meas less.prems(1) h st(2,3) less.prems(5) this]
    obtain s' where r: "map_kernel voffset ?v (?v - voffset) dir ?s = Some (dir, s')" "heap s' = heap s"
      "\<And>w. w < ?v \<Longrightarrow> boot_access voffset dir s' w = boot_access voffset dir ?s w"
      "\<And>w. ?v \<le> w \<Longrightarrow> w < heap s \<Longrightarrow> boot_access voffset dir s' w = Some (w - voffset, False, True)"
      unfolding map_page_heap by blast
    have e: "v - voffset + FRAME_SIZE = ?v - voffset" by simp
    have "map_kernel voffset v (v - voffset) dir s = Some (dir, s')"
      using True r(1) by (subst map_kernel.simps) (simp add: get_page_present [of dir, OF tb] e)
    moreover have "boot_access voffset dir s' w = boot_access voffset dir s w" if "w < v" for w
    proof -
      have "unat w div 2 ^ 12 \<noteq> unat v div 2 ^ 12" by (rule other_page [OF less.prems(3) that])
      moreover have "w < ?v" using that vv by (rule order.strict_trans)
      ultimately show ?thesis using r(3) [of w] tr [of w] by simp
    qed
    moreover have "boot_access voffset dir s' w = Some (w - voffset, False, True)" if "v \<le> w" "w < heap s" for w
    proof (cases "w < ?v")
      case True
      note e = same_page_below(2) [OF less.prems(3) lt that(1) True]
      show ?thesis using r(3) [OF True] tr [of w] e linear_address [OF less.prems(3,5) e] by simp
    next
      case False
      then show ?thesis using r(4) that(2) by simp
    qed
    ultimately show ?thesis using r(2) by blast
  qed
qed

lemma alloc_page_others:
  "heap (alloc_page p k wr s) = heap s"
  "dir_ok view A dir \<Longrightarrow> tables dir (PAGE_DIRECTORY_INDEX v) \<noteq> 0 \<Longrightarrow> unat w div 2 ^ 12 \<noteq> unat v div 2 ^ 12 \<Longrightarrow>
     page_access view dir (alloc_page (tables dir (PAGE_DIRECTORY_INDEX v), PAGE_TABLE_INDEX v) k wr s) w = page_access view dir s w"
  by (simp_all add: alloc_page_def Let_def page_access_set_pte [OF _ refl])

text \<open>A page gets a frame as long as the bitmap has a free one.\<close>

lemma alloc_page_access:
  assumes "dir_ok view A dir" "tables dir (PAGE_DIRECTORY_INDEX v) \<noteq> 0" "unat w div 2 ^ 12 = unat v div 2 ^ 12"
    "first_free_frame (phys_frames s) \<noteq> -1"
  shows "\<exists>phys. page_access view dir (alloc_page (tables dir (PAGE_DIRECTORY_INDEX v), PAGE_TABLE_INDEX v) k wr s) w =
    Some (phys, wr, \<not> k)"
  using assms(3,4)
  by (simp add: alloc_page_def Let_def page_access_set_pte [OF assms(1) refl assms(2)] pte_access_def)

lemma alloc_page_full:
  "first_free_frame (phys_frames s) = -1 \<Longrightarrow> phys_frames (alloc_page p k wr s) = phys_frames s"
  by (simp add: alloc_page_def Let_def)

lemma get_page_frames: "get_page kap v b dir s = (p, dir', s') \<Longrightarrow> phys_frames s' = phys_frames s"
  by (auto simp: get_page_def Let_def split: if_splits prod.splits)

lemma alloc_heap_pages_full:
  "alloc_heap_pages voffset virt dir s = Some r \<Longrightarrow> first_free_frame (phys_frames s) = -1 \<Longrightarrow>
     phys_frames (snd r) = phys_frames s"
proof (induction rule: alloc_heap_pages.raw_induct [rotated 1, consumes 1])
  case (1 f voffset virt dir s r)
  obtain p d' s' where g: "get_page (kmalloc_ap_place voffset) virt True dir s = (p, d', s')"
    by (metis prod_cases3)
  show ?case
    using 1 g get_page_frames [OF g] alloc_page_full [of s']
    by (auto split: if_splits option.splits)
qed

definition heap_mapped :: "u32 \<Rightarrow> u32 \<Rightarrow> page_dir \<Rightarrow> 'h vm \<Rightarrow> bool" where
  "heap_mapped voffset v dir s \<longleftrightarrow> (\<forall>w. v \<le> w \<and> w < KHEAP_START + KHEAP_INITIAL_SIZE \<longrightarrow>
     (\<exists>phys. boot_access voffset dir s w = Some (phys, True, True)))"

lemma alloc_heap_pages_ok:
  assumes "dir_ok (kernel_view voffset) A dir" "v mod FRAME_SIZE = 0" "KHEAP_START \<le> v" "v \<le> KHEAP_START + KHEAP_INITIAL_SIZE"
    "\<And>w. KHEAP_START \<le> w \<Longrightarrow> w < 0xfffff000 \<Longrightarrow> tables dir (PAGE_DIRECTORY_INDEX w) \<noteq> 0"
  shows "\<exists>s'. alloc_heap_pages voffset v dir s = Some (dir, s') \<and> heap s' = heap s \<and>
    (\<forall>w < v. boot_access voffset dir s' w = boot_access voffset dir s w) \<and>
    (first_free_frame (phys_frames s') = -1 \<or> heap_mapped voffset v dir s')"
  using assms
proof (induction "2 ^ 32 - unat v" arbitrary: v s rule: less_induct)
  case less
  show ?case
  proof (cases "v < KHEAP_START + KHEAP_INITIAL_SIZE")
    case False
    then show ?thesis by (subst alloc_heap_pages.simps) (auto simp: heap_mapped_def)
  next
    case True
    have al: "(KHEAP_START + KHEAP_INITIAL_SIZE) mod FRAME_SIZE = 0"
      by (simp add: KHEAP_START_def KHEAP_INITIAL_SIZE_def FRAME_SIZE_def)
    let ?v = "v + FRAME_SIZE" and ?p = "(tables dir (PAGE_DIRECTORY_INDEX v), PAGE_TABLE_INDEX v)"
    let ?s = "alloc_page ?p False True s"
    note st = next_page [OF less.prems(2) al True]
    have "KHEAP_START + KHEAP_INITIAL_SIZE < 0xfffff000" by (simp add: KHEAP_START_def KHEAP_INITIAL_SIZE_def)
    then have lt: "v < 0xfffff000" using True by (rule order.strict_trans [rotated])
    then have tb: "tables dir (PAGE_DIRECTORY_INDEX v) \<noteq> 0" using less.prems(3,5) by blast
    have vv: "v < ?v" using st(1) by (simp add: word_less_nat_alt)
    then have ge: "KHEAP_START \<le> ?v" using less.prems(3) by simp
    have meas: "2 ^ 32 - unat ?v < 2 ^ 32 - unat v" using st(1) unat_less_32 [of v] by simp
    have "\<exists>s'. alloc_heap_pages voffset ?v dir ?s = Some (dir, s') \<and> heap s' = heap ?s \<and>
        (\<forall>w < ?v. boot_access voffset dir s' w = boot_access voffset dir ?s w) \<and>
        (first_free_frame (phys_frames s') = -1 \<or> heap_mapped voffset ?v dir s')"
      by (rule less.hyps [OF meas less.prems(1) st(2) ge st(3)]) (rule less.prems(5))
    then obtain s' where r: "alloc_heap_pages voffset ?v dir ?s = Some (dir, s')" "heap s' = heap s"
      "\<And>w. w < ?v \<Longrightarrow> boot_access voffset dir s' w = boot_access voffset dir ?s w"
      "first_free_frame (phys_frames s') = -1 \<or> heap_mapped voffset ?v dir s'"
      unfolding alloc_page_others(1) by blast
    have "alloc_heap_pages voffset v dir s = Some (dir, s')"
      using True r(1) by (subst alloc_heap_pages.simps) (simp add: get_page_present [of dir, OF tb])
    moreover have "boot_access voffset dir s' w = boot_access voffset dir s w" if "w < v" for w
      using r(3) [of w] alloc_page_others(2) [OF less.prems(1) tb other_page [OF less.prems(2) that]]
        order.strict_trans [OF that vv] by simp
    moreover have "first_free_frame (phys_frames s') = -1 \<or> heap_mapped voffset v dir s'"
    proof (cases "first_free_frame (phys_frames s) = -1")
      case True
      then show ?thesis using alloc_heap_pages_full [OF r(1)] alloc_page_full [OF True] by simp
    next
      case False
      have "\<exists>phys. boot_access voffset dir s' w = Some (phys, True, True)" if "v \<le> w" "w < ?v" for w
        using r(3) [OF that(2)] alloc_page_access [OF less.prems(1) tb same_page_below(2) [OF less.prems(2) lt that] False, of False True] by simp
      then show ?thesis using r(4) unfolding heap_mapped_def by (meson not_le)
    qed
    ultimately show ?thesis using r(2) by blast
  qed
qed

lemma make_tables_root:
  "make_tables voffset virt dir s = Some r \<Longrightarrow> entries_phys_addr (fst r) = entries_phys_addr dir"
proof (induction rule: make_tables.raw_induct [rotated 1, consumes 1])
  case (1 f voffset virt dir s r)
  obtain p d' s' where g: "get_page (kmalloc_ap_place voffset) virt True dir s = (p, d', s')"
    by (metis prod_cases3)
  then have "entries_phys_addr d' = entries_phys_addr dir"
    by (auto simp: get_page_def Let_def split: if_splits prod.splits)
  then show ?case using 1 g by (auto split: if_splits)
qed

lemma boot_tables:
  assumes v: "voffset mod FRAME_SIZE = 0" "voffset \<le> KHEAP_START"
    and h: "unat (heap s) + 0x2000 * 1027 \<le> unat KHEAP_START" and p: "p = place_align 0x1000 (heap s)"
    and s1: "s1 = s\<lparr>phys_frames := set_frame 0 (phys_frames s), heap := p + 8196\<rparr>"
    and d0: "d0 = \<lparr>entries = \<lambda>_. zero_pde, entries_phys_addr = p - voffset, tables = \<lambda>_. 0\<rparr>"
  shows "\<exists>d1 s2 s3 s4. make_tables voffset voffset d0 s1 = Some (d1, s2) \<and>
    map_kernel voffset voffset 0 d1 s2 = Some (d1, s3) \<and> alloc_heap_pages voffset KHEAP_START d1 s3 = Some (d1, s4) \<and>
    (\<forall>w. voffset \<le> w \<longrightarrow> w < 0xfffff000 \<longrightarrow> tables d1 (PAGE_DIRECTORY_INDEX w) \<noteq> 0) \<and>
    (\<forall>w. voffset \<le> w \<longrightarrow> w < 0xfffff000 \<longrightarrow> pde_present (entries d1 (PAGE_DIRECTORY_INDEX w))) \<and> heap s < heap s4 \<and>
    (\<forall>w. voffset \<le> w \<longrightarrow> w < heap s4 \<longrightarrow> boot_access voffset d1 s4 w = Some (w - voffset, False, True)) \<and>
    (first_free_frame (phys_frames s4) = -1 \<or> heap_mapped voffset KHEAP_START d1 s4) \<and>
    entries_phys_addr d1 = p - voffset"
proof -
  have ks: "unat KHEAP_START = 0xd0000000" by (simp add: KHEAP_START_def)
  have b: "unat (heap s) \<le> unat p" "unat p < unat (heap s) + 0x1000"
    using place_align_le [of "0x1000" "heap s"] h ks p by auto
  have "unat (p + 8196) = unat p + 8196" using b h ks by (subst unat_add_lem [THEN iffD1]) auto
  then have hs1: "unat (heap s1) = unat p + 8196" by (simp add: s1)
  have "0 < unat (heap s1)" using hs1 by simp
  then have r0: "ready voffset d0 s1" using v(1) by (auto simp: ready_def d0 dir_ok_def entry_ok_def zero_pde_def FRAME_SIZE_def)
  have "tables_needed d0 voffset \<le> 1024" by (simp add: tables_needed_def)
  then have room: "unat (heap s1) + 0x2000 * Suc (tables_needed d0 voffset) \<le> unat KHEAP_START"
    using hs1 b h by simp
  have v': "voffset \<le> 0xfffff000" using v(2) by (rule order.trans) (simp add: KHEAP_START_def)
  obtain d1 s2 where mt: "make_tables voffset voffset d0 s1 = Some (d1, s2)" "ready voffset d1 s2"
    "unat (heap s1) \<le> unat (heap s2)" "unat (heap s2) \<le> unat KHEAP_START"
    "\<And>w. voffset \<le> w \<Longrightarrow> w < 0xfffff000 \<Longrightarrow> tables d1 (PAGE_DIRECTORY_INDEX w) \<noteq> 0"
    using make_tables_ok [OF r0 _ v(1) v'] room ks by auto
  have hs2: "heap s2 \<le> KHEAP_START" using mt(4) by (simp add: word_le_nat_alt)
  then have hs2': "heap s2 \<le> 0xfffff000" by (rule order.trans) (simp add: KHEAP_START_def)
  have dok: "dir_ok (kernel_view voffset) (placed_below (heap s2)) d1" using mt(2) by (simp add: ready_def)
  obtain s3 where mk: "map_kernel voffset voffset 0 d1 s2 = Some (d1, s3)" "heap s3 = heap s2"
    "\<And>w. voffset \<le> w \<Longrightarrow> w < heap s2 \<Longrightarrow> boot_access voffset d1 s3 w = Some (w - voffset, False, True)"
    using map_kernel_ok [OF dok hs2' v(1) v' v(1) mt(5)] by auto
  have kt: "KHEAP_START \<le> w \<Longrightarrow> w < 0xfffff000 \<Longrightarrow> tables d1 (PAGE_DIRECTORY_INDEX w) \<noteq> 0" for w
    using mt(5) v(2) by (meson order.trans)
  obtain s4 where ah: "alloc_heap_pages voffset KHEAP_START d1 s3 = Some (d1, s4)" "heap s4 = heap s3"
    "\<And>w. w < KHEAP_START \<Longrightarrow> boot_access voffset d1 s4 w = boot_access voffset d1 s3 w"
    "first_free_frame (phys_frames s4) = -1 \<or> heap_mapped voffset KHEAP_START d1 s4"
    using alloc_heap_pages_ok [OF dok _ order.refl _ kt, of s3]
    by (auto simp: KHEAP_START_def KHEAP_INITIAL_SIZE_def FRAME_SIZE_def)
  have "heap s < heap s4" using mt(3) hs1 b ah(2) mk(2) by (simp add: word_less_nat_alt)
  moreover have "boot_access voffset d1 s4 w = Some (w - voffset, False, True)" if "voffset \<le> w" "w < heap s4" for w
    using that ah mk hs2 by (metis order.strict_trans2)
  moreover have "pde_present (entries d1 (PAGE_DIRECTORY_INDEX w))" if "voffset \<le> w" "w < 0xfffff000" for w
    using dir_ok_entry [OF dok] mt(5) [OF that] by (auto simp: entry_ok_def split: if_splits)
  moreover have "entries_phys_addr d1 = p - voffset" using make_tables_root [OF mt(1)] by (simp add: d0)
  ultimately show ?thesis using mt(1,5) mk(1) ah(1,4) by blast
qed

text \<open>Start-up marks frames as used and never clears a mark.\<close>

lemma mark_kept:
  "frame_bit (phys_frames s) g \<Longrightarrow> frame_bit (phys_frames (map_page p k w phys s)) g"
  "frame_bit (phys_frames s) g \<Longrightarrow> frame_bit (phys_frames (alloc_page p k w s)) g"
  by (auto simp: map_page_def alloc_page_def set_pte_def Let_def)

lemma make_tables_frames:
  "make_tables voffset virt dir s = Some r \<Longrightarrow> phys_frames (snd r) = phys_frames s"
proof (induction rule: make_tables.raw_induct [rotated 1, consumes 1])
  case (1 f voffset virt dir s r)
  then show ?case
    by (cases "get_page (kmalloc_ap_place voffset) virt True dir s")
      (auto dest: get_page_frames split: if_splits)
qed

lemma map_kernel_frames:
  "map_kernel voffset virt phys dir s = Some r \<Longrightarrow> frame_bit (phys_frames s) g \<Longrightarrow> frame_bit (phys_frames (snd r)) g"
proof (induction rule: map_kernel.raw_induct [rotated 1, consumes 1])
  case (1 f voffset virt phys dir s r)
  obtain p d' s' where g: "get_page (kmalloc_ap_place voffset) virt True dir s = (p, d', s')"
    by (metis prod_cases3)
  show ?case
    using 1 g get_page_frames [OF g] mark_kept(1) [of s' g]
    by (auto split: if_splits option.splits)
qed

lemma alloc_heap_pages_frames:
  "alloc_heap_pages voffset virt dir s = Some r \<Longrightarrow> frame_bit (phys_frames s) g \<Longrightarrow> frame_bit (phys_frames (snd r)) g"
proof (induction rule: alloc_heap_pages.raw_induct [rotated 1, consumes 1])
  case (1 f voffset virt dir s r)
  obtain p d' s' where g: "get_page (kmalloc_ap_place voffset) virt True dir s = (p, d', s')"
    by (metis prod_cases3)
  show ?case
    using 1 g get_page_frames [OF g] mark_kept(2) [of s' g]
    by (auto split: if_splits option.splits)
qed

lemma paging_finalize_ok:
  assumes "voffset mod FRAME_SIZE = 0" "voffset \<le> KHEAP_START" "heap s \<noteq> 0"
    and "unat (heap s) + 0x2000 * 1027 \<le> unat KHEAP_START"
    and "handlers_ok 14 xs t" "fault \<noteq> 0" "xs = [] \<longrightarrow> heads t 14 = 0" "length xs < MAX_HANDLERS"
    and "heap_bounds head (granular_start KHEAP_START) (KHEAP_START + KHEAP_INITIAL_SIZE) HEAP_MAX_SIZE"
    and "\<not> check_magic (granular_start KHEAP_START - 8) m"
  shows "\<exists>dir t' hs n. paging_finalize voffset head tree0 fault t m s = Some (dir, t', Some hs) \<and>
    handlers_ok 14 (xs @ [n]) t' \<and> attached 14 (xs @ [n]) t' = attached 14 xs t @ [fault] \<and>
    (\<forall>w. voffset \<le> w \<longrightarrow> w < 0xfffff000 \<longrightarrow> tables dir (PAGE_DIRECTORY_INDEX w) \<noteq> 0 \<and> pde_present (entries dir (PAGE_DIRECTORY_INDEX w))) \<and>
    heap s < heap (vm_state hs) \<and>
    (\<forall>w. voffset \<le> w \<longrightarrow> w < heap (vm_state hs) \<longrightarrow> boot_access voffset dir (vm_state hs) w = Some (w - voffset, False, True)) \<and>
    (first_free_frame (phys_frames (vm_state hs)) = -1 \<or> heap_mapped voffset KHEAP_START dir (vm_state hs)) \<and>
    entries_phys_addr dir = place_align 0x1000 (heap s) - voffset \<and>
    heap_ok head [(granular_start KHEAP_START, KHEAP_START + KHEAP_INITIAL_SIZE - granular_start KHEAP_START, True)] hs \<and>
    mem_used (heap_alloc hs) = 0 \<and> page_directory (heap_alloc hs) = dir \<and>
    (\<forall>g. g = 0 \<or> frame_bit (phys_frames s) g \<longrightarrow> frame_bit (phys_frames (vm_state hs)) g) \<and>
    attach_interrupt_handler 14 fault t = Some t'"
proof -
  define p where "p = place_align 0x1000 (heap s)"
  define s1 where "s1 = s\<lparr>phys_frames := set_frame 0 (phys_frames s), heap := p + 8196\<rparr>"
  define d0 where "d0 = \<lparr>entries = \<lambda>_. zero_pde, entries_phys_addr = p - voffset, tables = \<lambda>_. 0\<rparr>"
  obtain d1 s2 s3 s4 where bt: "make_tables voffset voffset d0 s1 = Some (d1, s2)"
    "map_kernel voffset voffset 0 d1 s2 = Some (d1, s3)" "alloc_heap_pages voffset KHEAP_START d1 s3 = Some (d1, s4)"
    "\<forall>w. voffset \<le> w \<longrightarrow> w < 0xfffff000 \<longrightarrow> tables d1 (PAGE_DIRECTORY_INDEX w) \<noteq> 0" "heap s < heap s4"
    "\<forall>w. voffset \<le> w \<longrightarrow> w < heap s4 \<longrightarrow> boot_access voffset d1 s4 w = Some (w - voffset, False, True)"
    "\<forall>w. voffset \<le> w \<longrightarrow> w < 0xfffff000 \<longrightarrow> pde_present (entries d1 (PAGE_DIRECTORY_INDEX w))"
    "first_free_frame (phys_frames s4) = -1 \<or> heap_mapped voffset KHEAP_START d1 s4" "entries_phys_addr d1 = p - voffset"
    using boot_tables [OF assms(1,2,4) p_def s1_def d0_def] by blast
  obtain hs where c: "create_mem_allocator head tree0 KHEAP_START (KHEAP_START + KHEAP_INITIAL_SIZE)
        HEAP_MIN_SIZE HEAP_MAX_SIZE 0 0 d1 m s4 = Some (Some hs)"
    "heap_ok head [(granular_start KHEAP_START, KHEAP_START + KHEAP_INITIAL_SIZE - granular_start KHEAP_START, True)] hs"
    "mem_used (heap_alloc hs) = 0" "vm_state hs = s4" "page_directory (heap_alloc hs) = d1"
    using create_ok [OF _ _ _ refl assms(9,10), of tree0 HEAP_MIN_SIZE 0 0 d1 s4]
    by (auto simp: KHEAP_START_def KHEAP_INITIAL_SIZE_def FRAME_SIZE_def)
  obtain t' n where at: "attach_interrupt_handler 14 fault t = Some t'"
    "handlers_ok 14 (xs @ [n]) t'" "attached 14 (xs @ [n]) t' = attached 14 xs t @ [fault]"
    using attach_room [OF assms(5,6) _ assms(8)] assms(7) by blast
  have "paging_finalize voffset head tree0 fault t m s = Some (d1, t', Some hs)"
    using bt(1-3) c(1) at(1)
    by (simp add: paging_finalize_def Let_def kmalloc_ap_place_def kmalloc_place_def s1_def d0_def p_def)
  moreover have "frame_bit (phys_frames (vm_state hs)) g" if "g = 0 \<or> frame_bit (phys_frames s) g" for g
  proof -
    have "frame_bit (phys_frames s1) g" using that by (auto simp: s1_def)
    then have "frame_bit (phys_frames s2) g" using make_tables_frames [OF bt(1)] by simp
    then show ?thesis
      using map_kernel_frames [OF bt(2)] alloc_heap_pages_frames [OF bt(3)] c(4) by simp
  qed
  ultimately show ?thesis using bt(4-9) c(2-5) at unfolding p_def [symmetric] by blast
qed

text \<open>
  C6. \<open>paging_finalize\<close> ends and leaves a working memory subsystem: every page of kernel space
  has its page table, recorded and present in the directory; the processor takes each kernel
  address below the final placement address, the page tables themselves included, to the
  physical address \<open>kernel_voffset\<close> below it, readable only and also in user mode, as the code
  asks for; every page of the initial heap has a frame and can be written, unless the bitmap
  has no free frame left; the directory knows its physical address; the page fault handler is
  attached behind those of its interrupt; and the kernel heap satisfies the invariant of the
  allocator, with one free block behind its structure, over the kernel's directory. Memory
  from the placement address on has room for the tables below the heap, and no stray magic
  word lies in front of the first block.
\<close>

theorem paging_finalize_boots:
  assumes "voffset mod FRAME_SIZE = 0" "voffset \<le> KHEAP_START" "heap s \<noteq> 0"
    and "unat (heap s) + 0x2000 * 1027 \<le> unat KHEAP_START"
    and "handlers_ok 14 xs t" "fault \<noteq> 0" "xs = [] \<Longrightarrow> heads t 14 = 0" "length xs < MAX_HANDLERS"
    and "heap_bounds head (granular_start KHEAP_START) (KHEAP_START + KHEAP_INITIAL_SIZE) HEAP_MAX_SIZE"
    and "\<not> check_magic (granular_start KHEAP_START - 8) m"
  shows "\<exists>dir t' hs n. paging_finalize voffset head tree0 fault t m s = Some (dir, t', Some hs) \<and>
    handlers_ok 14 (xs @ [n]) t' \<and> attached 14 (xs @ [n]) t' = attached 14 xs t @ [fault] \<and>
    (\<forall>w. voffset \<le> w \<longrightarrow> w < 0xfffff000 \<longrightarrow> tables dir (PAGE_DIRECTORY_INDEX w) \<noteq> 0 \<and> pde_present (entries dir (PAGE_DIRECTORY_INDEX w))) \<and>
    heap s < heap (vm_state hs) \<and>
    (\<forall>w. voffset \<le> w \<longrightarrow> w < heap (vm_state hs) \<longrightarrow> boot_access voffset dir (vm_state hs) w = Some (w - voffset, False, True)) \<and>
    (first_free_frame (phys_frames (vm_state hs)) = -1 \<or> heap_mapped voffset KHEAP_START dir (vm_state hs)) \<and>
    entries_phys_addr dir = place_align 0x1000 (heap s) - voffset \<and>
    heap_ok head [(granular_start KHEAP_START, KHEAP_START + KHEAP_INITIAL_SIZE - granular_start KHEAP_START, True)] hs \<and>
    mem_used (heap_alloc hs) = 0 \<and> page_directory (heap_alloc hs) = dir"
proof -
  have "xs = [] \<longrightarrow> heads t 14 = 0" using assms(7) by blast
  from paging_finalize_ok [OF assms(1-6) this assms(8-10), of tree0]
  show ?thesis by (elim exE conjE) (intro exI conjI; assumption)
qed

definition kernel_vm :: "u32 vm" where
  "kernel_vm = \<lparr>phys_frames = \<lparr>frames = \<lambda>_. 0, nframes = 0x8000, used_frames = 0\<rparr>,
     page_tables = \<lambda>_ _. zero_pte, heap = 0xc0200000\<rparr>"

theorem paging_finalize_boots_witness:
  "\<exists>dir t hs n. paging_finalize 0xc0000000 0x9000 (rb_tree.make 7 7 7 compare select_dup) 0xc0101000 no_handlers
      (\<lambda>_. 0) kernel_vm = Some (dir, t, Some hs) \<and> attached 14 [n] t = [0xc0101000] \<and>
    boot_access 0xc0000000 dir (vm_state hs) 0xc0101234 = Some (0x101234, False, True)"
proof -
  have "(0xc0000000 :: u32) mod FRAME_SIZE = 0" "(0xc0000000 :: u32) \<le> KHEAP_START"
    "heap kernel_vm \<noteq> 0" "unat (heap kernel_vm) + 0x2000 * 1027 \<le> unat KHEAP_START"
    by (simp_all add: FRAME_SIZE_def KHEAP_START_def kernel_vm_def)
  note v = this
  have "heap_bounds 0x9000 (granular_start KHEAP_START) (KHEAP_START + KHEAP_INITIAL_SIZE) HEAP_MAX_SIZE"
    "\<not> check_magic (granular_start KHEAP_START - 8) (\<lambda>_. 0)"
    by (simp_all add: granular_start_def KHEAP_START_def KHEAP_INITIAL_SIZE_def HEAP_MAX_SIZE_def SIZEOF_ALLOCATOR_def
        MIN_BLOCK_SIZE_def Let_def heap_bounds_def node_words_def untag_def check_magic_def MAGIC_def)
  note hb = this
  have "(0xc0101000 :: u32) \<noteq> 0" "length [] < MAX_HANDLERS" by (simp_all add: MAX_HANDLERS_def)
  from paging_finalize_boots [OF v no_handlers_ok(1) this(1) no_handlers_ok(2) this(2) hb, of "rb_tree.make 7 7 7 compare select_dup"]
  obtain dir t hs n where r: "paging_finalize 0xc0000000 0x9000 (rb_tree.make 7 7 7 compare select_dup) 0xc0101000
        no_handlers (\<lambda>_. 0) kernel_vm = Some (dir, t, Some hs)" "heap kernel_vm < heap (vm_state hs)"
    "\<forall>w. 0xc0000000 \<le> w \<longrightarrow> w < heap (vm_state hs) \<longrightarrow> boot_access 0xc0000000 dir (vm_state hs) w = Some (w - 0xc0000000, False, True)"
    "attached 14 ([] @ [n]) t = attached 14 [] no_handlers @ [0xc0101000]"
    by (elim exE conjE) metis
  have "(0xc0101234 :: u32) < heap kernel_vm" by (simp add: kernel_vm_def)
  then have "(0xc0101234 :: u32) < heap (vm_state hs)" using r(2) by (rule order.strict_trans)
  then have "boot_access 0xc0000000 dir (vm_state hs) 0xc0101234 = Some (0x101234, False, True)"
    using r(3) [rule_format, of "0xc0101234"] by simp
  then show ?thesis using r(1,4) by (auto simp: attached_def)
qed

end
