(* ===== verification/Pic.thy ===== *)
theory Pic
  imports Kernel_Prelude
begin

text \<open>
  The interrupt controllers of \<^verbatim>\<open>kernel/pic.c\<close>. The port instructions are outside the C code:
  the operations take them as an argument, and what they rely on is stated of the
  controllers' documented behaviour, with the controllers of the data sheet as an instance.
  A record of the writes shows their order.
\<close>

section \<open>Ports\<close>

record 'io port_ops =
  inb :: "u16 \<Rightarrow> 'io \<Rightarrow> u8 \<times> 'io"
  outb :: "u16 \<Rightarrow> u8 \<Rightarrow> 'io \<Rightarrow> 'io"

text \<open>A port space that answers every read with a fixed value and records the writes.\<close>

record port_trace =
  input :: "u16 \<Rightarrow> u8"
  writes :: "(u16 \<times> u8) list"

definition trace_ports :: "port_trace port_ops" where
  "trace_ports = \<lparr>inb = (\<lambda>p s. (input s p, s)), outb = (\<lambda>p v s. s\<lparr>writes := writes s @ [(p, v)]\<rparr>)\<rparr>"

section \<open>The controllers\<close>

definition PIC1_CTRL :: u16 where "PIC1_CTRL = 0x20"

definition PIC2_CTRL :: u16 where "PIC2_CTRL = 0xa0"

definition PIC1_DATA :: u16 where "PIC1_DATA = 0x21"

definition PIC2_DATA :: u16 where "PIC2_DATA = 0xa1"

definition PIC_EOI :: u8 where "PIC_EOI = 0x20"

definition PIC_READ_ISR :: u8 where "PIC_READ_ISR = 0x0b"

lemmas pic_ports = PIC1_CTRL_def PIC2_CTRL_def PIC1_DATA_def PIC2_DATA_def

definition pic_remap :: "'io port_ops \<Rightarrow> 'io \<Rightarrow> 'io" where
  "pic_remap io s =
     (let (m1, s) = inb io PIC1_DATA s; (m2, s) = inb io PIC2_DATA s;
          s = outb io PIC1_CTRL (0x10 OR 0x01) s; s = outb io PIC2_CTRL (0x10 OR 0x01) s;
          s = outb io PIC1_DATA 0x20 s; s = outb io PIC2_DATA 0x28 s;
          s = outb io PIC1_DATA 4 s; s = outb io PIC2_DATA 2 s;
          s = outb io PIC1_DATA 0x01 s; s = outb io PIC2_DATA 0x01 s;
          saved = (ucast m1 OR push_bit 8 (ucast m2) :: u32)
      in outb io PIC2_DATA (ucast (drop_bit 8 saved)) (outb io PIC1_DATA (ucast saved) s))"

definition pic_disable :: "'io port_ops \<Rightarrow> 'io \<Rightarrow> 'io" where
  "pic_disable io s = outb io PIC2_DATA 0xff (outb io PIC1_DATA 0xfb s)"

definition irq_line :: "nat \<Rightarrow> u16 \<times> nat" where
  "irq_line irq = (if irq < 8 then (PIC1_DATA, irq) else (PIC2_DATA, irq - 8))"

definition pic_disable_irq :: "'io port_ops \<Rightarrow> nat \<Rightarrow> 'io \<Rightarrow> 'io" where
  "pic_disable_irq io irq s =
     (let (port, irq) = irq_line irq; (v, s) = inb io port s
      in outb io port (v OR push_bit irq 1) s)"

definition pic_enable_irq :: "'io port_ops \<Rightarrow> nat \<Rightarrow> 'io \<Rightarrow> 'io" where
  "pic_enable_irq io irq s =
     (let (port, irq) = irq_line irq; (v, s) = inb io port s
      in outb io port (v AND NOT (push_bit irq 1)) s)"

definition pic_get_irq_reg :: "'io port_ops \<Rightarrow> u8 \<Rightarrow> 'io \<Rightarrow> u16 \<times> 'io" where
  "pic_get_irq_reg io command s =
     (let s = outb io PIC1_CTRL command s; s = outb io PIC2_CTRL command s;
          (r2, s) = inb io PIC2_CTRL s; (r1, s) = inb io PIC1_CTRL s
      in (push_bit 8 (ucast r2) OR ucast r1, s))"

definition pic_get_isr :: "'io port_ops \<Rightarrow> 'io \<Rightarrow> u16 \<times> 'io" where
  "pic_get_isr io s = pic_get_irq_reg io PIC_READ_ISR s"

definition pic_is_spurious_7 :: "'io port_ops \<Rightarrow> 'io \<Rightarrow> bool \<times> 'io" where
  "pic_is_spurious_7 io s = (let (r, s) = pic_get_isr io s in (r AND 0x0080 = 0, s))"

definition pic_is_spurious_15 :: "'io port_ops \<Rightarrow> 'io \<Rightarrow> bool \<times> 'io" where
  "pic_is_spurious_15 io s = (let (r, s) = pic_get_isr io s in (r AND 0x8000 = 0, s))"

text \<open>The result of \<open>pic_acknowledge\<close> and the count of bad interrupts it keeps.\<close>

definition send_eoi :: "'io port_ops \<Rightarrow> u32 \<Rightarrow> 'io \<Rightarrow> 'io" where
  "send_eoi io irq s =
     outb io PIC1_CTRL PIC_EOI (if 8 \<le> irq then outb io PIC2_CTRL PIC_EOI s else s)"

definition pic_acknowledge :: "'io port_ops \<Rightarrow> u32 \<Rightarrow> u32 \<times> 'io \<Rightarrow> bool \<times> u32 \<times> 'io" where
  "pic_acknowledge io irq st =
     (let (bad_irqs, s) = st
      in if irq = 7 then
           (let (spurious, s) = pic_is_spurious_7 io s
            in if spurious then (True, bad_irqs + 1, s) else (False, bad_irqs, send_eoi io irq s))
         else if irq = 15 then
           (let (spurious, s) = pic_is_spurious_15 io s
            in if spurious then (True, bad_irqs + 1, outb io PIC1_CTRL PIC_EOI s)
               else (False, bad_irqs, send_eoi io irq s))
         else (False, bad_irqs, send_eoi io irq s))"

definition pic_get_bad_irqs :: "u32 \<times> 'io \<Rightarrow> u32" where
  "pic_get_bad_irqs st = fst st"

section \<open>The mask registers\<close>

text \<open>Line \<open>i\<close> of the sixteen is masked by the values of the two mask registers.\<close>

definition masked :: "(u16 \<Rightarrow> u8) \<Rightarrow> nat \<Rightarrow> bool" where
  "masked m i \<longleftrightarrow> bit (m (fst (irq_line i))) (snd (irq_line i))"

lemma port_of_line: "fst (irq_line i) \<in> {PIC1_DATA, PIC2_DATA}"
  by (simp add: irq_line_def)

lemma line_inj: "i < 16 \<Longrightarrow> j < 16 \<Longrightarrow> irq_line i = irq_line j \<longleftrightarrow> i = j"
  by (auto simp: irq_line_def pic_ports)

lemma line_bit: "i < 16 \<Longrightarrow> snd (irq_line i) < 8"
  by (auto simp: irq_line_def)

lemma masked_upd:
  assumes "i < 16" "j < 16" "v = m (fst (irq_line i))"
  shows "masked (m(fst (irq_line i) := v OR push_bit (snd (irq_line i)) 1)) j \<longleftrightarrow> masked m j \<or> j = i"
    "masked (m(fst (irq_line i) := v AND NOT (push_bit (snd (irq_line i)) 1))) j \<longleftrightarrow> masked m j \<and> j \<noteq> i"
proof -
  obtain p b where i: "irq_line i = (p, b)" by fastforce
  obtain q c where j: "irq_line j = (q, c)" by fastforce
  have l: "b < 8" "c < 8" using line_bit assms i j by (metis snd_conv)+
  have eq: "(q = p \<and> c = b) \<longleftrightarrow> j = i" using line_inj [OF assms(1,2)] i j by auto
  show "masked (m(fst (irq_line i) := v OR push_bit (snd (irq_line i)) 1)) j \<longleftrightarrow> masked m j \<or> j = i"
    "masked (m(fst (irq_line i) := v AND NOT (push_bit (snd (irq_line i)) 1))) j \<longleftrightarrow> masked m j \<and> j \<noteq> i"
    using eq l assms(3) by (auto simp: masked_def i j bit_simps)
qed

lemma masked_upd_all: "i < 16 \<Longrightarrow> masked (m(PIC1_DATA := 0xfb, PIC2_DATA := 0xff)) i \<longleftrightarrow> i \<noteq> 2"
proof -
  assume "i < 16"
  moreover have "(\<forall>k<8. bit (0xfb :: u8) k \<longleftrightarrow> k \<noteq> 2) \<and> (\<forall>k<8. bit (0xff :: u8) k)" by code_simp
  ultimately show ?thesis by (auto simp: masked_def irq_line_def pic_ports)
qed

text \<open>
  What the controllers promise: the initialisation sequence of \<open>pic_remap\<close> makes them ready,
  and while they are ready a read of a data port gives the mask and changes none, a write
  sets the mask of its own controller only, and other ports do not concern them.
\<close>

locale mask_ports =
  fixes io :: "'io port_ops" and line_masks :: "'io \<Rightarrow> u16 \<Rightarrow> u8" and pics_ready :: "'io \<Rightarrow> bool"
  assumes remap_ready: "pics_ready (pic_remap io s)"
    and read_mask: "pics_ready s \<Longrightarrow> p \<in> {PIC1_DATA, PIC2_DATA} \<Longrightarrow> fst (inb io p s) = line_masks s p"
    and read_keeps: "pics_ready s \<Longrightarrow> p \<in> {PIC1_DATA, PIC2_DATA} \<Longrightarrow>
      line_masks (snd (inb io p s)) = line_masks s \<and> pics_ready (snd (inb io p s))"
    and write_mask: "pics_ready s \<Longrightarrow> p \<in> {PIC1_DATA, PIC2_DATA} \<Longrightarrow>
      line_masks (outb io p v s) = (line_masks s)(p := v) \<and> pics_ready (outb io p v s)"
    and write_other: "pics_ready s \<Longrightarrow> p \<notin> {PIC1_CTRL, PIC2_CTRL, PIC1_DATA, PIC2_DATA} \<Longrightarrow>
      line_masks (outb io p v s) = line_masks s \<and> pics_ready (outb io p v s)"
begin

lemma masked_disable:
  assumes "pics_ready s" "i < 16" "j < 16"
  shows "masked (line_masks (pic_disable_irq io i s)) j \<longleftrightarrow> masked (line_masks s) j \<or> j = i"
    "pics_ready (pic_disable_irq io i s)"
  using masked_upd(1) [OF assms(2,3)] assms(1)
  by (simp_all add: pic_disable_irq_def case_prod_beta write_mask [OF _ port_of_line]
      read_keeps [OF _ port_of_line] read_mask [OF _ port_of_line])

lemma masked_enable:
  assumes "pics_ready s" "i < 16" "j < 16"
  shows "masked (line_masks (pic_enable_irq io i s)) j \<longleftrightarrow> masked (line_masks s) j \<and> j \<noteq> i"
    "pics_ready (pic_enable_irq io i s)"
  using masked_upd(2) [OF assms(2,3)] assms(1)
  by (simp_all add: pic_enable_irq_def case_prod_beta write_mask [OF _ port_of_line]
      read_keeps [OF _ port_of_line] read_mask [OF _ port_of_line])

lemma masked_all:
  assumes "pics_ready s"
  shows "i < 16 \<Longrightarrow> masked (line_masks (pic_disable io s)) i \<longleftrightarrow> i \<noteq> 2" "pics_ready (pic_disable io s)"
  using masked_upd_all [of i "line_masks s"] assms by (simp_all add: pic_disable_def write_mask)

end

text \<open>
  The controllers as their data sheet describes them: a command with bit 4 set clears the
  mask and starts the initialisation, in which the next three bytes at the data port are
  parameters; after them the data port is the mask register.
\<close>

record chip =
  chip_mask :: u8
  chip_pending :: nat

definition chip_ports :: "(u16 \<Rightarrow> chip) port_ops" where
  "chip_ports = \<lparr>inb = (\<lambda>p s. (chip_mask (s p), s)),
     outb = (\<lambda>p v s.
       if p \<in> {PIC1_CTRL, PIC2_CTRL}
       then if bit v 4 then s(p + 1 := \<lparr>chip_mask = 0, chip_pending = 3\<rparr>) else s
       else if p \<in> {PIC1_DATA, PIC2_DATA}
       then if chip_pending (s p) = 0 then s(p := (s p)\<lparr>chip_mask := v\<rparr>)
            else s(p := (s p)\<lparr>chip_pending := chip_pending (s p) - 1\<rparr>)
       else s)\<rparr>"

definition chips_ready :: "(u16 \<Rightarrow> chip) \<Rightarrow> bool" where
  "chips_ready s \<longleftrightarrow> chip_pending (s PIC1_DATA) = 0 \<and> chip_pending (s PIC2_DATA) = 0"

lemma chip_pending_data:
  "p \<in> {PIC1_DATA, PIC2_DATA} \<Longrightarrow> chip_pending (outb chip_ports p v s q) =
     (if q = p then chip_pending (s p) - 1 else chip_pending (s q))"
  by (auto simp: chip_ports_def pic_ports)

lemma chip_pending_command:
  assumes "p \<in> {PIC1_CTRL, PIC2_CTRL}"
  shows "chip_pending (outb chip_ports p 0x11 s q) = (if q = p + 1 then 3 else chip_pending (s q))"
proof -
  have "bit (0x11 :: u8) 4" by code_simp
  then show ?thesis using assms by (auto simp: chip_ports_def)
qed

interpretation chips: mask_ports chip_ports "\<lambda>s p. chip_mask (s p)" chips_ready
proof unfold_locales
  fix s
  have "inb chip_ports p t = (chip_mask (t p), t)" for p t by (simp add: chip_ports_def)
  moreover have "PIC1_CTRL + 1 = PIC1_DATA" "PIC2_CTRL + 1 = PIC2_DATA" "PIC1_DATA \<noteq> PIC2_DATA"
    by (simp_all add: pic_ports)
  ultimately show "chips_ready (pic_remap chip_ports s)"
    by (simp add: pic_remap_def chips_ready_def chip_pending_data chip_pending_command)
qed (auto simp: chip_ports_def chips_ready_def pic_ports)

text \<open>
  Enabling or disabling an interrupt line changes the mask of that line and of no
  other of the sixteen, and disabling the controllers masks every line but the one of the
  second controller.
\<close>

theorem irq_masks:
  assumes "mask_ports io line_masks pics_ready" "pics_ready s" "i < 16" "j < 16"
  shows "(masked (line_masks (pic_disable_irq io i s)) j \<longleftrightarrow> masked (line_masks s) j \<or> j = i) \<and>
    (masked (line_masks (pic_enable_irq io i s)) j \<longleftrightarrow> masked (line_masks s) j \<and> j \<noteq> i) \<and>
    (masked (line_masks (pic_disable io s)) i \<longleftrightarrow> i \<noteq> 2)"
  using mask_ports.masked_disable(1) [OF assms] mask_ports.masked_enable(1) [OF assms]
    mask_ports.masked_all(1) [OF assms(1-3)] by blast

abbreviation idle_chips :: "u16 \<Rightarrow> chip" where
  "idle_chips \<equiv> \<lambda>_. \<lparr>chip_mask = 0, chip_pending = 0\<rparr>"

theorem irq_masks_witness:
  "masked (\<lambda>p. chip_mask (pic_disable_irq chip_ports 12 idle_chips p)) 12 \<and>
    \<not> masked (\<lambda>p. chip_mask (pic_disable_irq chip_ports 12 idle_chips p)) 4"
  using irq_masks [OF chips.mask_ports_axioms, of idle_chips 12 12]
    irq_masks [OF chips.mask_ports_axioms, of idle_chips 12 4]
  by (simp add: masked_def chips_ready_def)

section \<open>Acknowledging interrupts\<close>

text \<open>
  A real interrupt is acknowledged with one end-of-interrupt command to the first
  controller, after one to the second controller when the line is one of its; an interrupt 7
  or 15 that the in-service register does not show is counted, gets no command for its own
  controller, and is reported as spurious.
\<close>

theorem acknowledge_commands:
  assumes "pic_acknowledge trace_ports irq (bad, s) = (r, bad', s')"
    and "queries = (if irq = 7 \<or> irq = 15 then [(PIC1_CTRL, PIC_READ_ISR), (PIC2_CTRL, PIC_READ_ISR)] else [])"
    and "spurious \<longleftrightarrow> irq = 7 \<and> \<not> bit (input s PIC1_CTRL) 7 \<or> irq = 15 \<and> \<not> bit (input s PIC2_CTRL) 7"
  shows "r = spurious \<and> bad' = (if spurious then bad + 1 else bad) \<and>
    writes s' = writes s @ queries @
      (if 8 \<le> irq \<and> \<not> spurious then [(PIC2_CTRL, PIC_EOI)] else []) @
      (if irq = 7 \<and> spurious then [] else [(PIC1_CTRL, PIC_EOI)])"
proof -
  have b7: "((push_bit 8 (ucast r2) OR ucast r1 :: u16) AND 0x0080 = 0) \<longleftrightarrow> \<not> bit (r1 :: u8) 7" for r1 r2 :: u8
  proof -
    have "(0x0080 :: u16) = 2 ^ 7" by simp
    then show ?thesis by (simp only: and_exp_eq_0_iff_not_bit) (simp add: bit_simps)
  qed
  have b15: "((push_bit 8 (ucast r2) OR ucast r1 :: u16) AND 0x8000 = 0) \<longleftrightarrow> \<not> bit (r2 :: u8) 7" for r1 r2 :: u8
  proof -
    have "(0x8000 :: u16) = 2 ^ 15" by simp
    then show ?thesis
      by (simp only: and_exp_eq_0_iff_not_bit) (auto simp: bit_simps dest: bit_imp_le_length)
  qed
  note defs = pic_acknowledge_def pic_is_spurious_7_def pic_is_spurious_15_def pic_get_isr_def
    pic_get_irq_reg_def send_eoi_def trace_ports_def
  consider "irq = 7" | "irq = 15" | "irq \<noteq> 7 \<and> irq \<noteq> 15" by blast
  then show ?thesis
    using assms by cases (auto simp: defs Let_def b7 b15 split: if_splits)
qed

theorem acknowledge_commands_witness:
  "\<exists>s'. pic_acknowledge trace_ports 12 (0, \<lparr>input = \<lambda>_. 0, writes = []\<rparr>) = (False, 0, s') \<and>
    writes s' = [(0xa0, 0x20), (0x20, 0x20)]"
proof -
  obtain r b s' where a: "pic_acknowledge trace_ports 12 (0, \<lparr>input = \<lambda>_. 0, writes = []\<rparr>) = (r, b, s')"
    by (metis prod_cases3)
  show ?thesis using a acknowledge_commands [OF a refl refl] by (simp add: pic_ports PIC_EOI_def)
qed

end
