(* ===== verification/Descriptors.thy ===== *)
theory Descriptors
  imports Kernel_Prelude
begin

text \<open>
  The descriptor tables of \<^verbatim>\<open>kernel/gdt.c\<close> and \<^verbatim>\<open>kernel/idt.c\<close>: the fields the processor reads,
  how the setters fill them from addresses, limits and flags, and what the two initialisers
  leave in the tables. The addresses of the interrupt stubs and of the task state segment are
  arguments.
\<close>

section \<open>Segment descriptors\<close>

record gdt_entry =
  limit_low :: u16
  base_low :: u16
  base_middle :: u8
  gaccess :: u8
  gflags :: u8
  base_high :: u8

record tss_entry =
  prev_tss :: u32
  t_esp0 :: u32
  t_ss0 :: u32
  t_esp1 :: u32
  t_ss1 :: u32
  t_esp2 :: u32
  t_ss2 :: u32
  t_cr3 :: u32
  t_eip :: u32
  t_eflags :: u32
  t_eax :: u32
  t_ecx :: u32
  t_edx :: u32
  t_ebx :: u32
  t_esp :: u32
  t_ebp :: u32
  t_esi :: u32
  t_edi :: u32
  t_es :: u32
  t_cs :: u32
  t_ss :: u32
  t_ds :: u32
  t_fs :: u32
  t_gs :: u32
  t_ldt :: u32
  t_trap :: u32
  t_iomap_base :: u32

definition zero_tss :: tss_entry where
  "zero_tss = \<lparr>prev_tss = 0, t_esp0 = 0, t_ss0 = 0, t_esp1 = 0, t_ss1 = 0, t_esp2 = 0, t_ss2 = 0,
     t_cr3 = 0, t_eip = 0, t_eflags = 0, t_eax = 0, t_ecx = 0, t_edx = 0, t_ebx = 0, t_esp = 0,
     t_ebp = 0, t_esi = 0, t_edi = 0, t_es = 0, t_cs = 0, t_ss = 0, t_ds = 0, t_fs = 0, t_gs = 0,
     t_ldt = 0, t_trap = 0, t_iomap_base = 0\<rparr>"

definition sizeof_tss :: u32 where "sizeof_tss = 27 * 4"

datatype gdt_index =
  GDT_INDEX_NULL | GDT_INDEX_KCODE | GDT_INDEX_KDATA | GDT_INDEX_UCODE | GDT_INDEX_UDATA | GDT_INDEX_TSS

record gdt_state =
  gdt_entries :: "gdt_index \<Rightarrow> gdt_entry"
  gdt_limit :: u16
  gdt_tss :: tss_entry

definition ACCESS_KCODE :: u8 where "ACCESS_KCODE = 0x80 OR 0x00 OR 0x10 OR 0x02 OR 0x08"

definition ACCESS_UCODE :: u8 where "ACCESS_UCODE = 0x80 OR 0x60 OR 0x10 OR 0x02 OR 0x08"

definition ACCESS_KDATA :: u8 where "ACCESS_KDATA = 0x80 OR 0x00 OR 0x10 OR 0x02"

definition ACCESS_UDATA :: u8 where "ACCESS_UDATA = 0x80 OR 0x60 OR 0x10 OR 0x02"

definition GDT_FLAGS :: u8 where "GDT_FLAGS = 0x80 OR 0x40"

definition gdt_set_gate :: "gdt_index \<Rightarrow> u32 \<Rightarrow> u32 \<Rightarrow> u8 \<Rightarrow> u8 \<Rightarrow> gdt_state \<Rightarrow> gdt_state" where
  "gdt_set_gate index base limit acc flags s =
     s\<lparr>gdt_entries := (gdt_entries s)(index :=
       \<lparr>limit_low = ucast (limit AND 0xffff), base_low = ucast (base AND 0xffff),
        base_middle = ucast (drop_bit 16 base AND 0xff), gaccess = acc,
        gflags = (flags AND 0xf0) OR ucast (drop_bit 16 limit AND 0x0f),
        base_high = ucast (drop_bit 24 base AND 0xff)\<rparr>)\<rparr>"

definition write_tss :: "u32 \<Rightarrow> gdt_index \<Rightarrow> u16 \<Rightarrow> u32 \<Rightarrow> gdt_state \<Rightarrow> gdt_state" where
  "write_tss tss_addr index ss0 esp0 s =
     (let base = tss_addr; limit = base + sizeof_tss;
          s = gdt_set_gate index base limit 0xe9 0x00 s
      in s\<lparr>gdt_tss := zero_tss\<lparr>t_ss0 := ucast ss0, t_esp0 := esp0, t_cs := 0x0b,
             t_ss := 0x13, t_ds := 0x13, t_es := 0x13, t_fs := 0x13, t_gs := 0x13\<rparr>\<rparr>)"

definition set_kernel_stack :: "u32 \<Rightarrow> gdt_state \<Rightarrow> gdt_state" where
  "set_kernel_stack stack s = s\<lparr>gdt_tss := (gdt_tss s)\<lparr>t_esp0 := stack\<rparr>\<rparr>"

definition gdt_init :: "u32 \<Rightarrow> gdt_state \<Rightarrow> gdt_state" where
  "gdt_init tss_addr s =
     (let s = s\<lparr>gdt_limit := 8 * 6 - 1\<rparr>;
          s = gdt_set_gate GDT_INDEX_NULL 0 0 0 0 s;
          s = gdt_set_gate GDT_INDEX_KCODE 0 0xffffffff ACCESS_KCODE GDT_FLAGS s;
          s = gdt_set_gate GDT_INDEX_UCODE 0 0xffffffff ACCESS_UCODE GDT_FLAGS s;
          s = gdt_set_gate GDT_INDEX_KDATA 0 0xffffffff ACCESS_KDATA GDT_FLAGS s;
          s = gdt_set_gate GDT_INDEX_UDATA 0 0xffffffff ACCESS_UDATA GDT_FLAGS s
      in write_tss tss_addr GDT_INDEX_TSS 0x10 0x00 s)"

section \<open>Interrupt gates\<close>

record idt_entry =
  i_base_low :: u16
  i_selector :: u16
  i_zero :: u8
  i_flags :: u8
  i_base_high :: u16

type_synonym idt = "u8 \<Rightarrow> idt_entry"

definition zero_idt_entry :: idt_entry where
  "zero_idt_entry = \<lparr>i_base_low = 0, i_selector = 0, i_zero = 0, i_flags = 0, i_base_high = 0\<rparr>"

definition IDT_FLAGS_RING0 :: u8 where "IDT_FLAGS_RING0 = 0x80 OR 0x00 OR 0x0e"

definition IDT_FLAGS_RING3 :: u8 where "IDT_FLAGS_RING3 = 0x80 OR 0x60 OR 0x0e"

definition KCODE_SEL :: u16 where "KCODE_SEL = 0x08"

definition SYSCALL_VECTOR :: u8 where "SYSCALL_VECTOR = 0x80"

definition idt_set_gate :: "u8 \<Rightarrow> u32 \<Rightarrow> u16 \<Rightarrow> u8 \<Rightarrow> idt \<Rightarrow> idt" where
  "idt_set_gate index callback sel fl idt =
     idt(index := \<lparr>i_base_low = ucast (callback AND 0xffff), i_selector = sel, i_zero = 0,
       i_flags = fl, i_base_high = ucast (drop_bit 16 callback AND 0xffff)\<rparr>)"

text \<open>The stubs \<open>isr0\<close> to \<open>isr31\<close> and \<open>isr128\<close> are at the addresses \<open>stub\<close>.\<close>

definition idt_init :: "(u8 \<Rightarrow> u32) \<Rightarrow> idt" where
  "idt_init stub =
     idt_set_gate SYSCALL_VECTOR (stub 128) KCODE_SEL IDT_FLAGS_RING3
       (fold (\<lambda>i. idt_set_gate i (stub i) KCODE_SEL IDT_FLAGS_RING0)
          (map of_nat ([0..<15] @ [16..<32]))
          (\<lambda>_. zero_idt_entry))"

definition irq_gates :: "(u8 \<Rightarrow> u32) \<Rightarrow> idt \<Rightarrow> idt" where
  "irq_gates irq_stub =
     fold (\<lambda>i. idt_set_gate (0x20 + i) (irq_stub i) KCODE_SEL IDT_FLAGS_RING0)
       (map of_nat [0..<16])"

section \<open>What the processor reads\<close>

definition seg_base :: "gdt_entry \<Rightarrow> u32" where
  "seg_base e = ucast (base_low e) OR push_bit 16 (ucast (base_middle e)) OR push_bit 24 (ucast (base_high e))"

definition seg_limit :: "gdt_entry \<Rightarrow> u32" where
  "seg_limit e = ucast (limit_low e) OR push_bit 16 (ucast (gflags e) AND 0x0f)"

definition gate_offset :: "idt_entry \<Rightarrow> u32" where
  "gate_offset e = ucast (i_base_low e) OR push_bit 16 (ucast (i_base_high e))"

lemma masks_as_powers:
  "(0xffff :: u32) = mask 16" "(0xff :: u32) = mask 8" "(0x0f :: u32) = mask 4" "(0xf0 :: u8) = push_bit 4 (mask 4)"
  "(0xfffff :: u32) = mask 20"
  by (simp_all add: mask_eq_exp_minus_1)

lemma join_bytes:
  "ucast (ucast (v AND mask 16) :: u16) OR push_bit 16 (ucast (ucast (drop_bit 16 v AND mask 8) :: u8)) OR
     push_bit 24 (ucast (ucast (drop_bit 24 v AND mask 8) :: u8)) = (v :: u32)" (is "?l = v")
proof (rule bit_word_eqI)
  fix n assume "n < LENGTH(32)"
  then show "bit ?l n = bit v n" by (cases "24 \<le> n") (auto simp: bit_simps)
qed

lemma seg_base_set: "seg_base (gdt_entries (gdt_set_gate i base limit acc fl s) i) = base"
  unfolding seg_base_def gdt_set_gate_def masks_as_powers by (simp add: join_bytes)

lemma seg_limit_set: "seg_limit (gdt_entries (gdt_set_gate i base limit acc fl s) i) = limit AND 0xfffff"
  unfolding seg_limit_def gdt_set_gate_def masks_as_powers
  by (rule bit_word_eqI) (auto simp: bit_simps)

text \<open>
  The processor reads back from a segment descriptor the base, the low twenty bits
  of the limit, the access byte and the flags it was set with, and the setter changes no other
  descriptor.
\<close>

theorem gdt_gate_roundtrip:
  "let e = gdt_entries (gdt_set_gate i base limit acc fl s) i
   in seg_base e = base \<and> seg_limit e = limit AND 0xfffff \<and> gaccess e = acc \<and>
      gflags e AND 0xf0 = fl AND 0xf0 \<and>
      (\<forall>j. j \<noteq> i \<longrightarrow> gdt_entries (gdt_set_gate i base limit acc fl s) j = gdt_entries s j)"
proof -
  have "((fl AND 0xf0) OR ucast (drop_bit 16 limit AND 0x0f)) AND 0xf0 = fl AND (0xf0 :: u8)"
    unfolding masks_as_powers by (rule bit_word_eqI) (auto simp: bit_simps)
  then show ?thesis using seg_base_set seg_limit_set by (simp add: Let_def gdt_set_gate_def)
qed

theorem gdt_gate_roundtrip_witness:
  "seg_base (gdt_entries (gdt_set_gate GDT_INDEX_UCODE 0x12345678 0xffffffff 0xfa 0xcf
     \<lparr>gdt_entries = \<lambda>_. \<lparr>limit_low = 0, base_low = 0, base_middle = 0, gaccess = 0, gflags = 0, base_high = 0\<rparr>,
      gdt_limit = 0, gdt_tss = zero_tss\<rparr>) GDT_INDEX_UCODE) = 0x12345678"
  using gdt_gate_roundtrip by (simp add: Let_def)

text \<open>
  After \<open>gdt_init\<close> the code and data segments of the kernel and of user threads span
  the whole address space with their privilege levels, and the task state segment starts at
  its address; its limit is the address of its end, not its size.
\<close>

theorem gdt_init_segments:
  "let g = gdt_init tss_addr s
   in (\<forall>i\<in>{GDT_INDEX_KCODE, GDT_INDEX_KDATA, GDT_INDEX_UCODE, GDT_INDEX_UDATA}.
        seg_base (gdt_entries g i) = 0 \<and> seg_limit (gdt_entries g i) = 0xfffff \<and>
        bit (gflags (gdt_entries g i)) 7 \<and> bit (gaccess (gdt_entries g i)) 7 \<and>
        drop_bit 5 (gaccess (gdt_entries g i)) AND 3 =
          (if i \<in> {GDT_INDEX_UCODE, GDT_INDEX_UDATA} then 3 else 0)) \<and>
      seg_base (gdt_entries g GDT_INDEX_TSS) = tss_addr \<and>
      seg_limit (gdt_entries g GDT_INDEX_TSS) = (tss_addr + 108) AND 0xfffff"
proof -
  let ?e = "\<lambda>i. gdt_entries (gdt_init tss_addr s) i"
  have e: "?e GDT_INDEX_KCODE = gdt_entries (gdt_set_gate GDT_INDEX_KCODE 0 0xffffffff ACCESS_KCODE GDT_FLAGS s) GDT_INDEX_KCODE"
    "?e GDT_INDEX_KDATA = gdt_entries (gdt_set_gate GDT_INDEX_KDATA 0 0xffffffff ACCESS_KDATA GDT_FLAGS s) GDT_INDEX_KDATA"
    "?e GDT_INDEX_UCODE = gdt_entries (gdt_set_gate GDT_INDEX_UCODE 0 0xffffffff ACCESS_UCODE GDT_FLAGS s) GDT_INDEX_UCODE"
    "?e GDT_INDEX_UDATA = gdt_entries (gdt_set_gate GDT_INDEX_UDATA 0 0xffffffff ACCESS_UDATA GDT_FLAGS s) GDT_INDEX_UDATA"
    "?e GDT_INDEX_TSS = gdt_entries (gdt_set_gate GDT_INDEX_TSS tss_addr (tss_addr + sizeof_tss) 0xe9 0 s) GDT_INDEX_TSS"
    by (simp_all add: gdt_init_def write_tss_def gdt_set_gate_def Let_def)
  have f: "gflags (gdt_entries (gdt_set_gate i 0 0xffffffff acc GDT_FLAGS s) i) = 0xcf"
    "gaccess (gdt_entries (gdt_set_gate i 0 0xffffffff acc GDT_FLAGS s) i) = acc" for i acc
    by (simp_all add: gdt_set_gate_def GDT_FLAGS_def)
  have b: "bit (0xcf :: u8) 7" "bit ACCESS_KCODE 7" "bit ACCESS_KDATA 7" "bit ACCESS_UCODE 7" "bit ACCESS_UDATA 7"
    "drop_bit 5 ACCESS_KCODE AND 3 = 0" "drop_bit 5 ACCESS_KDATA AND 3 = 0"
    "drop_bit 5 ACCESS_UCODE AND 3 = 3" "drop_bit 5 ACCESS_UDATA AND 3 = 3"
    by code_simp+
  have t: "tss_addr + sizeof_tss = tss_addr + 108" by (simp add: sizeof_tss_def)
  show ?thesis
    by (simp add: Let_def e f b seg_base_set seg_limit_set t)
qed

theorem gdt_init_segments_witness:
  "seg_limit (gdt_entries (gdt_init 0xc0105000
     \<lparr>gdt_entries = \<lambda>_. \<lparr>limit_low = 0, base_low = 0, base_middle = 0, gaccess = 0, gflags = 0, base_high = 0\<rparr>,
      gdt_limit = 0, gdt_tss = zero_tss\<rparr>) GDT_INDEX_TSS) = 0x0506c"
  using gdt_init_segments [of "0xc0105000"] by (simp add: Let_def)

lemma gate_offset_set: "gate_offset (idt_set_gate i callback sel fl idt i) = callback"
  unfolding gate_offset_def idt_set_gate_def masks_as_powers
  by (simp, rule bit_word_eqI) (auto simp: bit_simps)

definition gate :: "u32 \<Rightarrow> u8 \<Rightarrow> idt_entry" where
  "gate callback fl = idt_set_gate 0 callback KCODE_SEL fl (\<lambda>_. zero_idt_entry) 0"

lemma set_gates_other:
  "v \<notin> f ` set xs \<Longrightarrow> fold (\<lambda>i. idt_set_gate (f i) (st i) sel fl) xs idt v = idt v"
  by (induction xs arbitrary: idt) (auto simp: idt_set_gate_def)

lemma set_gates_at:
  assumes "i \<in> set xs" "inj_on f (set xs)"
  shows "fold (\<lambda>i. idt_set_gate (f i) (st i) KCODE_SEL fl) xs idt (f i) = gate (st i) fl"
  using assms
proof (induction xs arbitrary: idt)
  case (Cons x xs)
  show ?case
  proof (cases "i \<in> set xs")
    case True
    then show ?thesis using Cons by simp
  next
    case False
    then have n: "f i \<notin> f ` set xs" "i = x" using Cons.prems by (auto simp: inj_on_def)
    have "fold (\<lambda>i. idt_set_gate (f i) (st i) KCODE_SEL fl) (x # xs) idt (f i) =
        idt_set_gate (f x) (st x) KCODE_SEL fl idt (f i)"
      using set_gates_other [OF n(1)] by simp
    also have "\<dots> = gate (st i) fl" using n(2) by (simp add: gate_def idt_set_gate_def)
    finally show ?thesis .
  qed
qed simp

lemma vector_list: "(of_nat k :: u8) \<in> set (map of_nat ks) \<longleftrightarrow> k \<in> set ks" if "k < 256" "\<forall>j\<in>set ks. j < 256" for k ks
proof
  assume "(of_nat k :: u8) \<in> set (map of_nat ks)"
  then obtain j where j: "j \<in> set ks" "(of_nat k :: u8) = of_nat j" by auto
  then have "unat (of_nat k :: u8) = unat (of_nat j :: u8)" by simp
  moreover have "j < 256" using j(1) that(2) by blast
  ultimately have "k = j" using that(1) by (simp add: unat_of_nat)
  then show "k \<in> set ks" using j(1) by simp
qed auto

lemma exception_vectors:
  "(v :: u8) \<in> set (map of_nat ([0..<15] @ [16..<32])) \<longleftrightarrow> v < 32 \<and> v \<noteq> 15"
proof -
  have "unat v < 256" using unsigned_less [of v, where 'a = nat] by simp
  then have "(of_nat (unat v) :: u8) \<in> set (map of_nat ([0..<15] @ [16..<32])) \<longleftrightarrow>
      unat v \<in> set ([0..<15] @ [16..<32])"
    by (rule vector_list) auto
  also have "unat v \<in> set ([0..<15] @ [16..<32]) \<longleftrightarrow> unat v < 32 \<and> unat v \<noteq> 15"
    unfolding set_append set_upt by auto
  finally show ?thesis by (simp add: word_less_nat_alt word_unat_eq_iff)
qed

lemma line_vectors:
  "(v :: u8) \<in> (+) 32 ` set (map of_nat [0..<16]) \<longleftrightarrow> 32 \<le> v \<and> v < 48"
proof
  assume "v \<in> (+) 32 ` set (map of_nat [0..<16])"
  then obtain j where "j < 16" "v = 32 + of_nat j" by auto
  then have "unat v = 32 + j" by (simp add: unat_word_ariths unat_of_nat)
  then show "32 \<le> v \<and> v < 48" using \<open>j < 16\<close> by (simp add: word_less_nat_alt word_le_nat_alt)
next
  assume a: "32 \<le> v \<and> v < 48"
  then have k: "32 \<le> unat v" "unat v < 48" by (auto simp: word_less_nat_alt word_le_nat_alt)
  then have v: "v = 32 + of_nat (unat v - 32)" by (simp add: of_nat_diff)
  have "unat v - 32 \<in> set [0..<16]" using k by auto
  then have "of_nat (unat v - 32) \<in> (of_nat ` set [0..<16] :: u8 set)" by (rule imageI)
  then show "v \<in> (+) 32 ` set (map of_nat [0..<16])" by (subst v) (simp only: set_map imageI)
qed

lemma idt_init_at:
  "idt_init stub v =
     (if v = 128 then gate (stub v) IDT_FLAGS_RING3
      else if v < 32 \<and> v \<noteq> 15 then gate (stub v) IDT_FLAGS_RING0 else zero_idt_entry)"
proof -
  define t where "t = fold (\<lambda>i. idt_set_gate i (stub i) KCODE_SEL IDT_FLAGS_RING0)
    (map of_nat ([0..<15] @ [16..<32])) (\<lambda>_. zero_idt_entry)"
  have "t v = gate (stub v) IDT_FLAGS_RING0" if "v < 32 \<and> v \<noteq> 15"
    unfolding t_def using that exception_vectors [of v] inj_on_id2
    by (intro set_gates_at [where f = "\<lambda>i. i"]) (blast, blast)
  moreover have "t v = zero_idt_entry" if "\<not> (v < 32 \<and> v \<noteq> 15)"
    unfolding t_def by (rule set_gates_other) (use that exception_vectors [of v] in \<open>simp only: image_ident simp_thms\<close>)
  moreover have "idt_init stub = idt_set_gate SYSCALL_VECTOR (stub 128) KCODE_SEL IDT_FLAGS_RING3 t"
    by (simp only: idt_init_def t_def)
  ultimately show ?thesis by (auto simp: SYSCALL_VECTOR_def gate_def idt_set_gate_def)
qed

lemma irq_gates_at:
  "irq_gates irq_stub idt v = (if 32 \<le> v \<and> v < 48 then gate (irq_stub (v - 32)) IDT_FLAGS_RING0 else idt v)"
proof (cases "32 \<le> v \<and> v < 48")
  case True
  then obtain i where i: "i \<in> set (map of_nat [0..<16])" "v = 32 + i" using line_vectors [of v] by blast
  have "irq_gates irq_stub idt (32 + i) = gate (irq_stub i) IDT_FLAGS_RING0"
    unfolding irq_gates_def by (rule set_gates_at [OF i(1)]) (simp add: inj_on_def)
  then show ?thesis using True i(2) by (metis add_diff_cancel_left')
next
  case False
  then have "v \<notin> (+) 32 ` set (map of_nat [0..<16])" unfolding line_vectors .
  then have "irq_gates irq_stub idt v = idt v" unfolding irq_gates_def by (rule set_gates_other)
  then show ?thesis using False by auto
qed

lemma gate_fields: "gate_offset (gate c fl) = c" "i_flags (gate c fl) = fl"
  "gate_offset zero_idt_entry = 0" "i_flags zero_idt_entry = 0"
  using gate_offset_set [of 0 c KCODE_SEL fl "\<lambda>_. zero_idt_entry"]
  by (simp_all add: gate_def idt_set_gate_def gate_offset_def zero_idt_entry_def)

lemma gate_flags: "bit IDT_FLAGS_RING0 7" "drop_bit 5 IDT_FLAGS_RING0 AND 3 \<noteq> 3"
  "bit IDT_FLAGS_RING3 7" "drop_bit 5 IDT_FLAGS_RING3 AND 3 = 3" by code_simp+

text \<open>
  After the two initialisers every processor exception but 15 and every interrupt
  line has a present gate of the kernel's privilege with the address of its stub, the vector
  of the system calls has one that user threads may use, and no other vector has a gate.
\<close>

theorem interrupt_gates:
  assumes "g = irq_gates irq_stub (idt_init stub)"
  shows "gate_offset (g v) =
      (if v < 32 \<and> v \<noteq> 15 then stub v else if 32 \<le> v \<and> v < 48 then irq_stub (v - 32)
       else if v = 128 then stub v else 0) \<and>
    (bit (i_flags (g v)) 7 \<longleftrightarrow> v < 48 \<and> v \<noteq> 15 \<or> v = 128) \<and>
    (drop_bit 5 (i_flags (g v)) AND 3 = 3 \<longleftrightarrow> v = 128)"
proof -
  consider (exc) "v < 32 \<and> v \<noteq> 15" | (none) "v = 15" | (line) "32 \<le> v \<and> v < 48" | (call) "v = 128"
    | (other) "48 \<le> v" "v \<noteq> 128" by (metis linorder_not_less)
  then show ?thesis
  proof cases
    case exc
    then have "v < 48" "\<not> 32 \<le> v" "v \<noteq> 128" by (auto simp: word_less_nat_alt word_le_nat_alt)
    then show ?thesis using exc by (simp add: assms irq_gates_at idt_init_at gate_fields gate_flags)
  next
    case line
    then have "\<not> v < 32" "v \<noteq> 128" "v \<noteq> 15" by (auto simp: word_less_nat_alt word_le_nat_alt)
    then show ?thesis using line by (simp add: assms irq_gates_at gate_fields gate_flags)
  next
    case other
    then have "\<not> v < 32" "\<not> v < 48" "v \<noteq> 15" by (auto simp: word_less_nat_alt word_le_nat_alt)
    then show ?thesis using other by (simp add: assms irq_gates_at idt_init_at gate_fields)
  qed (simp_all add: assms irq_gates_at idt_init_at gate_fields gate_flags)
qed

theorem interrupt_gates_witness:
  "gate_offset (irq_gates (\<lambda>i. 0xc0200000 + ucast i) (idt_init (\<lambda>i. 0xc0100000)) 33) = 0xc0200001"
  using interrupt_gates [OF refl, of "\<lambda>i. 0xc0200000 + ucast i" "\<lambda>i. 0xc0100000" 33] by simp

end
