(* ===== verification/Scheduler.thy ===== *)
theory Scheduler
  imports Kernel_Prelude
begin

text \<open>
  Threads and the round-robin scheduler: \<^verbatim>\<open>kernel/thread.c\<close> and \<^verbatim>\<open>kernel/scheduler.c\<close>. Threads
  are records at addresses; the doubly linked ring is in their \<open>next_t\<close> and \<open>prev_t\<close> fields. The
  code runs with interrupts disabled between \<open>irq_save\<close> and \<open>irq_restore\<close>, so each operation
  is one step. The heap functions \<open>kmalloc\<close> and \<open>kfree\<close> are arguments of the operations that
  call them, and the readings of the cycle counter are inputs of \<open>schedule_tick\<close>.
\<close>

section \<open>Threads and the scheduler's state\<close>

datatype task_state = TASK_SLEEP | TASK_READY | TASK_RUNNING | TASK_FINISHED

record thread =
  process :: u32
  esp :: u32
  ss :: u32
  kstack :: u32
  ustack :: u32
  page_dir :: u32
  tid :: u32
  state :: task_state
  priority :: u32
  runtime :: u64
  next_t :: u32
  prev_t :: u32

text \<open>\<open>memset\<close> to zero; the state 0 is \<open>TASK_SLEEP\<close>.\<close>

definition zero_thread :: thread where
  "zero_thread = \<lparr>process = 0, esp = 0, ss = 0, kstack = 0, ustack = 0, page_dir = 0, tid = 0,
     state = TASK_SLEEP, priority = 0, runtime = 0, next_t = 0, prev_t = 0\<rparr>"

record proc =
  proc_priority :: u32
  proc_page_dir :: u32

record 'h sched =
  threads :: "u32 \<Rightarrow> thread"
  procs :: "u32 \<Rightarrow> proc"
  current_thread :: u32
  kernel_thread :: u32
  scheduling :: bool
  num_threads :: u32
  last_thread_id :: u32
  current_directory :: u32
  kernel_directory :: u32
  old_cycles_count :: u64
  kernel_stack :: u32
  stack_mem :: mem
  kheap_state :: 'h

definition upd_thread :: "u32 \<Rightarrow> (thread \<Rightarrow> thread) \<Rightarrow> 'h sched \<Rightarrow> 'h sched" where
  "upd_thread t f s = s\<lparr>threads := (threads s)(t := f (threads s t))\<rparr>"

section \<open>The ring\<close>

definition schedule_thread :: "u32 \<Rightarrow> 'h sched \<Rightarrow> 'h sched" where
  "schedule_thread t s =
     (if t = 0 then s
      else let s = upd_thread t (\<lambda>th. th\<lparr>state := TASK_READY, next_t := 0, prev_t := 0\<rparr>) s in
        if kernel_thread s = 0
        then upd_thread t (\<lambda>th. th\<lparr>next_t := t, prev_t := t\<rparr>) (s\<lparr>kernel_thread := t, current_thread := t\<rparr>)
        else let c = current_thread s;
                 s = upd_thread t (\<lambda>th. th\<lparr>prev_t := prev_t (threads s c)\<rparr>) s;
                 s = upd_thread t (\<lambda>th. th\<lparr>next_t := c\<rparr>) s;
                 s = upd_thread (prev_t (threads s c)) (\<lambda>th. th\<lparr>next_t := t\<rparr>) s
             in upd_thread c (\<lambda>th. th\<lparr>prev_t := t\<rparr>) s)"

definition unschedule_thread :: "u32 \<Rightarrow> 'h sched \<Rightarrow> 'h sched" where
  "unschedule_thread t s =
     (if t = 0 \<or> t = kernel_thread s then s
      else let s = (if prev_t (threads s t) \<noteq> 0
                    then upd_thread (prev_t (threads s t)) (\<lambda>th. th\<lparr>next_t := next_t (threads s t)\<rparr>) s else s)
           in if next_t (threads s t) \<noteq> 0
              then upd_thread (next_t (threads s t)) (\<lambda>th. th\<lparr>prev_t := prev_t (threads s t)\<rparr>) s else s)"

text \<open>The search spins for ever on a ring of sleeping threads, which is \<open>None\<close>.\<close>

partial_function (option) skip_sleeping :: "(u32 \<Rightarrow> thread) \<Rightarrow> u32 \<Rightarrow> u32 option" where
  "skip_sleeping th t =
     (if t \<noteq> 0 \<and> state (th t) = TASK_SLEEP then skip_sleeping th (next_t (th t)) else Some t)"

definition next_ready_thread :: "'h sched \<Rightarrow> u32 option" where
  "next_ready_thread s =
     (if current_thread s = 0 then Some 0
      else skip_sleeping (threads s) (next_t (threads s (current_thread s))))"

section \<open>Creating and destroying threads\<close>

definition request_thread_id :: "'h sched \<Rightarrow> u32 \<times> 'h sched" where
  "request_thread_id s = (last_thread_id s + 1, s\<lparr>last_thread_id := last_thread_id s + 1\<rparr>)"

definition create_kernel_thread :: "(u32 \<Rightarrow> 'h \<Rightarrow> u32 \<times> 'h) \<Rightarrow> 'h sched \<Rightarrow> 'h sched" where
  "create_kernel_thread kmalloc s =
     (let (t, h) = kmalloc 52 (kheap_state s); s = s\<lparr>kheap_state := h\<rparr> in
      if t = 0 then s
      else let (i, s) = request_thread_id s;
               s = upd_thread t (\<lambda>_. zero_thread\<lparr>tid := i, process := 0,
                      page_dir := current_directory s\<rparr>) s;
               s = s\<lparr>num_threads := num_threads s + 1\<rparr>
           in schedule_thread t s)"

text \<open>The words pushed on a stack that grows downwards, first pushed first.\<close>

fun push_words :: "u32 \<Rightarrow> u32 list \<Rightarrow> mem \<Rightarrow> u32 \<times> mem" where
  "push_words sp [] m = (sp, m)"
| "push_words sp (w # ws) m = push_words (sp - 4) ws (m(sp - 4 := w))"

definition STACK_SIZE :: u32 where "STACK_SIZE = 0x2000"

definition kernel_frame :: "bool \<Rightarrow> bool \<Rightarrow> u32 \<Rightarrow> u32 \<Rightarrow> u32 \<Rightarrow> u32 \<Rightarrow> u32 list" where
  "kernel_frame user vm86 entry args usp exit_addr =
     (let data_segment = (if user then 0x23 else 0x10);
          code_segment = (if user then 0x1b else 0x08);
          eflags = (if user then 0x3202 else 0x0202) OR (if vm86 then push_bit 17 1 else 0)
      in (if user then [0x23, usp] else [args, exit_addr]) @
         [eflags, code_segment, entry, 0, 0, 0, 0, 0, 0, 0, 0, 0] @
         [data_segment, data_segment, data_segment, data_segment])"

text \<open>
  The stacks are filled, the thread record is completed and the thread is put in the ring.
  Setting the priority reads the process record before the test for a null process.
\<close>

definition create_thread ::
  "(u32 \<Rightarrow> 'h \<Rightarrow> u32 \<times> 'h) \<Rightarrow> u32 \<Rightarrow> u32 \<Rightarrow> u32 \<Rightarrow> u32 \<Rightarrow> u32 \<Rightarrow> bool \<Rightarrow> bool \<Rightarrow> 'h sched
     \<Rightarrow> u32 \<times> 'h sched" where
  "create_thread kmalloc exit_addr pr entry args prio user vm86 s =
     (let (t, h) = kmalloc 52 (kheap_state s); s = s\<lparr>kheap_state := h\<rparr> in
      if t = 0 then (0, s)
      else let s = upd_thread t (\<lambda>_. zero_thread) s;
               (ks, h) = kmalloc STACK_SIZE (kheap_state s);
               s = upd_thread t (\<lambda>th. th\<lparr>kstack := ks\<rparr>) (s\<lparr>kheap_state := h\<rparr>) in
        if ks = 0 then (0, s)
        else let (us, h) = (if user then kmalloc STACK_SIZE (kheap_state s) else (0, kheap_state s));
                 s = upd_thread t (\<lambda>th. th\<lparr>ustack := us\<rparr>) (s\<lparr>kheap_state := h\<rparr>) in
          if user \<and> us = 0 then (0, s)
          else let (usp, m) = (if user then push_words (us + STACK_SIZE) [args, 0xdeadcaca] (stack_mem s)
                               else (0, stack_mem s));
                   (ksp, m) = push_words (ks + STACK_SIZE)
                                (kernel_frame user vm86 entry args usp exit_addr) m;
                   s = s\<lparr>stack_mem := m\<rparr>;
                   (i, s) = request_thread_id s;
                   s = upd_thread t (\<lambda>th. th\<lparr>esp := ksp, ss := if user then 0x23 else 0x10, tid := i,
                         process := pr, priority := min prio (proc_priority (procs s pr)),
                         page_dir := if pr \<noteq> 0 then proc_page_dir (procs s pr) else kernel_directory s,
                         runtime := 0\<rparr>) s;
                   s = s\<lparr>num_threads := num_threads s + 1\<rparr>;
                   s = schedule_thread t s
               in (tid (threads s t), s))"

definition destroy_thread :: "(u32 \<Rightarrow> 'h \<Rightarrow> 'h) \<Rightarrow> u32 \<Rightarrow> 'h sched \<Rightarrow> 'h sched" where
  "destroy_thread kfree t s =
     (if t = 0 then s
      else let h = kfree (kstack (threads s t)) (kheap_state s);
               h = (if ustack (threads s t) \<noteq> 0 then kfree (ustack (threads s t)) h else h)
           in s\<lparr>num_threads := num_threads s - 1, kheap_state := kfree t h\<rparr>)"

definition thread_exit :: "'h sched \<Rightarrow> 'h sched" where
  "thread_exit s = upd_thread (current_thread s) (\<lambda>th. th\<lparr>state := TASK_FINISHED\<rparr>) s"

section \<open>The timer tick\<close>

definition switch_page_directory :: "u32 \<Rightarrow> 'h sched \<Rightarrow> 'h sched" where
  "switch_page_directory dir s = (if dir = 0 then s else s\<lparr>current_directory := dir\<rparr>)"

text \<open>The three readings of the cycle counter are \<open>c0\<close> (first tick only), \<open>c1\<close> and \<open>c2\<close>.\<close>

definition schedule_tick ::
  "(u32 \<Rightarrow> 'h \<Rightarrow> 'h) \<Rightarrow> u32 \<Rightarrow> u64 \<Rightarrow> u64 \<Rightarrow> u64 \<Rightarrow> 'h sched \<Rightarrow> (u32 \<times> 'h sched) option" where
  "schedule_tick kfree regs c0 c1 c2 s =
     (let s = (if old_cycles_count s = 0 then s\<lparr>old_cycles_count := c0\<rparr> else s) in
      case next_ready_thread s of
        None \<Rightarrow> None
      | Some nxt \<Rightarrow>
          let (new_esp, s) =
            (if nxt \<noteq> 0 \<and> nxt \<noteq> current_thread s
             then let c = current_thread s;
                      s = (if state (threads s c) = TASK_FINISHED
                           then destroy_thread kfree c (unschedule_thread c s)
                           else upd_thread c (\<lambda>th. th\<lparr>esp := regs, state := TASK_READY,
                                  runtime := runtime th + (c1 - old_cycles_count s)\<rparr>) s);
                      e = esp (threads s nxt);
                      s = s\<lparr>kernel_stack := e\<rparr>;
                      s = upd_thread nxt (\<lambda>th. th\<lparr>state := TASK_RUNNING\<rparr>) s;
                      s = s\<lparr>current_thread := nxt\<rparr>;
                      s = (if current_directory s \<noteq> page_dir (threads s nxt)
                           then switch_page_directory (page_dir (threads s nxt)) s else s)
                  in (e, s)
             else (regs, s))
          in Some (new_esp, s\<lparr>old_cycles_count := c2\<rparr>))"

definition scheduling_init :: "(u32 \<Rightarrow> 'h \<Rightarrow> u32 \<times> 'h) \<Rightarrow> 'h sched \<Rightarrow> 'h sched" where
  "scheduling_init kmalloc s =
     (let s = (if current_thread s = 0 then create_kernel_thread kmalloc s else s)
      in s\<lparr>scheduling := True\<rparr>)"

definition scheduling_finish :: "'h sched \<Rightarrow> 'h sched" where
  "scheduling_finish s = s\<lparr>scheduling := False\<rparr>"

definition getpid :: "'h sched \<Rightarrow> u32" where
  "getpid s = (if current_thread s \<noteq> 0 then tid (threads s (current_thread s)) else 0)"

end
