(* ===== verification/Scheduler_Ring.thy ===== *)
theory Scheduler_Ring
  imports Scheduler
begin

text \<open>
  The ring of threads refines a list: scheduling a thread appends it behind the current one,
  unscheduling removes it, and the tick moves to the next thread that is not asleep. From
  this follow the invariant of the scheduler and that the threads run in turn.
\<close>

section \<open>Doubly linked rings as lists\<close>

fun chain :: "(u32 \<Rightarrow> u32) \<Rightarrow> (u32 \<Rightarrow> u32) \<Rightarrow> u32 list \<Rightarrow> bool" where
  "chain nx pv (a # b # xs) \<longleftrightarrow> nx a = b \<and> pv b = a \<and> chain nx pv (b # xs)"
| "chain nx pv _ \<longleftrightarrow> True"

definition ring :: "(u32 \<Rightarrow> thread) \<Rightarrow> u32 list \<Rightarrow> bool" where
  "ring th xs \<longleftrightarrow> xs \<noteq> [] \<and> distinct xs \<and> 0 \<notin> set xs \<and>
     chain (\<lambda>t. next_t (th t)) (\<lambda>t. prev_t (th t)) (xs @ [hd xs])"

lemma chain_join: "chain nx pv (xs @ y # ys) \<longleftrightarrow> chain nx pv (xs @ [y]) \<and> chain nx pv (y # ys)"
proof (induction xs)
  case (Cons x xs)
  then show ?case by (cases xs) auto
qed simp

lemma chain_cong:
  "(\<And>x. x \<in> set (butlast xs) \<Longrightarrow> nx x = nx' x) \<Longrightarrow> (\<And>x. x \<in> set (tl xs) \<Longrightarrow> pv x = pv' x) \<Longrightarrow>
     chain nx pv xs = chain nx' pv' xs"
proof (induction xs rule: induct_list012)
  case (3 x y zs)
  have "chain nx pv (y # zs) = chain nx' pv' (y # zs)"
    using 3(3,4) by (intro 3(2)) auto
  moreover have "nx x = nx' x" "pv y = pv' y" using 3(3,4) by auto
  ultimately show ?case by simp
qed auto

lemma ring_rotate: "ring th (x # xs) \<Longrightarrow> ring th (xs @ [x])"
proof (cases xs)
  case (Cons y ys)
  assume r: "ring th (x # xs)"
  let ?c = "chain (\<lambda>t. next_t (th t)) (\<lambda>t. prev_t (th t))"
  from r Cons have "?c ([x] @ y # ys @ [x])" by (simp add: ring_def)
  then have "?c [x, y]" "?c ((y # ys) @ [x])" using chain_join [of _ _ "[x]" y "ys @ [x]"] by auto
  then have "?c ((y # ys) @ x # [y])" by (subst chain_join) simp
  with r Cons show ?thesis by (auto simp: ring_def)
qed simp

lemma ring_rotate_at: "ring th (xs @ x # ys) \<Longrightarrow> ring th (x # ys @ xs)"
proof (induction xs arbitrary: ys)
  case (Cons a xs)
  have "ring th ((xs @ x # ys) @ [a])" using ring_rotate [of th a "xs @ x # ys"] Cons.prems by simp
  then show ?case using Cons.IH [of "ys @ [a]"] by simp
qed simp

lemma ring_unrotate: "ring th (xs @ [x]) \<Longrightarrow> ring th (x # xs)"
  using ring_rotate_at [of th xs x "[]"] by simp

lemma ring_neighbours:
  assumes "ring th (x # xs)"
  shows "next_t (th x) = hd (xs @ [x])" "prev_t (th x) = last (x # xs)"
proof -
  show "next_t (th x) = hd (xs @ [x])" using assms by (cases xs) (auto simp: ring_def)
  show "prev_t (th x) = last (x # xs)"
  proof (cases xs rule: rev_cases)
    case Nil
    then show ?thesis using assms by (simp add: ring_def)
  next
    case (snoc ys y)
    then have "ring th (y # x # ys)" using assms ring_unrotate [of th "x # ys" y] by simp
    then show ?thesis using snoc by (simp add: ring_def)
  qed
qed

section \<open>Scheduling appends\<close>

lemma upd_thread_sel [simp]:
  "threads (upd_thread t f s) = (threads s)(t := f (threads s t))"
  "current_thread (upd_thread t f s) = current_thread s"
  "kernel_thread (upd_thread t f s) = kernel_thread s"
  "current_directory (upd_thread t f s) = current_directory s"
  "old_cycles_count (upd_thread t f s) = old_cycles_count s"
  "num_threads (upd_thread t f s) = num_threads s"
  "kheap_state (upd_thread t f s) = kheap_state s"
  by (simp_all add: upd_thread_def)

lemma ring_insert:
  assumes r: "ring th (c # ys)" and t: "t \<notin> set (c # ys)" "t \<noteq> 0"
    and nx: "\<And>x. next_t (th' x) = (if x = last (c # ys) then t else if x = t then c else next_t (th x))"
    and pv: "\<And>x. prev_t (th' x) = (if x = c then t else if x = t then last (c # ys) else prev_t (th x))"
  shows "ring th' (c # ys @ [t])"
proof -
  define zs where "zs = butlast (c # ys)"
  define l where "l = last (c # ys)"
  have cy: "c # ys = zs @ [l]" by (simp add: zs_def l_def)
  let ?c = "chain (\<lambda>t. next_t (th t)) (\<lambda>t. prev_t (th t))"
  let ?c' = "chain (\<lambda>t. next_t (th' t)) (\<lambda>t. prev_t (th' t))"
  have tc: "t \<noteq> c" using t by simp
  have "l \<in> set (c # ys)" unfolding l_def by (rule last_in_set) simp
  then have tl: "t \<noteq> l" using t(1) by blast
  have d: "distinct (zs @ [l])" using r unfolding ring_def cy by simp
  have "?c (zs @ l # [c])" using r unfolding ring_def by (metis append.assoc append_Cons append_Nil cy list.sel(1))
  then have "?c (zs @ [l])" by (simp add: chain_join [of _ _ zs l "[c]"])
  moreover have "?c' (zs @ [l]) = ?c (zs @ [l])"
  proof (rule chain_cong)
    show "next_t (th' x) = next_t (th x)" if "x \<in> set (butlast (zs @ [l]))" for x
      using that d t cy by (auto simp: nx [folded l_def])
    show "prev_t (th' x) = prev_t (th x)" if "x \<in> set (tl (zs @ [l]))" for x
      using that d t unfolding cy [symmetric] by (auto simp: pv)
  qed
  ultimately have "?c' (zs @ l # [t, c])"
    using tc tl by (subst chain_join) (simp add: nx [folded l_def] pv [folded l_def])
  moreover have "(c # ys @ [t]) @ [c] = zs @ l # [t, c]" using cy by simp
  ultimately have "?c' ((c # ys @ [t]) @ [c])" by (simp only:)
  then show ?thesis using r t tc [symmetric] by (simp add: ring_def)
qed

lemma schedule_thread_ring:
  assumes "ring (threads s) xs" "hd xs = current_thread s" "kernel_thread s \<noteq> 0"
    "t \<notin> set xs" "t \<noteq> 0"
  shows "ring (threads (schedule_thread t s)) (xs @ [t])"
proof -
  obtain c ys where xs: "xs = c # ys" using assms(1) by (cases xs) (auto simp: ring_def)
  have c: "current_thread s = c" "t \<noteq> c" "t \<notin> set ys" using assms(2,4) xs by auto
  have l: "prev_t (threads s c) = last (c # ys)" using ring_neighbours(2) assms(1) xs by simp
  have tl: "t \<noteq> last (c # ys)" using assms(4) xs by (metis last_in_set list.discI)
  define th' where "th' = threads (schedule_thread t s)"
  have "next_t (th' x) = (if x = last (c # ys) then t else if x = t then c else next_t (threads s x))" for x
    unfolding th'_def schedule_thread_def using assms(3,5) c tl l by (auto simp: Let_def)
  moreover have "prev_t (th' x) = (if x = c then t else if x = t then last (c # ys) else prev_t (threads s x))" for x
    unfolding th'_def schedule_thread_def using assms(3,5) c tl l by (auto simp: Let_def)
  ultimately have "ring th' (c # ys @ [t])"
    using assms(1,4,5) xs by (intro ring_insert) auto
  then show ?thesis by (simp add: xs th'_def)
qed

section \<open>Unscheduling removes\<close>

lemma ring_swap: "ring th (xs @ ys) \<Longrightarrow> ring th (ys @ xs)"
  using ring_rotate_at by (cases ys) auto

lemma ring_delete:
  assumes r: "ring th (t # y # ys)"
    and nx: "\<And>x. next_t (th' x) = (if x = last (y # ys) then y else next_t (th x))"
    and pv: "\<And>x. prev_t (th' x) = (if x = y then last (y # ys) else prev_t (th x))"
  shows "ring th' (y # ys)"
proof -
  define zs where "zs = butlast (y # ys)"
  define l where "l = last (y # ys)"
  have cy: "y # ys = zs @ [l]" by (simp add: zs_def l_def)
  let ?c = "chain (\<lambda>t. next_t (th t)) (\<lambda>t. prev_t (th t))"
  let ?c' = "chain (\<lambda>t. next_t (th' t)) (\<lambda>t. prev_t (th' t))"
  have d: "distinct (zs @ [l])" using r unfolding ring_def cy by simp
  have "?c ((y # ys) @ [t])" using r by (simp add: ring_def)
  then have "?c (zs @ [l])" unfolding cy by (simp add: chain_join [of _ _ zs l "[t]"])
  moreover have "?c' (zs @ [l]) = ?c (zs @ [l])"
  proof (rule chain_cong)
    show "next_t (th' x) = next_t (th x)" if "x \<in> set (butlast (zs @ [l]))" for x
      using that d by (auto simp: nx [folded l_def])
    show "prev_t (th' x) = prev_t (th x)" if "x \<in> set (tl (zs @ [l]))" for x
      using that d unfolding cy [symmetric] by (auto simp: pv)
  qed
  ultimately have "?c' (zs @ l # [y])"
    by (subst chain_join) (simp add: nx [folded l_def] pv [folded l_def])
  moreover have "(y # ys) @ [y] = zs @ l # [y]" using cy by simp
  ultimately have "?c' ((y # ys) @ [y])" by (simp only:)
  then show ?thesis using r by (simp add: ring_def)
qed

lemma unschedule_thread_ring:
  assumes "ring (threads s) (as @ t # bs)" "t \<noteq> kernel_thread s" "as @ bs \<noteq> []"
  shows "ring (threads (unschedule_thread t s)) (as @ bs)"
proof -
  have r: "ring (threads s) (t # bs @ as)" by (rule ring_rotate_at [OF assms(1)])
  obtain y ys where y: "bs @ as = y # ys" using assms(3) by (cases "bs @ as") auto
  define l where "l = last (y # ys)"
  have nb: "next_t (threads s t) = y" "prev_t (threads s t) = l"
    using ring_neighbours [OF r] unfolding y l_def by auto
  have lin: "l \<in> set (y # ys)" unfolding l_def by (rule last_in_set) simp
  have r': "ring (threads s) (t # y # ys)" using r y by simp
  then have nin: "t \<notin> set (y # ys)" "0 \<notin> set (t # y # ys)" by (auto simp: ring_def)
  have l: "l \<noteq> 0" "t \<noteq> l" using lin nin by auto
  have n0: "t \<noteq> 0" "y \<noteq> 0" "t \<noteq> y" using nin by auto
  define th' where "th' = threads (unschedule_thread t s)"
  have nx: "next_t (th' x) = (if x = l then y else next_t (threads s x))" for x
    unfolding th'_def unschedule_thread_def using assms(2) n0 l nb by (auto simp: Let_def)
  have pv: "prev_t (th' x) = (if x = y then l else prev_t (threads s x))" for x
    unfolding th'_def unschedule_thread_def using assms(2) n0 l nb by (auto simp: Let_def)
  have "ring th' (y # ys)" by (rule ring_delete [OF r' nx [unfolded l_def] pv [unfolded l_def]])
  then show ?thesis using ring_swap [of th' bs as] y by (simp add: th'_def)
qed

lemma unschedule_thread_others:
  "state (threads (unschedule_thread t s) x) = state (threads s x)"
  "esp (threads (unschedule_thread t s) x) = esp (threads s x)"
  "kernel_thread (unschedule_thread t s) = kernel_thread s"
  "current_thread (unschedule_thread t s) = current_thread s"
  "num_threads (unschedule_thread t s) = num_threads s"
  by (auto simp: unschedule_thread_def Let_def)

section \<open>Finding the next thread\<close>

lemma skip_sleeping_find:
  assumes "chain (\<lambda>t. next_t (th t)) (\<lambda>t. prev_t (th t)) (as @ n # bs)"
    "\<forall>t\<in>set as. state (th t) = TASK_SLEEP" "state (th n) \<noteq> TASK_SLEEP" "0 \<notin> set as"
  shows "skip_sleeping th (hd (as @ [n])) = Some n"
  using assms
proof (induction as)
  case Nil
  then show ?case by (subst skip_sleeping.simps) simp
next
  case (Cons a as)
  have "next_t (th a) = hd (as @ [n])" using Cons.prems(1) by (cases as) auto
  moreover have "chain (\<lambda>t. next_t (th t)) (\<lambda>t. prev_t (th t)) (as @ n # bs)"
    using Cons.prems(1) by (cases as) auto
  ultimately show ?case using Cons by (subst skip_sleeping.simps) simp
qed

lemma next_ready_found:
  assumes "ring (threads s) (c # as @ n # bs)" "current_thread s = c"
    "\<forall>t\<in>set as. state (threads s t) = TASK_SLEEP" "state (threads s n) \<noteq> TASK_SLEEP"
  shows "next_ready_thread s = Some n"
proof -
  have "chain (\<lambda>t. next_t (threads s t)) (\<lambda>t. prev_t (threads s t)) ([c] @ hd (as @ [n]) # tl (as @ [n]) @ bs @ [c])"
    using assms(1) by (cases as) (auto simp: ring_def)
  then have "chain (\<lambda>t. next_t (threads s t)) (\<lambda>t. prev_t (threads s t)) (as @ n # bs @ [c])"
    using chain_join [of _ _ "[c]" "hd (as @ [n])"] by (cases as) auto
  moreover have "next_t (threads s c) = hd (as @ [n])" "c \<noteq> 0" "0 \<notin> set as"
    using ring_neighbours(1) [OF assms(1)] assms(1) by (cases as; auto simp: ring_def)+
  ultimately show ?thesis
    using skip_sleeping_find assms(2-4) by (simp add: next_ready_thread_def)
qed

end
