(* ===== verification/Scheduler_Props.thy ===== *)
theory Scheduler_Props
  imports Scheduler_Ring
begin

text \<open>
  The invariant of the scheduler, what a tick does to the ring, and that ticks give every
  thread its turn. The last is proved once for any step that rotates a queue.
\<close>

section \<open>The invariant\<close>

definition sched_ok :: "u32 list \<Rightarrow> 'h sched \<Rightarrow> bool" where
  "sched_ok xs s \<longleftrightarrow> ring (threads s) xs \<and> hd xs = current_thread s \<and>
     kernel_thread s \<in> set xs \<and>
     (\<forall>t\<in>set (tl xs). state (threads s t) \<in> {TASK_SLEEP, TASK_READY})"

lemma sched_ok_ring: "sched_ok xs s \<Longrightarrow> ring (threads s) xs"
  by (simp add: sched_ok_def)

lemma schedule_thread_state:
  "x \<noteq> t \<Longrightarrow> state (threads (schedule_thread t s) x) = state (threads s x)"
  by (auto simp: schedule_thread_def Let_def)

lemma schedule_thread_new:
  assumes "t \<noteq> 0" "kernel_thread s \<noteq> 0" "current_thread s \<noteq> t"
  shows "state (threads (schedule_thread t s) t) = TASK_READY"
    "current_thread (schedule_thread t s) = current_thread s"
    "kernel_thread (schedule_thread t s) = kernel_thread s"
  using assms by (auto simp: schedule_thread_def Let_def)

lemma schedule_first_ok: "t \<noteq> 0 \<Longrightarrow> kernel_thread s = 0 \<Longrightarrow> sched_ok [t] (schedule_thread t s)"
  by (simp add: schedule_thread_def sched_ok_def ring_def Let_def)

lemma schedule_next_ok:
  assumes "t \<noteq> 0" "sched_ok xs s" "t \<notin> set xs"
  shows "sched_ok (xs @ [t]) (schedule_thread t s)"
proof -
  have xs: "xs \<noteq> []" "0 \<notin> set xs" using assms(2) by (auto simp: sched_ok_def ring_def)
  have k: "kernel_thread s \<noteq> 0" and c: "current_thread s \<noteq> t"
    using assms xs hd_in_set [OF xs(1)] by (auto simp: sched_ok_def)
  have "ring (threads (schedule_thread t s)) (xs @ [t])"
    using assms k by (intro schedule_thread_ring) (auto simp: sched_ok_def)
  moreover have "\<forall>x\<in>set (tl xs). x \<noteq> t" using assms(3) xs(1) by (auto dest: list.set_sel(2))
  ultimately show ?thesis
    using assms(2) schedule_thread_new [OF assms(1) k c] schedule_thread_state [of _ t s] xs(1)
    by (auto simp: sched_ok_def)
qed

text \<open>
  C8. Scheduling a thread that is not in the ring puts it at the end of the queue, just
  before the thread that is running, as ready, and keeps the scheduler's invariant. Scheduling
  the first thread makes it the kernel thread, alone in the ring.
\<close>

theorem schedule_thread_appends:
  assumes "t \<noteq> 0"
  shows "(kernel_thread s = 0 \<longrightarrow> sched_ok [t] (schedule_thread t s)) \<and>
    (sched_ok xs s \<and> t \<notin> set xs \<longrightarrow> sched_ok (xs @ [t]) (schedule_thread t s))"
  using schedule_first_ok [OF assms] schedule_next_ok [OF assms] by blast

definition idle_sched :: "unit sched" where
  "idle_sched = \<lparr>threads = \<lambda>_. zero_thread, procs = \<lambda>_. \<lparr>proc_priority = 0, proc_page_dir = 0\<rparr>,
     current_thread = 0, kernel_thread = 0, scheduling = False, num_threads = 0,
     last_thread_id = 0, current_directory = 0x1000, kernel_directory = 0x1000,
     old_cycles_count = 0, kernel_stack = 0, stack_mem = \<lambda>_. 0, kheap_state = ()\<rparr>"

theorem schedule_thread_appends_witness:
  "sched_ok [0x100, 0x200] (schedule_thread 0x200 (schedule_thread 0x100 idle_sched))"
proof -
  have "sched_ok [0x100] (schedule_thread 0x100 idle_sched)"
    using schedule_thread_appends [of "0x100" idle_sched "[]"] by (simp add: idle_sched_def)
  with schedule_thread_appends [of "0x200" "schedule_thread 0x100 idle_sched" "[0x100]"]
  show ?thesis by simp
qed

section \<open>One tick\<close>

lemma ring_cong:
  "(\<And>t. next_t (th' t) = next_t (th t)) \<Longrightarrow> (\<And>t. prev_t (th' t) = prev_t (th t)) \<Longrightarrow>
     ring th' xs = ring th xs"
  by (simp add: ring_def)

lemma next_ready_cycles [simp]: "next_ready_thread (s\<lparr>old_cycles_count := c\<rparr>) = next_ready_thread s"
  by (simp add: next_ready_thread_def)

lemma switch_page_directory_sel [simp]:
  "threads (switch_page_directory d s) = threads s"
  "current_thread (switch_page_directory d s) = current_thread s"
  "kernel_thread (switch_page_directory d s) = kernel_thread s"
  "kernel_stack (switch_page_directory d s) = kernel_stack s"
  "num_threads (switch_page_directory d s) = num_threads s"
  by (simp_all add: switch_page_directory_def)

lemma destroy_thread_sel [simp]:
  "threads (destroy_thread kfree t s) = threads s"
  "current_thread (destroy_thread kfree t s) = current_thread s"
  "kernel_thread (destroy_thread kfree t s) = kernel_thread s"
  by (simp_all add: destroy_thread_def Let_def)

text \<open>The part of \<open>schedule_tick\<close> after the outgoing thread has been dealt with.\<close>

definition dispatch :: "u32 \<Rightarrow> 'h sched \<Rightarrow> 'h sched" where
  "dispatch n s =
     (let e = esp (threads s n);
          s = upd_thread n (\<lambda>th. th\<lparr>state := TASK_RUNNING\<rparr>) (s\<lparr>kernel_stack := e\<rparr>);
          s = s\<lparr>current_thread := n\<rparr>
      in if current_directory s \<noteq> page_dir (threads s n)
         then switch_page_directory (page_dir (threads s n)) s else s)"

lemma dispatch_sel:
  "threads (dispatch n s) = (threads s)(n := (threads s n)\<lparr>state := TASK_RUNNING\<rparr>)"
  "current_thread (dispatch n s) = n" "kernel_thread (dispatch n s) = kernel_thread s"
  "kernel_stack (dispatch n s) = esp (threads s n)" "num_threads (dispatch n s) = num_threads s"
  by (simp_all add: dispatch_def Let_def upd_thread_def)

lemma schedule_tick_switch:
  assumes "next_ready_thread s = Some n" "n \<noteq> 0" "n \<noteq> current_thread s"
    and "s0 = (if old_cycles_count s = 0 then s\<lparr>old_cycles_count := c0\<rparr> else s)"
    and "s1 = (if state (threads s (current_thread s)) = TASK_FINISHED
         then destroy_thread kfree (current_thread s) (unschedule_thread (current_thread s) s0)
         else upd_thread (current_thread s) (\<lambda>th. th\<lparr>esp := regs, state := TASK_READY,
                runtime := runtime th + (c1 - old_cycles_count s0)\<rparr>) s0)"
  shows "schedule_tick kfree regs c0 c1 c2 s =
    Some (esp (threads s1 n), (dispatch n s1)\<lparr>old_cycles_count := c2\<rparr>)"
proof -
  have "next_ready_thread s0 = Some n" "current_thread s0 = current_thread s" "threads s0 = threads s"
    using assms(1,4) by simp_all
  then show ?thesis
    unfolding schedule_tick_def assms(4) [symmetric] Let_def
    using assms(2,3) by (simp add: assms(5) dispatch_def Let_def)
qed

lemma set_tl_rotated: "set (tl (n # bs @ c # as)) = insert c (set as \<union> set bs)"
  by auto

lemma schedule_tick_core:
  assumes "sched_ok (c # as @ n # bs) s" "\<forall>t\<in>set as. state (threads s t) = TASK_SLEEP"
    and "state (threads s n) \<noteq> TASK_SLEEP" "state (threads s c) \<noteq> TASK_FINISHED"
  shows "\<exists>s'. schedule_tick kfree regs c0 c1 c2 s = Some (esp (threads s n), s') \<and>
    sched_ok (n # bs @ c # as) s' \<and> esp (threads s' c) = regs \<and>
    state (threads s' c) = TASK_READY \<and> state (threads s' n) = TASK_RUNNING \<and>
    kernel_stack s' = esp (threads s n) \<and>
    (\<forall>t. t \<noteq> c \<and> t \<noteq> n \<longrightarrow> threads s' t = threads s t)"
proof -
  have r: "ring (threads s) (c # as @ n # bs)" and c: "current_thread s = c"
    using assms(1) by (auto simp: sched_ok_def)
  have n: "n \<noteq> 0" "n \<noteq> c" "n \<notin> set as" "n \<notin> set bs" using r by (auto simp: ring_def)
  have nr: "next_ready_thread s = Some n"
    by (rule next_ready_found [OF r c assms(2,3)])
  define s0 where "s0 = (if old_cycles_count s = 0 then s\<lparr>old_cycles_count := c0\<rparr> else s)"
  define s1 where "s1 = upd_thread c (\<lambda>th. th\<lparr>esp := regs, state := TASK_READY,
      runtime := runtime th + (c1 - old_cycles_count s0)\<rparr>) s0"
  have s0: "threads s0 = threads s" "kernel_thread s0 = kernel_thread s" by (simp_all add: s0_def)
  define s' where "s' = (dispatch n s1)\<lparr>old_cycles_count := c2\<rparr>"
  have tick: "schedule_tick kfree regs c0 c1 c2 s = Some (esp (threads s1 n), s')"
    unfolding s'_def
    by (rule schedule_tick_switch [OF nr n(1) _ s0_def]) (use n c assms(4) in \<open>simp_all add: s1_def\<close>)
  have th: "threads s' = (threads s)(c := (threads s c)\<lparr>esp := regs, state := TASK_READY,
        runtime := runtime (threads s c) + (c1 - old_cycles_count s0)\<rparr>,
      n := (threads s n)\<lparr>state := TASK_RUNNING\<rparr>)"
    using n by (simp add: s'_def dispatch_sel s1_def s0 fun_upd_twist)
  have "ring (threads s') (n # bs @ c # as)"
    using ring_rotate_at [of "threads s" "c # as" n bs] r ring_cong [of "threads s'" "threads s"]
    by (auto simp: th)
  moreover have "\<forall>t\<in>set (tl (n # bs @ c # as)). state (threads s' t) \<in> {TASK_SLEEP, TASK_READY}"
    unfolding set_tl_rotated using assms(1) n by (auto simp: th sched_ok_def)
  moreover have "kernel_thread s' \<in> set (n # bs @ c # as)" "current_thread s' = n"
    using assms(1) by (auto simp: s'_def dispatch_sel s1_def s0 sched_ok_def)
  ultimately have "sched_ok (n # bs @ c # as) s'" by (simp add: sched_ok_def)
  moreover have "esp (threads s1 n) = esp (threads s n)" "kernel_stack s' = esp (threads s n)"
    using n by (simp_all add: s'_def dispatch_sel s1_def s0)
  ultimately show ?thesis using tick n by (auto simp: th)
qed

text \<open>
  C19. A tick passes over the sleeping threads behind the current one and switches to the first
  thread that is not asleep: the interrupted thread's stack pointer is saved and it becomes
  ready, the new thread runs on its saved stack pointer, and the queue continues from it.
\<close>

theorem schedule_tick_rotates:
  assumes "sched_ok (c # as @ n # bs) s" "\<forall>t\<in>set as. state (threads s t) = TASK_SLEEP"
    and "state (threads s n) \<noteq> TASK_SLEEP" "state (threads s c) \<noteq> TASK_FINISHED"
  shows "\<exists>s'. schedule_tick kfree regs c0 c1 c2 s = Some (esp (threads s n), s') \<and>
    sched_ok (n # bs @ c # as) s' \<and> esp (threads s' c) = regs \<and>
    state (threads s' c) = TASK_READY \<and> state (threads s' n) = TASK_RUNNING \<and>
    kernel_stack s' = esp (threads s n) \<and>
    (\<forall>t. t \<noteq> c \<and> t \<noteq> n \<longrightarrow> threads s' t = threads s t)"
  by (rule schedule_tick_core [OF assms])

definition three_threads :: "unit sched" where
  "three_threads = schedule_thread 0x300 (schedule_thread 0x200 (schedule_thread 0x100 idle_sched))"

lemma three_threads_ok:
  "sched_ok [0x100, 0x200, 0x300] three_threads" "state (threads three_threads 0x100) = TASK_READY"
  "state (threads three_threads 0x200) = TASK_READY" "state (threads three_threads 0x300) = TASK_READY"
  "current_thread three_threads = 0x100" "kernel_thread three_threads = 0x100"
proof -
  let ?s1 = "schedule_thread 0x100 idle_sched" and ?s2 = "schedule_thread 0x200 (schedule_thread 0x100 idle_sched)"
  have 1: "sched_ok [0x100] ?s1" by (rule schedule_first_ok) (simp_all add: idle_sched_def)
  have 2: "sched_ok [0x100, 0x200] ?s2" using schedule_next_ok [OF _ 1, of "0x200"] by simp
  show "sched_ok [0x100, 0x200, 0x300] three_threads"
    using schedule_next_ok [OF _ 2, of "0x300"] by (simp add: three_threads_def)
  have k: "kernel_thread ?s1 = 0x100" "current_thread ?s1 = 0x100" "state (threads ?s1 0x100) = TASK_READY"
    by (simp_all add: schedule_thread_def idle_sched_def Let_def)
  note s2 = schedule_thread_new [of "0x200" ?s1]
  have k2: "kernel_thread ?s2 = 0x100" "current_thread ?s2 = 0x100" using s2 k by simp_all
  note s3 = schedule_thread_new [of "0x300" ?s2]
  show "current_thread three_threads = 0x100" "kernel_thread three_threads = 0x100"
    "state (threads three_threads 0x300) = TASK_READY"
    using s3 k2 by (simp_all add: three_threads_def)
  show "state (threads three_threads 0x100) = TASK_READY" "state (threads three_threads 0x200) = TASK_READY"
    using s2(1) k by (simp_all add: three_threads_def schedule_thread_state)
qed

theorem schedule_tick_rotates_witness:
  "\<exists>s'. schedule_tick (\<lambda>_ h. h) 0x7000 1 2 3 three_threads = Some (esp (threads three_threads 0x200), s') \<and>
    sched_ok [0x200, 0x300, 0x100] s' \<and> esp (threads s' 0x100) = 0x7000"
proof -
  have ok: "sched_ok (0x100 # [] @ 0x200 # [0x300]) three_threads" using three_threads_ok(1) by simp
  have ns: "state (threads three_threads 0x200) \<noteq> TASK_SLEEP"
    "state (threads three_threads 0x100) \<noteq> TASK_FINISHED"
    using three_threads_ok(2,3) by simp_all
  show ?thesis
    using schedule_tick_rotates [OF ok _ ns, of "\<lambda>_ h. h" "0x7000" 1 2 3]
    by (simp only: append.simps append_Nil2 list.set ball_empty simp_thms) blast
qed

section \<open>Threads that have finished\<close>

definition released :: "(u32 \<Rightarrow> 'h \<Rightarrow> 'h) \<Rightarrow> u32 \<Rightarrow> thread \<Rightarrow> 'h \<Rightarrow> 'h" where
  "released kfree t th h =
     kfree t (if ustack th \<noteq> 0 then kfree (ustack th) (kfree (kstack th) h) else kfree (kstack th) h)"

lemma unschedule_thread_more:
  "kstack (threads (unschedule_thread t s) x) = kstack (threads s x)"
  "ustack (threads (unschedule_thread t s) x) = ustack (threads s x)"
  "kheap_state (unschedule_thread t s) = kheap_state s"
  by (auto simp: unschedule_thread_def Let_def)

lemma destroy_thread_heap:
  "t \<noteq> 0 \<Longrightarrow> kheap_state (destroy_thread kfree t s) = released kfree t (threads s t) (kheap_state s)"
  "t \<noteq> 0 \<Longrightarrow> num_threads (destroy_thread kfree t s) = num_threads s - 1"
  by (simp_all add: destroy_thread_def released_def Let_def)

lemma dispatch_heap [simp]: "kheap_state (dispatch n s) = kheap_state s"
  by (simp add: dispatch_def Let_def switch_page_directory_def)

text \<open>What a tick does when the current thread has finished, before the new thread is started.\<close>

lemma schedule_tick_drop:
  assumes "sched_ok (c # as @ n # bs) s" "\<forall>t\<in>set as. state (threads s t) = TASK_SLEEP"
    and "state (threads s n) \<noteq> TASK_SLEEP" "state (threads s c) = TASK_FINISHED"
    and "s1 = destroy_thread kfree c (unschedule_thread c
           (if old_cycles_count s = 0 then s\<lparr>old_cycles_count := c0\<rparr> else s))"
  shows "schedule_tick kfree regs c0 c1 c2 s =
      Some (esp (threads s n), (dispatch n s1)\<lparr>old_cycles_count := c2\<rparr>)"
    "kheap_state s1 = released kfree c (threads s c) (kheap_state s)"
    "num_threads s1 = num_threads s - 1" "threads s1 = threads (unschedule_thread c s)"
    "kernel_thread s1 = kernel_thread s"
proof -
  have r: "ring (threads s) (c # as @ n # bs)" and c: "current_thread s = c"
    using assms(1) by (auto simp: sched_ok_def)
  have n: "n \<noteq> 0" "n \<noteq> c" "c \<noteq> 0" using r by (auto simp: ring_def)
  let ?s0 = "if old_cycles_count s = 0 then s\<lparr>old_cycles_count := c0\<rparr> else s"
  have th0: "threads (unschedule_thread c ?s0) = threads (unschedule_thread c s)"
    by (simp add: unschedule_thread_def Let_def upd_thread_def)
  then show th: "threads s1 = threads (unschedule_thread c s)" using assms(5) by simp
  show "kernel_thread s1 = kernel_thread s" using assms(5) by (simp add: unschedule_thread_others)
  have "kheap_state s1 = released kfree c (threads (unschedule_thread c s) c) (kheap_state s)"
    using assms(5) n(3) th0 by (simp add: destroy_thread_heap unschedule_thread_more)
  then show "kheap_state s1 = released kfree c (threads s c) (kheap_state s)"
    by (simp add: released_def unschedule_thread_more)
  show "num_threads s1 = num_threads s - 1"
    using assms(5) n(3) by (simp add: destroy_thread_heap unschedule_thread_others)
  have "schedule_tick kfree regs c0 c1 c2 s =
      Some (esp (threads s1 n), (dispatch n s1)\<lparr>old_cycles_count := c2\<rparr>)"
    using schedule_tick_switch [OF next_ready_found [OF r c assms(2,3)] n(1) _ refl, of s1] n(2) c assms(4,5)
    by simp
  then show "schedule_tick kfree regs c0 c1 c2 s =
      Some (esp (threads s n), (dispatch n s1)\<lparr>old_cycles_count := c2\<rparr>)"
    by (simp add: th unschedule_thread_others)
qed

text \<open>
  C33. A tick that finds the current thread finished, and it is not the kernel thread, takes
  it out of the ring, gives its stacks and its record back to the heap and counts one thread
  less, before the next thread runs.
\<close>

theorem schedule_tick_finished:
  assumes "sched_ok (c # as @ n # bs) s" "\<forall>t\<in>set as. state (threads s t) = TASK_SLEEP"
    and "state (threads s n) \<noteq> TASK_SLEEP" "state (threads s c) = TASK_FINISHED"
    and "c \<noteq> kernel_thread s"
  shows "\<exists>s'. schedule_tick kfree regs c0 c1 c2 s = Some (esp (threads s n), s') \<and>
    sched_ok (n # bs @ as) s' \<and> num_threads s' = num_threads s - 1 \<and>
    kheap_state s' = released kfree c (threads s c) (kheap_state s) \<and>
    state (threads s' n) = TASK_RUNNING"
proof -
  define s1 where "s1 = destroy_thread kfree c (unschedule_thread c
           (if old_cycles_count s = 0 then s\<lparr>old_cycles_count := c0\<rparr> else s))"
  note tick = schedule_tick_drop [OF assms(1-4) s1_def]
  define s' where "s' = (dispatch n s1)\<lparr>old_cycles_count := c2\<rparr>"
  have r: "ring (threads s) (c # as @ n # bs)" by (rule sched_ok_ring [OF assms(1)])
  have n: "n \<notin> set as" "n \<notin> set bs" using r by (auto simp: ring_def)
  have "ring (threads s1) (as @ n # bs)"
    unfolding tick(4) using unschedule_thread_ring [of s "[]" c "as @ n # bs"] r assms(5) by simp
  then have "ring (threads s1) (n # bs @ as)" by (rule ring_rotate_at)
  then have "ring (threads s') (n # bs @ as)"
    using ring_cong [of "threads s'" "threads s1"] by (simp add: s'_def dispatch_sel)
  moreover have "kernel_thread s' \<in> set (n # bs @ as)" "current_thread s' = n"
    using assms(1,5) tick(5) by (auto simp: s'_def dispatch_sel sched_ok_def)
  moreover have "\<forall>t\<in>set (tl (n # bs @ as)). state (threads s' t) \<in> {TASK_SLEEP, TASK_READY}"
    using assms(1) n tick(4)
    by (auto simp: s'_def dispatch_sel sched_ok_def unschedule_thread_others)
  ultimately have "sched_ok (n # bs @ as) s'" by (simp add: sched_ok_def)
  then show ?thesis using tick(1-3) by (simp add: s'_def dispatch_sel)
qed

definition exiting :: "unit sched" where
  "exiting = (three_threads\<lparr>current_thread := 0x200\<rparr>)\<lparr>threads := (threads three_threads)(0x200 :=
     (threads three_threads 0x200)\<lparr>state := TASK_FINISHED\<rparr>)\<rparr>"

lemma exiting_ok: "sched_ok [0x200, 0x300, 0x100] exiting"
  "state (threads exiting 0x200) = TASK_FINISHED" "state (threads exiting 0x300) = TASK_READY"
  "kernel_thread exiting = 0x100"
proof -
  have "ring (threads exiting) [0x100, 0x200, 0x300]"
    using ring_cong [of "threads exiting" "threads three_threads"]
      sched_ok_ring [OF three_threads_ok(1)] by (simp add: exiting_def)
  then have "ring (threads exiting) [0x200, 0x300, 0x100]"
    using ring_rotate [of "threads exiting" "0x100" "[0x200, 0x300]"] by simp
  then show "sched_ok [0x200, 0x300, 0x100] exiting"
    using three_threads_ok by (simp add: sched_ok_def exiting_def)
qed (use three_threads_ok in \<open>simp_all add: exiting_def\<close>)

theorem schedule_tick_finished_witness:
  "\<exists>s'. schedule_tick (\<lambda>_ h. h) 0x7000 1 2 3 exiting = Some (esp (threads exiting 0x300), s') \<and>
    sched_ok [0x300, 0x100] s'"
proof -
  have ok: "sched_ok (0x200 # [] @ 0x300 # [0x100]) exiting" using exiting_ok(1) by simp
  have ns: "state (threads exiting 0x300) \<noteq> TASK_SLEEP" "0x200 \<noteq> kernel_thread exiting"
    using exiting_ok(3,4) by simp_all
  show ?thesis
    using schedule_tick_finished [OF ok _ ns(1) exiting_ok(2) ns(2), of "\<lambda>_ h. h" "0x7000" 1 2 3]
    by (simp only: append.simps append_Nil2 list.set ball_empty simp_thms) blast
qed

text \<open>
  When the kernel thread itself has finished, the tick gives its memory back to the heap
  but leaves it in the ring, where the following ticks will reach it again.
\<close>

theorem finished_kernel_thread_stays:
  assumes "sched_ok (c # as @ n # bs) s" "\<forall>t\<in>set as. state (threads s t) = TASK_SLEEP"
    and "state (threads s n) \<noteq> TASK_SLEEP" "state (threads s c) = TASK_FINISHED"
    and "c = kernel_thread s"
  shows "\<exists>s'. schedule_tick kfree regs c0 c1 c2 s = Some (esp (threads s n), s') \<and>
    ring (threads s') (n # bs @ c # as) \<and>
    kheap_state s' = released kfree c (threads s c) (kheap_state s)"
proof -
  define s1 where "s1 = destroy_thread kfree c (unschedule_thread c
           (if old_cycles_count s = 0 then s\<lparr>old_cycles_count := c0\<rparr> else s))"
  note tick = schedule_tick_drop [OF assms(1-4) s1_def]
  have "threads s1 = threads s" using tick(4) assms(5) by (simp add: unschedule_thread_def)
  moreover have "ring (threads s) (n # bs @ c # as)"
    using ring_rotate_at [of "threads s" "c # as" n bs] sched_ok_ring [OF assms(1)] by simp
  ultimately have "ring (threads (dispatch n s1)) (n # bs @ c # as)"
    using ring_cong [of "threads (dispatch n s1)" "threads s"] by (simp add: dispatch_sel)
  then show ?thesis using tick(1,2) by simp
qed

definition kernel_exiting :: "unit sched" where
  "kernel_exiting = thread_exit three_threads"

theorem finished_kernel_thread_stays_witness:
  "\<exists>s'. schedule_tick (\<lambda>_ h. h) 0x7000 1 2 3 kernel_exiting = Some (esp (threads kernel_exiting 0x200), s') \<and>
    ring (threads s') [0x200, 0x300, 0x100]"
proof -
  have th: "threads kernel_exiting = (threads three_threads)(0x100 :=
      (threads three_threads 0x100)\<lparr>state := TASK_FINISHED\<rparr>)"
    "current_thread kernel_exiting = 0x100" "kernel_thread kernel_exiting = 0x100"
    using three_threads_ok(5,6) by (simp_all add: kernel_exiting_def thread_exit_def)
  have "ring (threads kernel_exiting) [0x100, 0x200, 0x300]"
    using ring_cong [of "threads kernel_exiting" "threads three_threads"]
      sched_ok_ring [OF three_threads_ok(1)] by (simp add: th)
  then have "sched_ok [0x100, 0x200, 0x300] kernel_exiting"
    using three_threads_ok(1) by (simp add: sched_ok_def th)
  then have ok: "sched_ok (0x100 # [] @ 0x200 # [0x300]) kernel_exiting" by simp
  have ns: "state (threads kernel_exiting 0x200) \<noteq> TASK_SLEEP"
    "state (threads kernel_exiting 0x100) = TASK_FINISHED"
    using three_threads_ok(3) th(1) by simp_all
  show ?thesis
    using finished_kernel_thread_stays [OF ok _ ns th(3) [symmetric], of "\<lambda>_ h. h" "0x7000" 1 2 3]
    by (simp only: append.simps append_Nil2 list.set ball_empty simp_thms) blast
qed

section \<open>Every thread gets its turn\<close>

fun run_steps :: "('i \<Rightarrow> 's \<Rightarrow> 's option) \<Rightarrow> 'i list \<Rightarrow> 's \<Rightarrow> 's option" where
  "run_steps step [] s = Some s"
| "run_steps step (i # is) s = (case step i s of None \<Rightarrow> None | Some s' \<Rightarrow> run_steps step is s')"

text \<open>
  A step that rotates a queue, whatever input it is given, visits the elements in order.
\<close>

locale rotation =
  fixes step :: "'i \<Rightarrow> 's \<Rightarrow> 's option" and queue :: "'s \<Rightarrow> 'a list \<Rightarrow> bool"
  assumes step_rotates: "queue s xs \<Longrightarrow> \<exists>s'. step i s = Some s' \<and> queue s' (rotate1 xs)"
begin

lemma steps_rotate:
  "queue s xs \<Longrightarrow> \<exists>s'. run_steps step is s = Some s' \<and> queue s' (rotate (length is) xs)"
proof (induction "is" arbitrary: s xs)
  case (Cons i "is")
  obtain s1 where s1: "step i s = Some s1" "queue s1 (rotate1 xs)"
    using step_rotates [OF Cons.prems] by blast
  with Cons.IH [OF s1(2)] show ?case by (simp add: rotate1_rotate_swap)
qed simp

end

definition awake :: "'h sched \<Rightarrow> u32 list \<Rightarrow> bool" where
  "awake s xs \<longleftrightarrow> sched_ok xs s \<and> (\<forall>t\<in>set xs. state (threads s t) \<notin> {TASK_SLEEP, TASK_FINISHED})"

definition tick :: "(u32 \<Rightarrow> 'h \<Rightarrow> 'h) \<Rightarrow> u32 \<times> u64 \<times> u64 \<times> u64 \<Rightarrow> 'h sched \<Rightarrow> 'h sched option" where
  "tick kfree = (\<lambda>(regs, c0, c1, c2) s. map_option snd (schedule_tick kfree regs c0 c1 c2 s))"

lemma tick_alone:
  assumes "awake s [c]"
  shows "\<exists>s'. tick kfree i s = Some s' \<and> awake s' [c]"
proof -
  obtain regs c0 c1 c2 where i: "i = (regs, c0, c1, c2)" by (cases i)
  have c: "current_thread s = c" "next_t (threads s c) = c" "c \<noteq> 0" "state (threads s c) \<noteq> TASK_SLEEP"
    using assms by (auto simp: awake_def sched_ok_def ring_def)
  then have "next_ready_thread s = Some c"
    by (simp add: next_ready_thread_def skip_sleeping.simps [of _ c])
  then have "schedule_tick kfree regs c0 c1 c2 s = Some (regs, s\<lparr>old_cycles_count := c2\<rparr>)"
    using c(1) by (simp add: schedule_tick_def Let_def)
  then show ?thesis using assms by (auto simp: i tick_def awake_def sched_ok_def)
qed

lemma tick_rotates:
  assumes "awake s (c # n # bs)"
  shows "\<exists>s'. tick kfree i s = Some s' \<and> awake s' (n # bs @ [c])"
proof -
  obtain regs c0 c1 c2 where i: "i = (regs, c0, c1, c2)" by (cases i)
  have pre: "sched_ok (c # [] @ n # bs) s" "state (threads s n) \<noteq> TASK_SLEEP"
    "state (threads s c) \<noteq> TASK_FINISHED"
    using assms by (auto simp: awake_def)
  from schedule_tick_core [OF pre(1) _ pre(2,3), of kfree regs c0 c1 c2]
  obtain s' where s': "schedule_tick kfree regs c0 c1 c2 s = Some (esp (threads s n), s')"
    "sched_ok (n # bs @ [c]) s'" "state (threads s' c) = TASK_READY" "state (threads s' n) = TASK_RUNNING"
    "\<forall>t. t \<noteq> c \<and> t \<noteq> n \<longrightarrow> threads s' t = threads s t"
    by auto
  have "\<forall>t\<in>set (n # bs @ [c]). state (threads s' t) \<notin> {TASK_SLEEP, TASK_FINISHED}"
  proof
    fix t assume "t \<in> set (n # bs @ [c])"
    then show "state (threads s' t) \<notin> {TASK_SLEEP, TASK_FINISHED}"
      using s'(3-5) assms by (cases "t = c \<or> t = n") (auto simp: awake_def)
  qed
  then show ?thesis using s'(1,2) by (simp add: i tick_def awake_def)
qed

interpretation ticks: rotation "tick kfree" awake for kfree
proof
  fix s :: "'a sched" and xs i
  assume a: "awake s xs"
  then have "xs \<noteq> []" by (auto simp: awake_def sched_ok_def ring_def)
  then consider c where "xs = [c]" | c n bs where "xs = c # n # bs"
    by (metis list.exhaust)
  then show "\<exists>s'. tick kfree i s = Some s' \<and> awake s' (rotate1 xs)"
    using a tick_alone [of s _ kfree i] tick_rotates [of s _ _ _ kfree i] by cases auto
qed

text \<open>
  C20. While no thread sleeps or finishes, the threads run in the order of the ring: after any
  number of ticks, with whatever stack pointers and cycle counts, the current thread is the
  one at that distance in the queue, counted round the ring. So each thread runs once in as
  many ticks as there are threads.
\<close>

theorem ticks_are_fair:
  assumes "awake s xs"
  shows "\<exists>s'. run_steps (tick kfree) is s = Some s' \<and>
    current_thread s' = xs ! (length is mod length xs) \<and> awake s' (rotate (length is) xs)"
proof -
  have xs: "xs \<noteq> []" using assms by (auto simp: awake_def sched_ok_def ring_def)
  obtain s' where s': "run_steps (tick kfree) is s = Some s'" "awake s' (rotate (length is) xs)"
    using ticks.steps_rotate [OF assms] by blast
  then have "current_thread s' = hd (rotate (length is) xs)" by (auto simp: awake_def sched_ok_def)
  then show ?thesis using s' hd_rotate_conv_nth [OF xs] by auto
qed

theorem ticks_are_fair_witness:
  "\<exists>s'. run_steps (tick (\<lambda>_ h. h)) [(0x7000, 1, 2, 3), (0x8000, 4, 5, 6)] three_threads = Some s' \<and>
    current_thread s' = 0x300"
proof -
  have "awake three_threads [0x100, 0x200, 0x300]"
    using three_threads_ok by (simp add: awake_def)
  from ticks_are_fair [OF this, of "\<lambda>_ h. h" "[(0x7000, 1, 2, 3), (0x8000, 4, 5, 6)]"]
  obtain s' where "run_steps (tick (\<lambda>_ h. h)) [(0x7000, 1, 2, 3), (0x8000, 4, 5, 6)] three_threads = Some s'"
    "current_thread s' = [0x100, 0x200, 0x300] ! (2 mod 3)" by auto
  then show ?thesis by auto
qed

end
