(* ===== verification/Thread_Create.thy ===== *)
theory Thread_Create
  imports Scheduler_Props
begin

text \<open>
  The stack frame \<open>create_thread\<close> builds, read back as the \<open>registers_t\<close> that the interrupt
  return path pops.
\<close>

section \<open>The register frame\<close>

record registers =
  r_gs :: u32
  r_fs :: u32
  r_es :: u32
  r_ds :: u32
  r_ebp :: u32
  r_edi :: u32
  r_esi :: u32
  r_edx :: u32
  r_ecx :: u32
  r_ebx :: u32
  r_eax :: u32
  r_int_no :: u32
  r_err_code :: u32
  r_eip :: u32
  r_cs :: u32
  r_eflags :: u32
  r_esp :: u32
  r_ss :: u32

definition registers_of :: "u32 list \<Rightarrow> registers" where
  "registers_of w = \<lparr>r_gs = w ! 0, r_fs = w ! 1, r_es = w ! 2, r_ds = w ! 3, r_ebp = w ! 4,
     r_edi = w ! 5, r_esi = w ! 6, r_edx = w ! 7, r_ecx = w ! 8, r_ebx = w ! 9, r_eax = w ! 10,
     r_int_no = w ! 11, r_err_code = w ! 12, r_eip = w ! 13, r_cs = w ! 14, r_eflags = w ! 15,
     r_esp = w ! 16, r_ss = w ! 17\<rparr>"

definition read_registers :: "mem \<Rightarrow> u32 \<Rightarrow> registers" where
  "read_registers m a = registers_of (map (\<lambda>k. m (a + 4 * word_of_nat k)) [0..<18])"

section \<open>Pushing words\<close>

lemma push_words_sp: "fst (push_words sp ws m) = sp - 4 * word_of_nat (length ws)"
proof (induction ws arbitrary: sp m)
  case (Cons w ws)
  then show ?case by (simp only: push_words.simps list.size) (simp add: algebra_simps)
qed simp

lemma push_words_outside:
  "(\<And>i. i < length ws \<Longrightarrow> a \<noteq> sp - 4 * word_of_nat (Suc i)) \<Longrightarrow> snd (push_words sp ws m) a = m a"
proof (induction ws arbitrary: sp m)
  case (Cons w ws)
  have "a \<noteq> sp - 4" using Cons.prems [of 0] by simp
  moreover have "snd (push_words (sp - 4) ws (m(sp - 4 := w))) a = (m(sp - 4 := w)) a"
  proof (rule Cons.IH)
    show "a \<noteq> sp - 4 - 4 * word_of_nat (Suc i)" if "i < length ws" for i
      using Cons.prems [of "Suc i"] that by (simp add: algebra_simps)
  qed
  ultimately show ?case by simp
qed simp

lemma four_times_nonzero: "0 < n \<Longrightarrow> n < 2 ^ 30 \<Longrightarrow> (4 * word_of_nat n :: u32) \<noteq> 0"
proof -
  assume "0 < n" "n < 2 ^ 30"
  then have "unat (word_of_nat (4 * n) :: u32) = 4 * n" by (intro unat_word_of_nat) simp
  with \<open>0 < n\<close> have "(word_of_nat (4 * n) :: u32) \<noteq> 0" by (metis mult_eq_0_iff neq0_conv unat_0 zero_neq_numeral)
  then show ?thesis by simp
qed

lemma push_words_read:
  "i < length ws \<Longrightarrow> length ws < 2 ^ 30 \<Longrightarrow>
     snd (push_words sp ws m) (sp - 4 * word_of_nat (Suc i)) = ws ! i"
proof (induction ws arbitrary: sp m i)
  case (Cons w ws)
  show ?case
  proof (cases i)
    case 0
    have "snd (push_words (sp - 4) ws (m(sp - 4 := w))) (sp - 4) = (m(sp - 4 := w)) (sp - 4)"
    proof (rule push_words_outside)
      fix j assume "j < length ws"
      then have "(4 * word_of_nat (Suc j) :: u32) \<noteq> 0" using Cons.prems(2) by (intro four_times_nonzero) auto
      moreover have "x - y = x \<longleftrightarrow> y = 0" for x y :: u32 by auto
      ultimately show "sp - 4 \<noteq> sp - 4 - 4 * word_of_nat (Suc j)" by metis
    qed
    then show ?thesis using 0 by simp
  next
    case (Suc j)
    then have "snd (push_words (sp - 4) ws (m(sp - 4 := w))) (sp - 4 - 4 * word_of_nat (Suc j)) = ws ! j"
      using Cons.prems by (intro Cons.IH) auto
    moreover have "sp - 4 - 4 * word_of_nat (Suc j) = sp - 4 * word_of_nat (Suc i)"
      using Suc by (simp add: algebra_simps)
    ultimately have "snd (push_words (sp - 4) ws (m(sp - 4 := w))) (sp - 4 * word_of_nat (Suc i)) = ws ! j"
      by (simp only:)
    then show ?thesis by (simp only: push_words.simps Suc nth_Cons_Suc)
  qed
qed simp

lemma pushed_frame:
  assumes "length ws = 18" "push_words sp ws m = (sp', m')"
  shows "map (\<lambda>k. m' (sp' + 4 * word_of_nat k)) [0..<18] = rev ws"
proof (rule nth_equalityI)
  fix k assume "k < length (map (\<lambda>k. m' (sp' + 4 * word_of_nat k)) [0..<18])"
  then have k: "k < 18" by simp
  have sp': "sp' = sp - 4 * word_of_nat 18" using push_words_sp [of sp ws m] assms by simp
  have "(4 * word_of_nat (Suc (17 - k)) :: u32) + 4 * word_of_nat k = 4 * word_of_nat (Suc (17 - k) + k)"
    by (simp only: of_nat_add distrib_left)
  moreover have "Suc (17 - k) + k = 18" using k by simp
  ultimately have "sp' + 4 * word_of_nat k = sp - 4 * word_of_nat (Suc (17 - k))"
    unfolding sp' by (simp only: eq_diff_eq diff_add_eq add_diff_eq) (simp add: algebra_simps)
  moreover have "m' (sp - 4 * word_of_nat (Suc (17 - k))) = ws ! (17 - k)"
    using push_words_read [of "17 - k" ws sp m] assms by simp
  ultimately have "m' (sp' + 4 * word_of_nat k) = ws ! (17 - k)" by (simp only:)
  then show "map (\<lambda>k. m' (sp' + 4 * word_of_nat k)) [0..<18] ! k = rev ws ! k"
    using k assms(1) by (simp add: rev_nth)
qed (simp add: assms)

lemma schedule_thread_keeps:
  "esp (threads (schedule_thread t s) x) = esp (threads s x)"
  "tid (threads (schedule_thread t s) x) = tid (threads s x)"
  "priority (threads (schedule_thread t s) x) = priority (threads s x)"
  "page_dir (threads (schedule_thread t s) x) = page_dir (threads s x)"
  "process (threads (schedule_thread t s) x) = process (threads s x)"
  "stack_mem (schedule_thread t s) = stack_mem s"
  "num_threads (schedule_thread t s) = num_threads s"
  "last_thread_id (schedule_thread t s) = last_thread_id s"
  by (auto simp: schedule_thread_def Let_def upd_thread_def)

lemma kernel_frame_registers:
  "length (kernel_frame user vm86 entry args usp exit_addr) = 18"
  "registers_of (rev (kernel_frame user vm86 entry args usp exit_addr)) =
     (let ds = (if user then 0x23 else 0x10)
      in \<lparr>r_gs = ds, r_fs = ds, r_es = ds, r_ds = ds, r_ebp = 0, r_edi = 0, r_esi = 0, r_edx = 0,
          r_ecx = 0, r_ebx = 0, r_eax = 0, r_int_no = 0, r_err_code = 0, r_eip = entry,
          r_cs = (if user then 0x1b else 0x08),
          r_eflags = (if user then 0x3202 else 0x0202) OR (if vm86 then push_bit 17 1 else 0),
          r_esp = (if user then usp else exit_addr), r_ss = (if user then 0x23 else args)\<rparr>)"
  by (simp_all add: kernel_frame_def registers_of_def Let_def)

section \<open>The created thread\<close>

text \<open>The words of a frame lie at the upper end of the stack.\<close>

lemma stack_slot:
  assumes "unat p + unat STACK_SIZE < 2 ^ 32" "i < 2048"
  shows "p + STACK_SIZE - 4 * word_of_nat (Suc i) \<in> region p STACK_SIZE"
proof -
  have p: "unat (p + STACK_SIZE) = unat p + 0x2000"
    using assms(1) by (subst unat_add_lem [THEN iffD1]) (auto simp: STACK_SIZE_def)
  have "unat (word_of_nat (4 * Suc i) :: u32) = 4 * Suc i" using assms(2) by (intro unat_word_of_nat) simp
  then have k: "unat (4 * word_of_nat (Suc i) :: u32) = 4 * Suc i" by simp
  define a where "a = p + STACK_SIZE - 4 * word_of_nat (Suc i)"
  have "unat a = unat p + 0x2000 - 4 * Suc i"
    using assms(2) p k unfolding a_def by (subst unat_sub) (auto simp: word_le_nat_alt)
  moreover have "0 < 4 * Suc i" "4 * Suc i \<le> 0x2000" using assms(2) by auto
  ultimately have "unat p \<le> unat a" "unat a < unat p + 0x2000" by arith+
  then show ?thesis unfolding a_def [symmetric] by (simp add: region_def STACK_SIZE_def)
qed

lemma pushed_outside:
  assumes "unat p + unat STACK_SIZE < 2 ^ 32" "length ws \<le> 2048" "a \<notin> region p STACK_SIZE"
  shows "snd (push_words (p + STACK_SIZE) ws m) a = m a"
  by (rule push_words_outside) (use stack_slot [OF assms(1)] assms(2,3) in \<open>fastforce dest: less_le_trans\<close>)

text \<open>Memory after the user stack, and after both stacks, have been filled.\<close>

definition filled_user :: "bool \<Rightarrow> u32 \<Rightarrow> u32 \<Rightarrow> mem \<Rightarrow> mem" where
  "filled_user user us args m = (if user then snd (push_words (us + STACK_SIZE) [args, 0xdeadcaca] m) else m)"

definition thread_frame :: "bool \<Rightarrow> bool \<Rightarrow> u32 \<Rightarrow> u32 \<Rightarrow> u32 \<Rightarrow> u32 \<Rightarrow> u32 list" where
  "thread_frame user vm86 entry args us exit_addr =
     kernel_frame user vm86 entry args (if user then us + STACK_SIZE - 8 else 0) exit_addr"

definition filled_stacks :: "bool \<Rightarrow> bool \<Rightarrow> u32 \<Rightarrow> u32 \<Rightarrow> u32 \<Rightarrow> u32 \<Rightarrow> u32 \<Rightarrow> mem \<Rightarrow> mem" where
  "filled_stacks user vm86 entry args us ks exit_addr m =
     snd (push_words (ks + STACK_SIZE) (thread_frame user vm86 entry args us exit_addr) (filled_user user us args m))"

lemma thread_frame_length: "length (thread_frame user vm86 entry args us exit_addr) = 18"
  by (simp add: thread_frame_def kernel_frame_registers(1))

lemma filled_frame:
  "read_registers (filled_stacks user vm86 entry args us ks exit_addr m) (ks + STACK_SIZE - 72) =
     registers_of (rev (thread_frame user vm86 entry args us exit_addr))"
proof -
  obtain sp m' where p: "push_words (ks + STACK_SIZE) (thread_frame user vm86 entry args us exit_addr)
      (filled_user user us args m) = (sp, m')" by fastforce
  moreover have "sp = ks + STACK_SIZE - 72"
    using p push_words_sp [of "ks + STACK_SIZE" "thread_frame user vm86 entry args us exit_addr" "filled_user user us args m"]
    by (simp add: thread_frame_length)
  ultimately show ?thesis
    using pushed_frame [OF thread_frame_length p] by (simp add: read_registers_def filled_stacks_def)
qed

lemma filled_outside:
  assumes "unat ks + unat STACK_SIZE < 2 ^ 32" "user \<longrightarrow> unat us + unat STACK_SIZE < 2 ^ 32"
    and "a \<notin> region ks STACK_SIZE" "user \<longrightarrow> a \<notin> region us STACK_SIZE"
  shows "filled_stacks user vm86 entry args us ks exit_addr m a = m a"
  using assms pushed_outside [of ks "thread_frame user vm86 entry args us exit_addr" a]
    pushed_outside [of us "[args, 0xdeadcaca]" a m]
  by (simp add: filled_stacks_def filled_user_def thread_frame_length del: push_words.simps)

lemma filled_arguments:
  assumes "unat ks + unat STACK_SIZE < 2 ^ 32" "unat us + unat STACK_SIZE < 2 ^ 32"
    and "region ks STACK_SIZE \<inter> region us STACK_SIZE = {}"
  shows "filled_stacks True vm86 entry args us ks exit_addr m (us + STACK_SIZE - 8) = 0xdeadcaca"
    "filled_stacks True vm86 entry args us ks exit_addr m (us + STACK_SIZE - 4) = args"
proof -
  let ?u = "filled_user True us args m"
  have "us + STACK_SIZE - 8 \<in> region us STACK_SIZE" "us + STACK_SIZE - 4 \<in> region us STACK_SIZE"
    using stack_slot [OF assms(2), of 1] stack_slot [OF assms(2), of 0] by simp_all
  then have "filled_stacks True vm86 entry args us ks exit_addr m a = ?u a"
    if "a \<in> {us + STACK_SIZE - 8, us + STACK_SIZE - 4}" for a
    unfolding filled_stacks_def
    by (intro pushed_outside [OF assms(1)]) (use that assms(3) thread_frame_length in auto)
  then show "filled_stacks True vm86 entry args us ks exit_addr m (us + STACK_SIZE - 8) = 0xdeadcaca"
    "filled_stacks True vm86 entry args us ks exit_addr m (us + STACK_SIZE - 4) = args"
    by (simp_all add: filled_user_def)
qed

text \<open>The thread record and the stacks that \<open>create_thread\<close> leaves.\<close>

lemma created_fields:
  assumes "kmalloc 52 (kheap_state s) = (t, h1)" "t \<noteq> 0"
    and "kmalloc STACK_SIZE h1 = (ks, h2)" "ks \<noteq> 0"
    and "user \<longrightarrow> us = fst (kmalloc STACK_SIZE h2) \<and> us \<noteq> 0"
    and "create_thread kmalloc exit_addr pr entry args prio user vm86 s = (i, s')"
  shows "esp (threads s' t) = ks + STACK_SIZE - 72 \<and> stack_mem s' = filled_stacks user vm86 entry args us ks exit_addr (stack_mem s) \<and>
    i = last_thread_id s + 1 \<and> tid (threads s' t) = i \<and> num_threads s' = num_threads s + 1 \<and> process (threads s' t) = pr \<and>
    priority (threads s' t) = min prio (proc_priority (procs s pr))"
proof -
  define usp where "usp = (if user then us + STACK_SIZE - 8 else 0)"
  define um where "um = filled_user user us args (stack_mem s)"
  define fr where "fr = kernel_frame user vm86 entry args usp exit_addr"
  have um: "user \<Longrightarrow> push_words (us + STACK_SIZE) [args, 0xdeadcaca] (stack_mem s) = (usp, um)"
    by (simp add: um_def usp_def filled_user_def)
  have km: "push_words (ks + STACK_SIZE) fr um = (ks + STACK_SIZE - 72, filled_stacks user vm86 entry args us ks exit_addr (stack_mem s))"
    using push_words_sp [of "ks + STACK_SIZE" fr um] kernel_frame_registers(1) [of user vm86 entry args usp exit_addr]
    by (simp add: prod_eq_iff filled_stacks_def thread_frame_def fr_def um_def usp_def)
  show ?thesis
  proof (cases user)
    case True
    obtain h3 where "kmalloc STACK_SIZE h2 = (us, h3)" "us \<noteq> 0"
      using assms(5) True by (cases "kmalloc STACK_SIZE h2") auto
    then show ?thesis
      using assms(6) True um km
      by (auto simp: create_thread_def assms(1-4) fr_def Let_def request_thread_id_def
          schedule_thread_keeps upd_thread_def simp del: push_words.simps)
  next
    case False
    then have "usp = 0" "um = stack_mem s" by (simp_all add: usp_def um_def filled_user_def)
    then show ?thesis
      using assms(6) False km
      by (auto simp: create_thread_def assms(1-4) fr_def Let_def request_thread_id_def
          schedule_thread_keeps upd_thread_def simp del: push_words.simps)
  qed
qed

lemma created_thread:
  assumes "kmalloc 52 (kheap_state s) = (t, h1)" "t \<noteq> 0"
    and "kmalloc STACK_SIZE h1 = (ks, h2)" "ks \<noteq> 0"
    and "user \<Longrightarrow> fst (kmalloc STACK_SIZE h2) \<noteq> 0"
    and "create_thread kmalloc exit_addr pr entry args prio user vm86 s = (i, s')"
  shows "i = last_thread_id s + 1 \<and> tid (threads s' t) = i \<and> num_threads s' = num_threads s + 1 \<and>
    process (threads s' t) = pr \<and> priority (threads s' t) = min prio (proc_priority (procs s pr)) \<and>
    read_registers (stack_mem s') (esp (threads s' t)) = registers_of (rev (kernel_frame user vm86 entry args
      (if user then fst (kmalloc STACK_SIZE h2) + STACK_SIZE - 8 else 0) exit_addr))"
  using created_fields [OF assms(1-4) _ assms(6), of "fst (kmalloc STACK_SIZE h2)"] assms(5)
  by (simp add: filled_frame thread_frame_def)

text \<open>
  C28. When the heap gives the memory it asks for, \<open>create_thread\<close> returns the new thread's id,
  counts the thread, and leaves a kernel stack on which the interrupt return path finds the
  entry point, cleared general registers, the segments and flags of the requested mode and,
  for a user thread, the stack pointer of its user stack. A kernel thread finds the address
  of \<open>thread_exit\<close> as its return address and its argument above it. So does a user thread on
  its own stack, with \<open>0xdeadcaca\<close> as the return address, when its two stacks do not overlap or
  wrap around.
\<close>

theorem create_thread_frame:
  assumes "kmalloc 52 (kheap_state s) = (t, h1)" "t \<noteq> 0"
    and "kmalloc STACK_SIZE h1 = (ks, h2)" "ks \<noteq> 0"
    and "user \<Longrightarrow> fst (kmalloc STACK_SIZE h2) \<noteq> 0"
    and "create_thread kmalloc exit_addr pr entry args prio user vm86 s = (i, s')"
  shows "i = last_thread_id s + 1 \<and> tid (threads s' t) = i \<and> num_threads s' = num_threads s + 1 \<and>
    process (threads s' t) = pr \<and> priority (threads s' t) = min prio (proc_priority (procs s pr)) \<and>
    read_registers (stack_mem s') (esp (threads s' t)) =
     (let ds = (if user then 0x23 else 0x10)
      in \<lparr>r_gs = ds, r_fs = ds, r_es = ds, r_ds = ds, r_ebp = 0, r_edi = 0, r_esi = 0, r_edx = 0,
          r_ecx = 0, r_ebx = 0, r_eax = 0, r_int_no = 0, r_err_code = 0, r_eip = entry,
          r_cs = (if user then 0x1b else 0x08),
          r_eflags = (if user then 0x3202 else 0x0202) OR (if vm86 then push_bit 17 1 else 0),
          r_esp = (if user then fst (kmalloc STACK_SIZE h2) + STACK_SIZE - 8 else exit_addr),
          r_ss = (if user then 0x23 else args)\<rparr>) \<and>
    (user \<and> unat ks + unat STACK_SIZE < 2 ^ 32 \<and> unat (fst (kmalloc STACK_SIZE h2)) + unat STACK_SIZE < 2 ^ 32 \<and>
       region ks STACK_SIZE \<inter> region (fst (kmalloc STACK_SIZE h2)) STACK_SIZE = {} \<longrightarrow>
     stack_mem s' (fst (kmalloc STACK_SIZE h2) + STACK_SIZE - 8) = 0xdeadcaca \<and>
     stack_mem s' (fst (kmalloc STACK_SIZE h2) + STACK_SIZE - 4) = args)"
  using created_thread [OF assms] created_fields [OF assms(1-4) _ assms(6), of "fst (kmalloc STACK_SIZE h2)"]
    filled_arguments [of ks "fst (kmalloc STACK_SIZE h2)" vm86 entry args exit_addr "stack_mem s"] assms(5)
  unfolding kernel_frame_registers(2) by (cases user) (simp_all add: Let_def)

definition bump :: "u32 \<Rightarrow> u32 \<Rightarrow> u32 \<times> u32" where
  "bump sz p = (p, p + sz)"

definition heap_sched :: "u32 sched" where
  "heap_sched = \<lparr>threads = \<lambda>_. zero_thread, procs = \<lambda>_. \<lparr>proc_priority = 5, proc_page_dir = 0\<rparr>,
     current_thread = 0, kernel_thread = 0, scheduling = False, num_threads = 0,
     last_thread_id = 0, current_directory = 0x1000, kernel_directory = 0x1000,
     old_cycles_count = 0, kernel_stack = 0, stack_mem = \<lambda>_. 0, kheap_state = 0x100000\<rparr>"

theorem create_thread_frame_witness:
  "(let s' = snd (create_thread bump 0xc0100000 0 0x4000 7 3 True False heap_sched);
        r = read_registers (stack_mem s') (esp (threads s' 0x100000))
    in r_eip r = 0x4000 \<and> r_esp r = 0x10402c \<and> stack_mem s' (r_esp r) = 0xdeadcaca \<and> stack_mem s' (r_esp r + 4) = 7)"
proof -
  have "kheap_state heap_sched = 0x100000" by (simp add: heap_sched_def)
  moreover have "region 0x100034 0x2000 \<inter> region 0x102034 0x2000 = {}" by (auto simp: region_def)
  ultimately show ?thesis
    using create_thread_frame [of bump heap_sched "0x100000" "0x100034" "0x100034" "0x102034" True
        "0xc0100000" 0 "0x4000" 7 3 False
        "fst (create_thread bump 0xc0100000 0 0x4000 7 3 True False heap_sched)"
        "snd (create_thread bump 0xc0100000 0 0x4000 7 3 True False heap_sched)"]
    by (simp add: bump_def STACK_SIZE_def Let_def)
qed

end
