(* ===== verification/Interrupts.thy ===== *)
theory Interrupts
  imports Handlers Pic Descriptors Thread_Create
begin

text \<open>
  The paths from an interrupt to its handlers: \<open>isr_handler\<close> and \<open>irq_handler\<close> of
  \<^verbatim>\<open>kernel/system.c\<close>, the timer of \<^verbatim>\<open>kernel/pit.c\<close> and the system call handler of
  \<^verbatim>\<open>kernel/syscall.c\<close>. Here the handler lists, the interrupt controllers and the scheduler
  meet. A handler is reached through a function pointer: \<open>call\<close> says what the function at an
  address does to the machine.
\<close>

section \<open>The machine\<close>

record ('io, 'h) machine =
  regs :: registers
  table :: handler_table
  bad_irqs :: u32
  ports :: 'io
  ticks :: u32
  tasks :: "'h sched"

definition IRQ :: "u32 \<Rightarrow> u32" where "IRQ x = x + 0x20"

partial_function (option) run_handlers ::
  "(u32 \<Rightarrow> ('io, 'h) machine \<Rightarrow> ('io, 'h) machine) \<Rightarrow> u8 \<Rightarrow> nat \<Rightarrow> ('io, 'h) machine \<Rightarrow> ('io, 'h) machine option" where
  "run_handlers call num h s =
     (let s = call (isr (slots (table s) num h)) s
      in case hnext (slots (table s) num h) of None \<Rightarrow> Some s | Some n \<Rightarrow> run_handlers call num n s)"

definition exception_messages :: "string list" where
  "exception_messages =
     [''Division by zero'', ''Debug'', ''Non-maskable interrupt'', ''Breakpoint'', ''Detected overflow'',
      ''Out-of-bounds'', ''Invalid opcode'', ''No coprocessor'', ''Double fault'',
      ''Coprocessor segment overrun'', ''Bad TSS'', ''Segment not present'', ''Stack fault'',
      ''General protection fault'', ''Page fault'', ''Unknown interrupt'', ''Coprocessor fault'',
      ''Alignment check (486+)'', ''Machine check (Pentium/586+)''] @ replicate 13 ''Reserved''"

text \<open>Returning to the interrupted code with a stack pointer, or stopping with a message.\<close>

datatype outcome = Resume u32 | Halt "string option"

definition isr_handler ::
  "(u32 \<Rightarrow> ('io, 'h) machine \<Rightarrow> ('io, 'h) machine) \<Rightarrow> u32 \<Rightarrow> ('io, 'h) machine \<Rightarrow> (outcome \<times> ('io, 'h) machine) option" where
  "isr_handler call sp s = do {
     let int_no = r_int_no (regs s);
     let h = get_interrupt_handler (ucast int_no) (table s);
     let stop = (h = None \<or> int_no = 8 \<or> (IRQ 0 \<le> int_no \<and> int_no \<noteq> ucast SYSCALL_VECTOR));
     s \<leftarrow> (case h of None \<Rightarrow> Some s | Some h \<Rightarrow> run_handlers call (ucast int_no) h s);
     let int_no = r_int_no (regs s);
     Some (if stop
           then Halt (if int_no < IRQ 0 then Some (exception_messages ! unat int_no) else None)
           else Resume sp, s)
   }"

definition run_irq_handlers ::
  "(u32 \<Rightarrow> ('io, 'h) machine \<Rightarrow> ('io, 'h) machine) \<Rightarrow> u32 \<Rightarrow> ('io, 'h) machine \<Rightarrow> (u32 \<times> ('io, 'h) machine) option" where
  "run_irq_handlers call sp s =
     (let num = ucast (IRQ (r_int_no (regs s)))
      in case get_interrupt_handler num (table s) of
           None \<Rightarrow> Some (sp, s)
         | Some h \<Rightarrow> map_option (Pair sp) (run_handlers call num h s))"

definition irq_handler ::
  "'io port_ops \<Rightarrow> (u32 \<Rightarrow> 'h \<Rightarrow> 'h) \<Rightarrow> (u32 \<Rightarrow> ('io, 'h) machine \<Rightarrow> ('io, 'h) machine) \<Rightarrow>
   u64 \<times> u64 \<times> u64 \<Rightarrow> u32 \<Rightarrow> ('io, 'h) machine \<Rightarrow> (u32 \<times> ('io, 'h) machine) option" where
  "irq_handler io kfree call cycles sp s =
     (let (spurious, bad, p) = pic_acknowledge io (r_int_no (regs s)) (bad_irqs s, ports s);
          s = s\<lparr>bad_irqs := bad, ports := p\<rparr>
      in if spurious then Some (sp, s)
         else do {
           (sp, s) \<leftarrow>
             (if scheduling (tasks s) \<and> r_int_no (regs s) = 0
              then (case cycles of (c0, c1, c2) \<Rightarrow>
                      map_option (\<lambda>(sp, t). (sp, s\<lparr>tasks := t\<rparr>)) (schedule_tick kfree sp c0 c1 c2 (tasks s)))
              else Some (sp, s));
           run_irq_handlers call sp s
         })"

section \<open>The timer\<close>

definition PIT_MAX_FREQ :: u32 where "PIT_MAX_FREQ = 1193182"

definition pit_handler :: "('io, 'h) machine \<Rightarrow> ('io, 'h) machine" where
  "pit_handler s = s\<lparr>ticks := ticks s + 1\<rparr>"

definition pit_init :: "'io port_ops \<Rightarrow> u32 \<Rightarrow> u32 \<Rightarrow> ('io, 'h) machine \<Rightarrow> ('io, 'h) machine option" where
  "pit_init io handler_addr freq s =
     (if freq = 0 then Some s
      else let divisor = ucast (ucast (PIT_MAX_FREQ div freq) :: u16) :: u32;
               p = outb io 0x43 (0x00 OR 0x00 OR 0x30 OR 0x06) (ports s);
               p = outb io 0x40 (ucast (divisor AND 0xff)) p;
               p = outb io 0x40 (ucast (drop_bit 8 divisor AND 0xff)) p
           in do {
             t \<leftarrow> attach_interrupt_handler (ucast (IRQ 0)) handler_addr (table s);
             Some (s\<lparr>ports := pic_enable_irq io 0 p, ticks := 0, table := t\<rparr>)
           })"

definition pit_get_ticks :: "('io, 'h) machine \<Rightarrow> u32" where
  "pit_get_ticks s = ticks s"

definition pit_set_ticks :: "u32 \<Rightarrow> ('io, 'h) machine \<Rightarrow> ('io, 'h) machine" where
  "pit_set_ticks val s = s\<lparr>ticks := val\<rparr>"

section \<open>System calls\<close>

definition num_syscalls :: u32 where "num_syscalls = 4"

text \<open>The kernel functions that have a system call, and the table of them, in which the number of a call is its position.\<close>

datatype kernel_fun = Thread_exit | Vga_print_str | Vga_print_dec | Vga_print_hex

definition syscalls :: "kernel_fun list" where
  "syscalls = [Thread_exit, Vga_print_str, Vga_print_dec, Vga_print_hex]"

text \<open>
  \<open>invoke\<close> runs a kernel function with the five argument words on the stack and gives what it
  leaves in the result register.
\<close>

definition syscall_handler ::
  "(kernel_fun \<Rightarrow> u32 list \<Rightarrow> ('io, 'h) machine \<Rightarrow> u32 \<times> ('io, 'h) machine) \<Rightarrow> ('io, 'h) machine \<Rightarrow> ('io, 'h) machine" where
  "syscall_handler invoke s =
     (if num_syscalls \<le> r_eax (regs s) then s
      else let r = regs s;
               (ret, s) = invoke (syscalls ! unat (r_eax r))
                 [r_ebx r, r_ecx r, r_edx r, r_esi r, r_edi r] s
           in s\<lparr>regs := (regs s)\<lparr>r_eax := ret\<rparr>\<rparr>)"

definition syscall_init :: "u32 \<Rightarrow> ('io, 'h) machine \<Rightarrow> ('io, 'h) machine option" where
  "syscall_init handler_addr s =
     map_option (\<lambda>t. s\<lparr>table := t\<rparr>) (attach_interrupt_handler SYSCALL_VECTOR handler_addr (table s))"

section \<open>Handlers run in the order of their attachment\<close>

text \<open>Handlers that leave the handler lists alone.\<close>

definition keeps_table :: "(u32 \<Rightarrow> ('io, 'h) machine \<Rightarrow> ('io, 'h) machine) \<Rightarrow> bool" where
  "keeps_table call \<longleftrightarrow> (\<forall>a s. table (call a s) = table s)"

lemma run_handlers_linked:
  assumes "keeps_table call" "linked (slots (table s) num) p xs None" "xs \<noteq> []"
  shows "run_handlers call num (hd xs) s = Some (fold call (attached num xs (table s)) s)"
  using assms(2,3)
proof (induction xs arbitrary: p s)
  case (Cons x xs)
  define s' where "s' = call (isr (slots (table s) num x)) s"
  have t: "table s' = table s" using assms(1) by (simp add: s'_def keeps_table_def)
  show ?case
  proof (cases xs)
    case Nil
    then show ?thesis using Cons.prems t
      by (subst run_handlers.simps) (simp add: s'_def [symmetric] attached_def)
  next
    case (Cons y ys)
    then have "run_handlers call num y s' = Some (fold call (attached num xs (table s')) s')"
      using Cons.IH [of s' "Some x"] Cons.prems t by simp
    then show ?thesis using Cons Cons.prems t
      by (subst run_handlers.simps) (simp add: s'_def [symmetric] attached_def)
  qed
qed simp

lemma get_interrupt_handler_ok:
  assumes "handlers_ok num xs t"
  shows "get_interrupt_handler num t = (if xs = [] then None else Some (hd xs))"
proof (cases "xs = []")
  case True
  then show ?thesis using assms by (auto simp: get_interrupt_handler_def handlers_ok_def)
next
  case False
  have e: "set xs = {i. i < MAX_HANDLERS \<and> isr (slots t num i) \<noteq> 0}" and h: "heads t num = hd xs"
    using assms False unfolding handlers_ok_def by blast+
  have "hd xs \<in> {i. i < MAX_HANDLERS \<and> isr (slots t num i) \<noteq> 0}"
    unfolding e [symmetric] using False by (rule hd_in_set)
  then show ?thesis using False h by (simp add: get_interrupt_handler_def)
qed

lemma run_attached:
  assumes "handlers_ok num xs (table s)" "keeps_table call"
  shows "(case get_interrupt_handler num (table s) of None \<Rightarrow> Some s | Some h \<Rightarrow> run_handlers call num h s) =
    Some (fold call (attached num xs (table s)) s)"
proof (cases "xs = []")
  case False
  then show ?thesis
    using run_handlers_linked [OF assms(2), of s num None xs] assms(1)
    by (simp add: get_interrupt_handler_ok [OF assms(1)] handlers_ok_def)
qed (simp add: get_interrupt_handler_ok [OF assms(1)] attached_def)

text \<open>
  Claim C22. An interrupt line runs all handlers attached to it, in the order in which they
  were attached, after its interrupt is acknowledged; a spurious interrupt runs none. The
  interrupted code is resumed at the stack it had, except that a timer interrupt resumes the
  thread the scheduler chose.
\<close>

theorem irq_runs_handlers:
  assumes "pic_acknowledge io irq (bad_irqs s, ports s) = (spurious, bad, p)"
    and "irq = r_int_no (regs s)" "num = ucast (IRQ irq)" "handlers_ok num xs (table s)" "keeps_table call"
    and "s1 = s\<lparr>bad_irqs := bad, ports := p\<rparr>"
  shows "irq_handler io kfree call (c0, c1, c2) sp s =
    (if spurious then Some (sp, s1)
     else if scheduling (tasks s) \<and> irq = 0
     then map_option (\<lambda>(e, t). (e, fold call (attached num xs (table s)) (s1\<lparr>tasks := t\<rparr>)))
            (schedule_tick kfree sp c0 c1 c2 (tasks s))
     else Some (sp, fold call (attached num xs (table s)) s1))"
proof -
  have r: "run_irq_handlers call e s' = Some (e, fold call (attached num xs (table s)) s')"
    if "table s' = table s" "regs s' = regs s" for s' e
    using run_attached [of num xs s' call] assms(2-5) that
    by (auto simp: run_irq_handlers_def Let_def split: option.splits)
  show ?thesis
  proof (cases "schedule_tick kfree sp c0 c1 c2 (tasks s)")
    case None
    then show ?thesis using assms(1,2,6) r [of s1] by (simp add: irq_handler_def Let_def)
  next
    case (Some x)
    obtain e t where "x = (e, t)" by fastforce
    then show ?thesis using Some assms(1,2,6) r [of s1] r [of "s1\<lparr>tasks := t\<rparr>"]
      by (simp add: irq_handler_def Let_def)
  qed
qed

text \<open>The keyboard line with one attached handler that counts its calls.\<close>

definition sample_machine :: "(port_trace, unit) machine" where
  "sample_machine =
     \<lparr>regs = (registers_of (replicate 18 0))\<lparr>r_int_no := 1\<rparr>, table = two_handlers, bad_irqs = 0,
      ports = \<lparr>input = \<lambda>_. 0, writes = []\<rparr>, ticks = 0, tasks = three_threads\<rparr>"

theorem irq_runs_handlers_witness:
  "\<exists>s. irq_handler trace_ports (\<lambda>_ h. h) (\<lambda>a. pit_set_ticks a) (0, 0, 0) 0x9000 sample_machine =
      Some (0x9000, s) \<and> ticks s = 32 \<and> writes (ports s) = [(0x20, 0x20)]"
proof -
  let ?call = "\<lambda>a. pit_set_ticks a :: (port_trace, unit) machine \<Rightarrow> _"
  let ?p = "\<lparr>input = \<lambda>_. 0, writes = [(0x20, 0x20)]\<rparr>"
  have a: "pic_acknowledge trace_ports 1 (bad_irqs sample_machine, ports sample_machine) = (False, 0, ?p)"
    by (simp add: pic_acknowledge_def send_eoi_def trace_ports_def sample_machine_def pic_ports PIC_EOI_def
        word_le_nat_alt)
  have irq: "1 = r_int_no (regs sample_machine)" by (simp add: sample_machine_def)
  have num: "(33 :: u8) = ucast (IRQ 1)" by (simp add: IRQ_def)
  have ok: "handlers_ok 33 [0, 1] (table sample_machine)"
    using two_handlers_ok by (simp add: sample_machine_def)
  have k: "keeps_table ?call" by (simp add: keeps_table_def pit_set_ticks_def)
  have at: "attached 33 [0, 1] (table sample_machine) = [16, 32]"
    by (simp add: attached_def sample_machine_def two_handlers_def)
  show ?thesis
    unfolding irq_runs_handlers [OF a irq num ok k refl] at
    by (simp add: pit_set_ticks_def sample_machine_def)
qed

end
