(* ===== verification/System.thy ===== *)
theory System
  imports Interrupts Cstring
begin

text \<open>
  The rest of \<^verbatim>\<open>kernel/system.c\<close> and \<^verbatim>\<open>kernel/system.h\<close>: the interrupt flag, spin locks, \<open>sleep\<close>,
  \<open>arch_reset\<close> and \<open>arch_init\<close>, with \<open>pic_init\<close> of \<^verbatim>\<open>kernel/pic.c\<close>; and the callers' side of the
  system calls, the macros of \<^verbatim>\<open>kernel/syscall.h\<close>.
\<close>

section \<open>The interrupt flag\<close>

text \<open>
  The processor has the flags, the descriptor tables and the machine of the interrupt
  handlers. \<open>cli\<close> and \<open>sti\<close> change bit 9 of the flags; \<open>popfl\<close> in the kernel sets them all.
\<close>

record ('io, 'h) system =
  eflags :: u32
  segments :: gdt_state
  gates :: idt
  core :: "('io, 'h) machine"

definition irq_disable :: "('io, 'h) system \<Rightarrow> ('io, 'h) system" where
  "irq_disable s = s\<lparr>eflags := eflags s AND NOT (push_bit 9 1)\<rparr>"

definition irq_enable :: "('io, 'h) system \<Rightarrow> ('io, 'h) system" where
  "irq_enable s = s\<lparr>eflags := eflags s OR push_bit 9 1\<rparr>"

definition irq_save :: "('io, 'h) system \<Rightarrow> u32 \<times> ('io, 'h) system" where
  "irq_save s = (eflags s, irq_disable s)"

definition irq_restore :: "u32 \<Rightarrow> ('io, 'h) system \<Rightarrow> ('io, 'h) system" where
  "irq_restore st s = s\<lparr>eflags := st\<rparr>"

definition interrupts_on :: "('io, 'h) system \<Rightarrow> bool" where
  "interrupts_on s \<longleftrightarrow> bit (eflags s) 9"

lemma interrupt_flag:
  "\<not> interrupts_on (irq_disable s)" "interrupts_on (irq_enable s)" "\<not> interrupts_on (snd (irq_save s))"
  "interrupts_on (irq_restore (fst (irq_save s)) s') \<longleftrightarrow> interrupts_on s"
  by (simp_all add: interrupts_on_def irq_disable_def irq_enable_def irq_save_def irq_restore_def bit_simps)

section \<open>Spin locks\<close>

text \<open>\<open>others\<close> is what the rest of the machine does to memory between two attempts.\<close>

partial_function (option) spin_lock :: "(bmem \<Rightarrow> bmem) \<Rightarrow> u32 \<Rightarrow> bmem \<Rightarrow> bmem option" where
  "spin_lock others lock m =
     (let old = m lock; m = m(lock := 1)
      in if old \<noteq> 0 then spin_lock others lock (others m) else Some m)"

definition spin_unlock :: "u32 \<Rightarrow> bmem \<Rightarrow> bmem" where
  "spin_unlock lock m = m(lock := 0)"

section \<open>Sleeping and resetting\<close>

text \<open>
  \<open>halt\<close> runs the machine until the processor has returned from the next interrupt. The sum
  of the ticks and the time is computed once, with the wrap-around of 32 bits.
\<close>

partial_function (option) sleep_until ::
  "(('io, 'h) machine \<Rightarrow> ('io, 'h) machine option) \<Rightarrow> u32 \<Rightarrow> ('io, 'h) machine \<Rightarrow> ('io, 'h) machine option" where
  "sleep_until halt limit s =
     (if limit > pit_get_ticks s then Option.bind (halt s) (sleep_until halt limit) else Some s)"

definition sleep ::
  "(('io, 'h) machine \<Rightarrow> ('io, 'h) machine option) \<Rightarrow> u32 \<Rightarrow> ('io, 'h) machine \<Rightarrow> ('io, 'h) machine option" where
  "sleep halt ms s = (let current = pit_get_ticks s in sleep_until halt (current + ms) s)"

partial_function (option) flush_keyboard :: "'io port_ops \<Rightarrow> 'io \<Rightarrow> 'io option" where
  "flush_keyboard io s =
     (let (temp, s) = inb io 0x64 s;
          s = (if temp AND 0x01 \<noteq> 0 then snd (inb io 0x60 s) else s)
      in if temp AND 0x02 \<noteq> 0 then flush_keyboard io s else Some s)"

text \<open>
  \<open>arch_reset\<close> does not return: the result is the state in which the processor stops, unless
  the reset line works. \<open>outw\<close> is the instruction that writes two bytes to a port.
\<close>

definition arch_reset :: "'io port_ops \<Rightarrow> (u16 \<Rightarrow> u16 \<Rightarrow> 'io \<Rightarrow> 'io) \<Rightarrow> ('io, 'h) system \<Rightarrow> ('io, 'h) system option" where
  "arch_reset io outw s = do {
     let s = irq_disable s;
     p \<leftarrow> flush_keyboard io (ports (core s));
     let s = s\<lparr>core := (core s)\<lparr>ports := outw 0x64 0xfe p\<rparr>\<rparr>;
     Some (irq_disable s)
   }"

section \<open>Interrupt lines\<close>

text \<open>The names other parts know the controllers' functions by; \<open>restore_irqs\<close> has an empty body.\<close>

definition enable_irq :: "'io port_ops \<Rightarrow> u8 \<Rightarrow> ('io, 'h) machine \<Rightarrow> ('io, 'h) machine" where
  "enable_irq io irq s = s\<lparr>ports := pic_enable_irq io (unat irq) (ports s)\<rparr>"

definition disable_irq :: "'io port_ops \<Rightarrow> u8 \<Rightarrow> ('io, 'h) machine \<Rightarrow> ('io, 'h) machine" where
  "disable_irq io irq s = s\<lparr>ports := pic_disable_irq io (unat irq) (ports s)\<rparr>"

definition disable_irqs :: "'io port_ops \<Rightarrow> ('io, 'h) machine \<Rightarrow> ('io, 'h) machine" where
  "disable_irqs io s = s\<lparr>ports := pic_disable io (ports s)\<rparr>"

definition restore_irqs :: "('io, 'h) machine \<Rightarrow> ('io, 'h) machine" where
  "restore_irqs s = s"

definition get_ticks_count :: "('io, 'h) machine \<Rightarrow> u32" where
  "get_ticks_count s = pit_get_ticks s"

text \<open>
  Disabling a line and enabling it again leaves it enabled and the masks of the others as they
  were; after \<open>disable_irqs\<close> and \<open>restore_irqs\<close> every line but that of the second controller stays
  masked.
\<close>

theorem irqs_not_restored:
  assumes "mask_ports io line_masks pics_ready" "pics_ready (ports s)" "unat irq < 16" "j < 16"
  shows "masked (line_masks (ports (enable_irq io irq (disable_irq io irq s)))) j \<longleftrightarrow>
      masked (line_masks (ports s)) j \<and> j \<noteq> unat irq"
    "masked (line_masks (ports (restore_irqs (disable_irqs io s)))) j \<longleftrightarrow> j \<noteq> 2"
  using assms(2-4) mask_ports.masked_disable [OF assms(1)] mask_ports.masked_enable [OF assms(1)]
    mask_ports.masked_all [OF assms(1)]
  by (auto simp: enable_irq_def disable_irq_def disable_irqs_def restore_irqs_def)

section \<open>Starting the processor\<close>

definition pic_init :: "'io port_ops \<Rightarrow> (u8 \<Rightarrow> u32) \<Rightarrow> ('io, 'h) system \<Rightarrow> ('io, 'h) system" where
  "pic_init io irq_stub s =
     (let p = pic_remap io (ports (core s));
          p = pic_disable io p;
          s = s\<lparr>core := (core s)\<lparr>ports := p\<rparr>\<rparr>;
          s = s\<lparr>gates := irq_gates irq_stub (gates s)\<rparr>
      in irq_enable s)"

definition TIMER_FREQ :: u32 where "TIMER_FREQ = 1000"

text \<open>
  \<open>tss\<close>, \<open>stub\<close>, \<open>irq_stub\<close> and \<open>timer\<close> are the addresses of the task state, of the interrupt
  stubs and of \<open>pit_handler\<close>.
\<close>

definition arch_init ::
  "'io port_ops \<Rightarrow> u32 \<Rightarrow> (u8 \<Rightarrow> u32) \<Rightarrow> (u8 \<Rightarrow> u32) \<Rightarrow> u32 \<Rightarrow> ('io, 'h) system \<Rightarrow> ('io, 'h) system option" where
  "arch_init io tss stub irq_stub timer s = do {
     let s = s\<lparr>segments := gdt_init tss (segments s)\<rparr>;
     let s = s\<lparr>gates := idt_init stub\<rparr>;
     let s = pic_init io irq_stub s;
     m \<leftarrow> pit_init io timer TIMER_FREQ (core s);
     Some (s\<lparr>core := m\<rparr>)
   }"

definition arch_finish :: "'io port_ops \<Rightarrow> ('io, 'h) system \<Rightarrow> ('io, 'h) system" where
  "arch_finish io s = s\<lparr>core := (core s)\<lparr>ports := pic_disable io (ports (core s))\<rparr>\<rparr>"

section \<open>System calls\<close>

text \<open>
  The instruction \<open>int 0x80\<close>: the stub saves the registers with the number of the interrupt,
  \<open>isr_handler\<close> runs, and the registers are loaded again with what the handlers left in them.
  The macros load the number of the call and its arguments first.
\<close>

definition int80 ::
  "(u32 \<Rightarrow> ('io, 'h) machine \<Rightarrow> ('io, 'h) machine) \<Rightarrow> u32 \<Rightarrow> ('io, 'h) machine \<Rightarrow> (u32 \<times> ('io, 'h) machine) option" where
  "int80 call sp s =
     (case isr_handler call sp (s\<lparr>regs := (regs s)\<lparr>r_int_no := 0x80\<rparr>\<rparr>) of
        Some (Resume _, s) \<Rightarrow> Some (r_eax (regs s), s)
      | _ \<Rightarrow> None)"

definition syscall0 ::
  "(u32 \<Rightarrow> ('io, 'h) machine \<Rightarrow> ('io, 'h) machine) \<Rightarrow> u32 \<Rightarrow> u32 \<Rightarrow> ('io, 'h) machine \<Rightarrow> (u32 \<times> ('io, 'h) machine) option" where
  "syscall0 call sp num s = int80 call sp (s\<lparr>regs := (regs s)\<lparr>r_eax := num\<rparr>\<rparr>)"

definition syscall1 ::
  "(u32 \<Rightarrow> ('io, 'h) machine \<Rightarrow> ('io, 'h) machine) \<Rightarrow> u32 \<Rightarrow> u32 \<Rightarrow> u32 \<Rightarrow> ('io, 'h) machine \<Rightarrow> (u32 \<times> ('io, 'h) machine) option" where
  "syscall1 call sp num p1 s = int80 call sp (s\<lparr>regs := (regs s)\<lparr>r_eax := num, r_ebx := p1\<rparr>\<rparr>)"

definition syscall2 ::
  "(u32 \<Rightarrow> ('io, 'h) machine \<Rightarrow> ('io, 'h) machine) \<Rightarrow> u32 \<Rightarrow> u32 \<Rightarrow> u32 \<Rightarrow> u32 \<Rightarrow> ('io, 'h) machine \<Rightarrow>
   (u32 \<times> ('io, 'h) machine) option" where
  "syscall2 call sp num p1 p2 s =
     int80 call sp (s\<lparr>regs := (regs s)\<lparr>r_eax := num, r_ebx := p1, r_ecx := p2\<rparr>\<rparr>)"

definition syscall3 ::
  "(u32 \<Rightarrow> ('io, 'h) machine \<Rightarrow> ('io, 'h) machine) \<Rightarrow> u32 \<Rightarrow> u32 \<Rightarrow> u32 \<Rightarrow> u32 \<Rightarrow> u32 \<Rightarrow> ('io, 'h) machine \<Rightarrow>
   (u32 \<times> ('io, 'h) machine) option" where
  "syscall3 call sp num p1 p2 p3 s =
     int80 call sp (s\<lparr>regs := (regs s)\<lparr>r_eax := num, r_ebx := p1, r_ecx := p2, r_edx := p3\<rparr>\<rparr>)"

definition syscall_thread_exit where "syscall_thread_exit call sp = syscall0 call sp 0"

definition syscall_vga_print_str where "syscall_vga_print_str call sp str = syscall1 call sp 1 str"

definition syscall_vga_print_dec where "syscall_vga_print_dec call sp val = syscall1 call sp 2 val"

definition syscall_vga_print_hex where "syscall_vga_print_hex call sp val = syscall1 call sp 3 val"

end
