(* ===== verification/System_Props.thy ===== *)
theory System_Props
  imports System
begin

text \<open>
  What the functions of \<open>System\<close> establish: the state of the processor after \<open>arch_init\<close>, the
  types of the segments that stack frames and gates refer to, the way of a system call to its
  kernel function and back, and the time that \<open>sleep\<close> takes.
\<close>

section \<open>The processor after its start\<close>

lemma arch_init_ok:
  assumes "mask_ports io line_masks pics_ready" "handlers_ok 0x20 [] (table (core s))"
    and "heads (table (core s)) 0x20 = 0" "timer \<noteq> 0"
  shows "\<exists>s' n. arch_init io tss stub irq_stub timer s = Some s' \<and> interrupts_on s' \<and> ticks (core s') = 0 \<and>
    handlers_ok 0x20 [n] (table (core s')) \<and> attached 0x20 [n] (table (core s')) = [timer] \<and>
    (\<forall>i<16. masked (line_masks (ports (core s'))) i \<longleftrightarrow> i \<notin> {0, 2}) \<and>
    pics_ready (ports (core s')) \<and>
    (\<forall>k. k \<noteq> 0x20 \<longrightarrow> slots (table (core s')) k = slots (table (core s)) k \<and> heads (table (core s')) k = heads (table (core s)) k)"
proof -
  let ?p = "pic_disable io (pic_remap io (ports (core s)))"
  let ?q = "outb io 0x40 4 (outb io 0x40 0xa9 (outb io 0x43 0x36 ?p))"
  obtain t n where t: "attach_interrupt_handler 0x20 timer (table (core s)) = Some t" "handlers_ok 0x20 [n] t"
    "attached 0x20 [n] t = [timer]" "\<forall>k. k \<noteq> 0x20 \<longrightarrow> slots t k = slots (table (core s)) k \<and> heads t k = heads (table (core s)) k"
    using attach_room [OF assms(2,4)] assms(3) by (auto simp: MAX_HANDLERS_def attached_def)
  have p: "pics_ready ?p" "\<And>i. i < 16 \<Longrightarrow> masked (line_masks ?p) i \<longleftrightarrow> i \<noteq> 2"
    using mask_ports.masked_all [OF assms(1) mask_ports.remap_ready [OF assms(1)]] by blast+
  have "pics_ready (outb io q v r) \<and> line_masks (outb io q v r) = line_masks r"
    if "q \<in> {0x40, 0x43}" "pics_ready r" for q v r
    using mask_ports.write_other [OF assms(1) that(2), of q v] that(1) by (auto simp: pic_ports)
  then have q: "pics_ready ?q" "line_masks ?q = line_masks ?p" using p(1) by auto
  have m: "masked (line_masks (pic_enable_irq io 0 ?q)) i \<longleftrightarrow> i \<notin> {0, 2}" if "i < 16" for i
    using mask_ports.masked_enable(1) [OF assms(1) q(1), of 0 i] p(2) [OF that] that q(2) by auto
  have rd: "pics_ready (pic_enable_irq io 0 ?q)" by (rule mask_ports.masked_enable(2) [OF assms(1) q(1), of 0 0]) simp_all
  have d: "PIT_MAX_FREQ div TIMER_FREQ = 0x4a9" by (simp add: PIT_MAX_FREQ_def TIMER_FREQ_def)
  have "TIMER_FREQ \<noteq> 0" by (simp add: TIMER_FREQ_def)
  then have "\<exists>s'. arch_init io tss stub irq_stub timer s = Some s' \<and> interrupts_on s' \<and>
      ticks (core s') = 0 \<and> table (core s') = t \<and> ports (core s') = pic_enable_irq io 0 ?q"
    using t(1)
    by (simp add: arch_init_def pit_init_def pic_init_def d irq_enable_def interrupts_on_def IRQ_def Let_def
        bit_simps)
  then show ?thesis using t(2-4) m rd by metis
qed

text \<open>
  \<open>arch_init\<close> returns with interrupts enabled, the tick counter at zero, the timer's handler
  as the only one of its line, and exactly two of the sixteen lines unmasked: the timer and
  the connection of the second controller. The controllers are assumed to follow their data
  sheet, and the timer's line to have no handler before.
\<close>

theorem arch_init_ready:
  assumes "mask_ports io line_masks pics_ready" "handlers_ok 0x20 [] (table (core s))"
    and "heads (table (core s)) 0x20 = 0" "timer \<noteq> 0"
  shows "\<exists>s' n. arch_init io tss stub irq_stub timer s = Some s' \<and> interrupts_on s' \<and> ticks (core s') = 0 \<and>
    handlers_ok 0x20 [n] (table (core s')) \<and> attached 0x20 [n] (table (core s')) = [timer] \<and>
    (\<forall>i<16. masked (line_masks (ports (core s'))) i \<longleftrightarrow> i \<notin> {0, 2})"
  using arch_init_ok [OF assms] by blast

definition cold_system :: "(u16 \<Rightarrow> chip, unit) system" where
  "cold_system = \<lparr>eflags = 2, segments = \<lparr>gdt_entries = \<lambda>_. \<lparr>limit_low = 0, base_low = 0, base_middle = 0,
       gaccess = 0, gflags = 0, base_high = 0\<rparr>, gdt_limit = 0, gdt_tss = zero_tss\<rparr>,
     gates = \<lambda>_. zero_idt_entry,
     core = \<lparr>regs = registers_of (replicate 18 0), table = no_handlers, bad_irqs = 0,
       ports = idle_chips, ticks = 77, tasks = three_threads\<rparr>\<rparr>"

theorem arch_init_ready_witness:
  "\<exists>s'. arch_init chip_ports 0xc0105000 (\<lambda>_. 0xc0100000) (\<lambda>_. 0xc0200000) 0xc0102000 cold_system = Some s' \<and>
     interrupts_on s' \<and> \<not> masked (\<lambda>p. chip_mask (ports (core s') p)) 0 \<and>
     masked (\<lambda>p. chip_mask (ports (core s') p)) 1"
  using arch_init_ready [OF chips.mask_ports_axioms, of cold_system "0xc0102000" "0xc0105000" "\<lambda>_. 0xc0100000"
      "\<lambda>_. 0xc0200000"] no_handlers_ok [of "0x20"]
  by (fastforce simp: cold_system_def)

section \<open>Segments and their types\<close>

text \<open>What the access byte of a descriptor says, with the privilege of a segment.\<close>

datatype segment_type = Code_Segment nat | Data_Segment nat | Task_State | No_Segment

definition access_type :: "u8 \<Rightarrow> segment_type" where
  "access_type a =
     (let ring = unat (drop_bit 5 a AND 3)
      in if \<not> bit a 7 then No_Segment
         else if bit a 4 then if bit a 3 then Code_Segment ring
                              else if bit a 1 then Data_Segment ring else No_Segment
         else if a AND 0x0f = 0x09 then Task_State else No_Segment)"

text \<open>The segment a selector names: its bits from 3 on are the index, bit 2 the other table.\<close>

definition selected :: "gdt_state \<Rightarrow> u32 \<Rightarrow> segment_type" where
  "selected g sel =
     (if bit sel 2 \<or> 6 \<le> drop_bit 3 sel then No_Segment
      else access_type (gaccess (gdt_entries g ([GDT_INDEX_NULL, GDT_INDEX_KCODE, GDT_INDEX_KDATA, GDT_INDEX_UCODE,
        GDT_INDEX_UDATA, GDT_INDEX_TSS] ! unat (drop_bit 3 sel)))))"

text \<open>
  The conditions of the interrupt return on the frame it loads: an executable segment of the
  privilege in the selector, writable data segments of that privilege, and, when it goes to
  user code, such a segment for the stack.
\<close>

definition frame_typed :: "gdt_state \<Rightarrow> registers \<Rightarrow> bool" where
  "frame_typed g r \<longleftrightarrow>
     (let ring = unat (r_cs r AND 3)
      in selected g (r_cs r) = Code_Segment ring \<and>
         (\<forall>sel\<in>{r_ds r, r_es r, r_fs r, r_gs r}. selected g sel = Data_Segment ring \<and> unat (sel AND 3) = ring) \<and>
         (ring \<noteq> 0 \<longrightarrow> selected g (r_ss r) = Data_Segment ring \<and> unat (r_ss r AND 3) = ring))"

text \<open>
  The conditions for entering the kernel: every present gate leads to kernel code, and the
  task state is a segment whose stack segment is kernel data.
\<close>

definition entry_typed :: "gdt_state \<Rightarrow> idt \<Rightarrow> bool" where
  "entry_typed g idt \<longleftrightarrow>
     (\<forall>v. bit (i_flags (idt v)) 7 \<longrightarrow> selected g (ucast (i_selector (idt v))) = Code_Segment 0) \<and>
     selected g 0x28 = Task_State \<and> selected g (t_ss0 (gdt_tss g)) = Data_Segment 0"

lemma selected_gdt_init:
  "selected (gdt_init tss g) 0x08 = Code_Segment 0" "selected (gdt_init tss g) 0x10 = Data_Segment 0"
  "selected (gdt_init tss g) 0x1b = Code_Segment 3" "selected (gdt_init tss g) 0x23 = Data_Segment 3"
  "selected (gdt_init tss g) 0x28 = Task_State"
proof -
  have i: "drop_bit 3 0x08 = (1 :: u32)" "drop_bit 3 0x10 = (2 :: u32)" "drop_bit 3 0x1b = (3 :: u32)"
    "drop_bit 3 0x23 = (4 :: u32)" "drop_bit 3 0x28 = (5 :: u32)"
    "\<not> bit (0x08 :: u32) 2" "\<not> bit (0x10 :: u32) 2" "\<not> bit (0x1b :: u32) 2" "\<not> bit (0x23 :: u32) 2"
    "\<not> bit (0x28 :: u32) 2" by code_simp+
  have a: "gaccess (gdt_entries (gdt_init tss g) GDT_INDEX_KCODE) = ACCESS_KCODE"
    "gaccess (gdt_entries (gdt_init tss g) GDT_INDEX_KDATA) = ACCESS_KDATA"
    "gaccess (gdt_entries (gdt_init tss g) GDT_INDEX_UCODE) = ACCESS_UCODE"
    "gaccess (gdt_entries (gdt_init tss g) GDT_INDEX_UDATA) = ACCESS_UDATA"
    "gaccess (gdt_entries (gdt_init tss g) GDT_INDEX_TSS) = 0xe9"
    by (simp_all add: gdt_init_def write_tss_def gdt_set_gate_def Let_def)
  have t: "access_type ACCESS_KCODE = Code_Segment 0" "access_type ACCESS_KDATA = Data_Segment 0"
    "access_type ACCESS_UCODE = Code_Segment 3" "access_type ACCESS_UDATA = Data_Segment 3"
    "access_type 0xe9 = Task_State" by code_simp+
  show "selected (gdt_init tss g) 0x08 = Code_Segment 0" "selected (gdt_init tss g) 0x10 = Data_Segment 0"
    "selected (gdt_init tss g) 0x1b = Code_Segment 3" "selected (gdt_init tss g) 0x23 = Data_Segment 3"
    "selected (gdt_init tss g) 0x28 = Task_State"
    unfolding selected_def i by (simp_all add: a t word_le_nat_alt)
qed

lemma entry_typed_init: "entry_typed (gdt_init tss g) (irq_gates irq_stub (idt_init stub))"
proof -
  have "i_selector (gate c fl) = 0x08" for c fl by (simp add: gate_def idt_set_gate_def KCODE_SEL_def)
  moreover have "i_flags zero_idt_entry = 0" by (simp add: zero_idt_entry_def)
  moreover have "t_ss0 (gdt_tss (gdt_init tss g)) = 0x10" by (simp add: gdt_init_def write_tss_def Let_def)
  ultimately show ?thesis by (simp add: entry_typed_def irq_gates_at idt_init_at selected_gdt_init)
qed

lemma frame_typed_thread:
  "frame_typed (gdt_init tss g) (registers_of (rev (kernel_frame user vm86 entry args usp exit_addr)))"
proof -
  have "(0x08 :: u32) AND 3 = 0" "(0x10 :: u32) AND 3 = 0" "(0x1b :: u32) AND 3 = 3" "(0x23 :: u32) AND 3 = 3"
    by code_simp+
  then show ?thesis by (simp add: frame_typed_def kernel_frame_registers(2) selected_gdt_init)
qed

text \<open>
  C23. After \<open>arch_init\<close> the selectors of the kernel are well-typed: every gate leads to kernel
  code, the task state gives a kernel stack, whatever \<open>set_kernel_stack\<close> writes later, and the
  frame that \<open>create_thread\<close> pushes for a thread names code, data and stack segments of the
  types and of the privilege that the interrupt return requires.
\<close>

theorem selectors_typed:
  assumes "arch_init io tss stub irq_stub timer s = Some s'"
  shows "entry_typed (set_kernel_stack stack (segments s')) (gates s') \<and>
    (kmalloc 52 (kheap_state d) = (t, h1) \<longrightarrow> t \<noteq> 0 \<longrightarrow> kmalloc STACK_SIZE h1 = (ks, h2) \<longrightarrow> ks \<noteq> 0 \<longrightarrow>
     (user \<longrightarrow> fst (kmalloc STACK_SIZE h2) \<noteq> 0) \<longrightarrow>
     create_thread kmalloc exit_addr pr entry args prio user vm86 d = (i, d') \<longrightarrow>
     frame_typed (segments s') (read_registers (stack_mem d') (esp (threads d' t))))"
proof -
  have s': "segments s' = gdt_init tss (segments s)" "gates s' = irq_gates irq_stub (idt_init stub)"
    using assms
    by (auto simp: arch_init_def pic_init_def irq_enable_def Let_def split: Option.bind_splits)
  have "selected (set_kernel_stack stack g) = selected g" for g
    by (rule ext) (simp add: selected_def set_kernel_stack_def)
  then have "entry_typed (set_kernel_stack stack (segments s')) (gates s')"
    using entry_typed_init [of tss "segments s" irq_stub stub] s'
    by (simp add: entry_typed_def) (simp add: set_kernel_stack_def)
  moreover have "frame_typed (segments s') (read_registers (stack_mem d') (esp (threads d' t)))"
    if c: "kmalloc 52 (kheap_state d) = (t, h1)" "t \<noteq> 0" "kmalloc STACK_SIZE h1 = (ks, h2)" "ks \<noteq> 0"
      "user \<longrightarrow> fst (kmalloc STACK_SIZE h2) \<noteq> 0"
      "create_thread kmalloc exit_addr pr entry args prio user vm86 d = (i, d')"
    using created_thread [OF c(1-4) _ c(6)] c(5) frame_typed_thread s'(1) by metis
  ultimately show ?thesis by blast
qed

lemma cold_start:
  "\<exists>s'. arch_init chip_ports 0xc0105000 (\<lambda>_. 0xc0100000) (\<lambda>_. 0xc0200000) 0xc0102000 cold_system = Some s'"
proof -
  have "\<exists>t. attach_interrupt_handler 0x20 0xc0102000 no_handlers = Some t"
    using attach_room [OF no_handlers_ok(1), of "0xc0102000" "0x20"] no_handlers_ok(2) by (auto simp: MAX_HANDLERS_def)
  then show ?thesis
    by (auto simp: arch_init_def pit_init_def pic_init_def irq_enable_def Let_def TIMER_FREQ_def IRQ_def cold_system_def)
qed

theorem selectors_typed_witness:
  "\<exists>s'. arch_init chip_ports 0xc0105000 (\<lambda>_. 0xc0100000) (\<lambda>_. 0xc0200000) 0xc0102000 cold_system = Some s' \<and>
     frame_typed (segments s')
       (read_registers (stack_mem (snd (create_thread bump 0xc0100000 0 0x4000 7 3 True False heap_sched)))
         (esp (threads (snd (create_thread bump 0xc0100000 0 0x4000 7 3 True False heap_sched)) 0x100000)))"
proof -
  obtain s' where s': "arch_init chip_ports 0xc0105000 (\<lambda>_. 0xc0100000) (\<lambda>_. 0xc0200000) 0xc0102000 cold_system = Some s'"
    using cold_start by blast
  have "kheap_state heap_sched = 0x100000" by (simp add: heap_sched_def)
  then show ?thesis
    using s' selectors_typed [OF s', of 0 bump heap_sched "0x100000" "0x100034" "0x100034" "0x102034" True
        "0xc0100000" 0 "0x4000" 7 3 False
        "fst (create_thread bump 0xc0100000 0 0x4000 7 3 True False heap_sched)"
        "snd (create_thread bump 0xc0100000 0 0x4000 7 3 True False heap_sched)"]
    by (simp add: bump_def STACK_SIZE_def)
qed

section \<open>System calls reach their functions\<close>

text \<open>The machine with the registers a system call loads, and what the call of a kernel function leaves.\<close>

definition loaded :: "u32 \<Rightarrow> u32 \<Rightarrow> ('io, 'h) machine \<Rightarrow> ('io, 'h) machine" where
  "loaded num p s = s\<lparr>regs := (regs s)\<lparr>r_eax := num, r_ebx := p, r_int_no := 0x80\<rparr>\<rparr>"

definition called ::
  "(kernel_fun \<Rightarrow> u32 list \<Rightarrow> ('io, 'h) machine \<Rightarrow> u32 \<times> ('io, 'h) machine) \<Rightarrow> kernel_fun \<Rightarrow> ('io, 'h) machine \<Rightarrow> u32 \<times> ('io, 'h) machine" where
  "called invoke f s =
     (let r = regs s; (ret, s) = invoke f [r_ebx r, r_ecx r, r_edx r, r_esi r, r_edi r] s
      in (ret, s\<lparr>regs := (regs s)\<lparr>r_eax := ret\<rparr>\<rparr>))"

lemma int80_runs:
  assumes "handlers_ok 0x80 xs (table s)" "attached 0x80 xs (table s) = [handler]" "keeps_table call"
    and "call handler = syscall_handler invoke" "r_int_no (regs s) = 0x80"
  shows "int80 call sp s = Some (if num_syscalls \<le> r_eax (regs s) then (r_eax (regs s), s)
    else called invoke (syscalls ! unat (r_eax (regs s))) s)"
proof -
  have s: "s\<lparr>regs := (regs s)\<lparr>r_int_no := 0x80\<rparr>\<rparr> = s" using assms(5) by simp
  have x: "xs \<noteq> []" using assms(2) by (auto simp: attached_def)
  have "isr_handler call sp s = Some (Resume sp, call handler s)"
    using run_attached [OF assms(1,3)] assms(2,5) x
    by (simp add: isr_handler_def get_interrupt_handler_ok [OF assms(1)] IRQ_def SYSCALL_VECTOR_def Let_def)
  then show ?thesis
    unfolding int80_def s by (simp add: assms(4) syscall_handler_def called_def Let_def case_prod_beta)
qed

text \<open>
  C24. After \<open>syscall_init\<close> the functions \<open>syscall_thread_exit\<close>, \<open>syscall_vga_print_str\<close>,
  \<open>syscall_vga_print_dec\<close> and \<open>syscall_vga_print_hex\<close> each run the kernel function of their name,
  which the table \<open>syscalls\<close> has at their number, with their parameter as its first argument, and
  return what it returns; a number without an entry in the table runs nothing. \<open>invoke\<close> is how
  the processor runs a kernel function.
\<close>

theorem system_calls_dispatch:
  assumes "handlers_ok 0x80 [] (table s0)" "heads (table s0) 0x80 = 0" "handler \<noteq> 0" "keeps_table call"
    and "call handler = syscall_handler invoke"
  shows "\<exists>s. syscall_init handler s0 = Some s \<and>
    syscall_thread_exit call sp s = Some (called invoke Thread_exit (loaded 0 (r_ebx (regs s)) s)) \<and>
    syscall_vga_print_str call sp p s = Some (called invoke Vga_print_str (loaded 1 p s)) \<and>
    syscall_vga_print_dec call sp p s = Some (called invoke Vga_print_dec (loaded 2 p s)) \<and>
    syscall_vga_print_hex call sp p s = Some (called invoke Vga_print_hex (loaded 3 p s)) \<and>
    (4 \<le> num \<longrightarrow> syscall1 call sp num p s = Some (num, loaded num p s))"
proof -
  obtain t n where t: "attach_interrupt_handler 0x80 handler (table s0) = Some t" "handlers_ok 0x80 [n] t"
    "attached 0x80 [n] t = [handler]"
    using attach_room [OF assms(1,3)] assms(2) by (auto simp: MAX_HANDLERS_def attached_def)
  let ?s = "s0\<lparr>table := t\<rparr>"
  have i: "syscall_init handler s0 = Some ?s" using t(1) by (simp add: syscall_init_def SYSCALL_VECTOR_def)
  have l: "handlers_ok 0x80 [n] (table (loaded k q ?s))" "attached 0x80 [n] (table (loaded k q ?s)) = [handler]"
    "r_int_no (regs (loaded k q ?s)) = 0x80" "r_eax (regs (loaded k q ?s)) = k" for k q
    using t(2,3) by (simp_all add: loaded_def)
  have int80_loaded: "int80 call sp m = int80 call sp (m\<lparr>regs := (regs m)\<lparr>r_int_no := 0x80\<rparr>\<rparr>)" for m
    by (simp add: int80_def)
  have c: "syscall1 call sp k q ?s = Some (if 4 \<le> k then (k, loaded k q ?s)
      else called invoke (syscalls ! unat k) (loaded k q ?s))" for k q
    using int80_runs [OF l(1,2) assms(4,5) l(3), of sp k q] l(4) [of k q]
    unfolding syscall1_def by (subst int80_loaded) (simp add: loaded_def num_syscalls_def)
  have "syscall0 call sp 0 ?s = syscall1 call sp 0 (r_ebx (regs ?s)) ?s" by (simp add: syscall0_def syscall1_def)
  then show ?thesis
    using i c [of 0] c [of 1] c [of 2] c [of 3] c [of num p]
    by (intro exI [of _ ?s]) (simp add: syscall_thread_exit_def syscall_vga_print_str_def
        syscall_vga_print_dec_def syscall_vga_print_hex_def syscalls_def word_le_nat_alt)
qed

definition exit_invoke :: "kernel_fun \<Rightarrow> u32 list \<Rightarrow> (port_trace, unit) machine \<Rightarrow> u32 \<times> (port_trace, unit) machine" where
  "exit_invoke f args s = (if f = Thread_exit then (0, s\<lparr>tasks := thread_exit (tasks s)\<rparr>) else (0, s))"

theorem system_calls_dispatch_witness:
  "\<exists>s s'. syscall_init 0xc0104000 (sample_machine\<lparr>table := no_handlers\<rparr>) = Some s \<and>
     syscall_thread_exit (\<lambda>a s. if a = 0xc0104000 then syscall_handler exit_invoke s else s) 0x9000 s
       = Some (0, s') \<and> state (threads (tasks s') (current_thread (tasks s'))) = TASK_FINISHED"
proof -
  let ?call = "\<lambda>a s. if a = 0xc0104000 then syscall_handler exit_invoke s else s"
  have k: "keeps_table ?call"
    by (auto simp: keeps_table_def syscall_handler_def exit_invoke_def Let_def)
  have c: "?call 0xc0104000 = syscall_handler exit_invoke" by (simp add: fun_eq_iff)
  have h: "handlers_ok 0x80 [] (table (sample_machine\<lparr>table := no_handlers\<rparr>))"
    "heads (table (sample_machine\<lparr>table := no_handlers\<rparr>)) 0x80 = 0" using no_handlers_ok by simp_all
  obtain s where s: "syscall_init 0xc0104000 (sample_machine\<lparr>table := no_handlers\<rparr>) = Some s"
    "syscall_thread_exit ?call 0x9000 s = Some (called exit_invoke Thread_exit (loaded 0 (r_ebx (regs s)) s))"
    using system_calls_dispatch [OF h _ k c, of "0x9000"] by auto
  show ?thesis
    by (rule exI [of _ s])
      (simp add: s called_def exit_invoke_def loaded_def thread_exit_def upd_thread_def)
qed

section \<open>Waiting\<close>

text \<open>
  The memory as a waiting processor finds it at each attempt; it gets the lock at the first
  attempt that finds it free, and waits for ever when none does.
\<close>

definition attempt :: "(bmem \<Rightarrow> bmem) \<Rightarrow> u32 \<Rightarrow> bmem \<Rightarrow> bmem" where
  "attempt others lock m = others (m(lock := 1))"

lemma spin_lock_step:
  "spin_lock others lock m = (if m lock = 0 then Some (m(lock := 1)) else spin_lock others lock (attempt others lock m))"
  by (subst spin_lock.simps) (simp add: attempt_def)

lemma spin_lock_gets:
  "\<forall>i<k. (attempt others lock ^^ i) m lock \<noteq> 0 \<Longrightarrow> (attempt others lock ^^ k) m lock = 0 \<Longrightarrow>
   spin_lock others lock m = Some (((attempt others lock ^^ k) m)(lock := 1))"
proof (induction k arbitrary: m)
  case (Suc k)
  have "m lock \<noteq> 0" using Suc.prems(1) by (metis funpow_0 zero_less_Suc)
  moreover have "spin_lock others lock (attempt others lock m) =
      Some (((attempt others lock ^^ k) (attempt others lock m))(lock := 1))"
    using Suc.prems by (intro Suc.IH) (metis Suc_less_eq funpow_swap1 funpow.simps(2) comp_apply)+
  ultimately show ?case by (subst spin_lock_step) (simp add: funpow_swap1)
qed (simp add: spin_lock_step)

lemma spin_lock_free: "spin_lock others lock m = Some m' \<Longrightarrow> \<exists>k. (attempt others lock ^^ k) m lock = 0"
proof (induction rule: spin_lock.raw_induct [rotated 1, consumes 1])
  case (1 sl others lock m m')
  show ?case
  proof (cases "m lock = 0")
    case True
    then show ?thesis by (intro exI [of _ 0]) simp
  next
    case False
    then have "sl others lock (attempt others lock m) = Some m'" using 1(2) by (simp add: attempt_def)
    from 1(1) [OF this] obtain k where "(attempt others lock ^^ k) (attempt others lock m) lock = 0" by blast
    then show ?thesis by (intro exI [of _ "Suc k"]) (simp add: funpow_swap1)
  qed
qed

text \<open>
  \<open>spin_lock\<close> takes the lock at the first attempt that finds it free and returns with it
  held; it does not return when no attempt finds it free, in particular on a single processor
  that holds the lock already.
\<close>

theorem spin_lock_takes:
  shows "spin_lock others lock m =
      (if \<exists>k. (attempt others lock ^^ k) m lock = 0
       then Some (((attempt others lock ^^ (LEAST k. (attempt others lock ^^ k) m lock = 0)) m)(lock := 1))
       else None) \<and>
    spin_lock id lock (spin_unlock lock m) = Some (m(lock := 1)) \<and>
    spin_lock id lock (m(lock := 1)) = None"
proof -
  have first: "spin_lock others lock m =
      (if \<exists>k. (attempt others lock ^^ k) m lock = 0
       then Some (((attempt others lock ^^ (LEAST k. (attempt others lock ^^ k) m lock = 0)) m)(lock := 1))
       else None)" for others m
  proof (cases "\<exists>k. (attempt others lock ^^ k) m lock = 0")
    case True
    then have "(attempt others lock ^^ (LEAST k. (attempt others lock ^^ k) m lock = 0)) m lock = 0" by (rule LeastI_ex)
    moreover have "\<forall>i<(LEAST k. (attempt others lock ^^ k) m lock = 0). (attempt others lock ^^ i) m lock \<noteq> 0"
      using not_less_Least by blast
    ultimately show ?thesis using True spin_lock_gets [of _ others lock m] by simp
  next
    case False
    then show ?thesis using spin_lock_free [of others lock m] by (cases "spin_lock others lock m") auto
  qed
  have again: "attempt id lock (m(lock := 1)) = m(lock := 1)" by (rule ext) (simp add: attempt_def)
  have "(attempt id lock ^^ k) (m(lock := 1)) = m(lock := 1)" for k
    by (induction k) (simp_all only: funpow_0 funpow.simps(2) comp_apply again)
  then have "spin_lock id lock (m(lock := 1)) = None" by (subst first) simp
  moreover have "spin_lock id lock (spin_unlock lock m) = Some (m(lock := 1))"
    by (subst spin_lock_step) (auto simp: spin_unlock_def)
  ultimately show ?thesis using first by blast
qed

text \<open>A machine that a processor halt brings to its next timer tick.\<close>

locale ticking =
  fixes halt :: "('io, 'h) machine \<Rightarrow> ('io, 'h) machine option" and awake :: "('io, 'h) machine \<Rightarrow> bool"
  assumes tick: "awake s \<Longrightarrow> \<exists>s'. halt s = Some s' \<and> awake s' \<and> ticks s' = ticks s + 1"
begin

lemma sleeps_until:
  "awake s \<Longrightarrow> unat limit = unat (ticks s) + n \<Longrightarrow> \<exists>s'. sleep_until halt limit s = Some s' \<and> awake s' \<and> ticks s' = limit"
proof (induction n arbitrary: s)
  case 0
  then have "ticks s = limit" by (simp add: word_unat_eq_iff)
  then show ?case using 0 by (subst sleep_until.simps) (simp add: pit_get_ticks_def)
next
  case (Suc n)
  obtain s' where s': "halt s = Some s'" "awake s'" "ticks s' = ticks s + 1" using tick [OF Suc.prems(1)] by blast
  have "unat (ticks s) + 1 < 2 ^ 32" using Suc.prems(2) unsigned_less [of limit, where 'a = nat] by simp
  then have "unat (ticks s') = unat (ticks s) + 1" unfolding s'(3) by (subst unat_add_lem [THEN iffD1]) simp_all
  then have "\<exists>s'a. sleep_until halt limit s' = Some s'a \<and> awake s'a \<and> ticks s'a = limit"
    using Suc.IH [OF s'(2)] Suc.prems(2) by simp
  moreover have "limit > ticks s" using Suc.prems(2) by (simp add: word_less_nat_alt)
  ultimately show ?case using s'(1) by (subst sleep_until.simps) (simp add: pit_get_ticks_def)
qed

lemma sleeps:
  assumes "awake s" "unat (ticks s) + unat ms < 2 ^ 32"
  shows "\<exists>s'. sleep halt ms s = Some s' \<and> awake s' \<and> ticks s' = ticks s + ms"
proof -
  have "unat (ticks s + ms) = unat (ticks s) + unat ms"
    using assms(2) by (subst unat_add_lem [THEN iffD1]) simp_all
  then show ?thesis using sleeps_until [OF assms(1)] by (simp add: sleep_def pit_get_ticks_def)
qed

end

text \<open>
  Before scheduling starts, with the timer's handler alone on its line, the interrupt that
  ends a halt is \<open>irq_handler\<close> with the number 0.
\<close>

definition timer_wake :: "'io port_ops \<Rightarrow> u32 \<Rightarrow> u32 \<Rightarrow> ('io, 'h) machine \<Rightarrow> ('io, 'h) machine option" where
  "timer_wake io timer sp s =
     map_option snd (irq_handler io (\<lambda>_ h. h) (\<lambda>a. if a = timer then pit_handler else (\<lambda>m. m)) (0, 0, 0) sp
       (s\<lparr>regs := (regs s)\<lparr>r_int_no := 0\<rparr>\<rparr>))"

definition timer_alone :: "u32 \<Rightarrow> ('io, 'h) machine \<Rightarrow> bool" where
  "timer_alone timer s \<longleftrightarrow> \<not> scheduling (tasks s) \<and>
     (\<exists>n. handlers_ok 0x20 [n] (table s) \<and> attached 0x20 [n] (table s) = [timer])"

interpretation timer_line: ticking "timer_wake io timer sp" "timer_alone timer" for io timer sp
proof unfold_locales
  fix s :: "('a, 'b) machine"
  assume a: "timer_alone timer s"
  let ?s = "s\<lparr>regs := (regs s)\<lparr>r_int_no := 0\<rparr>\<rparr>"
  let ?call = "\<lambda>a. if a = timer then pit_handler else (\<lambda>m. m) :: ('a, 'b) machine \<Rightarrow> _"
  obtain n where n: "handlers_ok 0x20 [n] (table s)" "attached 0x20 [n] (table s) = [timer]"
    using a by (auto simp: timer_alone_def)
  define s1 where "s1 = ?s\<lparr>ports := send_eoi io 0 (ports s)\<rparr>"
  have ack: "pic_acknowledge io 0 (bad_irqs ?s, ports ?s) = (False, bad_irqs s, send_eoi io 0 (ports s))"
    by (simp add: pic_acknowledge_def)
  have k: "keeps_table ?call" by (simp add: keeps_table_def pit_handler_def)
  have "irq_handler io (\<lambda>_ h. h) ?call (0, 0, 0) sp ?s = run_irq_handlers ?call sp s1"
    using a ack by (simp add: irq_handler_def timer_alone_def s1_def Let_def)
  moreover have "run_irq_handlers ?call sp s1 = Some (sp, pit_handler s1)"
    using run_attached [of "0x20" "[n]" s1 ?call] n k
    by (auto simp: run_irq_handlers_def s1_def IRQ_def split: option.splits)
  ultimately have "timer_wake io timer sp s = Some (pit_handler s1)" by (simp add: timer_wake_def)
  moreover have "timer_alone timer (pit_handler s1)" "ticks (pit_handler s1) = ticks s + 1"
    using a by (simp_all add: timer_alone_def pit_handler_def s1_def)
  ultimately show "\<exists>s'. timer_wake io timer sp s = Some s' \<and> timer_alone timer s' \<and> ticks s' = ticks s + 1" by blast
qed

text \<open>
  With the timer running, \<open>sleep\<close> returns after exactly the given number of ticks, as long
  as the tick counter does not overflow in that time; when it would, \<open>sleep\<close> returns at once.
\<close>

theorem sleep_waits:
  assumes "timer_alone timer s"
  shows "(unat (ticks s) + unat ms < 2 ^ 32 \<longrightarrow>
      (\<exists>s'. sleep (timer_wake io timer sp) ms s = Some s' \<and> ticks s' = ticks s + ms)) \<and>
    (2 ^ 32 \<le> unat (ticks s) + unat ms \<longrightarrow> sleep (timer_wake io timer sp) ms s = Some s)"
proof (intro conjI impI)
  assume "unat (ticks s) + unat ms < 2 ^ 32"
  then show "\<exists>s'. sleep (timer_wake io timer sp) ms s = Some s' \<and> ticks s' = ticks s + ms"
    using timer_line.sleeps [OF assms] by blast
next
  assume "2 ^ 32 \<le> unat (ticks s) + unat ms"
  then have "unat (ticks s + ms) = unat (ticks s) + unat ms - 2 ^ 32"
    using unsigned_less [of ms, where 'a = nat] unsigned_less [of "ticks s", where 'a = nat]
    by (simp add: unat_word_ariths le_mod_geq)
  then have "\<not> ticks s + ms > ticks s"
    using unsigned_less [of ms, where 'a = nat] by (simp add: word_less_nat_alt)
  then show "sleep (timer_wake io timer sp) ms s = Some s"
    by (simp add: sleep_def pit_get_ticks_def sleep_until.simps)
qed

theorem sleep_waits_witness:
  "\<exists>t s'. attach_interrupt_handler 0x20 0xc0102000 no_handlers = Some t \<and>
     sleep (timer_wake trace_ports 0xc0102000 0x9000) 10
       (sample_machine\<lparr>table := t, tasks := three_threads\<lparr>scheduling := False\<rparr>, ticks := 5\<rparr>) = Some s' \<and> ticks s' = 15"
proof -
  obtain t n where t: "attach_interrupt_handler 0x20 0xc0102000 no_handlers = Some t" "handlers_ok 0x20 [n] t"
    "attached 0x20 [n] t = [0xc0102000]"
    using attach_room [OF no_handlers_ok(1), of "0xc0102000" "0x20"] no_handlers_ok(2)
    by (auto simp: MAX_HANDLERS_def attached_def)
  let ?s = "sample_machine\<lparr>table := t, tasks := three_threads\<lparr>scheduling := False\<rparr>, ticks := 5\<rparr>"
  have "timer_alone 0xc0102000 ?s" using t(2,3) by (auto simp: timer_alone_def)
  from sleep_waits [OF this, of 10 trace_ports "0x9000"] show ?thesis using t(1) by auto
qed

end
