(* ===== verification/Vga.thy ===== *)
theory Vga
  imports Kernel_Prelude
begin

text \<open>
  The text console of \<^verbatim>\<open>kernel/vga.c\<close>. \<open>video\<close> holds the 16-bit cells from \<open>video_mem\<close>
  upwards, 2000 of which are on the screen; the cells behind them are other memory. The
  hardware cursor is the value the two CRT controller registers hold. A \<^verbatim>\<open>char\<close> is a byte
  whose sign bit counts in comparisons.
\<close>

section \<open>State\<close>

record vga =
  xpos :: u16
  ypos :: u16
  video :: "nat \<Rightarrow> u16"
  attribute :: u16
  cursor :: u16

definition COLS :: nat where "COLS = 80"

definition ROWS :: nat where "ROWS = 25"

section \<open>Operations\<close>

definition set_cursor_pos :: "u16 \<Rightarrow> u16 \<Rightarrow> vga \<Rightarrow> vga" where
  "set_cursor_pos x y s =
     (let pos = y * 80 + x; high = (ucast (drop_bit 8 pos) :: u8); low = (ucast pos :: u8)
      in s\<lparr>cursor := push_bit 8 (ucast high) OR ucast low\<rparr>)"

definition get_cursor_pos :: "vga \<Rightarrow> u16 \<times> u16" where
  "get_cursor_pos s = (cursor s mod 80, cursor s div 80)"

definition vga_clear :: "vga \<Rightarrow> vga" where
  "vga_clear s =
     set_cursor_pos 0 0 (s\<lparr>video := (\<lambda>i. if i < COLS * ROWS then 0x20 OR attribute s else video s i),
        xpos := 0, ypos := 0\<rparr>)"

definition vga_init :: "vga \<Rightarrow> vga" where
  "vga_init s = (let (x, y) = get_cursor_pos s in vga_clear (s\<lparr>xpos := x, ypos := y\<rparr>))"

definition vga_set_attribute :: "u16 \<Rightarrow> vga \<Rightarrow> vga" where
  "vga_set_attribute attr s = s\<lparr>attribute := attr\<rparr>"

text \<open>
  The byte count of the move is an unsigned 32-bit number; the copy runs forwards, and its
  destination is below its source.
\<close>

definition vga_scroll :: "vga \<Rightarrow> vga" where
  "vga_scroll s =
     (if 25 \<le> ypos s
      then let temp = unat (ypos s - 25 + 1);
               cells = unat (word_of_int ((25 - int temp) * 160) :: u32) div 2;
               first = (25 - int temp) * 80;
               blank = 0x20 OR attribute s;
               v = (\<lambda>i. if i < cells then video s (i + temp * COLS) else video s i);
               v = (\<lambda>i. if first \<le> int i \<and> int i < first + 80 then blank else v i)
           in s\<lparr>video := v, ypos := 24\<rparr>
      else s)"

definition put_char :: "u8 \<Rightarrow> vga \<Rightarrow> vga" where
  "put_char c s =
     (if c = 8
      then if 0 < xpos s then s\<lparr>xpos := xpos s - 1\<rparr>
        else if 0 < ypos s then s\<lparr>xpos := 79, ypos := ypos s - 1\<rparr> else s
      else if c = 9 then s\<lparr>xpos := (xpos s + 8) AND NOT 7\<rparr>
      else if c = 13 then s\<lparr>xpos := 0\<rparr>
      else if c = 10 then s\<lparr>xpos := 0, ypos := ypos s + 1\<rparr>
      else if 0x20 \<le> c \<and> c < 0x80
      then s\<lparr>video := (video s)(unat (ypos s) * COLS + unat (xpos s) := ucast c OR attribute s),
             xpos := xpos s + 1\<rparr>
      else s)"

definition vga_print_char :: "u8 \<Rightarrow> vga \<Rightarrow> vga" where
  "vga_print_char c s =
     (let s = put_char c s;
          s = (if 80 \<le> xpos s then s\<lparr>xpos := 0, ypos := ypos s + 1\<rparr> else s);
          s = vga_scroll s
      in set_cursor_pos (xpos s) (ypos s) s)"

text \<open>
  A pointer to bytes is the list of the bytes from there on, terminator included; reading
  behind the end of the list is \<open>None\<close>.
\<close>

fun vga_print_str :: "u8 list \<Rightarrow> vga \<Rightarrow> vga option" where
  "vga_print_str [] s = None"
| "vga_print_str (c # cs) s =
     (if c = 0 then Some s
      else if c = 0x1b
      then case cs of
          [] \<Rightarrow> None
        | a # cs' \<Rightarrow> vga_print_str cs' (vga_set_attribute (push_bit 8 (ucast a) OR (attribute s AND 0xf000)) s)
      else vga_print_str cs (vga_print_char c s))"

text \<open>\<open>vga_write\<close> stops at a zero byte or after \<open>len\<close> bytes and returns how many it took.\<close>

fun vga_write_from :: "u8 list \<Rightarrow> nat \<Rightarrow> nat \<Rightarrow> vga \<Rightarrow> (nat \<times> vga) option" where
  "vga_write_from [] i len s = None"
| "vga_write_from (c # cs) i len s =
     (if c \<noteq> 0 \<and> i < len
      then if c = 0x1b
        then case cs of
            [] \<Rightarrow> None
          | a # cs' \<Rightarrow> vga_write_from cs' (i + 2) len
               (vga_set_attribute (push_bit 8 (ucast a) OR (attribute s AND 0xf000)) s)
        else vga_write_from cs (i + 1) len (vga_print_char c s)
      else Some (i, s))"

definition vga_write :: "u8 list \<Rightarrow> nat \<Rightarrow> vga \<Rightarrow> (nat \<times> vga) option" where
  "vga_write data len s = vga_write_from data 0 len s"

definition set_pos :: "u16 \<Rightarrow> u16 \<Rightarrow> vga \<Rightarrow> vga" where
  "set_pos x y s = s\<lparr>xpos := x mod 80, ypos := y mod 25\<rparr>"

section \<open>The cursor stays on the screen\<close>

definition on_screen :: "vga \<Rightarrow> bool" where
  "on_screen s \<longleftrightarrow> unat (xpos s) < 80 \<and> unat (ypos s) < 25"

lemma bytes_of_u16: "push_bit 8 (ucast (ucast (drop_bit 8 pos) :: u8)) OR ucast (ucast pos :: u8) = (pos :: u16)"
  by (rule bit_word_eqI) (auto simp: bit_simps)

lemma set_cursor_pos_eq: "set_cursor_pos x y s = s\<lparr>cursor := y * 80 + x\<rparr>"
  by (simp add: set_cursor_pos_def Let_def bytes_of_u16)

lemma scroll_bottom:
  assumes "unat (ypos s) = 25"
  shows "vga_scroll s = s\<lparr>ypos := 24, video := (\<lambda>i. if i < 1920 then video s (i + 80)
     else if i < 2000 then 0x20 OR attribute s else video s i)\<rparr>"
proof -
  have y: "ypos s = 25" using assms by (simp add: word_unat_eq_iff)
  show ?thesis
    by (rule vga.equality) (auto simp: vga_scroll_def y Let_def COLS_def fun_eq_iff)
qed

lemma scroll_inside: "unat (ypos s) < 25 \<Longrightarrow> vga_scroll s = s"
  by (simp add: vga_scroll_def word_le_nat_alt)

text \<open>The position after the character itself, before wrapping and scrolling.\<close>

lemma tab_stop: "unat x < 80 \<Longrightarrow> unat ((x + 8) AND NOT 7 :: u16) \<le> 80"
proof -
  assume "unat x < 80"
  then have "x \<in> set (map word_of_nat [0..<80])"
    by (auto intro!: image_eqI [of _ _ "unat x"])
  then show ?thesis by (auto simp: upt_rec)
qed

lemma u16_plus_one: "unat (w::u16) < 2 ^ 16 - 1 \<Longrightarrow> unat (w + 1) = unat w + 1"
  by (simp add: unat_word_ariths)

lemma u16_minus_one: "0 < (w::u16) \<Longrightarrow> unat (w - 1) = unat w - 1"
  by (rule unat_minus_one) auto

lemma put_char_effect:
  assumes "on_screen s" "p = put_char c s"
  shows "unat (xpos p) \<le> 80 \<and> unat (ypos p) \<le> 25 \<and> (unat (xpos p) = 80 \<longrightarrow> unat (ypos p) < 25) \<and>
    (\<forall>i\<ge>2000. video p i = video s i)"
proof -
  have s: "unat (xpos s) < 80" "unat (ypos s) < 25" using assms(1) by (auto simp: on_screen_def)
  have cell: "unat (ypos s) * COLS + unat (xpos s) < 2000" using s by (simp add: COLS_def)
  note w = u16_plus_one [of "xpos s"] u16_plus_one [of "ypos s"] u16_minus_one [of "xpos s"]
    u16_minus_one [of "ypos s"] tab_stop [OF s(1)]
  show ?thesis
    unfolding assms(2) put_char_def using s w cell by auto
qed

lemma wrap_and_scroll:
  assumes "unat (xpos p) \<le> 80" "unat (ypos p) \<le> 25" "unat (xpos p) = 80 \<longrightarrow> unat (ypos p) < 25"
    and "q = (if 80 \<le> xpos p then p\<lparr>xpos := 0, ypos := ypos p + 1\<rparr> else p)"
  shows "on_screen (vga_scroll q) \<and> (\<forall>i\<ge>2000. video (vga_scroll q) i = video p i)"
proof -
  have "unat (ypos q) \<le> 25" "unat (xpos q) < 80" "video q = video p"
    using assms u16_plus_one [of "ypos p"] by (auto simp: word_le_nat_alt)
  then show ?thesis
    by (cases "unat (ypos q) = 25") (auto simp: scroll_bottom scroll_inside on_screen_def)
qed

text \<open>
  C29. Whatever byte is printed, the position stays on the 80 by 25 screen, the hardware cursor
  is set to it, and no memory behind the screen is written.
\<close>

theorem vga_print_char_on_screen:
  assumes "on_screen s"
  shows "on_screen (vga_print_char c s) \<and>
    unat (cursor (vga_print_char c s)) =
      80 * unat (ypos (vga_print_char c s)) + unat (xpos (vga_print_char c s)) \<and>
    (\<forall>i\<ge>2000. video (vga_print_char c s) i = video s i)"
proof -
  define p where "p = put_char c s"
  define q where "q = (if 80 \<le> xpos p then p\<lparr>xpos := 0, ypos := ypos p + 1\<rparr> else p)"
  note eff = put_char_effect [OF assms p_def]
  note scr = wrap_and_scroll [OF _ _ _ q_def] 
  have v: "vga_print_char c s = (vga_scroll q)\<lparr>cursor := ypos (vga_scroll q) * 80 + xpos (vga_scroll q)\<rparr>"
    by (simp add: vga_print_char_def Let_def p_def q_def set_cursor_pos_eq)
  have on: "on_screen (vga_scroll q)" "\<forall>i\<ge>2000. video (vga_scroll q) i = video s i"
    using scr eff by auto
  then have "unat (ypos (vga_scroll q) * 80 + xpos (vga_scroll q)) =
      80 * unat (ypos (vga_scroll q)) + unat (xpos (vga_scroll q))"
    by (simp add: on_screen_def unat_word_ariths)
  with on show ?thesis by (simp add: v on_screen_def)
qed

definition blank_screen :: vga where
  "blank_screen = \<lparr>xpos = 79, ypos = 24, video = \<lambda>_. 0, attribute = 0x0f00, cursor = 0\<rparr>"

theorem vga_print_char_on_screen_witness: "on_screen (vga_print_char 65 blank_screen)"
  using vga_print_char_on_screen [of blank_screen 65] by (simp add: on_screen_def blank_screen_def)

text \<open>
  Printing a visible character puts it, with the current attribute, in the cell under the
  cursor and moves one cell on; from the last cell of the screen all lines move up by one
  and the last line is blanked.
\<close>

theorem vga_prints_visible:
  assumes "on_screen s" "0x20 \<le> c" "c < 0x80" "pos = 80 * unat (ypos s) + unat (xpos s)"
    and "v = (video s)(pos := ucast c OR attribute s)"
  shows "video (vga_print_char c s) =
      (if pos < 1999 then v
       else (\<lambda>i. if i < 1920 then v (i + 80) else if i < 2000 then 0x20 OR attribute s else v i)) \<and>
    80 * unat (ypos (vga_print_char c s)) + unat (xpos (vga_print_char c s)) =
      (if pos < 1999 then pos + 1 else 1920)"
proof -
  have s: "unat (xpos s) < 80" "unat (ypos s) < 25" using assms(1) by (auto simp: on_screen_def)
  define p where "p = put_char c s"
  have "c \<noteq> 8" "c \<noteq> 9" "c \<noteq> 13" "c \<noteq> 10" using assms(2) by auto
  then have p: "p = s\<lparr>video := v, xpos := xpos s + 1\<rparr>"
    using assms(2-5) by (simp add: p_def put_char_def COLS_def mult.commute)
  have x: "unat (xpos s + 1) = unat (xpos s) + 1" "unat (ypos s + 1) = unat (ypos s) + 1"
    using s u16_plus_one [of "xpos s"] u16_plus_one [of "ypos s"] by simp_all
  define q where "q = (if 80 \<le> xpos p then p\<lparr>xpos := 0, ypos := ypos p + 1\<rparr> else p)"
  have r: "vga_print_char c s = (vga_scroll q)\<lparr>cursor := ypos (vga_scroll q) * 80 + xpos (vga_scroll q)\<rparr>"
    by (simp add: vga_print_char_def Let_def p_def q_def set_cursor_pos_eq)
  consider "unat (xpos s) < 79" | "unat (xpos s) = 79" "unat (ypos s) < 24"
    | "unat (xpos s) = 79" "unat (ypos s) = 24" using s by linarith
  then show ?thesis
  proof cases
    case 1
    then have "q = p" using x(1) by (simp add: q_def p word_le_nat_alt)
    then show ?thesis using 1 s x(1) assms(4) by (simp add: r scroll_inside p)
  next
    case 2
    then have "q = p\<lparr>xpos := 0, ypos := ypos s + 1\<rparr>" using x(1) by (simp add: q_def p word_le_nat_alt)
    then show ?thesis using 2 s x(2) assms(4) by (simp add: r scroll_inside p)
  next
    case 3
    then have "q = p\<lparr>xpos := 0, ypos := ypos s + 1\<rparr>" using x(1) by (simp add: q_def p word_le_nat_alt)
    then show ?thesis using 3 s x(2) assms(4) by (simp add: r scroll_bottom p fun_eq_iff)
  qed
qed

theorem vga_prints_visible_witness:
  "video (vga_print_char 65 blank_screen) 1919 = 0x0f41 \<and> video (vga_print_char 65 blank_screen) 1999 = 0x0f20"
  using vga_prints_visible [of blank_screen 65 1999 "(\<lambda>_. 0)(1999 := 0x0f41)"]
  by (simp add: on_screen_def blank_screen_def)

end
