(* ===== verification/Keyboard.thy ===== *)
theory Keyboard
  imports Vga
begin

text \<open>
  The keyboard driver of \<^verbatim>\<open>kernel/keyboard.c\<close>: the key maps, the interrupt handler with its
  shift state, and the ring buffer from which \<open>keyboard_getchar\<close> reads. The ring buffer is an
  instance of a bounded first-in first-out queue, stated as a locale.
\<close>

section \<open>Key maps\<close>

text \<open>The entries the source leaves out of the 128 are zero.\<close>

definition keymap_plain :: "u8 list" where
  "keymap_plain =
     [0, 27, 49, 50, 51, 52, 53, 54, 55, 56, 57, 48, 45, 61, 8, 9, 113, 119, 101, 114,
      116, 121, 117, 105, 111, 112, 91, 93, 10, 0, 97, 115, 100, 102, 103, 104, 106,
      107, 108, 59, 39, 96, 0, 92, 122, 120, 99, 118, 98, 110, 109, 44, 46, 47, 0, 0,
      0, 32, 0, 0, 0, 0, 0, 0, 0, 0, 0, 0, 0, 0, 0, 0, 0, 0, 0, 0, 0, 0, 0, 0, 0, 0, 0,
      0, 0, 0, 0, 0, 0, 0, 0, 0, 0, 0, 0]"

definition keymap_shift :: "u8 list" where
  "keymap_shift =
     [0, 27, 33, 64, 35, 36, 37, 94, 38, 42, 40, 41, 95, 43, 8, 9, 81, 87, 69, 82, 84,
      89, 85, 73, 79, 80, 123, 125, 10, 0, 65, 83, 68, 70, 71, 72, 74, 75, 76, 58, 34,
      126, 0, 92, 90, 88, 67, 86, 66, 78, 77, 60, 62, 63, 0, 0, 0, 32, 0, 0, 0, 0, 0,
      0, 0, 0, 0, 0, 0, 0, 0, 0, 0, 0, 0, 0, 0, 0, 0, 0, 0, 0, 0, 0, 0, 0, 0, 0, 0, 0,
      0, 0, 0, 0, 0]"

definition keymap_us :: "u32 \<Rightarrow> u8 \<Rightarrow> u8" where
  "keymap_us shift scancode =
     (let row = (if shift = 0 then keymap_plain else keymap_shift)
      in if unat scancode < length row then row ! unat scancode else 0)"

section \<open>The driver\<close>

record kbd =
  last_char :: u8
  shift_pressed :: u32
  kbd_buffer :: "nat \<Rightarrow> u8"
  read_idx :: u8
  write_idx :: u8

definition KBD_BUF_SIZE :: u8 where "KBD_BUF_SIZE = 32"

definition LSHIFT :: u8 where "LSHIFT = 0x2a"

definition RSHIFT :: u8 where "RSHIFT = 0x36"

definition kbd_store :: "u8 \<Rightarrow> kbd \<Rightarrow> kbd" where
  "kbd_store c s =
     (if (unat (write_idx s) + 1) mod 32 \<noteq> unat (read_idx s)
      then s\<lparr>kbd_buffer := (kbd_buffer s)(unat (write_idx s) := c),
             write_idx := word_of_nat ((unat (write_idx s) + 1) mod 32)\<rparr>
      else s)"

definition keyboard_handler :: "u8 \<Rightarrow> kbd \<times> vga \<Rightarrow> kbd \<times> vga" where
  "keyboard_handler scancode st =
     (let (s, v) = st in
      if scancode AND 0x80 \<noteq> 0
      then let scancode = scancode AND 0x7f in
        if scancode = LSHIFT \<or> scancode = RSHIFT then (s\<lparr>shift_pressed := 0\<rparr>, v) else (s, v)
      else if scancode = LSHIFT \<or> scancode = RSHIFT then (s\<lparr>shift_pressed := 1\<rparr>, v)
      else let v = vga_print_char (keymap_us (shift_pressed s) scancode) v;
               s = s\<lparr>last_char := keymap_us (shift_pressed s) scancode\<rparr>
           in (kbd_store (last_char s) s, v))"

text \<open>
  \<open>keyboard_getchar\<close> spins while the buffer is empty: seen from one call that no interrupt
  reaches, it does not return.
\<close>

definition keyboard_getchar :: "kbd \<Rightarrow> (u8 \<times> kbd) option" where
  "keyboard_getchar s =
     (if read_idx s = write_idx s then None
      else Some (kbd_buffer s (unat (read_idx s)),
                 s\<lparr>read_idx := word_of_nat ((unat (read_idx s) + 1) mod 32)\<rparr>))"

definition keyboard_lastchar :: "kbd \<Rightarrow> u8 \<times> kbd" where
  "keyboard_lastchar s = (last_char s, s\<lparr>last_char := 0\<rparr>)"

section \<open>Bounded queues\<close>

text \<open>Taking a number of elements from a queue.\<close>

fun drain :: "('s \<Rightarrow> ('a \<times> 's) option) \<Rightarrow> nat \<Rightarrow> 's \<Rightarrow> ('a list \<times> 's) option" where
  "drain pop 0 s = Some ([], s)"
| "drain pop (Suc n) s = (case pop s of None \<Rightarrow> None
     | Some (x, s') \<Rightarrow> map_option (\<lambda>(xs, s''). (x # xs, s'')) (drain pop n s'))"

locale bounded_queue =
  fixes contents :: "'s \<Rightarrow> 'a list" and ok :: "'s \<Rightarrow> bool" and push :: "'a \<Rightarrow> 's \<Rightarrow> 's"
    and pop :: "'s \<Rightarrow> ('a \<times> 's) option" and capacity :: nat
  assumes push_ok: "ok s \<Longrightarrow> ok (push x s)"
    and push_room: "ok s \<Longrightarrow> length (contents s) < capacity \<Longrightarrow> contents (push x s) = contents s @ [x]"
    and push_full: "ok s \<Longrightarrow> length (contents s) = capacity \<Longrightarrow> push x s = s"
    and bounded: "ok s \<Longrightarrow> length (contents s) \<le> capacity"
    and pop_empty: "ok s \<Longrightarrow> pop s = None \<longleftrightarrow> contents s = []"
    and pop_some: "ok s \<Longrightarrow> pop s = Some (x, s') \<Longrightarrow> contents s = x # contents s' \<and> ok s'"
begin

lemma push_all:
  "ok s \<Longrightarrow> length (contents s) + length xs \<le> capacity \<Longrightarrow>
     ok (fold push xs s) \<and> contents (fold push xs s) = contents s @ xs"
proof (induction xs arbitrary: s)
  case (Cons x xs)
  then have "contents (push x s) = contents s @ [x]" by (simp add: push_room)
  with Cons.IH [of "push x s"] Cons.prems push_ok show ?case by simp
qed simp

lemma drain_contents:
  "ok s \<Longrightarrow> n \<le> length (contents s) \<Longrightarrow>
     \<exists>s'. drain pop n s = Some (take n (contents s), s') \<and> ok s' \<and> contents s' = drop n (contents s)"
proof (induction n arbitrary: s)
  case (Suc n)
  then obtain x s1 where p: "pop s = Some (x, s1)" using pop_empty by (cases "pop s") auto
  have c: "contents s = x # contents s1" "ok s1" using pop_some [OF Suc.prems(1) p] by auto
  then show ?case using Suc.IH [OF c(2)] Suc.prems(2) p by auto
qed simp

lemma overflow_drops:
  "ok s \<Longrightarrow> contents (push x s) = take capacity (contents s @ [x])"
  using push_room push_full bounded [of s] by (cases "length (contents s) < capacity") auto

end

section \<open>The ring buffer is a queue of 31 characters\<close>

definition kbd_ok :: "kbd \<Rightarrow> bool" where
  "kbd_ok s \<longleftrightarrow> read_idx s < 32 \<and> write_idx s < 32"

definition kbd_used :: "kbd \<Rightarrow> nat" where
  "kbd_used s = (unat (write_idx s) + 32 - unat (read_idx s)) mod 32"

definition kbd_contents :: "kbd \<Rightarrow> u8 list" where
  "kbd_contents s = map (\<lambda>k. kbd_buffer s ((unat (read_idx s) + k) mod 32)) [0..<kbd_used s]"

lemma length_contents [simp]: "length (kbd_contents s) = kbd_used s"
  by (simp add: kbd_contents_def)

lemma unat_mod_32: "unat (word_of_nat (n mod 32) :: u8) = n mod 32"
proof -
  have "n mod 32 < 32" by simp
  then have "n mod 32 < 2 ^ LENGTH(8)" by (rule less_trans) simp
  then show ?thesis by (rule unat_word_of_nat)
qed

text \<open>Arithmetic of two indices below 32 and the distance between them.\<close>

lemma ring_arith:
  assumes "r < 32" "w < (32::nat)"
  shows "(w + 1) mod 32 = r \<longleftrightarrow> (w + 32 - r) mod 32 = 31"
    and "(w + 1) mod 32 \<noteq> r \<Longrightarrow> ((w + 1) mod 32 + 32 - r) mod 32 = (w + 32 - r) mod 32 + 1"
    and "r \<noteq> w \<Longrightarrow> (w + 32 - r) mod 32 = Suc ((w + 32 - (r + 1) mod 32) mod 32)"
    and "(r + (w + 32 - r) mod 32) mod 32 = w"
    and "k < (w + 32 - r) mod 32 \<Longrightarrow> (r + k) mod 32 \<noteq> w"
    and "(w + 32 - r) mod 32 = 0 \<longleftrightarrow> r = w"
proof -
  have u: "(y + 32 - x) mod 32 = (if x \<le> y then y - x else y + 32 - x)" if "x < 32" "y < 32" for x y :: nat
    using that by (auto simp: mod_if)
  have i: "(x + 1) mod 32 = (if x = 31 then 0 else x + 1)" if "x < 32" for x :: nat
    using that by (auto simp: mod_if)
  have m: "(x + y) mod 32 = (if x + y < 32 then x + y else x + y - 32)" if "x < 32" "y < 32" for x y :: nat
    using that by (auto simp: mod_if)
  have l: "n mod 32 < 32" for n :: nat by simp
  show "(w + 1) mod 32 = r \<longleftrightarrow> (w + 32 - r) mod 32 = 31"
    unfolding u [OF assms] i [OF assms(2)] using assms by auto
  show "((w + 1) mod 32 + 32 - r) mod 32 = (w + 32 - r) mod 32 + 1" if "(w + 1) mod 32 \<noteq> r"
    using that unfolding u [OF assms] u [OF assms(1) l] unfolding i [OF assms(2)] using assms by auto
  show "(w + 32 - r) mod 32 = Suc ((w + 32 - (r + 1) mod 32) mod 32)" if "r \<noteq> w"
    using that unfolding u [OF assms] u [OF l assms(2)] unfolding i [OF assms(1)] using assms by auto
  show "(r + (w + 32 - r) mod 32) mod 32 = w"
    unfolding m [OF assms(1) l] unfolding u [OF assms] using assms by auto
  show "(r + k) mod 32 \<noteq> w" if "k < (w + 32 - r) mod 32"
  proof -
    have "k < 32" using that l less_trans by blast
    then show ?thesis using that unfolding m [OF assms(1) \<open>k < 32\<close>] u [OF assms] using assms
      by (auto split: if_splits)
  qed
  show "(w + 32 - r) mod 32 = 0 \<longleftrightarrow> r = w" unfolding u [OF assms] using assms by auto
qed

lemma kbd_idx: "kbd_ok s \<longleftrightarrow> unat (read_idx s) < 32 \<and> unat (write_idx s) < 32"
  by (simp add: kbd_ok_def word_less_nat_alt)

lemma kbd_store_idx:
  "read_idx (kbd_store c s) = read_idx s"
  "unat (write_idx (kbd_store c s)) =
     (if (unat (write_idx s) + 1) mod 32 \<noteq> unat (read_idx s) then (unat (write_idx s) + 1) mod 32
      else unat (write_idx s))"
  by (simp_all add: kbd_store_def unat_mod_32 del: of_nat_Suc of_nat_add)

lemma kbd_store_ok: "kbd_ok s \<Longrightarrow> kbd_ok (kbd_store c s)"
  by (simp add: kbd_idx kbd_store_idx)

lemma kbd_store_room:
  assumes "kbd_ok s" "kbd_used s < 31"
  shows "kbd_contents (kbd_store c s) = kbd_contents s @ [c]"
proof -
  let ?r = "unat (read_idx s)" and ?w = "unat (write_idx s)"
  have b: "?r < 32" "?w < 32" using assms(1) by (auto simp: kbd_idx)
  note ar = ring_arith [OF b, folded kbd_used_def]
  have go: "(?w + 1) mod 32 \<noteq> ?r" using ar(1) assms(2) by auto
  have used: "kbd_used (kbd_store c s) = kbd_used s + 1"
    unfolding kbd_used_def [of "kbd_store c s"] kbd_store_idx using go ar(2) [OF go] by (simp only: if_True not_False_eq_True)
  have buf: "kbd_buffer (kbd_store c s) = (kbd_buffer s)(?w := c)"
    using go by (simp add: kbd_store_def)
  show ?thesis
    using ar(4,5) by (auto simp: kbd_contents_def used buf kbd_store_idx)
qed

lemma kbd_store_full:
  assumes "kbd_ok s" "kbd_used s = 31"
  shows "kbd_store c s = s"
proof -
  have "(unat (write_idx s) + 1) mod 32 = unat (read_idx s)"
    using assms ring_arith(1) [of "unat (read_idx s)" "unat (write_idx s)"]
    by (simp only: kbd_idx kbd_used_def)
  then show ?thesis unfolding kbd_store_def by simp
qed

lemma kbd_used_bound: "kbd_used s \<le> 31"
proof -
  have "kbd_used s < 32" unfolding kbd_used_def by (rule mod_less_divisor) simp
  then show ?thesis by simp
qed

lemma getchar_empty: "kbd_ok s \<Longrightarrow> keyboard_getchar s = None \<longleftrightarrow> kbd_used s = 0"
  using ring_arith(6) [of "unat (read_idx s)" "unat (write_idx s)"]
  by (simp add: kbd_idx keyboard_getchar_def kbd_used_def word_unat_eq_iff)

lemma getchar_some:
  assumes "kbd_ok s" "keyboard_getchar s = Some (x, s')"
  shows "kbd_contents s = x # kbd_contents s' \<and> kbd_ok s'"
proof -
  let ?r = "unat (read_idx s)" and ?w = "unat (write_idx s)"
  have b: "?r < 32" "?w < 32" and ne: "?r \<noteq> ?w" using assms
    by (auto simp: kbd_idx keyboard_getchar_def word_unat_eq_iff split: if_splits)
  have s': "x = kbd_buffer s ?r" "kbd_buffer s' = kbd_buffer s" "write_idx s' = write_idx s"
    "unat (read_idx s') = (?r + 1) mod 32"
    using assms(2) by (auto simp: keyboard_getchar_def unat_mod_32 split: if_splits simp del: of_nat_Suc of_nat_add)
  have used: "kbd_used s = Suc (kbd_used s')"
    using ring_arith(3) [OF b ne] by (simp only: kbd_used_def s')
  have "kbd_contents s = kbd_buffer s ?r # map (\<lambda>k. kbd_buffer s ((?r + Suc k) mod 32)) [0..<kbd_used s']"
    unfolding kbd_contents_def used upt_conv_Cons [OF zero_less_Suc] using b(1)
    by (simp add: map_Suc_upt [symmetric] del: upt_Suc)
  moreover have "((?r + 1) mod 32 + k) mod 32 = (?r + Suc k) mod 32" for k
    by (simp add: mod_simps)
  ultimately show ?thesis
    using b by (simp add: s' kbd_contents_def kbd_idx)
qed

interpretation kbd_queue: bounded_queue kbd_contents kbd_ok kbd_store keyboard_getchar 31
  by unfold_locales (use kbd_store_ok kbd_store_room kbd_store_full kbd_used_bound getchar_empty
      getchar_some in \<open>auto simp: kbd_contents_def\<close>)

text \<open>
  C35. The characters stored in the keyboard buffer are read in the order they came, up to 31
  of them waiting; a character that comes while 31 wait is dropped and changes nothing.
\<close>

theorem keyboard_buffer_fifo:
  assumes "kbd_ok s"
  shows "(length (kbd_contents s) + length cs \<le> 31 \<longrightarrow>
      (\<exists>s'. drain keyboard_getchar (length (kbd_contents s) + length cs) (fold kbd_store cs s) =
         Some (kbd_contents s @ cs, s') \<and> kbd_contents s' = [])) \<and>
    (length (kbd_contents s) = 31 \<longrightarrow> kbd_store c s = s)"
proof (intro conjI impI)
  assume room: "length (kbd_contents s) + length cs \<le> 31"
  have p: "kbd_ok (fold kbd_store cs s)" "kbd_contents (fold kbd_store cs s) = kbd_contents s @ cs"
    using kbd_queue.push_all [OF assms room] by auto
  then show "\<exists>s'. drain keyboard_getchar (length (kbd_contents s) + length cs) (fold kbd_store cs s) =
         Some (kbd_contents s @ cs, s') \<and> kbd_contents s' = []"
    using kbd_queue.drain_contents [OF p(1), of "length (kbd_contents s) + length cs"]
    by (auto simp del: length_contents)
next
  assume "length (kbd_contents s) = 31"
  then show "kbd_store c s = s" by (rule kbd_queue.push_full [OF assms])
qed

definition kbd_start :: kbd where
  "kbd_start = \<lparr>last_char = 0, shift_pressed = 0, kbd_buffer = \<lambda>_. 0, read_idx = 30, write_idx = 30\<rparr>"

theorem keyboard_buffer_fifo_witness:
  "\<exists>s'. drain keyboard_getchar 3 (fold kbd_store [104, 105, 33] kbd_start) = Some ([104, 105, 33], s')"
proof -
  have "kbd_ok kbd_start" "kbd_contents kbd_start = []"
    by (simp_all add: kbd_start_def kbd_ok_def kbd_used_def kbd_contents_def)
  with keyboard_buffer_fifo [of kbd_start "[104, 105, 33]"] show ?thesis
    by (auto simp: numeral_3_eq_3 simp del: drain.simps fold_simps length_contents)
qed

section \<open>From scan codes to characters\<close>

text \<open>What a sequence of scan codes types, given whether shift is held.\<close>

fun typed :: "bool \<Rightarrow> u8 list \<Rightarrow> u8 list" where
  "typed shift [] = []"
| "typed shift (c # cs) =
     (if c = LSHIFT \<or> c = RSHIFT then typed True cs
      else if c = LSHIFT + 0x80 \<or> c = RSHIFT + 0x80 then typed False cs
      else if c < 0x80 then keymap_us (of_bool shift) c # typed shift cs
      else typed shift cs)"

lemma release_bit: "(c::u8) AND 0x80 \<noteq> 0 \<longleftrightarrow> \<not> c < 0x80"
proof -
  have "c AND 0x80 \<noteq> 0 \<longleftrightarrow> bit c 7" using and_exp_eq_0_iff_not_bit [of c 7] by simp
  also have "\<dots> \<longleftrightarrow> odd (unat c div 2 ^ 7)"
  proof -
    have "bit (unat c) 7 = bit c 7" by (simp add: bit_unsigned_iff)
    then show ?thesis by (simp add: bit_iff_odd [of "unat c"])
  qed
  also have "unat c div 2 ^ 7 = (if unat c < 128 then 0 else 1)"
  proof -
    have "unat c < 2 ^ LENGTH(8)" by (rule unsigned_less)
    then show ?thesis by (auto simp: div_if)
  qed
  finally show ?thesis by (simp add: word_less_nat_alt)
qed

lemma release_code:
  assumes "\<not> c < 0x80"
  shows "(c AND 0x7f) = LSHIFT \<longleftrightarrow> c = LSHIFT + 0x80" "(c AND 0x7f) = RSHIFT \<longleftrightarrow> c = RSHIFT + 0x80"
proof -
  have "unat c < 2 ^ LENGTH(8)" by (rule unsigned_less)
  then have u: "unat c < 256" "128 \<le> unat c" using assms by (auto simp: word_less_nat_alt)
  have "(0x7f::u8) = mask 7" by (simp add: mask_eq_exp_minus_1)
  then have "unat (c AND 0x7f) = unat c mod 128" using unat_and_mask [of c 7] by simp
  also have "\<dots> = unat c - 128" using u by (simp add: mod_if)
  finally have "unat (c AND 0x7f) = unat c - 128" .
  then show "(c AND 0x7f) = LSHIFT \<longleftrightarrow> c = LSHIFT + 0x80" "(c AND 0x7f) = RSHIFT \<longleftrightarrow> c = RSHIFT + 0x80"
    using u by (auto simp: word_unat_eq_iff LSHIFT_def RSHIFT_def)
qed

lemma handler_step:
  assumes "keyboard_handler c (s, v) = (s', v')" "shift_pressed s = of_bool sh"
  shows "(c = LSHIFT \<or> c = RSHIFT) \<Longrightarrow> s' = s\<lparr>shift_pressed := 1\<rparr>"
    and "(c = LSHIFT + 0x80 \<or> c = RSHIFT + 0x80) \<Longrightarrow> s' = s\<lparr>shift_pressed := 0\<rparr>"
    and "\<not> (c = LSHIFT \<or> c = RSHIFT) \<Longrightarrow> c < 0x80 \<Longrightarrow>
      s' = kbd_store (keymap_us (of_bool sh) c) (s\<lparr>last_char := keymap_us (of_bool sh) c\<rparr>)"
    and "\<not> (c = LSHIFT + 0x80 \<or> c = RSHIFT + 0x80) \<Longrightarrow> \<not> c < 0x80 \<Longrightarrow> s' = s"
  using assms release_code [of c] unfolding keyboard_handler_def release_bit
  by (auto simp: LSHIFT_def RSHIFT_def Let_def)

lemma contents_cong:
  "kbd_contents (s\<lparr>shift_pressed := x\<rparr>) = kbd_contents s" "kbd_ok (s\<lparr>shift_pressed := x\<rparr>) = kbd_ok s"
  "kbd_contents (s\<lparr>last_char := c\<rparr>) = kbd_contents s" "kbd_ok (s\<lparr>last_char := c\<rparr>) = kbd_ok s"
  "shift_pressed (kbd_store c s) = shift_pressed s"
  by (simp_all add: kbd_contents_def kbd_used_def kbd_ok_def kbd_store_def)

text \<open>
  C37. The handler turns any sequence of scan codes into the characters they type: shift is
  held from a shift key's press to a shift key's release, releases of other keys type
  nothing, and each press adds the character of the key map for the shift state, as long as
  the buffer has room for them.
\<close>

theorem keyboard_types:
  assumes "kbd_ok s" "shift_pressed s = of_bool sh" "length (kbd_contents s) + length (typed sh codes) \<le> 31"
  shows "kbd_contents (fst (fold keyboard_handler codes (s, v))) = kbd_contents s @ typed sh codes"
  using assms
proof (induction codes arbitrary: s v sh)
  case (Cons c cs)
  obtain s' v' where h: "keyboard_handler c (s, v) = (s', v')" by (cases "keyboard_handler c (s, v)")
  note st = handler_step [OF h Cons.prems(2)]
  consider "c = LSHIFT \<or> c = RSHIFT" | "c = LSHIFT + 0x80 \<or> c = RSHIFT + 0x80"
    | "\<not> (c = LSHIFT \<or> c = RSHIFT)" "c < 0x80"
    | "\<not> (c = LSHIFT + 0x80 \<or> c = RSHIFT + 0x80)" "\<not> c < 0x80" by blast
  then show ?case
  proof cases
    case 1
    then show ?thesis
      using Cons.IH [of s' True v'] Cons.prems st(1) h by (auto simp: contents_cong simp del: length_contents)
  next
    case 2
    then have "\<not> (c = LSHIFT \<or> c = RSHIFT)" by (auto simp: LSHIFT_def RSHIFT_def)
    then show ?thesis
      using 2 Cons.IH [of s' False v'] Cons.prems st(2) h by (auto simp: contents_cong simp del: length_contents)
  next
    case 3
    let ?x = "keymap_us (of_bool sh) c"
    have ne: "\<not> (c = LSHIFT + 0x80 \<or> c = RSHIFT + 0x80)"
      using 3(2) by (auto simp: LSHIFT_def RSHIFT_def)
    then have ty: "typed sh (c # cs) = ?x # typed sh cs" using 3 by simp
    have s': "s' = kbd_store ?x (s\<lparr>last_char := ?x\<rparr>)" using st(3) 3 by blast
    have "length (kbd_contents s) < 31" using Cons.prems(3) ty by simp
    then have "kbd_contents s' = kbd_contents s @ [?x]" "kbd_ok s'" "shift_pressed s' = of_bool sh"
      using kbd_queue.push_room [of "s\<lparr>last_char := ?x\<rparr>" ?x] kbd_store_ok [of "s\<lparr>last_char := ?x\<rparr>" ?x]
        Cons.prems(1,2) by (simp_all add: s' contents_cong del: length_contents)
    then show ?thesis
      using Cons.IH [of s' sh v'] Cons.prems(3) h unfolding ty by (simp del: length_contents)
  next
    case 4
    then have "\<not> (c = LSHIFT \<or> c = RSHIFT)" by (auto simp: LSHIFT_def RSHIFT_def)
    then show ?thesis
      using 4 Cons.IH [of s' sh v'] Cons.prems st(4) h by (auto simp del: length_contents)
  qed
qed simp

theorem keyboard_types_witness:
  "kbd_contents (fst (fold keyboard_handler [0x2a, 0x23, 0xa3, 0xaa, 0x17] (kbd_start, blank_screen))) =
    [72, 105]"
proof -
  have "kbd_ok kbd_start" "kbd_contents kbd_start = []" "shift_pressed kbd_start = of_bool False"
    by (simp_all add: kbd_start_def kbd_ok_def kbd_used_def kbd_contents_def)
  moreover have "typed False [0x2a, 0x23, 0xa3, 0xaa, 0x17] = [72, 105]"
    by (simp add: LSHIFT_def RSHIFT_def keymap_us_def keymap_plain_def keymap_shift_def)
  ultimately show ?thesis
    using keyboard_types [of kbd_start False "[0x2a, 0x23, 0xa3, 0xaa, 0x17]" blank_screen]
    by (simp del: typed.simps fold_simps length_contents)
qed

end
