(* ===== verification/Console.thy ===== *)
theory Console
  imports Vsprintf Vga Pic
begin

text \<open>
  The text output of the kernel: the serial line of \<^verbatim>\<open>kernel/serial.c\<close>, the numbers that
  \<^verbatim>\<open>kernel/vga.c\<close> prints, and \<open>kprintf\<close> of \<^verbatim>\<open>kernel/logging.c\<close>, which formats a message and
  gives it to both devices. Strings lie in byte memory; the local buffers have the addresses
  \<open>buf\<close> and \<open>tmp\<close>, and \<open>fg\<close> and \<open>bg\<close> are the addresses of the strings of the colour tables.
\<close>

section \<open>The serial line\<close>

definition is_transmit_empty :: "'io port_ops \<Rightarrow> u16 \<Rightarrow> 'io \<Rightarrow> bool \<times> 'io" where
  "is_transmit_empty io com s = (let (v, s) = inb io (com + 5) s in (v AND 0x20 \<noteq> 0, s))"

partial_function (option) write_char :: "'io port_ops \<Rightarrow> u16 \<Rightarrow> u8 \<Rightarrow> 'io \<Rightarrow> 'io option" where
  "write_char io com c s =
     (let (ready, s) = is_transmit_empty io com s
      in if ready then Some (outb io com c s) else write_char io com c s)"




text \<open>\<open>text\<close> is the string literal that the function sends, its NUL excluded.\<close>

fun send_bytes :: "'io port_ops \<Rightarrow> u16 \<Rightarrow> u8 list \<Rightarrow> 'io \<Rightarrow> 'io option" where
  "send_bytes io com [] s = Some s"
| "send_bytes io com (c # cs) s = Option.bind (write_char io com c s) (send_bytes io com cs)"

definition init_message :: "u8 list" where
  "init_message = [10, 27, 91, 52, 59, 51, 53, 59, 52, 48, 109] @
     [83, 101, 114, 105, 97, 108, 32, 111, 117, 116, 112, 117, 116, 32, 102, 114, 111, 109, 32,
      107, 101, 114, 110, 101, 108] @ [27, 91, 48, 59, 51, 55, 59, 52, 48, 109, 10]"

definition text_reset :: "u8 list" where
  "text_reset = [27, 91, 48, 109]"

definition serial_init :: "'io port_ops \<Rightarrow> u16 \<Rightarrow> 'io \<Rightarrow> 'io option" where
  "serial_init io com s =
     (let s = outb io (com + 1) 0 s; s = outb io (com + 3) 0x80 s;
          s = outb io com 3 s; s = outb io (com + 1) 0 s;
          s = outb io (com + 3) 0x03 s; s = outb io (com + 2) 0xc7 s; s = outb io (com + 4) 0x0b s
      in send_bytes io com init_message s)"

definition serial_terminate :: "'io port_ops \<Rightarrow> u16 \<Rightarrow> 'io \<Rightarrow> 'io option" where
  "serial_terminate io com s = send_bytes io com text_reset s"

text \<open>
  The strings of the two colour tables: the escape sequence of the foreground with a
  placeholder, and the number of the background.
\<close>

definition ascii :: "string \<Rightarrow> u8 list" where
  "ascii = map (\<lambda>c. of_char c)"

definition term_fg :: "u8 list list" where
  "term_fg = map (\<lambda>n. [27] @ ascii ''[0;'' @ ascii n @ ascii '';%sm'')
     [''30'', ''34'', ''32'', ''36'', ''31'', ''35'', ''33'', ''37'',
      ''90'', ''94'', ''92'', ''96'', ''91'', ''95'', ''33'', ''37'']"

definition term_bg :: "u8 list list" where
  "term_bg = map ascii [''40'', ''44'', ''42'', ''46'', ''41'', ''45'', ''43'', ''47'',
     ''100'', ''104'', ''102'', ''106'', ''101'', ''105'', ''103'', ''47'']"

section \<open>Numbers on the screen\<close>

partial_function (option) vga_print_loop :: "u32 \<Rightarrow> bmem \<Rightarrow> vga \<Rightarrow> vga option" where
  "vga_print_loop p m v = (if m p = 0 then Some v else vga_print_loop (p + 1) m (vga_print_char (m p) v))"

definition vga_print_dec :: "u32 \<Rightarrow> u32 \<Rightarrow> bmem \<Rightarrow> vga \<Rightarrow> (bmem \<times> vga) option" where
  "vga_print_dec buf v m s =
     (case itoa v buf 10 m of
        None \<Rightarrow> None
      | Some (p, m) \<Rightarrow> map_option (Pair m) (vga_print_loop buf m s))"

definition vga_print_hex :: "u32 \<Rightarrow> u32 \<Rightarrow> bmem \<Rightarrow> vga \<Rightarrow> (bmem \<times> vga) option" where
  "vga_print_hex buf v m s =
     (case itoa v buf 16 m of
        None \<Rightarrow> None
      | Some (p, m) \<Rightarrow> map_option (Pair m) (vga_print_loop buf m s))"

section \<open>Logging\<close>










section \<open>What reaches the devices\<close>











end
