(* ===== verification/Initrd.thy ===== *)
theory Initrd
  imports Vsprintf Boot
begin

text \<open>
  The initial ram disk: the tool \<^verbatim>\<open>make_initrd.c\<close> that writes the image, and \<^verbatim>\<open>kernel/initrd.c\<close>,
  which finds it in memory and makes the offsets of its files absolute. A file given to the
  tool is its name and its contents, or no contents when it cannot be opened; the bytes of a
  header that the tool never sets are given by \<open>junk\<close>.
\<close>

section \<open>The tool\<close>

definition INITRD_MAGIC :: u8 where "INITRD_MAGIC = 0xbf"

definition MAX_FILES :: nat where "MAX_FILES = 64"

record initrd_header =
  h_magic :: u8
  h_name :: "u8 list"
  h_offset :: u32
  h_length :: u32

type_synonym input_file = "u8 list \<times> u8 list option"

definition SIZEOF_HEADER :: nat where "SIZEOF_HEADER = 140"

text \<open>
  The loop over the arguments. \<open>None\<close> is the error exit for a file that is not found, and a
  name that overruns its field.
\<close>

fun make_headers :: "u32 \<Rightarrow> input_file list \<Rightarrow> initrd_header list option" where
  "make_headers off [] = Some []"
| "make_headers off ((name, contents) # files) =
     (case contents of
        None \<Rightarrow> None
      | Some c \<Rightarrow>
          if 128 \<le> length name then None
          else map_option (\<lambda>hs. \<lparr>h_magic = INITRD_MAGIC, h_name = name, h_offset = off,
                  h_length = of_nat (length c)\<rparr> # hs)
                 (make_headers (off + of_nat (length c)) files))"

definition le32 :: "u32 \<Rightarrow> u8 list" where
  "le32 n = [ucast n, ucast (drop_bit 8 n), ucast (drop_bit 16 n), ucast (drop_bit 24 n)]"

definition header_bytes :: "(nat \<Rightarrow> u8) \<Rightarrow> initrd_header \<Rightarrow> u8 list" where
  "header_bytes junk h =
     [h_magic h] @ (h_name h @ [0] @ map junk [Suc (length (h_name h))..<128]) @ map junk [128..<131] @
     le32 (h_offset h) @ le32 (h_length h)"

text \<open>The string \<open>INITRD\<close> with its NUL, the number of headers, the headers and the contents.\<close>

definition make_initrd :: "(nat \<Rightarrow> u8) \<Rightarrow> input_file list \<Rightarrow> u8 list option" where
  "make_initrd junk files =
     (if MAX_FILES < length files then None
      else map_option (\<lambda>hs. [73, 78, 73, 84, 82, 68, 0] @ le32 (of_nat (length files)) @
             concat (map (header_bytes junk) hs) @ concat (map (\<lambda>(n, c). the c) files))
        (make_headers (of_nat (SIZEOF_HEADER * MAX_FILES + 4)) files))"

section \<open>The kernel\<close>

definition write32 :: "u32 \<Rightarrow> u32 \<Rightarrow> bmem \<Rightarrow> bmem" where
  "write32 p v m = store_bytes p (le32 v) m"

definition file_header :: "u32 \<Rightarrow> u32 \<Rightarrow> u32" where
  "file_header location i = location + 11 + 140 * i"

text \<open>\<open>nbuf\<close> is the local array of 128 bytes, \<open>slash\<close> the address of the format \<^verbatim>\<open>"/%s"\<close>.\<close>

partial_function (option) initrd_parse ::
  "u32 \<Rightarrow> u32 \<Rightarrow> u32 \<Rightarrow> u32 \<Rightarrow> u32 \<Rightarrow> bmem \<Rightarrow> bmem option" where
  "initrd_parse tmp nbuf slash location i m =
     (if i < read32 m (location + 7)
      then let h = file_header location i;
               m = write32 (h + 132) (read32 m (h + 132) + location) m
           in case sprintf tmp nbuf slash [h + 1] m of
                None \<Rightarrow> None
              | Some (_, m) \<Rightarrow> initrd_parse tmp nbuf slash location (i + 1) m
      else Some m)"

text \<open>
  The result has the location of the disk, the placement address behind it and the memory.
  \<open>flags\<close>, \<open>mods_count\<close> and \<open>mods_addr\<close> are the fields of the boot information, \<open>magic\<close> is the
  address of the string \<open>INITRD\<close> of the kernel.
\<close>

definition initrd_init ::
  "u32 \<Rightarrow> u32 \<Rightarrow> u32 \<Rightarrow> u32 \<Rightarrow> u32 \<Rightarrow> u32 \<Rightarrow> u32 \<Rightarrow> u32 \<Rightarrow> bmem \<Rightarrow> (u32 \<times> u32 \<times> bmem) option" where
  "initrd_init voffset tmp nbuf slash magic flags mods_count mods_addr m =
     (if flags AND 8 = 0 \<or> mods_count = 0 then None
      else let location = read32 m mods_addr + voffset;
               initrd_end = read32 m (mods_addr + 4) + voffset
           in case strcmp location magic m of
                None \<Rightarrow> None
              | Some r \<Rightarrow>
                  if r \<noteq> 0 then None
                  else map_option (\<lambda>m. (location, initrd_end, m)) (initrd_parse tmp nbuf slash location 0 m))"

section \<open>Where the files are\<close>

definition contents_before :: "input_file list \<Rightarrow> nat \<Rightarrow> nat" where
  "contents_before files i = sum_list (map (\<lambda>(n, c). length (the c)) (take i files))"

lemma make_headers_length: "make_headers off files = Some hs \<Longrightarrow> length hs = length files"
  by (induction files arbitrary: off hs) (auto split: option.splits if_splits)

lemma header_bytes_length: "length (h_name h) < 128 \<Longrightarrow> length (header_bytes junk h) = 140"
  by (simp add: header_bytes_def le32_def)

lemma make_headers_offset:
  assumes "make_headers off files = Some hs" "i < length files"
  shows "h_offset (hs ! i) = off + of_nat (contents_before files i) \<and> length (h_name (hs ! i)) < 128"
  using assms
proof (induction files arbitrary: off hs i)
  case (Cons f files)
  obtain name c where f: "f = (name, c)" by (cases f)
  obtain d hs' where d: "c = Some d" "length name < 128" "make_headers (off + of_nat (length d)) files = Some hs'"
    "hs = \<lparr>h_magic = INITRD_MAGIC, h_name = name, h_offset = off, h_length = of_nat (length d)\<rparr> # hs'"
    using Cons.prems(1) f by (auto split: option.splits if_splits)
  show ?case
  proof (cases i)
    case 0
    then show ?thesis using d by (simp add: contents_before_def)
  next
    case (Suc j)
    then show ?thesis using Cons.IH [OF d(3), of j] Cons.prems(2) d f
      by (simp add: contents_before_def algebra_simps)
  qed
qed simp

lemma headers_length:
  assumes "make_headers off files = Some hs"
  shows "length (concat (map (header_bytes junk) hs)) = 140 * length files"
proof -
  have "length (header_bytes junk h) = 140" if "h \<in> set hs" for h
    using that make_headers_offset [OF assms] make_headers_length [OF assms]
    by (auto simp: in_set_conv_nth intro!: header_bytes_length)
  then have "map (length \<circ> header_bytes junk) hs = replicate (length hs) 140"
    by (simp add: map_replicate_const [symmetric])
  then show ?thesis using make_headers_length [OF assms]
    by (simp add: length_concat sum_list_replicate comp_def)
qed

lemma contents_at:
  "i < length files \<Longrightarrow>
   take (length (the (snd (files ! i)))) (drop (contents_before files i) (concat (map (\<lambda>(n, c). the c) files))) =
     the (snd (files ! i))"
proof (induction files arbitrary: i)
  case (Cons f files)
  show ?case
  proof (cases i)
    case 0
    then show ?thesis by (simp add: contents_before_def split_beta)
  next
    case (Suc j)
    then show ?thesis using Cons.IH [of j] Cons.prems by (simp add: contents_before_def split_beta)
  qed
qed simp

text \<open>
  Every file is in the image right behind the headers and the files before it, but its
  header names another place: the tool counts room for 64 headers and four bytes, and writes
  only the headers it has, behind eleven bytes. For no number of files are the two equal.
\<close>

theorem make_initrd_offsets:
  assumes "make_initrd junk files = Some disk" "i < length files"
    and "SIZEOF_HEADER * MAX_FILES + 4 + contents_before files (length files) < 2 ^ 32"
  shows "\<exists>hs. make_headers (of_nat (SIZEOF_HEADER * MAX_FILES + 4)) files = Some hs \<and>
    (let pos = 11 + SIZEOF_HEADER * length files + contents_before files i
     in take (length (the (snd (files ! i)))) (drop pos disk) = the (snd (files ! i)) \<and>
        unat (h_offset (hs ! i)) + 7 = pos + SIZEOF_HEADER * (MAX_FILES - length files) \<and>
        unat (h_offset (hs ! i)) \<noteq> pos)"
proof -
  let ?off = "of_nat (SIZEOF_HEADER * MAX_FILES + 4) :: u32"
  have le: "length files \<le> 64" using assms(1) by (auto simp: make_initrd_def MAX_FILES_def split: if_splits)
  obtain hs where hs: "make_headers ?off files = Some hs"
    and img: "disk = [73, 78, 73, 84, 82, 68, 0] @ le32 (of_nat (length files)) @
      concat (map (header_bytes junk) hs) @ concat (map (\<lambda>(n, c). the c) files)"
    using assms(1) by (auto simp: make_initrd_def split: if_splits)
  define pos where "pos = 11 + SIZEOF_HEADER * length files + contents_before files i"
  define pre where "pre = [73, 78, 73, 84, 82, 68, 0] @ le32 (of_nat (length files)) @ concat (map (header_bytes junk) hs)"
  have "length pre = 11 + SIZEOF_HEADER * length files"
    using headers_length [OF hs, of junk] by (simp add: pre_def le32_def SIZEOF_HEADER_def)
  moreover have "disk = pre @ concat (map (\<lambda>(n, c). the c) files)" by (simp add: img pre_def)
  ultimately have "drop pos disk = drop (contents_before files i) (concat (map (\<lambda>(n, c). the c) files))"
    by (simp add: pos_def)
  then have c: "take (length (the (snd (files ! i)))) (drop pos disk) = the (snd (files ! i))"
    using contents_at [OF assms(2)] by simp
  have "contents_before files i \<le> contents_before files (length files)"
  proof -
    have "files = take i files @ drop i files" by simp
    then show ?thesis by (metis contents_before_def le_add1 map_append sum_list_append take_all_iff order_refl)
  qed
  then have lt: "140 * 64 + 4 + contents_before files i < 2 ^ 32"
    using assms(3) by (simp add: SIZEOF_HEADER_def MAX_FILES_def)
  have "h_offset (hs ! i) = of_nat (140 * 64 + 4 + contents_before files i)"
    using make_headers_offset [OF hs assms(2)] by (simp add: SIZEOF_HEADER_def MAX_FILES_def)
  then have "unat (h_offset (hs ! i)) = 140 * 64 + 4 + contents_before files i"
    using lt unat_word_of_nat [of "140 * 64 + 4 + contents_before files i", where 'a = 32] by simp
  then have o: "unat (h_offset (hs ! i)) + 7 = pos + 140 * (64 - length files)"
    using le by (simp add: pos_def SIZEOF_HEADER_def)
  moreover have "140 * (64 - length files) \<noteq> 7" by presburger
  ultimately have "unat (h_offset (hs ! i)) \<noteq> pos" by linarith
  then show ?thesis using hs c o unfolding pos_def [symmetric]
    by (auto simp: Let_def pos_def SIZEOF_HEADER_def MAX_FILES_def)
qed

theorem make_initrd_offsets_witness:
  "\<exists>disk hs. make_initrd (\<lambda>_. 0) [([97], Some [1, 2, 3])] = Some disk \<and>
     make_headers (of_nat (SIZEOF_HEADER * MAX_FILES + 4)) [([97], Some [1, 2, 3])] = Some hs \<and>
     take 3 (drop 151 disk) = [1, 2, 3] \<and> unat (h_offset (hs ! 0)) = 8964"
proof -
  let ?files = "[([97], Some [1, 2, 3])] :: input_file list"
  obtain disk where d: "make_initrd (\<lambda>_. 0) ?files = Some disk" by (simp add: make_initrd_def MAX_FILES_def)
  have "SIZEOF_HEADER * MAX_FILES + 4 + contents_before ?files (length ?files) < 2 ^ 32"
    by (simp add: SIZEOF_HEADER_def MAX_FILES_def contents_before_def)
  from make_initrd_offsets [OF d _ this, of 0]
  show ?thesis using d by (auto simp: SIZEOF_HEADER_def MAX_FILES_def contents_before_def Let_def numeral_3_eq_3)
qed

end
