(* ===== verification/Thread_Start.thy ===== *)
theory Thread_Start
  imports Kheap Thread_Create Scheduler_Props
begin

text \<open>
  The threads that \<open>main\<close> of \<^verbatim>\<open>kernel/main.c\<close> starts, over any memory that satisfies the locale
  \<open>thread_memory\<close>; the kernel heap does, as long as it may grow.
\<close>

section \<open>Starting the threads\<close>

text \<open>
  The loop of \<open>main\<close> creates two threads in each round, of which the second is a user thread.
  \<open>procs\<close> are the three processes; when a thread cannot be created the machine is stopped.
  Afterwards \<open>main\<close> polls the keyboard for ever and creates a thread for each key \<open>u\<close> or \<open>k\<close>.
\<close>

fun start_threads ::
  "(u32 \<Rightarrow> 'h \<Rightarrow> u32 \<times> 'h) \<Rightarrow> u32 \<Rightarrow> u32 list \<Rightarrow> u32 \<Rightarrow> u32 \<Rightarrow> nat list \<Rightarrow> u32 \<Rightarrow> 'h sched \<Rightarrow> 'h sched option" where
  "start_threads km exit_addr ps func1 func2 [] off s = Some s"
| "start_threads km exit_addr ps func1 func2 (k # ks) off s =
     (let (i, s) = create_thread km exit_addr (ps ! (k mod 3)) func2 (off + 80 * 2) 1 False False s
      in if i = 0 then None
         else let (i, s) = create_thread km exit_addr (ps ! (k mod 3)) func1 (of_nat k) 1 True False s
              in if i = 0 then None else start_threads km exit_addr ps func1 func2 ks (off + 2) s)"

definition main_threads ::
  "(u32 \<Rightarrow> 'h \<Rightarrow> u32 \<times> 'h) \<Rightarrow> u32 \<Rightarrow> u32 list \<Rightarrow> u32 \<Rightarrow> u32 \<Rightarrow> 'h sched \<Rightarrow> 'h sched option" where
  "main_threads km exit_addr ps func1 func2 s = start_threads km exit_addr ps func1 func2 [0..<10] 0 s"

definition main_key ::
  "(u32 \<Rightarrow> 'h \<Rightarrow> u32 \<times> 'h) \<Rightarrow> u32 \<Rightarrow> u32 \<Rightarrow> u32 \<Rightarrow> u32 \<Rightarrow> u8 \<Rightarrow> u32 \<times> 'h sched \<Rightarrow> u32 \<times> 'h sched" where
  "main_key km exit_addr proc1 func1 func2 c os =
     (let (off, s) = os
      in if c = 117 then (off, snd (create_thread km exit_addr proc1 func1 5 1 True False s))
         else if c = 107 then (off + 2, snd (create_thread km exit_addr proc1 func2 off 1 False False s))
         else (off, s))"

section \<open>What the threads need of memory\<close>

locale thread_memory =
  fixes km :: "u32 \<Rightarrow> 'h \<Rightarrow> u32 \<times> 'h" and room :: "nat \<Rightarrow> 'h \<Rightarrow> bool" and taken :: "'h \<Rightarrow> u32 set"
  assumes fresh_block: "room (Suc n) h \<Longrightarrow> sz \<le> STACK_SIZE \<Longrightarrow>
      \<exists>p h'. km sz h = (p, h') \<and> p \<noteq> 0 \<and> unat p + unat sz < 2 ^ 32 \<and> region p sz \<inter> taken h = {} \<and>
        taken h \<union> region p sz \<subseteq> taken h' \<and> room n h'"

text \<open>
  A thread that waits to run for the first time, with the number \<open>i\<close>, the process \<open>pr\<close>, the
  function \<open>entry\<close> and its argument: what the return from an interrupt takes from its kernel
  stack, and for a user thread what it then finds on its user stack. \<open>stack_words\<close> are the
  words this depends on.
\<close>

definition started :: "u32 \<Rightarrow> 'h sched \<Rightarrow> u32 \<Rightarrow> u32 \<times> u32 \<times> u32 \<times> u32 \<times> bool \<Rightarrow> bool" where
  "started exit_addr s t = (\<lambda>(i, pr, entry, args, user).
     let r = read_registers (stack_mem s) (esp (threads s t))
     in tid (threads s t) = i \<and> process (threads s t) = pr \<and> r_eip r = entry \<and>
        (if user then r_cs r = 0x1b \<and> stack_mem s (r_esp r) = 0xdeadcaca \<and> stack_mem s (r_esp r + 4) = args
         else r_cs r = 0x08 \<and> r_esp r = exit_addr \<and> r_ss r = args))"

definition stack_words :: "'h sched \<Rightarrow> u32 \<Rightarrow> bool \<Rightarrow> u32 set" where
  "stack_words s t user = (\<lambda>k. esp (threads s t) + 4 * word_of_nat k) ` {..<18} \<union>
     (let sp = r_esp (read_registers (stack_mem s) (esp (threads s t))) in if user then {sp, sp + 4} else {})"

definition waits :: "u32 \<Rightarrow> u32 set \<Rightarrow> 'h sched \<Rightarrow> u32 \<Rightarrow> u32 \<times> u32 \<times> u32 \<times> u32 \<times> bool \<Rightarrow> bool" where
  "waits exit_addr A s t d \<longleftrightarrow> started exit_addr s t d \<and> stack_words s t (snd (snd (snd (snd d)))) \<subseteq> A"

text \<open>What later steps must keep: the memory that is taken, and three fields of a thread.\<close>

definition same_thread :: "'h sched \<Rightarrow> 'h sched \<Rightarrow> u32 \<Rightarrow> bool" where
  "same_thread s s' t \<longleftrightarrow> esp (threads s' t) = esp (threads s t) \<and> tid (threads s' t) = tid (threads s t) \<and>
     process (threads s' t) = process (threads s t)"

text \<open>
  The threads that the loop of \<open>main\<close> starts, in their order. The rounds are numbered by \<open>ks\<close>,
  \<open>off\<close> is the position on the screen and \<open>i\<close> the last thread number that is taken.
\<close>

fun thread_plan :: "u32 list \<Rightarrow> u32 \<Rightarrow> u32 \<Rightarrow> nat list \<Rightarrow> u32 \<Rightarrow> u32 \<Rightarrow> (u32 \<times> u32 \<times> u32 \<times> u32 \<times> bool) list" where
  "thread_plan ps func1 func2 [] off i = []"
| "thread_plan ps func1 func2 (k # ks) off i =
     (i + 1, ps ! (k mod 3), func2, off + 160, False) # (i + 2, ps ! (k mod 3), func1, of_nat k, True) #
     thread_plan ps func1 func2 ks (off + 2) (i + 2)"

lemma thread_plan_nth:
  "j < length ks \<Longrightarrow> thread_plan ps func1 func2 ks off i ! (2 * j) =
     (i + of_nat (2 * j + 1), ps ! (ks ! j mod 3), func2, off + 160 + of_nat (2 * j), False)"
  "j < length ks \<Longrightarrow> thread_plan ps func1 func2 ks off i ! (2 * j + 1) =
     (i + of_nat (2 * j + 2), ps ! (ks ! j mod 3), func1, of_nat (ks ! j), True)"
proof (induction ks arbitrary: j off i)
  case (Cons k ks)
  {
    case 1
    then show ?case using Cons.IH(1) [of "j - 1" "off + 2" "i + 2"] by (cases j) (simp_all add: algebra_simps)
  next
    case 2
    then show ?case using Cons.IH(2) [of "j - 1" "off + 2" "i + 2"] by (cases j) (simp_all add: algebra_simps)
  }
qed simp_all

lemma waits_kept:
  assumes w: "waits exit_addr A s t d" and f: "same_thread s s' t" and m: "\<forall>a\<in>A. stack_mem s' a = stack_mem s a" and "A \<subseteq> B"
  shows "waits exit_addr B s' t d"
proof -
  obtain i pr entry args user where d: "d = (i, pr, entry, args, user)" by (cases d)
  have sw: "stack_words s t user \<subseteq> A" using w by (simp add: waits_def d)
  have e: "esp (threads s' t) = esp (threads s t)" using f by (simp add: same_thread_def)
  have "map (\<lambda>k. stack_mem s' (esp (threads s t) + 4 * word_of_nat k)) [0..<18] =
      map (\<lambda>k. stack_mem s (esp (threads s t) + 4 * word_of_nat k)) [0..<18]"
    using sw m by (intro map_cong refl) (auto simp: stack_words_def)
  then have r: "read_registers (stack_mem s') (esp (threads s' t)) = read_registers (stack_mem s) (esp (threads s t))"
    by (simp only: read_registers_def e)
  have u: "stack_mem s' a = stack_mem s a" if "user" "a \<in> {r_esp (read_registers (stack_mem s) (esp (threads s t))),
      r_esp (read_registers (stack_mem s) (esp (threads s t))) + 4}" for a
    using that sw m by (auto simp: stack_words_def Let_def)
  have "started exit_addr s t d" using w by (simp add: waits_def)
  then have "started exit_addr s' t d"
    using f u unfolding started_def d prod.case Let_def r same_thread_def by (cases user) simp_all
  moreover have "stack_words s' t user = stack_words s t user" unfolding stack_words_def r unfolding e ..
  ultimately show ?thesis using sw \<open>A \<subseteq> B\<close> by (auto simp: waits_def d)
qed

text \<open>A thread outside the ring may change, and nothing else does, while it is made.\<close>

lemma sched_ok_outside:
  assumes "sched_ok xs s" "t \<notin> set xs" "\<And>x. x \<noteq> t \<Longrightarrow> threads s' x = threads s x"
    and "current_thread s' = current_thread s" "kernel_thread s' = kernel_thread s"
  shows "sched_ok xs s'"
proof -
  have e: "threads s' x = threads s x" if "x \<in> set xs" for x using that assms(2,3) by metis
  have ne: "xs \<noteq> []" using assms(1) by (simp add: sched_ok_def ring_def)
  have "chain (\<lambda>t. next_t (threads s' t)) (\<lambda>t. prev_t (threads s' t)) (xs @ [hd xs]) =
      chain (\<lambda>t. next_t (threads s t)) (\<lambda>t. prev_t (threads s t)) (xs @ [hd xs])"
    by (rule chain_cong) (use e ne in \<open>auto simp: butlast_append dest: list.set_sel(2)\<close>)
  then have "ring (threads s') xs" using sched_ok_ring [OF assms(1)] unfolding ring_def by blast
  moreover have "\<forall>x\<in>set (tl xs). state (threads s' x) = state (threads s x)"
    using e ne by (auto dest: list.set_sel(2))
  ultimately show ?thesis using assms(1,4,5) by (simp add: sched_ok_def)
qed

lemma schedule_thread_frame:
  "kheap_state (schedule_thread t s) = kheap_state s" "scheduling (schedule_thread t s) = scheduling s"
  by (auto simp: schedule_thread_def upd_thread_def Let_def)

lemma create_thread_schedules:
  assumes "km 52 (kheap_state s) = (t, h1)" "t \<noteq> 0" "km STACK_SIZE h1 = (ks, h2)" "ks \<noteq> 0"
    and "if user then km STACK_SIZE h2 = (us, h3) \<and> us \<noteq> 0 else h3 = h2"
  shows "\<exists>s0. create_thread km exit_addr pr entry args prio user vm86 s = (last_thread_id s + 1, schedule_thread t s0) \<and>
    (\<forall>x. x \<noteq> t \<longrightarrow> threads s0 x = threads s x) \<and> current_thread s0 = current_thread s \<and>
    kernel_thread s0 = kernel_thread s \<and> scheduling s0 = scheduling s \<and> kheap_state s0 = h3 \<and>
    num_threads s0 = num_threads s + 1 \<and> last_thread_id s0 = last_thread_id s + 1"
proof (cases user)
  case True
  obtain usp m where u: "push_words (us + STACK_SIZE) [args, 0xdeadcaca] (stack_mem s) = (usp, m)" by fastforce
  obtain ksp m' where k: "push_words (ks + STACK_SIZE) (kernel_frame True vm86 entry args usp exit_addr) m = (ksp, m')"
    by fastforce
  show ?thesis
    using assms True u k unfolding create_thread_def
    by (simp add: Let_def request_thread_id_def schedule_thread_keeps upd_thread_def del: push_words.simps)
      (intro conjI impI; (rule exI, rule conjI [OF refl], simp))
next
  case False
  obtain ksp m' where k: "push_words (ks + STACK_SIZE) (kernel_frame False vm86 entry args 0 exit_addr) (stack_mem s) = (ksp, m')"
    by fastforce
  show ?thesis
    using assms False k unfolding create_thread_def
    by (simp add: Let_def request_thread_id_def schedule_thread_keeps upd_thread_def del: push_words.simps)
      (intro conjI impI; (rule exI, rule conjI [OF refl], simp))
qed

lemma created_waits:
  assumes "km 52 (kheap_state s) = (t, h1)" "t \<noteq> 0" "km STACK_SIZE h1 = (ks, h2)" "ks \<noteq> 0"
    and "user \<longrightarrow> us = fst (km STACK_SIZE h2) \<and> us \<noteq> 0"
    and "create_thread km exit_addr pr entry args prio user vm86 s = (i, s')"
    and ks: "unat ks + unat STACK_SIZE < 2 ^ 32" and us: "user \<longrightarrow> unat us + unat STACK_SIZE < 2 ^ 32"
    and dj: "user \<longrightarrow> region ks STACK_SIZE \<inter> region us STACK_SIZE = {}"
    and A: "region ks STACK_SIZE \<subseteq> A" "user \<longrightarrow> region us STACK_SIZE \<subseteq> A"
  shows "waits exit_addr A s' t (last_thread_id s + 1, pr, entry, args, user)"
    "a \<notin> region ks STACK_SIZE \<Longrightarrow> user \<longrightarrow> a \<notin> region us STACK_SIZE \<Longrightarrow> stack_mem s' a = stack_mem s a"
proof -
  note c = created_fields [OF assms(1-6)]
  have r: "read_registers (stack_mem s') (esp (threads s' t)) = registers_of (rev (thread_frame user vm86 entry args us exit_addr))"
    using c by (simp add: filled_frame)
  have f: "r_eip (registers_of (rev (thread_frame user vm86 entry args us exit_addr))) = entry"
    "r_cs (registers_of (rev (thread_frame user vm86 entry args us exit_addr))) = (if user then 0x1b else 0x08)"
    "r_esp (registers_of (rev (thread_frame user vm86 entry args us exit_addr))) = (if user then us + STACK_SIZE - 8 else exit_addr)"
    "r_ss (registers_of (rev (thread_frame user vm86 entry args us exit_addr))) = (if user then 0x23 else args)"
    by (simp_all add: thread_frame_def kernel_frame_registers(2) Let_def)
  have a: "stack_mem s' (us + STACK_SIZE - 8) = 0xdeadcaca \<and> stack_mem s' (us + STACK_SIZE - 8 + 4) = args" if user
    using filled_arguments [of ks us vm86 entry args exit_addr "stack_mem s"] ks us dj c that by simp
  have st: "started exit_addr s' t (last_thread_id s + 1, pr, entry, args, user)"
    unfolding started_def prod.case Let_def r f using a c by simp
  have k: "esp (threads s' t) + 4 * word_of_nat k \<in> region ks STACK_SIZE" if "k < 18" for k
  proof -
    have "(4 * word_of_nat (Suc (17 - k)) :: u32) = 4 * word_of_nat (18 - k)" using that by (simp only: Suc_diff_le [symmetric]) simp
    also have "\<dots> = 72 - 4 * word_of_nat k" using that by (simp add: of_nat_diff)
    finally have "ks + STACK_SIZE - 4 * word_of_nat (Suc (17 - k)) = esp (threads s' t) + 4 * word_of_nat k"
      using c by (simp only:) simp
    then show ?thesis using stack_slot [OF ks, of "17 - k"] by simp
  qed
  have "us + STACK_SIZE - 8 \<in> region us STACK_SIZE" "us + STACK_SIZE - 8 + 4 \<in> region us STACK_SIZE" if user
    using stack_slot [of us 1] stack_slot [of us 0] us that by (simp_all add: algebra_simps)
  then have "stack_words s' t user \<subseteq> A"
    using A k by (auto simp: stack_words_def r f(3) Let_def)
  with st show "waits exit_addr A s' t (last_thread_id s + 1, pr, entry, args, user)" by (simp add: waits_def)
  show "a \<notin> region ks STACK_SIZE \<Longrightarrow> user \<longrightarrow> a \<notin> region us STACK_SIZE \<Longrightarrow> stack_mem s' a = stack_mem s a"
    using c filled_outside [OF ks us] by simp
qed

context thread_memory
begin

definition undisturbed :: "'h sched \<Rightarrow> 'h sched \<Rightarrow> bool" where
  "undisturbed s s' \<longleftrightarrow> taken (kheap_state s) \<subseteq> taken (kheap_state s') \<and>
     (\<forall>a\<in>taken (kheap_state s). stack_mem s' a = stack_mem s a \<and> same_thread s s' a)"

lemma undisturbed_trans: "undisturbed s s1 \<Longrightarrow> undisturbed s1 s2 \<Longrightarrow> undisturbed s s2"
  unfolding undisturbed_def same_thread_def by (metis subset_iff)

lemma undisturbed_refl: "undisturbed s s"
  by (simp add: undisturbed_def same_thread_def)

lemma waits_undisturbed:
  assumes "waits exit_addr (taken (kheap_state s)) s t d" "undisturbed s s'" "t \<in> taken (kheap_state s)"
  shows "waits exit_addr (taken (kheap_state s')) s' t d"
  by (rule waits_kept [OF assms(1)]) (use assms(2,3) in \<open>auto simp: undisturbed_def\<close>)

lemma thread_blocks:
  assumes "room (if user then Suc (Suc (Suc n)) else Suc (Suc n)) h"
  shows "\<exists>t h1 ks h2 us h3. km 52 h = (t, h1) \<and> t \<noteq> 0 \<and> t \<notin> taken h \<and> km STACK_SIZE h1 = (ks, h2) \<and> ks \<noteq> 0 \<and>
    (if user then km STACK_SIZE h2 = (us, h3) \<and> us \<noteq> 0 else h3 = h2) \<and> room n h3 \<and>
    insert t (taken h) \<union> region ks STACK_SIZE \<subseteq> taken h3 \<and> region ks STACK_SIZE \<inter> taken h = {} \<and>
    unat ks + unat STACK_SIZE < 2 ^ 32 \<and>
    (user \<longrightarrow> unat us + unat STACK_SIZE < 2 ^ 32 \<and> region us STACK_SIZE \<subseteq> taken h3 \<and>
       region us STACK_SIZE \<inter> taken h = {} \<and> region ks STACK_SIZE \<inter> region us STACK_SIZE = {})"
proof -
  have sz: "52 \<le> STACK_SIZE" "STACK_SIZE \<le> STACK_SIZE" by (simp_all add: STACK_SIZE_def word_le_nat_alt)
  let ?n = "if user then Suc n else n"
  have r: "room (Suc (Suc ?n)) h" using assms by (cases user) simp_all
  obtain t h1 where t: "km 52 h = (t, h1)" "t \<noteq> 0" "region t 52 \<inter> taken h = {}" "taken h \<union> region t 52 \<subseteq> taken h1"
    "room (Suc ?n) h1"
    using fresh_block [OF r sz(1)] by blast
  obtain ks h2 where k: "km STACK_SIZE h1 = (ks, h2)" "ks \<noteq> 0" "unat ks + unat STACK_SIZE < 2 ^ 32"
    "region ks STACK_SIZE \<inter> taken h1 = {}" "taken h1 \<union> region ks STACK_SIZE \<subseteq> taken h2" "room ?n h2"
    using fresh_block [OF t(5) sz(2)] by blast
  have tt: "t \<in> region t 52" by (simp add: region_def)
  have base: "t \<notin> taken h" "insert t (taken h) \<union> region ks STACK_SIZE \<subseteq> taken h2" "region ks STACK_SIZE \<inter> taken h = {}"
    using t(3,4) k(4,5) tt by blast+
  show ?thesis
  proof (cases user)
    case True
    then have "room (Suc n) h2" using k(6) by simp
    from fresh_block [OF this sz(2)]
    obtain us h3 where u: "km STACK_SIZE h2 = (us, h3)" "us \<noteq> 0" "unat us + unat STACK_SIZE < 2 ^ 32"
      "region us STACK_SIZE \<inter> taken h2 = {}" "taken h2 \<union> region us STACK_SIZE \<subseteq> taken h3" "room n h3" by blast
    have "insert t (taken h) \<union> region ks STACK_SIZE \<subseteq> taken h3" "region us STACK_SIZE \<subseteq> taken h3"
      "region us STACK_SIZE \<inter> taken h = {}" "region ks STACK_SIZE \<inter> region us STACK_SIZE = {}"
      using base u(4,5) by blast+
    then show ?thesis
      using t(1,2) k(1-3) u(1-3,6) base True
      by (intro exI [of _ t] exI [of _ h1] exI [of _ ks] exI [of _ h2] exI [of _ us] exI [of _ h3]) simp
  next
    case False
    then show ?thesis
      using t(1,2) k base
      by (intro exI [of _ t] exI [of _ h1] exI [of _ ks] exI [of _ h2] exI [of _ ks] exI [of _ h2]) simp
  qed
qed

lemma create_thread_ok:
  assumes "sched_ok xs s" "set xs \<subseteq> taken (kheap_state s)"
    and "room (if user then Suc (Suc (Suc n)) else Suc (Suc n)) (kheap_state s)"
  shows "\<exists>t s'. create_thread km exit_addr pr entry args prio user vm86 s = (last_thread_id s + 1, s') \<and>
    sched_ok (xs @ [t]) s' \<and> set (xs @ [t]) \<subseteq> taken (kheap_state s') \<and> room n (kheap_state s') \<and>
    num_threads s' = num_threads s + 1 \<and> last_thread_id s' = last_thread_id s + 1 \<and>
    kernel_thread s' = kernel_thread s \<and> scheduling s' = scheduling s \<and>
    waits exit_addr (taken (kheap_state s')) s' t (last_thread_id s + 1, pr, entry, args, user) \<and> undisturbed s s'"
proof -
  obtain t h1 ks h2 us h3 where b: "km 52 (kheap_state s) = (t, h1)" "t \<noteq> 0" "t \<notin> taken (kheap_state s)"
    "km STACK_SIZE h1 = (ks, h2)" "ks \<noteq> 0" "if user then km STACK_SIZE h2 = (us, h3) \<and> us \<noteq> 0 else h3 = h2"
    "room n h3" "insert t (taken (kheap_state s)) \<union> region ks STACK_SIZE \<subseteq> taken h3"
    "region ks STACK_SIZE \<inter> taken (kheap_state s) = {}" "unat ks + unat STACK_SIZE < 2 ^ 32"
    "user \<longrightarrow> unat us + unat STACK_SIZE < 2 ^ 32 \<and> region us STACK_SIZE \<subseteq> taken h3 \<and>
       region us STACK_SIZE \<inter> taken (kheap_state s) = {} \<and> region ks STACK_SIZE \<inter> region us STACK_SIZE = {}"
    using thread_blocks [OF assms(3)] by (elim exE conjE)
  obtain s0 where s0: "create_thread km exit_addr pr entry args prio user vm86 s = (last_thread_id s + 1, schedule_thread t s0)"
    "\<forall>x. x \<noteq> t \<longrightarrow> threads s0 x = threads s x" "current_thread s0 = current_thread s"
    "kernel_thread s0 = kernel_thread s" "scheduling s0 = scheduling s" "kheap_state s0 = h3"
    "num_threads s0 = num_threads s + 1" "last_thread_id s0 = last_thread_id s + 1"
    using create_thread_schedules [OF b(1,2,4,5,6)] by blast
  let ?s = "schedule_thread t s0"
  have t: "t \<notin> set xs" using b(3) assms(2) by blast
  have "sched_ok xs s0" using sched_ok_outside [OF assms(1) t, of s0] s0(2-4) by blast
  then have ok: "sched_ok (xs @ [t]) ?s" by (rule schedule_next_ok [OF b(2) _ t])
  have "kernel_thread s0 \<noteq> 0" "current_thread s0 \<noteq> t"
    using \<open>sched_ok xs s0\<close> t hd_in_set [of xs] by (auto simp: sched_ok_def ring_def)
  then have kt: "kernel_thread ?s = kernel_thread s" using schedule_thread_new(3) [OF b(2)] s0(4) by metis
  have h: "kheap_state ?s = h3" by (simp add: schedule_thread_frame s0(6))
  have "user \<longrightarrow> us = fst (km STACK_SIZE h2) \<and> us \<noteq> 0" using b(6) by simp
  note w = created_waits [where A = "taken h3", OF b(1,2,4,5) this s0(1) b(10)]
  have "waits exit_addr (taken h3) ?s t (last_thread_id s + 1, pr, entry, args, user)"
    by (rule w(1)) (use b(8,11) in blast)+
  moreover have "stack_mem ?s a = stack_mem s a" if "a \<in> taken (kheap_state s)" for a
    by (rule w(2)) (use b(8,9,11) that in blast)+
  then have "undisturbed s ?s"
    using s0(2) b(3,8) unfolding undisturbed_def h same_thread_def schedule_thread_keeps(1,2,5) by (metis UnCI insertCI subset_iff)
  ultimately show ?thesis
    using ok kt s0 b(7,8) assms(2) h
    by (intro exI [of _ t] exI [of _ ?s]) (auto simp: schedule_thread_frame schedule_thread_keeps)
qed

lemma start_threads_ok:
  assumes "sched_ok xs s" "set xs \<subseteq> taken (kheap_state s)" "room (5 * length ks + n) (kheap_state s)"
    and "unat (last_thread_id s) + 2 * length ks < 2 ^ 32"
  shows "\<exists>ts s'. start_threads km exit_addr ps func1 func2 ks off s = Some s' \<and> length ts = 2 * length ks \<and>
    sched_ok (xs @ ts) s' \<and> num_threads s' = num_threads s + of_nat (2 * length ks) \<and>
    kernel_thread s' = kernel_thread s \<and> scheduling s' = scheduling s \<and> room n (kheap_state s') \<and>
    undisturbed s s' \<and> list_all2 (waits exit_addr (taken (kheap_state s')) s') ts
      (thread_plan ps func1 func2 ks off (last_thread_id s))"
  using assms
proof (induction ks arbitrary: xs off s)
  case Nil
  then show ?case by (intro exI [of _ "[]"]) (simp add: undisturbed_refl)
next
  case (Cons k ks)
  let ?n = "5 * length ks + n"
  have nz: "unat (last_thread_id s + 1) = unat (last_thread_id s) + 1"
    "unat (last_thread_id s + 1 + 1) = unat (last_thread_id s) + 2"
    using Cons.prems(4) by (auto simp: unat_word_ariths)
  have r: "room (if False then Suc (Suc (Suc (3 + ?n))) else Suc (Suc (3 + ?n))) (kheap_state s)"
    using Cons.prems(3) by (simp add: numeral_3_eq_3 numeral_eq_Suc)
  obtain t1 s1 where c1: "create_thread km exit_addr (ps ! (k mod 3)) func2 (off + 80 * 2) 1 False False s =
      (last_thread_id s + 1, s1)" "sched_ok (xs @ [t1]) s1" "set (xs @ [t1]) \<subseteq> taken (kheap_state s1)"
    "room (3 + ?n) (kheap_state s1)" "num_threads s1 = num_threads s + 1" "last_thread_id s1 = last_thread_id s + 1"
    "kernel_thread s1 = kernel_thread s" "scheduling s1 = scheduling s"
    "waits exit_addr (taken (kheap_state s1)) s1 t1 (last_thread_id s + 1, ps ! (k mod 3), func2, off + 80 * 2, False)"
    "undisturbed s s1"
    using create_thread_ok [OF Cons.prems(1,2) r, of exit_addr "ps ! (k mod 3)" func2 "off + 80 * 2" 1 False]
    by (elim exE conjE)
  have r1: "room (if True then Suc (Suc (Suc ?n)) else Suc (Suc ?n)) (kheap_state s1)"
    using c1(4) by (simp add: numeral_3_eq_3)
  obtain t2 s2 where c2: "create_thread km exit_addr (ps ! (k mod 3)) func1 (of_nat k) 1 True False s1 =
      (last_thread_id s1 + 1, s2)" "sched_ok ((xs @ [t1]) @ [t2]) s2"
    "set ((xs @ [t1]) @ [t2]) \<subseteq> taken (kheap_state s2)" "room ?n (kheap_state s2)"
    "num_threads s2 = num_threads s1 + 1" "last_thread_id s2 = last_thread_id s1 + 1"
    "kernel_thread s2 = kernel_thread s1" "scheduling s2 = scheduling s1"
    "waits exit_addr (taken (kheap_state s2)) s2 t2 (last_thread_id s1 + 1, ps ! (k mod 3), func1, of_nat k, True)"
    "undisturbed s1 s2"
    using create_thread_ok [OF c1(2,3) r1, of exit_addr "ps ! (k mod 3)" func1 "of_nat k" 1 False]
    by (elim exE conjE)
  have "unat (last_thread_id s2) + 2 * length ks < 2 ^ 32" using Cons.prems(4) nz(2) c1(6) c2(6) by simp
  from Cons.IH [OF c2(2-4) this, of "off + 2"]
  obtain ts s' where i: "start_threads km exit_addr ps func1 func2 ks (off + 2) s2 = Some s'" "length ts = 2 * length ks"
    "sched_ok (((xs @ [t1]) @ [t2]) @ ts) s'" "num_threads s' = num_threads s2 + of_nat (2 * length ks)"
    "kernel_thread s' = kernel_thread s2" "scheduling s' = scheduling s2" "room n (kheap_state s')"
    "undisturbed s2 s'" "list_all2 (waits exit_addr (taken (kheap_state s')) s') ts
      (thread_plan ps func1 func2 ks (off + 2) (last_thread_id s2))"
    by (elim exE conjE)
  have "t1 \<in> taken (kheap_state s1)" "t2 \<in> taken (kheap_state s2)" using c1(3) c2(3) by auto
  then have w: "waits exit_addr (taken (kheap_state s')) s' t1 (last_thread_id s + 1, ps ! (k mod 3), func2, off + 160, False)"
    "waits exit_addr (taken (kheap_state s')) s' t2 (last_thread_id s + 2, ps ! (k mod 3), func1, of_nat k, True)"
    using waits_undisturbed [OF c1(9) undisturbed_trans [OF c2(10) i(8)]] waits_undisturbed [OF c2(9) i(8)] c1(6)
    by (simp_all add: add.commute)
  have un: "undisturbed s s'" by (rule undisturbed_trans [OF c1(10) undisturbed_trans [OF c2(10) i(8)]])
  have "last_thread_id s + 1 \<noteq> 0" "last_thread_id s1 + 1 \<noteq> 0"
    using nz c1(6) by (metis add_is_0 one_neq_zero unat_0, metis add_is_0 unat_0 zero_neq_numeral)
  then have "start_threads km exit_addr ps func1 func2 (k # ks) off s = Some s'" using c1(1) c2(1) i(1) by simp
  then show ?case
    using i(2-7,9) c1(5-8) c2(5-8) w un
    by (intro exI [of _ "t1 # t2 # ts"] exI [of _ s']) (simp add: algebra_simps)
qed

lemma kernel_thread_ok:
  assumes "current_thread s = 0" "kernel_thread s = 0" "room (Suc n) (kheap_state s)"
  shows "\<exists>t. sched_ok [t] (scheduling_init km s) \<and> kernel_thread (scheduling_init km s) = t \<and>
    t \<in> taken (kheap_state (scheduling_init km s)) \<and> scheduling (scheduling_init km s) \<and>
    num_threads (scheduling_init km s) = num_threads s + 1 \<and> last_thread_id (scheduling_init km s) = last_thread_id s + 1"
proof -
  have "(52 :: u32) \<le> STACK_SIZE" by (simp add: STACK_SIZE_def word_le_nat_alt)
  from fresh_block [OF assms(3) this]
  obtain t h where t: "km 52 (kheap_state s) = (t, h)" "t \<noteq> 0" "region t 52 \<subseteq> taken h" by blast
  have "t \<in> taken h" using t(3) by (auto simp: region_def)
  define s0 where "s0 = upd_thread t (\<lambda>_. zero_thread\<lparr>tid := last_thread_id s + 1, process := 0,
      page_dir := current_directory s\<rparr>) (s\<lparr>kheap_state := h, last_thread_id := last_thread_id s + 1\<rparr>)
    \<lparr>num_threads := num_threads s + 1\<rparr>"
  have e: "scheduling_init km s = (schedule_thread t s0)\<lparr>scheduling := True\<rparr>"
    using t(1,2) assms(1)
    by (simp add: scheduling_init_def create_kernel_thread_def request_thread_id_def s0_def Let_def upd_thread_def)
  have f: "kernel_thread s0 = 0" "kheap_state s0 = h" "num_threads s0 = num_threads s + 1"
    "last_thread_id s0 = last_thread_id s + 1"
    using assms(2) by (simp_all add: s0_def upd_thread_def)
  have ok: "sched_ok [t] (schedule_thread t s0)" by (rule schedule_first_ok [OF t(2) f(1)])
  then have "kernel_thread (schedule_thread t s0) = t" by (simp add: sched_ok_def)
  then show ?thesis
    using ok \<open>t \<in> taken h\<close> f unfolding e by (simp add: sched_ok_def schedule_thread_frame schedule_thread_keeps)
qed

end

section \<open>The kernel heap provides it\<close>

text \<open>
  \<open>kmalloc\<close> for callers that take its return for granted; that it returns is part of the
  interpretation. The heap can serve \<open>n\<close> more requests of at most a stack as long as it may grow
  by \<open>n\<close> times four pages, since a request makes it grow by less.
\<close>

definition kernel_kmalloc :: "'h kap \<Rightarrow> u32 \<Rightarrow> u32 \<Rightarrow> page_dir \<Rightarrow> u32 \<Rightarrow> 'h kheap_state \<Rightarrow> u32 \<times> 'h kheap_state" where
  "kernel_kmalloc kap head voffset kdir sz k = the (kmalloc kap head voffset kdir sz k)"

definition heap_budget :: "u32 \<Rightarrow> nat \<Rightarrow> 'h kheap_state \<Rightarrow> bool" where
  "heap_budget head n k \<longleftrightarrow> (\<exists>s bs. kheap k = Some s \<and> heap_ok head bs s \<and>
     unat (end_address (heap_alloc s)) + 0x4000 * n \<le> unat (start_address (heap_alloc s)) + unat (max_size (heap_alloc s)))"

lemma round_up_le: "(n + 4095) div 4096 * 4096 \<le> n + 4095" for n :: nat
  by (rule div_times_less_eq_dividend)

lemma stack_block_size:
  assumes "sz \<le> STACK_SIZE"
  shows "unat sz + 19 < 2 ^ 32" "unat (get_block_size sz) < 0x3000"
proof -
  have s: "unat sz \<le> 0x2000" using assms by (simp add: STACK_SIZE_def word_le_nat_alt)
  then show f: "unat sz + 19 < 2 ^ 32" by simp
  show "unat (get_block_size sz) < 0x3000"
    using s unfolding block_size_nat [OF f] by (simp add: max_def) linarith
qed

interpretation kernel_heap: thread_memory "kernel_kmalloc kap head voffset kdir" "heap_budget head" "handed_words head"
  for kap head voffset kdir
proof unfold_locales
  fix n and k :: "'a kheap_state" and sz :: u32
  assume b: "heap_budget head (Suc n) k" and sz: "sz \<le> STACK_SIZE"
  let ?u = "get_block_size sz"
  note z = stack_block_size [OF sz]
  obtain s bs where s: "kheap k = Some s" "heap_ok head bs s"
    "unat (end_address (heap_alloc s)) + 0x4000 * Suc n \<le> unat (start_address (heap_alloc s)) + unat (max_size (heap_alloc s))"
    using b by (auto simp: heap_budget_def)
  let ?e = "end_address (heap_alloc s)"
  have up: "(unat ?e + unat ?u + 4095) div 4096 * 4096 \<le> unat ?e + 0x4000"
    using round_up_le [of "unat ?e + unat ?u"] z(2) by simp
  then have g: "can_grow ?u (heap_alloc s)" using s(3) by (simp add: can_grow_def)
  obtain xs a r ys s' where a: "alloc kap head sz 0 s = Some (a + 8, s')"
    "heap_ok head (xs @ carve a r ?u False @ ys) s'" "unharmed head bs s s'"
    "end_address (heap_alloc s') = (if has_fit ?u bs then ?e else page_up (?e + ?u))"
    using alloc_serves [OF s(2) refl z(1) disjI2 [OF g], of kap] by blast
  let ?k = "k\<lparr>kheap := Some s'\<rparr>"
  have km: "kmalloc kap head voffset kdir sz k = Some (a + 8, ?k)"
    using s(1) a(1) by (simp add: kmalloc_def kmalloc_int_def)
  have "heap_serves head sz k" using s(1,2) g by (auto simp: heap_serves_def)
  from kmalloc_fresh [OF z(1) this, of kap voffset kdir] kmalloc_words [OF z(1) this km]
  have f: "a + 8 \<noteq> 0" "unat (a + 8) + unat sz < 2 ^ 32" "region (a + 8) sz \<inter> handed_words head k = {}"
    "handed_words head k \<union> region (a + 8) sz \<subseteq> handed_words head ?k"
    using km by auto
  have ge: "unat (?e + ?u) = unat ?e + unat ?u" by (rule grown_end(1) [OF heap_okD(7) [OF s(2)] g])
  have "unat (page_up (?e + ?u)) = (unat ?e + unat ?u + 4095) div 4096 * 4096"
    using page_up_nat [of "?e + ?u"] g heap_okD(7) [OF s(2)] unfolding ge by (simp add: can_grow_def heap_bounds_def)
  then have "unat (end_address (heap_alloc s')) \<le> unat ?e + 0x4000" using a(4) up by simp
  then have "heap_budget head n ?k"
    using s(3) a(2,3) by (auto simp: heap_budget_def unharmed_def)
  then show "\<exists>p k'. kernel_kmalloc kap head voffset kdir sz k = (p, k') \<and> p \<noteq> 0 \<and> unat p + unat sz < 2 ^ 32 \<and>
      region p sz \<inter> handed_words head k = {} \<and> handed_words head k \<union> region p sz \<subseteq> handed_words head k' \<and> heap_budget head n k'"
    using km f by (intro exI [of _ "a + 8"] exI [of _ ?k]) (simp add: kernel_kmalloc_def)
qed

text \<open>
  C21. \<open>scheduling_init\<close> makes the kernel thread and starts the scheduler. With the processes in
  place, the loop of \<open>main\<close> that starts the threads returns, as long as the kernel heap may
  still grow by fifty times four pages: the ring then has the kernel thread first and the
  twenty threads behind it in the order of their creation. The round \<open>k\<close> of the loop has put a
  kernel thread there that will run \<open>func2\<close> with the screen position \<open>160 + 2 * k\<close>, and then a
  user thread that will run \<open>func1\<close> with \<open>k\<close>: at the end of the loop, what the switch to each of
  them takes from its stacks, the function, the code segment, the return address and the
  argument, is what it was created with, and it has its number and belongs to the process
  \<open>k mod 3\<close>. The heap of the second phase is the one that \<open>create_process\<close> leaves, which keeps the
  memory that had been handed out.
\<close>

theorem main_threads_start:
  assumes "current_thread s = 0" "kernel_thread s = 0" "last_thread_id s = 0" "num_threads s = 0"
    and "heap_budget head 1 (kheap_state s)" "s1 = scheduling_init (kernel_kmalloc kap head voffset kdir) s"
    and "handed_words head (kheap_state s1) \<subseteq> handed_words head h" "heap_budget head 50 h"
  shows "\<exists>t ts s'. main_threads (kernel_kmalloc kap head voffset kdir) exit_addr ps func1 func2
      (s1\<lparr>procs := pr, kheap_state := h\<rparr>) = Some s' \<and>
    sched_ok (t # ts) s' \<and> length ts = 20 \<and> kernel_thread s' = t \<and> num_threads s' = 21 \<and> scheduling s' \<and>
    (\<forall>k<10. started exit_addr s' (ts ! (2 * k)) (of_nat (2 * k + 2), ps ! (k mod 3), func2, 160 + of_nat (2 * k), False) \<and>
       started exit_addr s' (ts ! (2 * k + 1)) (of_nat (2 * k + 3), ps ! (k mod 3), func1, of_nat k, True))"
proof -
  let ?s = "s1\<lparr>procs := pr, kheap_state := h\<rparr>"
  have "heap_budget head (Suc 0) (kheap_state s)" using assms(5) by simp
  from kernel_heap.kernel_thread_ok [OF assms(1,2) this, of kap voffset kdir]
  obtain t where t: "sched_ok [t] s1" "kernel_thread s1 = t" "t \<in> handed_words head (kheap_state s1)" "scheduling s1"
    "num_threads s1 = 1" "last_thread_id s1 = 1" unfolding assms(6) [symmetric] using assms(3,4) by auto
  have a1: "sched_ok [t] ?s" using t(1) by (auto simp: sched_ok_def)
  have a2: "set [t] \<subseteq> handed_words head (kheap_state ?s)" using t(3) assms(7) by auto
  have a3: "heap_budget head (5 * length [0..<10] + 0) (kheap_state ?s)" using assms(8) by simp
  have a4: "unat (last_thread_id ?s) + 2 * length [0..<10] < 2 ^ 32" using t(6) by simp
  obtain ts s' where r: "start_threads (kernel_kmalloc kap head voffset kdir) exit_addr ps func1 func2 [0..<10] 0 ?s = Some s'"
    "length ts = 2 * length [0..<10]" "sched_ok ([t] @ ts) s'" "num_threads s' = num_threads ?s + of_nat (2 * length [0..<10])"
    "kernel_thread s' = kernel_thread ?s" "scheduling s' = scheduling ?s"
    "list_all2 (waits exit_addr (handed_words head (kheap_state s')) s') ts (thread_plan ps func1 func2 [0..<10] 0 (last_thread_id ?s))"
    using kernel_heap.start_threads_ok [OF a1 a2 a3 a4] by blast
  have w: "started exit_addr s' (ts ! j) (thread_plan ps func1 func2 [0..<10] 0 1 ! j)" if "j < 20" for j
    using list_all2_nthD [OF r(7), of j] that r(2) t(6) by (simp add: waits_def)
  have "started exit_addr s' (ts ! (2 * k)) (of_nat (2 * k + 2), ps ! (k mod 3), func2, 160 + of_nat (2 * k), False) \<and>
      started exit_addr s' (ts ! (2 * k + 1)) (of_nat (2 * k + 3), ps ! (k mod 3), func1, of_nat k, True)" if "k < 10" for k
  proof -
    have "k < length [0..<10]" using that by simp
    note n = thread_plan_nth [OF this]
    from that show ?thesis using w [of "2 * k"] w [of "2 * k + 1"] unfolding n by (simp add: algebra_simps)
  qed
  then show ?thesis using r(1-6) t(2,4,5) by (intro exI [of _ t] exI [of _ ts] exI [of _ s']) (simp add: main_threads_def)
qed

definition roomy_heap :: "unit kheap_state" where
  "roomy_heap = \<lparr>placement_address = 0,
     kheap = Some (fresh_heap\<lparr>heap_alloc := (heap_alloc fresh_heap)\<lparr>max_size := 0x200000\<rparr>\<rparr>)\<rparr>"

lemma roomy_budget: "n \<le> 60 \<Longrightarrow> heap_budget 0x9000 n roomy_heap"
proof -
  let ?s = "fresh_heap\<lparr>heap_alloc := (heap_alloc fresh_heap)\<lparr>max_size := 0x200000\<rparr>\<rparr>"
  have "heap_bounds 0x9000 0x101048 0x103000 0x200000"
    by (simp add: heap_bounds_def node_words_def untag_def)
  then have "heap_ok 0x9000 fresh_blocks ?s"
    using fresh_ok by (simp add: heap_ok_def laid_def fresh_fields)
  then show "n \<le> 60 \<Longrightarrow> heap_budget 0x9000 n roomy_heap"
    by (auto simp: heap_budget_def roomy_heap_def fresh_fields)
qed

definition cold_sched :: "unit kheap_state sched" where
  "cold_sched = \<lparr>threads = \<lambda>_. zero_thread, procs = \<lambda>_. \<lparr>proc_priority = 1, proc_page_dir = 0\<rparr>,
     current_thread = 0, kernel_thread = 0, scheduling = False, num_threads = 0, last_thread_id = 0,
     current_directory = 0x1000, kernel_directory = 0x1000, old_cycles_count = 0, kernel_stack = 0,
     stack_mem = \<lambda>_. 0, kheap_state = roomy_heap\<rparr>"

theorem main_threads_start_witness:
  "\<exists>h s'. main_threads (kernel_kmalloc (\<lambda>_ _. (0, 0, ())) 0x9000 0xc0000000 (page_directory small_allocator))
      0xc0101000 [0x40, 0x80, 0xc0] 0xc0102000 0xc0103000
      ((scheduling_init (kernel_kmalloc (\<lambda>_ _. (0, 0, ())) 0x9000 0xc0000000 (page_directory small_allocator)) cold_sched)
        \<lparr>procs := \<lambda>_. \<lparr>proc_priority = 1, proc_page_dir = 0\<rparr>, kheap_state := h\<rparr>) = Some s' \<and> num_threads s' = 21 \<and>
      (\<exists>t ts. sched_ok (t # ts) s' \<and> started 0xc0101000 s' (ts ! 6) (8, 0x40, 0xc0103000, 166, False) \<and>
         started 0xc0101000 s' (ts ! 7) (9, 0x40, 0xc0102000, 3, True))"
proof -
  let ?km = "kernel_kmalloc (\<lambda>_ _. (0, 0, ())) 0x9000 0xc0000000 (page_directory small_allocator)"
  have c: "current_thread cold_sched = 0" "kernel_thread cold_sched = 0" "last_thread_id cold_sched = 0"
    "num_threads cold_sched = 0" "kheap_state cold_sched = roomy_heap" by (simp_all add: cold_sched_def)
  have b: "heap_budget 0x9000 1 (kheap_state cold_sched)" unfolding c(5) by (rule roomy_budget) simp
  have "heap_budget 0x9000 (Suc 50) roomy_heap" by (rule roomy_budget) simp
  from kernel_heap.fresh_block [OF this, of 52 "\<lambda>_ _. (0, 0, ())" "0xc0000000" "page_directory small_allocator"]
  obtain p h where h: "?km 52 roomy_heap = (p, h)" "p \<noteq> 0" "heap_budget 0x9000 50 h"
    by (auto simp: STACK_SIZE_def word_le_nat_alt)
  have "kheap_state (scheduling_init ?km cold_sched) = h"
    using h(1,2) c(1,5) by (simp add: scheduling_init_def create_kernel_thread_def request_thread_id_def Let_def
        schedule_thread_frame upd_thread_def)
  then have "handed_words 0x9000 (kheap_state (scheduling_init ?km cold_sched)) \<subseteq> handed_words 0x9000 h" by simp
  from main_threads_start [OF c(1-4) b refl this h(3)]
  obtain t ts s' where "main_threads ?km 0xc0101000 [0x40, 0x80, 0xc0] 0xc0102000 0xc0103000
      ((scheduling_init ?km cold_sched)\<lparr>procs := \<lambda>_. \<lparr>proc_priority = 1, proc_page_dir = 0\<rparr>, kheap_state := h\<rparr>) = Some s'"
    "sched_ok (t # ts) s'" "num_threads s' = 21"
    "\<forall>k<10. started 0xc0101000 s' (ts ! (2 * k)) (of_nat (2 * k + 2), [0x40, 0x80, 0xc0] ! (k mod 3), 0xc0103000,
         160 + of_nat (2 * k), False) \<and>
       started 0xc0101000 s' (ts ! (2 * k + 1)) (of_nat (2 * k + 3), [0x40, 0x80, 0xc0] ! (k mod 3), 0xc0102000, of_nat k, True)"
    by blast
  then show ?thesis
    by (intro exI [of _ h] exI [of _ s'] conjI exI [of _ t] exI [of _ ts]) (auto dest: spec [of _ 3])
qed

end
