(* ===== verification/Kernel_Main.thy ===== *)
theory Kernel_Main
  imports Boot Paging_Boot System_Props Keyboard Console Initrd Thread_Start
begin

text \<open>
  \<open>main\<close> of \<^verbatim>\<open>kernel/main.c\<close>, in the phases it runs through: the consoles, the processor and the
  memory subsystem over the boot loader's information (\<open>main_boot\<close>), the exercise of the heap
  (\<open>main_heap_test\<close>), and the services of the running kernel (\<open>main_services\<close>). The threads it
  starts afterwards are in \<open>Thread_Start\<close>, the printing of the memory map is in \<open>Boot\<close>.
\<close>

section \<open>The memory phase\<close>

text \<open>The fields of the boot loader's structure that \<open>main\<close> reads.\<close>

record multiboot_info =
  mbi_flags :: u32
  mbi_mem_lower :: u32
  mbi_mem_upper :: u32
  mbi_mods_count :: u32
  mbi_mods_addr :: u32
  mbi_mmap_length :: u32
  mbi_mmap_addr :: u32

definition MULTIBOOT_MEMINFO :: u32 where "MULTIBOOT_MEMINFO = push_bit 0 1"

definition MULTIBOOT_MMAP :: u32 where "MULTIBOOT_MMAP = push_bit 6 1"

text \<open>
  From the sizing of memory to the kernel heap. \<open>mbi_addr\<close> is the address of the boot loader's
  structure, \<open>boot\<close> the memory with its map, \<open>raw\<close> the memory where the bitmap is placed, \<open>m\<close>
  the memory of the heap and \<open>tabs\<close> the memory of the page tables. An assertion that fails
  stops the machine.
\<close>

definition main_memory ::
  "u32 \<Rightarrow> u32 \<Rightarrow> alloc_args rb_tree \<Rightarrow> u32 \<Rightarrow> multiboot_info \<Rightarrow> u32 \<Rightarrow> bmem \<Rightarrow> (nat \<Rightarrow> u32) \<Rightarrow> handler_table \<Rightarrow> mem \<Rightarrow>
   (u32 \<Rightarrow> page_table) \<Rightarrow> u32 \<Rightarrow> (page_dir \<times> handler_table \<times> u32 heap_state option) option" where
  "main_memory voffset head tree0 fault mbi mbi_addr boot raw t m tabs placement =
     (if mbi_flags mbi AND MULTIBOOT_MEMINFO = 0 then None
      else let (f, placement) = paging_init ((mbi_mem_lower mbi + mbi_mem_upper mbi) * 1024) raw placement;
               f = paging_mark_reserved (mbi_addr - voffset) f
           in if mbi_flags mbi AND MULTIBOOT_MMAP = 0 then None
              else case reserve_map boot (mbi_mmap_addr mbi + voffset)
                          (mbi_mmap_addr mbi + voffset + mbi_mmap_length mbi) f of
                     None \<Rightarrow> None
                   | Some f \<Rightarrow> paging_finalize voffset head tree0 fault t m
                                \<lparr>phys_frames = f, page_tables = tabs, heap = placement\<rparr>)"

section \<open>The phases of main\<close>

definition MULTIBOOT_MAGIC :: u32 where "MULTIBOOT_MAGIC = 0x2badb002"

definition MULTIBOOT_LOADER :: u32 where "MULTIBOOT_LOADER = push_bit 9 1"

text \<open>
  What the linker gives: the offset of the kernel, the addresses of the structures and
  functions that are registered, the local variables of \<open>initrd_parse\<close> and \<open>remove_rbnode\<close>, and
  the strings of the ram disk code.
\<close>

record kernel_image =
  img_voffset :: u32
  img_tss :: u32
  img_isr_stubs :: "u8 \<Rightarrow> u32"
  img_irq_stubs :: "u8 \<Rightarrow> u32"
  img_pit_handler :: u32
  img_page_fault :: u32
  img_syscall_handler :: u32
  img_keyboard_handler :: u32
  img_head :: u32
  img_tree :: "alloc_args rb_tree"
  img_tmp :: u32
  img_nbuf :: u32
  img_slash :: u32
  img_initrd_magic :: u32

text \<open>
  From the entry of \<open>main\<close> to the kernel heap. The result has the screen, the location of the
  ram disk, the kernel's directory, the heap and the processor. \<open>com\<close> is the port of the
  serial line that the BIOS has recorded.
\<close>

definition main_boot ::
  "kernel_image \<Rightarrow> 'io port_ops \<Rightarrow> u16 \<Rightarrow> u32 \<Rightarrow> multiboot_info \<Rightarrow> u32 \<Rightarrow> bmem \<Rightarrow> (nat \<Rightarrow> u32) \<Rightarrow> mem \<Rightarrow>
   (u32 \<Rightarrow> page_table) \<Rightarrow> vga \<Rightarrow> ('io, 'h) system \<Rightarrow>
   (vga \<times> u32 \<times> page_dir \<times> u32 heap_state option \<times> ('io, 'h) system) option" where
  "main_boot img io com magic mbi mbi_addr boot raw m tabs scr sys = do {
     let scr = vga_init scr;
     p \<leftarrow> serial_init io com (ports (core sys));
     let sys = sys\<lparr>core := (core sys)\<lparr>ports := p\<rparr>\<rparr>;
     if magic \<noteq> MULTIBOOT_MAGIC \<or> mbi_flags mbi AND MULTIBOOT_LOADER = 0 then None
     else do {
       sys \<leftarrow> arch_init io (img_tss img) (img_isr_stubs img) (img_irq_stubs img) (img_pit_handler img) sys;
       (location, placement, boot) \<leftarrow> initrd_init (img_voffset img) (img_tmp img) (img_nbuf img) (img_slash img)
         (img_initrd_magic img) (mbi_flags mbi) (mbi_mods_count mbi) (mbi_mods_addr mbi) boot;
       (dir, t, hs) \<leftarrow> main_memory (img_voffset img) (img_head img) (img_tree img) (img_page_fault img) mbi mbi_addr
         boot raw (table (core sys)) m tabs placement;
       Some (scr, location, dir, hs, sys\<lparr>core := (core sys)\<lparr>table := t\<rparr>\<rparr>)
     }
   }"

text \<open>
  The exercise of the heap. The heap's memory holds words: a character is written into the
  byte of its word, and the block of \<open>0x1a0000\<close> bytes that \<open>memset\<close> clears is one of words.
\<close>

definition store_char :: "u32 \<Rightarrow> u8 \<Rightarrow> 'h kheap_state \<Rightarrow> 'h kheap_state option" where
  "store_char p c k =
     (case kheap k of
        None \<Rightarrow> None
      | Some s \<Rightarrow>
          let w = p AND NOT 3; sh = 8 * unat (p AND 3);
              v = ram s w AND NOT (push_bit sh 0xff) OR push_bit sh (ucast c)
          in Some (k\<lparr>kheap := Some (s\<lparr>ram := (ram s)(w := v)\<rparr>)\<rparr>))"

definition clear_block :: "u32 \<Rightarrow> u32 \<Rightarrow> 'h kheap_state \<Rightarrow> 'h kheap_state option" where
  "clear_block p n k =
     map_option (\<lambda>s. k\<lparr>kheap := Some (s\<lparr>ram := (\<lambda>w. if w - p < n then 0 else ram s w)\<rparr>)\<rparr>) (kheap k)"

definition main_heap_test :: "'h kap \<Rightarrow> u32 \<Rightarrow> u32 \<Rightarrow> page_dir \<Rightarrow> 'h kheap_state \<Rightarrow> 'h kheap_state option" where
  "main_heap_test kap head voffset kdir k = do {
     (p1, k) \<leftarrow> kmalloc kap head voffset kdir 8 k;
     (p2, k) \<leftarrow> kmalloc kap head voffset kdir 8 k;
     k \<leftarrow> store_char p1 97 k;
     k \<leftarrow> kfree kap head p2 k;
     k \<leftarrow> kfree kap head p1 k;
     (p3, k) \<leftarrow> kmalloc kap head voffset kdir 16 k;
     (p4, phys, k) \<leftarrow> kmalloc_ap kap head voffset kdir 0x1a0000 k;
     k \<leftarrow> clear_block p4 0x1a0000 k;
     k \<leftarrow> store_char p4 122 k;
     (p5, k) \<leftarrow> kmalloc kap head voffset kdir 2 k;
     k \<leftarrow> kfree kap head p5 k;
     k \<leftarrow> kfree kap head p4 k;
     kfree kap head p3 k
   }"

definition keyboard_init :: "'io port_ops \<Rightarrow> u32 \<Rightarrow> ('io, 'h) machine \<Rightarrow> ('io, 'h) machine option" where
  "keyboard_init io handler m = do {
     t \<leftarrow> attach_interrupt_handler (ucast (IRQ 1)) handler (table m);
     Some (m\<lparr>table := t, ports := pic_enable_irq io 1 (ports m)\<rparr>)
   }"

definition main_services ::
  "kernel_image \<Rightarrow> 'io port_ops \<Rightarrow> (u32 \<Rightarrow> 'h \<Rightarrow> u32 \<times> 'h) \<Rightarrow> ('io, 'h) machine \<Rightarrow> ('io, 'h) machine option" where
  "main_services img io km m = do {
     m \<leftarrow> syscall_init (img_syscall_handler img) m;
     let m = m\<lparr>tasks := scheduling_init km (tasks m)\<rparr>;
     keyboard_init io (img_keyboard_handler img) m
   }"

section \<open>The kernel boots\<close>

lemma main_memory_ok:
  assumes "mbi_flags mbi AND MULTIBOOT_MEMINFO \<noteq> 0" "mbi_flags mbi AND MULTIBOOT_MMAP \<noteq> 0"
    and "walk boot (mbi_mmap_addr mbi + voffset) (mbi_mmap_addr mbi + voffset + mbi_mmap_length mbi) es"
    and "\<forall>e\<in>set es. unat (mmap_length e) + 4096 \<le> 2 ^ 64"
    and "voffset mod FRAME_SIZE = 0" "voffset \<le> KHEAP_START" "placement \<noteq> 0"
    and "unat placement + 0x21000 + 0x2000 * 1027 \<le> unat KHEAP_START"
    and "handlers_ok 14 xs t" "fault \<noteq> 0" "xs = [] \<longrightarrow> heads t 14 = 0" "length xs < MAX_HANDLERS"
    and "heap_bounds head (granular_start KHEAP_START) (KHEAP_START + KHEAP_INITIAL_SIZE) HEAP_MAX_SIZE"
    and "\<not> check_magic (granular_start KHEAP_START - 8) m"
  shows "\<exists>dir t' hs. main_memory voffset head tree0 fault mbi mbi_addr boot raw t m tabs placement = Some (dir, t', Some hs) \<and>
    heap_ok head [(granular_start KHEAP_START, KHEAP_START + KHEAP_INITIAL_SIZE - granular_start KHEAP_START, True)] hs \<and>
    placement < heap (vm_state hs) \<and>
    (\<forall>w. voffset \<le> w \<longrightarrow> w < heap (vm_state hs) \<longrightarrow> boot_access voffset dir (vm_state hs) w = Some (w - voffset, False, True)) \<and>
    (first_free_frame (phys_frames (vm_state hs)) = -1 \<or> heap_mapped voffset KHEAP_START dir (vm_state hs)) \<and>
    (\<forall>g. g = 0 \<or> g = unat ((mbi_addr - voffset) div FRAME_SIZE) \<or> (\<exists>e\<in>set es. mmap_type e = 2 \<and> region_frame e g) \<longrightarrow>
      frame_bit (phys_frames (vm_state hs)) g) \<and>
    attach_interrupt_handler 14 fault t = Some t'"
proof -
  define n where "n = (mbi_mem_lower mbi + mbi_mem_upper mbi) * 1024 div FRAME_SIZE"
  obtain f0 where i: "paging_init ((mbi_mem_lower mbi + mbi_mem_upper mbi) * 1024) raw placement =
      (f0, place_align FRAME_SIZE placement + n div 8)" by (simp add: paging_init_def n_def Let_def)
  define p where "p = place_align FRAME_SIZE placement + n div 8"
  have "unat n < 2 ^ 20"
    using unsigned_less [of "(mbi_mem_lower mbi + mbi_mem_upper mbi) * 1024", where 'a = nat]
    by (simp add: n_def unat_div FRAME_SIZE_def less_mult_imp_div_less)
  then have d: "unat (n div 8) < 0x20000" by (simp add: unat_div less_mult_imp_div_less)
  have k: "unat KHEAP_START < 2 ^ 32" using unsigned_less [of KHEAP_START, where 'a = nat] by simp
  have a: "unat placement \<le> unat (place_align FRAME_SIZE placement)"
    "unat (place_align FRAME_SIZE placement) < unat placement + 0x1000"
    using place_align_le [of FRAME_SIZE placement] assms(8) k by (auto simp: FRAME_SIZE_def)
  have p: "unat p = unat (place_align FRAME_SIZE placement) + unat (n div 8)"
    unfolding p_def using a d assms(8) k by (subst unat_add_lem [THEN iffD1]) auto
  have room: "p \<noteq> 0" "unat p + 0x2000 * 1027 \<le> unat KHEAP_START" "placement \<le> p"
    using p a d assms(8) unat_gt_0 [of placement] assms(7) by (auto simp: word_le_nat_alt)
  obtain f where f: "reserve_map boot (mbi_mmap_addr mbi + voffset) (mbi_mmap_addr mbi + voffset + mbi_mmap_length mbi)
      (paging_mark_reserved (mbi_addr - voffset) f0) = Some f"
    "\<forall>g. frame_bit f g \<longleftrightarrow> frame_bit (paging_mark_reserved (mbi_addr - voffset) f0) g \<or>
      (\<exists>e\<in>set es. mmap_type e = 2 \<and> region_frame e g)"
    using reserve_map_ok [OF assms(3,4)] by blast
  let ?s = "\<lparr>phys_frames = f, page_tables = tabs, heap = p\<rparr>"
  have h: "heap ?s \<noteq> 0" "unat (heap ?s) + 0x2000 * 1027 \<le> unat KHEAP_START" using room by simp_all
  have e: "main_memory voffset head tree0 fault mbi mbi_addr boot raw t m tabs placement =
      paging_finalize voffset head tree0 fault t m ?s"
    using assms(1,2) i f(1) by (simp add: main_memory_def p_def)
  have marks: "frame_bit f g" if "g = unat ((mbi_addr - voffset) div FRAME_SIZE) \<or>
      (\<exists>e\<in>set es. mmap_type e = 2 \<and> region_frame e g)" for g
    using that f(2) by (auto simp: paging_mark_reserved_def)
  obtain dir t' hs where r: "paging_finalize voffset head tree0 fault t m ?s = Some (dir, t', Some hs)"
    "heap ?s < heap (vm_state hs)"
    "\<forall>w. voffset \<le> w \<longrightarrow> w < heap (vm_state hs) \<longrightarrow> boot_access voffset dir (vm_state hs) w = Some (w - voffset, False, True)"
    "first_free_frame (phys_frames (vm_state hs)) = -1 \<or> heap_mapped voffset KHEAP_START dir (vm_state hs)"
    "heap_ok head [(granular_start KHEAP_START, KHEAP_START + KHEAP_INITIAL_SIZE - granular_start KHEAP_START, True)] hs"
    "\<forall>g. g = 0 \<or> frame_bit (phys_frames ?s) g \<longrightarrow> frame_bit (phys_frames (vm_state hs)) g"
    "attach_interrupt_handler 14 fault t = Some t'"
    using paging_finalize_ok [OF assms(5,6) h assms(9-14), of tree0] by (elim exE conjE) metis
  moreover have "placement < heap (vm_state hs)" using room(3) r(2) by simp
  ultimately show ?thesis unfolding e using marks by (metis frame_state.simps vm.simps(1))
qed

lemma handlers_elsewhere:
  assumes "slots t' k = slots t k \<and> heads t' k = heads t k"
  shows "handlers_ok k xs t' \<longleftrightarrow> handlers_ok k xs t" "attached k xs t' = attached k xs t"
  using assms by (simp_all add: handlers_ok_def attached_def)

lemma attach_first:
  assumes "handlers_ok k [] t" "heads t k = 0" "f \<noteq> 0" "attach_interrupt_handler k f t = Some t'"
  shows "\<exists>n. handlers_ok k [n] t' \<and> attached k [n] t' = [f] \<and>
    (\<forall>j. j \<noteq> k \<longrightarrow> slots t' j = slots t j \<and> heads t' j = heads t j)"
  using attach_room [OF assms(1,3)] assms(2,4) by (auto simp: MAX_HANDLERS_def attached_def)

lemma attach_beside:
  assumes "handlers_ok k [] t" "heads t k = 0" "f \<noteq> 0" "attach_interrupt_handler k f t = Some t'" "j \<noteq> k"
  shows "handlers_ok j xs t' \<longleftrightarrow> handlers_ok j xs t" "attached j xs t' = attached j xs t" "heads t' j = heads t j"
  using attach_first [OF assms(1-4)] assms(5) handlers_elsewhere [of t' j t] by auto

text \<open>What the boot loader and the linker provide.\<close>

definition image_ok :: "kernel_image \<Rightarrow> bool" where
  "image_ok img \<longleftrightarrow> img_voffset img mod FRAME_SIZE = 0 \<and> img_voffset img \<le> KHEAP_START \<and>
     img_pit_handler img \<noteq> 0 \<and> img_page_fault img \<noteq> 0 \<and> img_syscall_handler img \<noteq> 0 \<and> img_keyboard_handler img \<noteq> 0 \<and>
     heap_bounds (img_head img) (granular_start KHEAP_START) (KHEAP_START + KHEAP_INITIAL_SIZE) HEAP_MAX_SIZE"

definition boot_info_ok :: "u32 \<Rightarrow> multiboot_info \<Rightarrow> bmem \<Rightarrow> mmap_entry list \<Rightarrow> bool" where
  "boot_info_ok voffset mbi boot es \<longleftrightarrow> mbi_flags mbi AND MULTIBOOT_LOADER \<noteq> 0 \<and>
     mbi_flags mbi AND MULTIBOOT_MEMINFO \<noteq> 0 \<and> mbi_flags mbi AND MULTIBOOT_MMAP \<noteq> 0 \<and>
     walk boot (mbi_mmap_addr mbi + voffset) (mbi_mmap_addr mbi + voffset + mbi_mmap_length mbi) es \<and>
     (\<forall>e\<in>set es. unat (mmap_length e) + 4096 \<le> 2 ^ 64)"

text \<open>
  C5. Entered by a boot loader with its magic number, the sizes and the map of memory and a ram
  disk that \<open>initrd_init\<close> accepts, \<open>main\<close> gets to the kernel heap: the screen is cleared,
  interrupts are enabled with only the timer and the second controller unmasked, the timer
  and the page fault have their handlers, the processor takes the kernel's addresses to the
  physical memory below them and finds every page of the heap writable unless no frame is
  free any more, the heap satisfies its invariant with all of its memory free, and the
  first frame, the frame of the boot information and all frames of reserved regions are
  marked as used.
\<close>

theorem main_boots:
  assumes "mask_ports io line_masks pics_ready" "serial_init io com (ports (core sys)) = Some p"
    and "table (core sys) = no_handlers" "image_ok img"
    and "boot_info_ok (img_voffset img) mbi boot' es"
    and "initrd_init (img_voffset img) (img_tmp img) (img_nbuf img) (img_slash img) (img_initrd_magic img)
      (mbi_flags mbi) (mbi_mods_count mbi) (mbi_mods_addr mbi) boot = Some (location, placement, boot')"
    and "placement \<noteq> 0" "unat placement + 0x21000 + 0x2000 * 1027 \<le> unat KHEAP_START"
    and "\<not> check_magic (granular_start KHEAP_START - 8) m"
  shows "\<exists>dir hs sys' n1 n2. main_boot img io com MULTIBOOT_MAGIC mbi mbi_addr boot raw m tabs scr sys =
      Some (vga_init scr, location, dir, Some hs, sys') \<and> interrupts_on sys' \<and>
    handlers_ok 0x20 [n1] (table (core sys')) \<and> attached 0x20 [n1] (table (core sys')) = [img_pit_handler img] \<and>
    handlers_ok 14 [n2] (table (core sys')) \<and> attached 14 [n2] (table (core sys')) = [img_page_fault img] \<and>
    (\<forall>i<16. masked (line_masks (ports (core sys'))) i \<longleftrightarrow> i \<notin> {0, 2}) \<and>
    heap_ok (img_head img) [(granular_start KHEAP_START, KHEAP_START + KHEAP_INITIAL_SIZE - granular_start KHEAP_START, True)] hs \<and>
    (\<forall>w. img_voffset img \<le> w \<longrightarrow> w < heap (vm_state hs) \<longrightarrow> boot_access (img_voffset img) dir (vm_state hs) w = Some (w - img_voffset img, False, True)) \<and>
    (first_free_frame (phys_frames (vm_state hs)) = -1 \<or> heap_mapped (img_voffset img) KHEAP_START dir (vm_state hs)) \<and>
    (\<forall>g. g = 0 \<or> g = unat ((mbi_addr - img_voffset img) div FRAME_SIZE) \<or>
      (\<exists>e\<in>set es. mmap_type e = 2 \<and> region_frame e g) \<longrightarrow> frame_bit (phys_frames (vm_state hs)) g)"
proof -
  let ?s = "sys\<lparr>core := (core sys)\<lparr>ports := p\<rparr>\<rparr>"
  have t0: "handlers_ok k [] (table (core ?s))" "heads (table (core ?s)) k = 0" for k
    using no_handlers_ok [of k] assms(3) by simp_all
  have img: "img_pit_handler img \<noteq> 0" "img_page_fault img \<noteq> 0" using assms(4) by (simp_all add: image_ok_def)
  obtain s1 n1 where a: "arch_init io (img_tss img) (img_isr_stubs img) (img_irq_stubs img) (img_pit_handler img) ?s = Some s1"
    "interrupts_on s1" "handlers_ok 0x20 [n1] (table (core s1))" "attached 0x20 [n1] (table (core s1)) = [img_pit_handler img]"
    "\<forall>i<16. masked (line_masks (ports (core s1))) i \<longleftrightarrow> i \<notin> {0, 2}"
    "\<forall>k. k \<noteq> 0x20 \<longrightarrow> slots (table (core s1)) k = slots (table (core ?s)) k \<and> heads (table (core s1)) k = heads (table (core ?s)) k"
    using arch_init_ok [OF assms(1) t0 img(1)] by metis
  have "(14 :: u8) \<noteq> 0x20" by simp
  then have e14: "slots (table (core s1)) 14 = slots (table (core ?s)) 14 \<and> heads (table (core s1)) 14 = heads (table (core ?s)) 14"
    using a(6) by blast
  have h14: "handlers_ok 14 [] (table (core s1))" "heads (table (core s1)) 14 = 0"
    using handlers_elsewhere(1) [OF e14] e14 t0 by simp_all
  have len: "[] = [] \<longrightarrow> heads (table (core s1)) 14 = 0" "length [] < MAX_HANDLERS"
    using h14 by (simp_all add: MAX_HANDLERS_def)
  obtain dir t hs where mm: "main_memory (img_voffset img) (img_head img) (img_tree img) (img_page_fault img) mbi mbi_addr
      boot' raw (table (core s1)) m tabs placement = Some (dir, t, Some hs)"
    "heap_ok (img_head img) [(granular_start KHEAP_START, KHEAP_START + KHEAP_INITIAL_SIZE - granular_start KHEAP_START, True)] hs"
    "\<forall>w. img_voffset img \<le> w \<longrightarrow> w < heap (vm_state hs) \<longrightarrow> boot_access (img_voffset img) dir (vm_state hs) w = Some (w - img_voffset img, False, True)"
    "first_free_frame (phys_frames (vm_state hs)) = -1 \<or> heap_mapped (img_voffset img) KHEAP_START dir (vm_state hs)"
    "\<forall>g. g = 0 \<or> g = unat ((mbi_addr - img_voffset img) div FRAME_SIZE) \<or>
      (\<exists>e\<in>set es. mmap_type e = 2 \<and> region_frame e g) \<longrightarrow> frame_bit (phys_frames (vm_state hs)) g"
    "attach_interrupt_handler 14 (img_page_fault img) (table (core s1)) = Some t"
    using main_memory_ok [OF _ _ _ _ _ _ assms(7,8) h14(1) img(2) len _ assms(9), of mbi boot' "img_voffset img" es
        "img_head img" "img_tree img" mbi_addr raw tabs] assms(4,5)
    unfolding image_ok_def boot_info_ok_def by blast
  obtain n2 where n2: "handlers_ok 14 [n2] t" "attached 14 [n2] t = [img_page_fault img]"
    using attach_first [OF h14 img(2) mm(6)] by blast
  have n1: "handlers_ok 0x20 [n1] t" "attached 0x20 [n1] t = [img_pit_handler img]"
    using attach_beside [OF h14 img(2) mm(6), of "0x20"] a(3,4) by simp_all
  let ?s' = "s1\<lparr>core := (core s1)\<lparr>table := t\<rparr>\<rparr>"
  have "main_boot img io com MULTIBOOT_MAGIC mbi mbi_addr boot raw m tabs scr sys =
      Some (vga_init scr, location, dir, Some hs, ?s')"
    using assms(2,5,6) a(1) mm(1) by (simp add: main_boot_def boot_info_ok_def)
  moreover have "interrupts_on ?s'" "\<forall>i<16. masked (line_masks (ports (core ?s'))) i \<longleftrightarrow> i \<notin> {0, 2}"
    using a(2,5) by (simp_all add: interrupts_on_def)
  moreover have "table (core ?s') = t" by simp
  ultimately show ?thesis
    using n1 n2 mm(2-5) by (intro exI [of _ dir] exI [of _ hs] exI [of _ ?s'] exI [of _ n1] exI [of _ n2] conjI) (assumption | simp)+
qed

text \<open>A boot with an empty ram disk and one reserved page, on the controllers of the data sheet.\<close>

definition sample_image :: kernel_image where
  "sample_image = \<lparr>img_voffset = 0xc0000000, img_tss = 0xc0105000, img_isr_stubs = \<lambda>_. 0xc0100000,
     img_irq_stubs = \<lambda>_. 0xc0200000, img_pit_handler = 0xc0102000, img_page_fault = 0xc0101000,
     img_syscall_handler = 0xc0104000, img_keyboard_handler = 0xc0103000, img_head = 0x9000,
     img_tree = rb_tree.make 7 7 7 compare select_dup, img_tmp = 0xc0108000, img_nbuf = 0xc0109000,
     img_slash = 0xc010a000, img_initrd_magic = 0xc0106000\<rparr>"

definition sample_boot :: bmem where
  "sample_boot = store_bytes 0xc0300000 [73, 78, 73, 84, 82, 68] (store_bytes 0xc0106000 [73, 78, 73, 84, 82, 68]
     ((\<lambda>_. 0)(0xc0001000 := 20, 0xc0001005 := 0xfc, 0xc0001006 := 9, 0xc000100d := 0x10, 0xc0001014 := 2,
       0x5002 := 0x30, 0x5005 := 0x10, 0x5006 := 0x30)))"

abbreviation sample_mbi :: multiboot_info where
  "sample_mbi \<equiv> \<lparr>mbi_flags = 0x249, mbi_mem_lower = 640, mbi_mem_upper = 0x7c00, mbi_mods_count = 1,
     mbi_mods_addr = 0x5000, mbi_mmap_length = 24, mbi_mmap_addr = 0x1000\<rparr>"

abbreviation sample_region :: mmap_entry where
  "sample_region \<equiv> \<lparr>mmap_size = 20, mmap_addr = 0x9fc00, mmap_length = 0x1000, mmap_type = 2\<rparr>"

definition serial_ready :: "u16 \<Rightarrow> chip" where
  "serial_ready = (\<lambda>_. \<lparr>chip_mask = 0, chip_pending = 0\<rparr>)(0x3fd := \<lparr>chip_mask = 0x20, chip_pending = 0\<rparr>)"

lemma chip_serial:
  assumes "chip_mask (s 0x3fd) = 0x20"
  shows "send_bytes chip_ports 0x3f8 bs s = Some s"
proof (induction bs)
  case (Cons b bs)
  have "write_char chip_ports 0x3f8 b s = Some s"
    using assms by (subst write_char.simps) (simp add: is_transmit_empty_def chip_ports_def pic_ports)
  then show ?case using Cons by simp
qed simp

lemma sample_boot_serial: "serial_init chip_ports 0x3f8 serial_ready = Some serial_ready"
proof -
  have "serial_init chip_ports 0x3f8 serial_ready = send_bytes chip_ports 0x3f8 init_message serial_ready"
    by (simp add: serial_init_def chip_ports_def pic_ports)
  then show ?thesis by (simp add: chip_serial serial_ready_def)
qed

lemma sample_boot_initrd:
  "initrd_init 0xc0000000 0xc0108000 0xc0109000 0xc010a000 0xc0106000 0x249 1 0x5000 sample_boot =
     Some (0xc0300000, 0xc0301000, sample_boot)"
proof -
  have "cstr sample_boot 0xc0300000 [73, 78, 73, 84, 82, 68]" "cstr sample_boot 0xc0106000 [73, 78, 73, 84, 82, 68]"
    by (simp_all add: cstr_Cons sample_boot_def)
  from strcmp_cstr [OF this] have c: "strcmp 0xc0300000 0xc0106000 sample_boot = Some 0" by simp
  have r: "read32 sample_boot 0x5000 = 0x300000" "read32 sample_boot 0x5004 = 0x301000" "read32 sample_boot 0xc0300007 = 0"
    by (simp_all add: read32_def sample_boot_def)
  have "(0x249 :: u32) AND 8 \<noteq> 0" by simp
  then show ?thesis using c r by (simp add: initrd_init_def initrd_parse.simps)
qed

lemma sample_boot_info: "boot_info_ok 0xc0000000 sample_mbi sample_boot [sample_region]"
  by (simp add: boot_info_ok_def MULTIBOOT_LOADER_def MULTIBOOT_MEMINFO_def MULTIBOOT_MMAP_def mmap_entry_at_def
      read32_def read64_def sample_boot_def)

lemma sample_image_ok: "image_ok sample_image"
  by (simp add: image_ok_def sample_image_def granular_start_def KHEAP_START_def KHEAP_INITIAL_SIZE_def HEAP_MAX_SIZE_def
      SIZEOF_ALLOCATOR_def MIN_BLOCK_SIZE_def Let_def heap_bounds_def node_words_def untag_def FRAME_SIZE_def)

definition powered_on :: "(u16 \<Rightarrow> chip, unit) system" where
  "powered_on = cold_system\<lparr>core := (core cold_system)\<lparr>ports := serial_ready\<rparr>\<rparr>"

theorem main_boots_witness:
  "\<exists>dir hs sys'. main_boot sample_image chip_ports 0x3f8 0x2badb002 sample_mbi 0xc0001800 sample_boot (\<lambda>_. 0) (\<lambda>_. 0)
      (\<lambda>_ _. zero_pte) blank_screen powered_on = Some (vga_init blank_screen, 0xc0300000, dir, Some hs, sys') \<and>
    interrupts_on sys' \<and> frame_bit (phys_frames (vm_state hs)) 0x9f"
proof -
  have i: "initrd_init (img_voffset sample_image) (img_tmp sample_image) (img_nbuf sample_image) (img_slash sample_image)
      (img_initrd_magic sample_image) (mbi_flags sample_mbi) (mbi_mods_count sample_mbi) (mbi_mods_addr sample_mbi)
      sample_boot = Some (0xc0300000, 0xc0301000, sample_boot)"
    using sample_boot_initrd by (simp add: sample_image_def)
  have b: "boot_info_ok (img_voffset sample_image) sample_mbi sample_boot [sample_region]"
    using sample_boot_info by (simp add: sample_image_def)
  have t: "table (core powered_on) = no_handlers" "serial_init chip_ports 0x3f8 (ports (core powered_on)) = Some serial_ready"
    using sample_boot_serial by (simp_all add: powered_on_def cold_system_def)
  have m: "\<not> check_magic (granular_start KHEAP_START - 8) (\<lambda>_. 0)" by (simp add: check_magic_def MAGIC_def untag_def)
  have p: "(0xc0301000 :: u32) \<noteq> 0" "unat (0xc0301000 :: u32) + 0x21000 + 0x2000 * 1027 \<le> unat KHEAP_START"
    by (simp_all add: KHEAP_START_def)
  have r: "region_frame sample_region 0x9f" unfolding region_frame_def by (intro exI [of _ 0]) simp
  obtain dir hs sys' where k: "main_boot sample_image chip_ports 0x3f8 MULTIBOOT_MAGIC sample_mbi 0xc0001800 sample_boot
      (\<lambda>_. 0) (\<lambda>_. 0) (\<lambda>_ _. zero_pte) blank_screen powered_on = Some (vga_init blank_screen, 0xc0300000, dir, Some hs, sys')"
    "interrupts_on sys'" "\<forall>g. g = 0 \<or> g = unat ((0xc0001800 - img_voffset sample_image) div FRAME_SIZE) \<or>
      (\<exists>e\<in>set [sample_region]. mmap_type e = 2 \<and> region_frame e g) \<longrightarrow> frame_bit (phys_frames (vm_state hs)) g"
    using main_boots [OF chips.mask_ports_axioms t(2,1) sample_image_ok b i p m, of "0xc0001800" "\<lambda>_. 0" "\<lambda>_ _. zero_pte" blank_screen]
    by blast
  then show ?thesis using r unfolding MULTIBOOT_MAGIC_def by auto
qed

section \<open>The services of the running kernel\<close>

text \<open>
  C25. After the heap is up, \<open>main\<close> attaches the handler of system calls, makes the kernel
  thread, starts the scheduler and attaches the keyboard: the lists of the two vectors, which
  were empty with head 0, are well formed and have exactly these handlers, the lists of the
  other vectors stay, the keyboard's line is unmasked in
  addition to those that were, and the kernel thread is alone in the ring.
\<close>

theorem main_services_ready:
  assumes "mask_ports io line_masks pics_ready" "pics_ready (ports m)" "image_ok img"
    and "handlers_ok 0x80 [] (table m)" "heads (table m) 0x80 = 0" "handlers_ok 0x21 [] (table m)" "heads (table m) 0x21 = 0"
    and "current_thread (tasks m) = 0" "kernel_thread (tasks m) = 0" "heap_budget head 1 (kheap_state (tasks m))"
  shows "\<exists>m' n1 n2 t. main_services img io (kernel_kmalloc kap head voffset kdir) m = Some m' \<and>
    handlers_ok 0x80 [n1] (table m') \<and> attached 0x80 [n1] (table m') = [img_syscall_handler img] \<and>
    handlers_ok 0x21 [n2] (table m') \<and> attached 0x21 [n2] (table m') = [img_keyboard_handler img] \<and>
    (\<forall>j xs. j \<notin> {0x80, 0x21} \<longrightarrow> (handlers_ok j xs (table m') \<longleftrightarrow> handlers_ok j xs (table m)) \<and>
       attached j xs (table m') = attached j xs (table m)) \<and>
    (\<forall>i<16. masked (line_masks (ports m')) i \<longleftrightarrow> masked (line_masks (ports m)) i \<and> i \<noteq> 1) \<and>
    sched_ok [t] (tasks m') \<and> kernel_thread (tasks m') = t \<and> scheduling (tasks m')"
proof -
  have img: "img_syscall_handler img \<noteq> 0" "img_keyboard_handler img \<noteq> 0" using assms(3) by (simp_all add: image_ok_def)
  obtain t1 n1 where a: "attach_interrupt_handler 0x80 (img_syscall_handler img) (table m) = Some t1"
    "handlers_ok 0x80 [n1] t1" "attached 0x80 [n1] t1 = [img_syscall_handler img]"
    using attach_room [OF assms(4) img(1)] assms(5) by (auto simp: MAX_HANDLERS_def attached_def)
  note o1 = attach_beside [OF assms(4,5) img(1) a(1)]
  have h1: "handlers_ok 0x21 [] t1" "heads t1 0x21 = 0" using o1 [of "0x21"] assms(6,7) by simp_all
  obtain t2 n2 where b: "attach_interrupt_handler 0x21 (img_keyboard_handler img) t1 = Some t2"
    "handlers_ok 0x21 [n2] t2" "attached 0x21 [n2] t2 = [img_keyboard_handler img]"
    using attach_room [OF h1(1) img(2)] h1(2) by (auto simp: MAX_HANDLERS_def attached_def)
  note o2 = attach_beside [OF h1 img(2) b(1)]
  let ?km = "kernel_kmalloc kap head voffset kdir"
  let ?m = "m\<lparr>table := t2, ports := pic_enable_irq io 1 (ports m), tasks := scheduling_init ?km (tasks m)\<rparr>"
  have e: "main_services img io ?km m = Some ?m"
    using a(1) b(1) by (simp add: main_services_def syscall_init_def keyboard_init_def IRQ_def SYSCALL_VECTOR_def)
  have "heap_budget head (Suc 0) (kheap_state (tasks m))" using assms(10) by simp
  from kernel_heap.kernel_thread_ok [OF assms(8,9) this, of kap voffset kdir]
  obtain t where t: "sched_ok [t] (scheduling_init ?km (tasks m))" "kernel_thread (scheduling_init ?km (tasks m)) = t"
    "scheduling (scheduling_init ?km (tasks m))" by blast
  have "masked (line_masks (ports ?m)) i \<longleftrightarrow> masked (line_masks (ports m)) i \<and> i \<noteq> 1" if "i < 16" for i
    using mask_ports.masked_enable(1) [OF assms(1,2), of 1 i] that by simp
  moreover have "handlers_ok 0x80 [n1] t2" "attached 0x80 [n1] t2 = [img_syscall_handler img]"
    using o2(1,2) [of "0x80" "[n1]"] a(2,3) by simp_all
  moreover have "\<forall>j xs. j \<notin> {0x80, 0x21} \<longrightarrow> (handlers_ok j xs t2 \<longleftrightarrow> handlers_ok j xs (table m)) \<and>
      attached j xs t2 = attached j xs (table m)" using o1(1,2) o2(1,2) by auto
  ultimately show ?thesis using e b(2,3) t by (intro exI [of _ ?m] exI [of _ n1] exI [of _ n2] exI [of _ t]) simp
qed

theorem main_services_ready_witness:
  "\<exists>m'. main_services sample_image chip_ports (kernel_kmalloc (\<lambda>_ _. (0, 0, ())) 0x9000 0xc0000000 (page_directory small_allocator))
      \<lparr>regs = registers_of (replicate 18 0), table = no_handlers, bad_irqs = 0, ports = idle_chips, ticks = 0, tasks = cold_sched\<rparr>
      = Some m' \<and> scheduling (tasks m')"
proof -
  let ?m = "\<lparr>regs = registers_of (replicate 18 0), table = no_handlers, bad_irqs = 0, ports = idle_chips, ticks = 0, tasks = cold_sched\<rparr>"
  have p: "chips_ready (ports ?m)" by (simp add: chips_ready_def)
  have h: "handlers_ok 0x80 [] (table ?m)" "heads (table ?m) 0x80 = 0" "handlers_ok 0x21 [] (table ?m)" "heads (table ?m) 0x21 = 0"
    using no_handlers_ok by simp_all
  have c: "current_thread (tasks ?m) = 0" "kernel_thread (tasks ?m) = 0" "heap_budget 0x9000 1 (kheap_state (tasks ?m))"
    using roomy_budget [of 1] by (simp_all add: cold_sched_def)
  from main_services_ready [OF chips.mask_ports_axioms p sample_image_ok h c, of "\<lambda>_ _. (0, 0, ())" "0xc0000000"
      "page_directory small_allocator"]
  show ?thesis by blast
qed

end
