(* ===== verification/Demo_Threads.thy ===== *)
theory Demo_Threads
  imports System_Props Vga Keyboard
begin

text \<open>
  The functions that the threads of \<^verbatim>\<open>kernel/main.c\<close> run, and the loop in which \<open>main\<close> ends.
  \<open>func1\<close> runs in user mode and reaches the kernel by system calls; \<open>func2\<close> and the loop of
  \<open>main\<close> write a cell of the screen.
\<close>

section \<open>The functions\<close>

definition alph :: "u8 list" where "alph = map of_nat [97..<123] @ [0]"

text \<open>\<open>ok\<close>, \<open>dash\<close> and \<open>bye\<close> are the addresses of the three strings.\<close>

partial_function (option) func1_loop ::
  "(u32 \<Rightarrow> ('io, 'h) machine \<Rightarrow> ('io, 'h) machine) \<Rightarrow> u32 \<Rightarrow> u32 \<Rightarrow> u32 \<Rightarrow> ('io, 'h) machine \<Rightarrow> ('io, 'h) machine option" where
  "func1_loop call sp dash i s =
     (if i < 200000
      then if i mod 5000 = 0
           then Option.bind (syscall_vga_print_str call sp dash s) (\<lambda>r. func1_loop call sp dash (i + 1) (snd r))
           else func1_loop call sp dash (i + 1) s
      else Some s)"

definition func1 ::
  "(u32 \<Rightarrow> ('io, 'h) machine \<Rightarrow> ('io, 'h) machine) \<Rightarrow> u32 \<Rightarrow> u32 \<Rightarrow> u32 \<Rightarrow> u32 \<Rightarrow> u32 \<Rightarrow> ('io, 'h) machine \<Rightarrow>
   (u32 \<times> ('io, 'h) machine) option" where
  "func1 call sp ok dash bye off s = do {
     (_, s) \<leftarrow> syscall_vga_print_hex call sp off s;
     (_, s) \<leftarrow> syscall_vga_print_str call sp ok s;
     s \<leftarrow> func1_loop call sp dash 0 s;
     (_, s) \<leftarrow> syscall_vga_print_str call sp bye s;
     syscall_thread_exit call sp s
   }"

text \<open>The counter is incremented in the body of the loop and by the loop.\<close>

partial_function (option) func2_loop :: "nat \<Rightarrow> u32 \<Rightarrow> (nat \<Rightarrow> u16) \<Rightarrow> (nat \<Rightarrow> u16) option" where
  "func2_loop cell i v =
     (if i < 2000000
      then func2_loop cell (i + 1 + 1) (v(cell := ucast (alph ! unat (i mod 27)) OR 0x0f00))
      else Some v)"

definition func2 :: "u32 \<Rightarrow> vga \<Rightarrow> vga option" where
  "func2 off s = map_option (\<lambda>v. s\<lparr>video := v\<rparr>) (func2_loop (unat off) 0 (video s))"

text \<open>One round of \<open>reset\<close>, and one of the loop of \<open>main\<close> before it looks at the key.\<close>

definition reset_round ::
  "'io port_ops \<Rightarrow> (u16 \<Rightarrow> u16 \<Rightarrow> 'io \<Rightarrow> 'io) \<Rightarrow> kbd \<times> ('io, 'h) system \<Rightarrow> (kbd \<times> ('io, 'h) system) option" where
  "reset_round io outw ks =
     (let (c, k) = keyboard_lastchar (fst ks)
      in if c = 114 then map_option (Pair k) (arch_reset io outw (snd ks)) else Some (k, snd ks))"

definition main_round :: "u32 \<times> kbd \<times> vga \<Rightarrow> u8 \<times> u32 \<times> kbd \<times> vga" where
  "main_round st =
     (let (i, k, s) = st;
          s = s\<lparr>video := (video s)(40 := ucast (alph ! unat (i mod 27)) OR 0x0f00)\<rparr>;
          (c, k) = keyboard_lastchar k
      in (c, i + 1, k, s))"

section \<open>What they do\<close>

text \<open>A machine whose system calls reach the four functions of the table.\<close>

definition serves_calls ::
  "(u32 \<Rightarrow> ('io, 'h) machine \<Rightarrow> ('io, 'h) machine) \<Rightarrow>
   (kernel_fun \<Rightarrow> u32 list \<Rightarrow> ('io, 'h) machine \<Rightarrow> u32 \<times> ('io, 'h) machine) \<Rightarrow> ('io, 'h) machine \<Rightarrow> bool" where
  "serves_calls call invoke s \<longleftrightarrow> keeps_table call \<and>
     (\<exists>n handler. handlers_ok 0x80 [n] (table s) \<and> attached 0x80 [n] (table s) = [handler] \<and>
        call handler = syscall_handler invoke)"

text \<open>One system call with the number of its function and its parameter.\<close>

definition do_call ::
  "(kernel_fun \<Rightarrow> u32 list \<Rightarrow> ('io, 'h) machine \<Rightarrow> u32 \<times> ('io, 'h) machine) \<Rightarrow> u32 \<times> u32 \<Rightarrow> ('io, 'h) machine \<Rightarrow> ('io, 'h) machine" where
  "do_call invoke c s = snd (called invoke (syscalls ! unat (fst c)) (loaded (fst c) (snd c) s))"

lemma loaded_int80: "syscall1 call sp k p s = int80 call sp (loaded k p s)"
  by (simp add: syscall1_def int80_def loaded_def)

lemma syscall1_serves:
  assumes "serves_calls call invoke s" "k < 4"
  shows "\<exists>r. syscall1 call sp k p s = Some (r, do_call invoke (k, p) s)" "serves_calls call invoke (do_call invoke (k, p) s)"
proof -
  obtain n handler where h: "handlers_ok 0x80 [n] (table s)" "attached 0x80 [n] (table s) = [handler]"
    "call handler = syscall_handler invoke" "keeps_table call" using assms(1) by (auto simp: serves_calls_def)
  let ?s = "loaded k p s"
  have l: "handlers_ok 0x80 [n] (table ?s)" "attached 0x80 [n] (table ?s) = [handler]" "r_int_no (regs ?s) = 0x80" "r_eax (regs ?s) = k"
    using h(1,2) by (simp_all add: loaded_def)
  have nk: "\<not> num_syscalls \<le> k" using assms(2) by (simp add: num_syscalls_def)
  have e: "int80 call sp ?s = Some (called invoke (syscalls ! unat k) ?s)"
    using int80_runs [OF l(1,2) h(4,3) l(3), of sp] nk unfolding l(4) by simp
  then show "\<exists>r. syscall1 call sp k p s = Some (r, do_call invoke (k, p) s)"
    unfolding loaded_int80 do_call_def by (metis fst_conv snd_conv surjective_pairing)
  have "call handler ?s = snd (called invoke (syscalls ! unat k) ?s)"
    using nk l(4) by (simp add: h(3) syscall_handler_def called_def Let_def case_prod_beta)
  then have "table (do_call invoke (k, p) s) = table s"
    using h(4) by (metis keeps_table_def do_call_def fst_conv snd_conv l(1) loaded_def machine.select_convs(2) machine.ext_inject machine.surjective machine.update_convs(1))
  then show "serves_calls call invoke (do_call invoke (k, p) s)" using h by (auto simp: serves_calls_def)
qed

lemma u32_cmp: "i \<le> 200000 \<Longrightarrow> unat (of_nat i :: u32) = i" for i :: nat
  by (simp add: unat_of_nat)

lemma func1_loop_dashes:
  assumes "serves_calls call invoke s" "i \<le> 200000"
  shows "\<exists>s'. func1_loop call sp dash (of_nat i) s = Some s' \<and> serves_calls call invoke s' \<and>
    s' = (do_call invoke (1, dash) ^^ (40 - (i + 4999) div 5000)) s"
  using assms
proof (induction "200000 - i" arbitrary: i s)
  case 0
  then have i: "i = 200000" by simp
  have "func1_loop call sp dash (of_nat i) s = Some s" by (subst func1_loop.simps) (simp add: i)
  then show ?case using 0 i by simp
next
  case (Suc n)
  have i: "i < 200000" and n: "n = 200000 - (i + 1)" using Suc(2) by simp_all
  have u: "(of_nat i :: u32) < 200000" "(of_nat i + 1 :: u32) = of_nat (i + 1)"
    using i by (simp_all add: word_less_nat_alt u32_cmp)
  have m: "(of_nat i :: u32) mod 5000 = 0 \<longleftrightarrow> i mod 5000 = 0"
    using i by (simp add: word_unat_eq_iff unat_mod u32_cmp)
  show ?case
  proof (cases "i mod 5000 = 0")
    case True
    then obtain a where a: "i = 5000 * a" by (metis mod_eq_0_iff_dvd dvdE)
    have k: "(i + 4999) div 5000 = a" "(i + 1 + 4999) div 5000 = Suc a" "a < 40" using a i by simp_all
    let ?s = "do_call invoke (1, dash) s"
    obtain r where r: "syscall1 call sp 1 dash s = Some (r, ?s)" "serves_calls call invoke ?s"
      using syscall1_serves(1) [OF Suc.prems(1), of 1 sp dash] syscall1_serves(2) [OF Suc.prems(1), of 1 dash]
      by (auto simp: word_less_nat_alt)
    have "i + 1 \<le> 200000" using i by simp
    from Suc.hyps(1) [OF n r(2) this]
    obtain s' where s': "func1_loop call sp dash (of_nat (i + 1)) ?s = Some s'" "serves_calls call invoke s'"
      "s' = (do_call invoke (1, dash) ^^ (40 - Suc a)) ?s" unfolding k(2) by blast
    have "40 - a = Suc (40 - Suc a)" using k(3) by simp
    then have "s' = (do_call invoke (1, dash) ^^ (40 - a)) s" using s'(3) by (simp add: funpow_swap1)
    moreover have "func1_loop call sp dash (of_nat i) s = Some s'"
      using r(1) s'(1) u m True by (subst func1_loop.simps) (simp add: syscall_vga_print_str_def add.commute)
    ultimately show ?thesis using s'(2) k(1) by simp
  next
    case False
    define q where "q = i div 5000"
    have q: "5000 * q < i" "i < 5000 * q + 5000"
      using False mult_div_mod_eq [of 5000 i] mod_less_divisor [of 5000 i] unfolding q_def by linarith+
    have "(i + 4999) div 5000 = Suc q" "(i + 1 + 4999) div 5000 = Suc q" using q by (auto intro!: div_nat_eqI)
    then have k: "(i + 4999) div 5000 = (i + 1 + 4999) div 5000" by simp
    have "i + 1 \<le> 200000" using i by simp
    from Suc.hyps(1) [OF n Suc.prems(1) this] show ?thesis
      using u m False unfolding k by (subst func1_loop.simps) (simp add: add.commute)
  qed
qed

text \<open>
  A thread that runs \<open>func1\<close> makes exactly these system calls and no other, in this order:
  its number in hexadecimal, the greeting, forty dashes, the farewell, and its exit.
\<close>

theorem func1_calls:
  assumes "serves_calls call invoke s"
  shows "\<exists>r s'. func1 call sp ok dash bye off s = Some (r, do_call invoke (0, r_ebx (regs s')) s') \<and>
    s' = fold (do_call invoke)
      ([(3, off), (1, ok)] @ replicate 40 (1, dash) @ [(1, bye)]) s"
proof -
  let ?d = "do_call invoke" and ?ok = "serves_calls call invoke"
  have lt: "(0 :: u32) < 4" "(1 :: u32) < 4" "(3 :: u32) < 4" by simp_all
  obtain r1 where c1: "syscall1 call sp 3 off s = Some (r1, ?d (3, off) s)" "?ok (?d (3, off) s)"
    using syscall1_serves [OF assms lt(3)] by metis
  obtain r2 where c2: "syscall1 call sp 1 ok (?d (3, off) s) = Some (r2, ?d (1, ok) (?d (3, off) s))"
    "?ok (?d (1, ok) (?d (3, off) s))" using syscall1_serves [OF c1(2) lt(2)] by metis
  define s2 where "s2 = ?d (1, ok) (?d (3, off) s)"
  define s3 where "s3 = (?d (1, dash) ^^ 40) s2"
  have c3: "func1_loop call sp dash 0 s2 = Some s3" "?ok s3"
    using func1_loop_dashes [OF c2(2), of 0 sp dash] by (auto simp: s3_def s2_def)
  obtain r4 where c4: "syscall1 call sp 1 bye s3 = Some (r4, ?d (1, bye) s3)" "?ok (?d (1, bye) s3)"
    using syscall1_serves [OF c3(2) lt(2)] by metis
  define s4 where "s4 = ?d (1, bye) s3"
  obtain r5 where c5: "syscall1 call sp 0 (r_ebx (regs s4)) s4 = Some (r5, ?d (0, r_ebx (regs s4)) s4)"
    using syscall1_serves(1) [OF c4(2) lt(1)] unfolding s4_def by blast
  have "syscall0 call sp 0 s4 = syscall1 call sp 0 (r_ebx (regs s4)) s4" by (simp add: syscall0_def syscall1_def)
  then have "func1 call sp ok dash bye off s = Some (r5, ?d (0, r_ebx (regs s4)) s4)"
    using c1(1) c2(1) c3(1) c4(1) c5
    by (simp add: func1_def syscall_vga_print_hex_def syscall_vga_print_str_def syscall_thread_exit_def
        s2_def [symmetric] s4_def [symmetric])
  moreover have "fold f (replicate n x) = f x ^^ n" for f :: "_ \<Rightarrow> ('a, 'b) machine \<Rightarrow> _" and x n
    by (induction n) (simp_all add: funpow_swap1 fun_eq_iff)
  then have "s4 = fold ?d ([(3, off), (1, ok)] @ replicate 40 (1, dash) @ [(1, bye)]) s"
    by (simp add: s4_def s3_def s2_def)
  ultimately show ?thesis by blast
qed

theorem func1_calls_witness:
  "\<exists>t r m. attach_interrupt_handler 0x80 0xc0104000 no_handlers = Some t \<and>
     func1 (\<lambda>a s. if a = 0xc0104000 then syscall_handler exit_invoke s else s) 0x9000 1 2 3 4
       (sample_machine\<lparr>table := t\<rparr>) = Some (r, m) \<and> state (threads (tasks m) (current_thread (tasks m))) = TASK_FINISHED"
proof -
  let ?call = "\<lambda>a s. if a = 0xc0104000 then syscall_handler exit_invoke s else s"
  obtain t n where t: "attach_interrupt_handler 0x80 0xc0104000 no_handlers = Some t" "handlers_ok 0x80 [n] t"
    "attached 0x80 [n] t = [0xc0104000]"
    using attach_room [OF no_handlers_ok(1), of "0xc0104000" "0x80"] no_handlers_ok(2)
    by (auto simp: MAX_HANDLERS_def attached_def)
  have k: "keeps_table ?call" by (auto simp: keeps_table_def syscall_handler_def exit_invoke_def Let_def)
  have c: "?call 0xc0104000 = syscall_handler exit_invoke" by (simp add: fun_eq_iff)
  have "serves_calls ?call exit_invoke (sample_machine\<lparr>table := t\<rparr>)"
    unfolding serves_calls_def
    by (intro conjI [OF k] exI [of _ n] exI [of _ "0xc0104000"]) (simp_all only: c, simp_all add: t(2,3))
  from func1_calls [OF this, of "0x9000" 1 2 3 4]
  obtain r s' where r: "func1 ?call 0x9000 1 2 3 4 (sample_machine\<lparr>table := t\<rparr>) =
      Some (r, do_call exit_invoke (0, r_ebx (regs s')) s')" by blast
  have "state (threads (tasks (do_call exit_invoke (0, p) s'))
      (current_thread (tasks (do_call exit_invoke (0, p) s')))) = TASK_FINISHED" for p
    by (simp add: do_call_def called_def exit_invoke_def syscalls_def loaded_def thread_exit_def upd_thread_def)
  then show ?thesis using r t(1) by blast
qed

text \<open>\<open>func2\<close> returns, with the letter \<open>a\<close> left in its cell and no other cell changed.\<close>

lemma func2_loop_ends:
  "j \<le> 1000000 \<Longrightarrow> func2_loop cell (of_nat (2 * j)) v = Some (if j < 1000000 then v(cell := 0x0f61) else v)"
proof (induction "1000000 - j" arbitrary: j v)
  case 0
  then show ?case by (subst func2_loop.simps) simp
next
  case (Suc n)
  have j: "j < 1000000" and n: "n = 1000000 - (j + 1)" using Suc(2) by simp_all
  have u: "unat (of_nat (2 * j) :: u32) = 2 * j" using j by (simp only: unat_of_nat) simp
  have lt: "(of_nat (2 * j) :: u32) < 2000000" using j u by (simp add: word_less_nat_alt)
  have nx: "(of_nat (2 * j) :: u32) + 1 + 1 = of_nat (2 * (j + 1))" by simp
  let ?v = "v(cell := ucast (alph ! unat ((of_nat (2 * j) :: u32) mod 27)) OR 0x0f00)"
  have "func2_loop cell (of_nat (2 * j)) v = func2_loop cell (of_nat (2 * (j + 1))) ?v"
    using lt nx by (subst func2_loop.simps) (simp only: if_True)
  also have "\<dots> = Some (if j + 1 < 1000000 then ?v(cell := 0x0f61) else ?v)"
    using Suc.hyps(1) [OF n, of ?v] j by simp
  also have "\<dots> = Some (v(cell := 0x0f61))"
  proof (cases "j + 1 < 1000000")
    case False
    then have "2 * j = 1999998" using j by simp
    moreover have "ucast (alph ! 0) OR 0x0f00 = (0x0f61 :: u16)" by (simp add: alph_def upt_conv_Cons)
    ultimately have "?v = v(cell := 0x0f61)" by (simp del: of_nat_mult)
    then show ?thesis using False by simp
  qed simp
  finally show ?case using j by simp
qed

lemma func2_ends: "func2 off s = Some (s\<lparr>video := (video s)(unat off := 0x0f61)\<rparr>)"
  using func2_loop_ends [of 0 "unat off" "video s"] by (simp add: func2_def)

end
