(* ===== verification/Paging_Frames.thy ===== *)
theory Paging_Frames
  imports Paging
begin

text \<open>
  How page table entries and the frame bitmap go together: the bit-field layout of an
  entry, the exclusive ownership of frames that \<open>alloc_page\<close> keeps, what \<open>free_page\<close> gives
  back, and what a cloned directory shares.
\<close>

section \<open>The layout of an entry\<close>

definition pte_encode :: "pte \<Rightarrow> u32" where
  "pte_encode e =
     of_bool (present e) OR push_bit 1 (of_bool (read_write e)) OR
     push_bit 2 (of_bool (user_supervisor e)) OR push_bit 3 (of_bool (write_through e)) OR
     push_bit 4 (of_bool (cache_disabled e)) OR push_bit 5 (of_bool (accessed e)) OR
     push_bit 6 (of_bool (dirty e)) OR push_bit 7 (of_bool (pt_attr_index e)) OR
     push_bit 8 (of_bool (global_page e)) OR push_bit 9 (ucast (available e)) OR
     push_bit 12 (ucast (frame e))"

definition pte_decode :: "u32 \<Rightarrow> pte" where
  "pte_decode w = \<lparr>present = bit w 0, read_write = bit w 1, user_supervisor = bit w 2,
     write_through = bit w 3, cache_disabled = bit w 4, accessed = bit w 5, dirty = bit w 6,
     pt_attr_index = bit w 7, global_page = bit w 8, available = ucast (drop_bit 9 w),
     frame = ucast (drop_bit 12 w)\<rparr>"

lemma bit_pte_encode:
  "bit (pte_encode e) n \<longleftrightarrow> n < 32 \<and>
     (if n = 0 then present e else if n = 1 then read_write e else if n = 2 then user_supervisor e
      else if n = 3 then write_through e else if n = 4 then cache_disabled e
      else if n = 5 then accessed e else if n = 6 then dirty e else if n = 7 then pt_attr_index e
      else if n = 8 then global_page e else if n < 12 then bit (available e) (n - 9)
      else bit (frame e) (n - 12))"
proof -
  have av: "bit (available e) k \<Longrightarrow> k < 3" for k using bit_imp_le_length by fastforce
  have fr: "bit (frame e) k \<Longrightarrow> k < 20" for k using bit_imp_le_length by fastforce
  show ?thesis
    unfolding pte_encode_def by (auto simp: bit_simps dest: av fr)
qed

text \<open>
  Reading the fields of an encoded page table entry gives the entry back, and encoding the
  fields of any word gives the word back: the bit-fields of \<open>pte_t\<close> use every bit once.
\<close>

theorem pte_layout: "pte_decode (pte_encode e) = e \<and> pte_encode (pte_decode w) = w"
proof
  have "ucast (drop_bit 9 (pte_encode e)) = available e"
    by (rule bit_word_eqI) (auto simp: bit_simps bit_pte_encode)
  moreover have "ucast (drop_bit 12 (pte_encode e)) = frame e"
    by (rule bit_word_eqI) (auto simp: bit_simps bit_pte_encode)
  ultimately show "pte_decode (pte_encode e) = e"
    by (simp add: pte_decode_def bit_pte_encode)
  show "pte_encode (pte_decode w) = w"
  proof (rule bit_word_eqI)
    fix n :: nat assume "n < LENGTH(32)"
    then have n: "n < 32" by simp
    show "bit (pte_encode (pte_decode w)) n = bit w n"
    proof (cases "n < 12")
      case True
      then have "n \<in> {0, 1, 2, 3, 4, 5, 6, 7, 8, 9, 10, 11}" by simp presburger
      then show ?thesis by (auto simp: bit_pte_encode pte_decode_def bit_simps)
    next
      case False
      with n show ?thesis by (auto simp: bit_pte_encode pte_decode_def bit_simps)
    qed
  qed
qed

section \<open>Frames belong to one page\<close>

definition frames_exclusive :: "'h vm \<Rightarrow> bool" where
  "frames_exclusive s \<longleftrightarrow>
     (\<forall>p. frame (get_pte p s) \<noteq> 0 \<longrightarrow> frame_bit (phys_frames s) (unat (frame (get_pte p s)))) \<and>
     (\<forall>p q. frame (get_pte p s) \<noteq> 0 \<longrightarrow> frame (get_pte p s) = frame (get_pte q s) \<longrightarrow> p = q)"

lemma first_free_in_range:
  assumes "unat (nframes s) \<le> 2 ^ 20" "g < unat (nframes s)" "\<not> frame_bit s g"
  shows "unat (first_free_frame s) \<le> g" "\<not> frame_bit s (unat (first_free_frame s))"
    "first_free_frame s \<noteq> -1"
proof -
  let ?n = "32 * unat (nframes s)"
  have bits: "unat (word_of_nat f :: u32) = f" if "f < ?n" for f
    using that assms(1) by (intro unat_word_of_nat) simp
  have "\<exists>x. x \<in> set [0..<?n] \<and> run_free s 1 (word_of_nat x)"
    using assms(2,3) bits [of g] by (intro exI [of _ g]) auto
  then obtain f where f: "search s 1 0 ?n = Some f"
    unfolding find_None_iff [of _ "[0..<?n]", symmetric, unfolded not_not]
    by (cases "search s 1 0 ?n") (auto simp: find_None_iff)
  then have f': "f < ?n" "\<not> frame_bit s f" using bits [of f] by (auto simp: find_Some_iff)
  have first: "\<forall>k<f. run_free s 1 (word_of_nat k) \<longrightarrow> False"
    using f by (auto simp: find_Some_iff)
  have "f \<le> g"
  proof (rule ccontr)
    assume "\<not> f \<le> g"
    then have "\<not> run_free s 1 (word_of_nat g)" using first by auto
    then have "frame_bit s g" using bits [of g] assms(2) by simp
    with assms(3) show False by simp
  qed
  moreover have r: "first_free_frame s = word_of_nat f"
    unfolding first_free_frame_def using scan_words_find [OF assms(1), of 1 0] f
    by (simp add: first_free_frames_def)
  ultimately show "unat (first_free_frame s) \<le> g" "\<not> frame_bit s (unat (first_free_frame s))"
    using bits [OF f'(1)] f' by simp_all
  have "unat (-1 :: u32) = 2 ^ 32 - 1" by (simp add: unsigned_minus_1_eq_mask mask_eq_exp_minus_1)
  then show "first_free_frame s \<noteq> -1"
    using \<open>f \<le> g\<close> assms(1,2) bits [OF f'(1)] r by auto
qed

lemma unat_ucast_frame: "unat (f :: u32) < 2 ^ 20 \<Longrightarrow> unat (ucast f :: 20 word) = unat f"
  by (simp add: unsigned_ucast_eq take_bit_nat_eq_self)

text \<open>
  C26. While some frame of the machine is free and frame 0 is reserved, \<open>alloc_page\<close> on a page
  without a frame takes a frame that was free, marks it used and maps it with the requested
  rights; no other page has that frame, and no other page or frame changes.
\<close>

theorem alloc_page_exclusive:
  assumes "frames_exclusive s" "frame (get_pte p s) = 0"
    and "unat (nframes (phys_frames s)) \<le> 2 ^ 20" "frame_bit (phys_frames s) 0"
    and "g < unat (nframes (phys_frames s))" "\<not> frame_bit (phys_frames s) g"
    and "s' = alloc_page p is_kernel is_writeable s"
  shows "frames_exclusive s' \<and> present (get_pte p s') \<and> read_write (get_pte p s') = is_writeable \<and>
    user_supervisor (get_pte p s') = (\<not> is_kernel) \<and>
    unat (frame (get_pte p s')) < unat (nframes (phys_frames s)) \<and>
    \<not> frame_bit (phys_frames s) (unat (frame (get_pte p s'))) \<and>
    (\<forall>f. frame_bit (phys_frames s') f \<longleftrightarrow>
       frame_bit (phys_frames s) f \<or> f = unat (frame (get_pte p s'))) \<and>
    (\<forall>q. q \<noteq> p \<longrightarrow> get_pte q s' = get_pte q s)"
proof -
  let ?f = "first_free_frame (phys_frames s)"
  note ff = first_free_in_range [OF assms(3,5,6)]
  have lt: "unat ?f < 2 ^ 20" "unat ?f < unat (nframes (phys_frames s))" using ff(1) assms(3,5) by auto
  note u = unat_ucast_frame [OF lt(1)]
  have s': "s' = set_pte p ((get_pte p s)\<lparr>frame := ucast ?f, present := True,
      read_write := is_writeable, user_supervisor := \<not> is_kernel\<rparr>)
      (s\<lparr>phys_frames := set_frame ?f (phys_frames s)\<rparr>)"
    using assms(2,7) ff(3) by (simp add: alloc_page_def Let_def)
  have other: "frame (get_pte q s) \<noteq> ucast ?f" if "frame (get_pte q s) \<noteq> 0" for q
  proof
    assume "frame (get_pte q s) = ucast ?f"
    then have "unat (frame (get_pte q s)) = unat ?f" using u by simp
    with that ff(2) assms(1) show False unfolding frames_exclusive_def by metis
  qed
  have fr: "frame (get_pte q s') = (if q = p then ucast ?f else frame (get_pte q s))"
    "frame_bit (phys_frames s') n \<longleftrightarrow> frame_bit (phys_frames s) n \<or> n = unat ?f" for q n
    by (simp_all add: s' get_set_pte)
  have "frames_exclusive s'"
    unfolding frames_exclusive_def fr using assms(1) [unfolded frames_exclusive_def] other u
    by (simp del: split_paired_All) metis
  then show ?thesis using lt u ff(2) by (simp add: s' get_set_pte)
qed

definition sample_vm :: "unit vm" where
  "sample_vm = \<lparr>phys_frames = \<lparr>frames = (\<lambda>_. 0)(0 := 1), nframes = 64, used_frames = 1\<rparr>,
     page_tables = \<lambda>_ _. zero_pte, heap = ()\<rparr>"

lemma sample_vm_facts:
  "frames_exclusive sample_vm" "frame (get_pte p sample_vm) = 0"
  "unat (nframes (phys_frames sample_vm)) \<le> 2 ^ 20" "frame_bit (phys_frames sample_vm) 0"
  "1 < unat (nframes (phys_frames sample_vm))" "\<not> frame_bit (phys_frames sample_vm) 1"
  by (simp_all add: sample_vm_def frames_exclusive_def get_pte_def zero_pte_def frame_bit_def bit_1_iff)

theorem alloc_page_exclusive_witness:
  "frames_exclusive (alloc_page (0x5000, 7) True False sample_vm)"
  using alloc_page_exclusive [OF sample_vm_facts(1) sample_vm_facts(2-6) refl] by blast

text \<open>
  Freeing a page whose frame number is not a multiple of 32 unmaps it but leaves the bitmap
  as it was: the frame stays marked as used and is not found again.
\<close>

theorem free_page_keeps_frame:
  assumes "unat (frame (get_pte p s)) mod 32 \<noteq> 0"
  shows "\<not> present (get_pte p (free_page p s)) \<and> frame (get_pte p (free_page p s)) = 0 \<and>
    phys_frames (free_page p s) = phys_frames s"
proof -
  have "unat (ucast (frame (get_pte p s)) :: u32) = unat (frame (get_pte p s))"
  proof -
    have "unat (frame (get_pte p s)) < 2 ^ LENGTH(20)" by (rule unsigned_less)
    then have "unat (frame (get_pte p s)) < 2 ^ 32" by simp
    then show ?thesis by (simp add: unsigned_ucast_eq take_bit_nat_eq_self)
  qed
  then have "clear_frame (ucast (frame (get_pte p s))) (phys_frames s) = phys_frames s"
    using assms by (simp add: clear_frame_def test_frame_one)
  then show ?thesis by (simp add: free_page_def Let_def get_set_pte)
qed

theorem free_page_keeps_frame_witness:
  "frame_bit (phys_frames (free_page (0x5000, 7) (alloc_page (0x5000, 7) True False sample_vm))) 1"
proof -
  let ?s = "alloc_page (0x5000, 7) True False sample_vm"
  note f = first_free_in_range [OF sample_vm_facts(3,5,6)]
  have "unat (first_free_frame (phys_frames sample_vm)) \<noteq> 0"
    using f(2) sample_vm_facts(4) by metis
  then have "unat (first_free_frame (phys_frames sample_vm)) = 1" using f(1) by linarith
  then have ff: "first_free_frame (phys_frames sample_vm) = 1" by (simp add: word_unat_eq_iff)
  have g: "get_pte (0x5000, 7) sample_vm = zero_pte" by (simp add: sample_vm_def get_pte_def)
  have "unat (frame (get_pte (0x5000, 7) ?s)) mod 32 \<noteq> 0"
    by (simp add: alloc_page_def ff g get_set_pte zero_pte_def Let_def)
  from free_page_keeps_frame [OF this] show ?thesis
    by (simp add: alloc_page_def ff g zero_pte_def Let_def)
qed

section \<open>Cloned directories\<close>

lemma clone_tables_shared:
  assumes "\<And>i. i \<in> set is \<Longrightarrow> tables dir i = 0 \<or> tables kd i = tables dir i"
  shows "\<exists>d. clone_tables kap kd dir is clone s = Some (d, s) \<and>
    (\<forall>i. tables d i = (if i \<in> set is \<and> tables dir i \<noteq> 0 then tables dir i else tables clone i)) \<and>
    (\<forall>i. entries d i = (if i \<in> set is \<and> tables dir i \<noteq> 0 then entries dir i else entries clone i)) \<and>
    entries_phys_addr d = entries_phys_addr clone"
  using assms
proof (induction "is" arbitrary: clone)
  case (Cons i "is")
  show ?case
  proof (cases "tables dir i = 0")
    case True
    with Cons.IH [of clone] Cons.prems show ?thesis by auto
  next
    case False
    then have "tables kd i = tables dir i" using Cons.prems by auto
    with False Cons.IH [of "clone\<lparr>tables := (tables clone)(i := tables dir i),
        entries := (entries clone)(i := entries dir i)\<rparr>"] Cons.prems
    show ?thesis by (fastforce split: if_splits)
  qed
qed simp

lemma clone_shared:
  assumes "\<And>i. i < 1024 \<Longrightarrow> tables dir i = 0 \<or> tables kernel_directory i = tables dir i"
    and absent: "\<And>i. i < 1024 \<Longrightarrow> tables dir i = 0 \<Longrightarrow> \<not> pde_present (entries dir i)"
  shows "\<exists>d s'. clone_page_directory kap kernel_directory dir s = Some (d, s') \<and>
    (\<forall>v. page_access view d s' v = page_access view dir s v) \<and> (\<forall>i<1024. tables d i = tables dir i)"
proof -
  obtain addr phys h where k: "kap 8196 (heap s) = (addr, phys, h)" by (cases "kap 8196 (heap s)")
  have pre: "\<And>i. i \<in> set [0..<1024] \<Longrightarrow> tables dir i = 0 \<or> tables kernel_directory i = tables dir i"
    using assms by simp
  from clone_tables_shared [OF pre]
  obtain d where d: "clone_tables kap kernel_directory dir [0..<1024]
      \<lparr>entries = \<lambda>_. zero_pde, entries_phys_addr = phys, tables = \<lambda>_. 0\<rparr> (s\<lparr>heap := h\<rparr>) =
      Some (d, s\<lparr>heap := h\<rparr>)"
    and t: "\<forall>i. tables d i = (if i < 1024 \<and> tables dir i \<noteq> 0 then tables dir i else 0)"
    and e: "\<forall>i. entries d i = (if i < 1024 \<and> tables dir i \<noteq> 0 then entries dir i else zero_pde)"
    by fastforce
  have "entries d i = entries dir i \<or> \<not> pde_present (entries d i) \<and> \<not> pde_present (entries dir i)" if "i < 1024" for i
    using e absent [OF that] that by (auto simp: zero_pde_def)
  then have "page_access view d (s\<lparr>heap := h\<rparr>) v = page_access view dir s v" for v
    using index_bounds(1) [of v] by (fastforce simp: page_access_def Let_def)
  then show ?thesis using t by (simp add: clone_page_directory_def k d)
qed

text \<open>
  Cloning a directory all of whose tables are the kernel's succeeds, and the clone
  gives the same accesses as the original, by the same page tables.
\<close>

theorem clone_page_directory_shared:
  assumes "\<And>i. i < 1024 \<Longrightarrow> tables dir i = 0 \<or> tables kernel_directory i = tables dir i"
    and "\<And>i. i < 1024 \<Longrightarrow> tables dir i = 0 \<Longrightarrow> \<not> pde_present (entries dir i)"
  shows "\<exists>d s'. clone_page_directory kap kernel_directory dir s = Some (d, s') \<and>
    (\<forall>v. page_access view d s' v = page_access view dir s v) \<and> (\<forall>i<1024. tables d i = tables dir i)"
  by (rule clone_shared [OF assms])

theorem clone_page_directory_shared_witness:
  "\<exists>d s'. clone_page_directory (kmalloc_ap_place 0xc0000000) empty_dir empty_dir boot_vm = Some (d, s') \<and>
    (\<forall>v. page_access (kernel_view 0xc0000000) d s' v = page_access (kernel_view 0xc0000000) empty_dir boot_vm v) \<and> (\<forall>i<1024. tables d i = tables empty_dir i)"
  by (rule clone_page_directory_shared) (simp_all add: empty_dir_def zero_pde_def)

end
