(* ===== verification/Process.thy ===== *)
theory Process
  imports Cstring Paging_Frames
begin

text \<open>
  \<^verbatim>\<open>kernel/process.c\<close>. The name of a process is a field of 64 bytes at the address of its
  structure and lies in byte memory; the other fields are a record. The heap is an argument,
  as for the page tables: \<open>km\<close> and \<open>kf\<close> are \<open>kmalloc\<close> and \<open>kfree\<close>, \<open>kap\<close> is the \<open>kmalloc_ap\<close>
  that \<open>clone_page_directory\<close> uses.
\<close>

record process =
  proc_id :: u32
  proc_priority :: u32
  proc_state :: int
  proc_page_dir :: page_dir
  proc_next :: u32
  proc_prev :: u32
  proc_threads :: u32

record 'h processes =
  names :: bmem
  procs :: "u32 \<Rightarrow> process"
  last_process_id :: u32
  kernel_dir :: page_dir
  current_dir :: page_dir
  proc_vm :: "'h vm"

definition SIZEOF_PROCESS :: u32 where "SIZEOF_PROCESS = 92"

definition request_process_id :: "'h processes \<Rightarrow> u32 \<times> 'h processes" where
  "request_process_id s = (last_process_id s + 1, s\<lparr>last_process_id := last_process_id s + 1\<rparr>)"

text \<open>
  The parameter \<open>name\<close> is declared as an array and is a pointer, so \<open>sizeof(name)\<close> is 4. The
  null pointer is returned when there is no memory; \<open>None\<close> is a run that does not return.
\<close>

definition create_process ::
  "(u32 \<Rightarrow> 'h \<Rightarrow> u32 \<times> 'h) \<Rightarrow> (u32 \<Rightarrow> 'h \<Rightarrow> u32 \<times> u32 \<times> 'h) \<Rightarrow> u32 \<Rightarrow> u32 \<Rightarrow> 'h processes
     \<Rightarrow> (u32 \<times> 'h processes) option" where
  "create_process km kap name prio s =
     (let (p, h) = km SIZEOF_PROCESS (heap (proc_vm s));
          s = s\<lparr>proc_vm := (proc_vm s)\<lparr>heap := h\<rparr>\<rparr>
      in if p = 0 then Some (0, s)
         else case strncpy p name 4 (names s) of
             None \<Rightarrow> None
           | Some (_, m) \<Rightarrow>
               (case clone_page_directory kap (kernel_dir s) (current_dir s) (proc_vm s) of
                  None \<Rightarrow> None
                | Some (dir, v) \<Rightarrow>
                    let s = s\<lparr>names := m, proc_vm := v\<rparr>;
                        (i, s) = request_process_id s
                    in Some (p, s\<lparr>procs := (procs s)(p := (procs s p)
                           \<lparr>proc_page_dir := dir, proc_id := i, proc_priority := prio\<rparr>)\<rparr>)))"

definition destroy_process :: "(u32 \<Rightarrow> 'h \<Rightarrow> 'h) \<Rightarrow> u32 \<Rightarrow> 'h processes \<Rightarrow> 'h processes" where
  "destroy_process kf p s =
     (if p \<noteq> 0 then s\<lparr>proc_vm := (proc_vm s)\<lparr>heap := kf p (heap (proc_vm s))\<rparr>\<rparr> else s)"

text \<open>
  A process created with memory available has the next identifier, its priority and a
  directory that gives the accesses of the current one, when all tables of the current
  directory are the kernel's and it has no entry without a table; of its name it keeps the first four characters only.
\<close>

theorem create_process_fields:
  assumes "km SIZEOF_PROCESS (heap (proc_vm s)) = (p, h)" "p \<noteq> 0"
    and "cstr (names s) name bs" "apart (Suc (min 4 (length bs))) p name"
    and "\<forall>i<1024. tables (current_dir s) i \<noteq> 0 \<longrightarrow> tables (kernel_dir s) i = tables (current_dir s) i"
    and "\<forall>i<1024. tables (current_dir s) i = 0 \<longrightarrow> \<not> pde_present (entries (current_dir s) i)"
  shows "\<exists>s'. create_process km kap name prio s = Some (p, s') \<and>
    proc_id (procs s' p) = last_process_id s + 1 \<and> last_process_id s' = last_process_id s + 1 \<and>
    proc_priority (procs s' p) = prio \<and> cstr (names s') p (take 4 bs) \<and>
    page_access view (proc_page_dir (procs s' p)) (proc_vm s') v = page_access view (current_dir s) (proc_vm s) v \<and>
    (\<forall>q. q \<noteq> p \<longrightarrow> procs s' q = procs s q)"
proof -
  let ?s = "s\<lparr>proc_vm := (proc_vm s)\<lparr>heap := h\<rparr>\<rparr>" and ?k = "min 4 (length bs)"
  let ?m = "(move_chunk ?k p name (names s))(p + of_nat ?k := 0)"
  have n: "strncpy p name 4 (names s) = Some (p, ?m)"
    by (rule strncpy_chunk [OF assms(3) _ assms(4)]) simp
  have "cstr ?m p (take ?k bs)" by (rule cstr_prefix [OF assms(3)]) simp
  then have c: "cstr ?m p (take 4 bs)" by (simp add: min_def split: if_splits)
  obtain d v' where d: "clone_page_directory kap (kernel_dir s) (current_dir s) (proc_vm ?s) = Some (d, v')"
    "\<And>v. page_access view d v' v = page_access view (current_dir s) (proc_vm ?s) v"
    using clone_shared [of "current_dir s" "kernel_dir s" kap "proc_vm ?s"] assms(5,6) by blast
  have "page_access view (current_dir s) (proc_vm ?s) v = page_access view (current_dir s) (proc_vm s) v" by simp
  then show ?thesis
    using assms(1,2) n d c by (simp add: create_process_def request_process_id_def Let_def)
qed

definition one_directory :: "unit processes" where
  "one_directory = \<lparr>names = (\<lambda>_. 0)(256 := 105, 257 := 110, 258 := 105, 259 := 116, 260 := 100),
     procs = \<lambda>_. \<lparr>proc_id = 0, proc_priority = 0, proc_state = 0, proc_page_dir = empty_dir,
       proc_next = 0, proc_prev = 0, proc_threads = 0\<rparr>,
     last_process_id = 7, kernel_dir = empty_dir, current_dir = empty_dir,
     proc_vm = \<lparr>phys_frames = \<lparr>frames = \<lambda>_. 0, nframes = 64, used_frames = 0\<rparr>,
       page_tables = \<lambda>_ _. zero_pte, heap = ()\<rparr>\<rparr>"

theorem create_process_fields_witness:
  "\<exists>s'. create_process (\<lambda>_ h. (0x800, h)) (\<lambda>_ h. (0x9000, 0x9000, h)) 256 3 one_directory = Some (0x800, s') \<and>
     proc_id (procs s' 0x800) = 8 \<and> cstr (names s') 0x800 [105, 110, 105, 116]"
proof -
  have c: "cstr (names one_directory) 256 [105, 110, 105, 116, 100]" by (simp add: one_directory_def)
  have a: "apart (Suc (min 4 (length [105 :: u8, 110, 105, 116, 100]))) 0x800 256"
    unfolding apart_def
  proof (intro allI impI)
    fix i assume "i < Suc (min 4 (length [105 :: u8, 110, 105, 116, 100]))"
    then have "i \<in> {0, 1, 2, 3, 4}" by auto
    then show "Suc (min 4 (length [105 :: u8, 110, 105, 116, 100])) \<le> unat (256 + of_nat i - 0x800 :: u32)" by auto
  qed
  show ?thesis
    using create_process_fields [OF _ _ c a, of "\<lambda>_ h. (0x800, h)" "()" "\<lambda>_ h. (0x9000, 0x9000, h)" 3 id 0]
    by (auto simp: one_directory_def empty_dir_def zero_pde_def)
qed

end
