(* ===== verification/Vnode.thy ===== *)
theory Vnode
  imports Kheap "HOL-Library.Monad_Syntax"
begin

text \<open>
  The nodes of the virtual file system, \<^verbatim>\<open>kernel/vnode.c\<close>: reference counts and the list of
  released nodes that are used again. Nodes live at addresses in \<open>vnodes\<close>. The kernel heap is
  reached through \<open>heap_ops\<close>, its two functions on its state, which \<open>kernel_heap_ops\<close> fills with
  those of \<^verbatim>\<open>kernel/kheap.c\<close>; \<open>reclaim\<close> is the table of file system operations, which gives the
  \<open>reclaim\<close> function of an operations structure, or \<open>None\<close> for a null pointer. A failed
  assertion stops the machine, which is the result \<open>None\<close>.
\<close>

datatype vtype = VREG | VDIR | VCHR | VBLK | VLNK | VFIFO | VBAD

record vnode =
  type_of_node :: vtype
  ref_count :: u32
  vfs :: u32
  freelist :: u32
  node_data :: u32
  ops :: u32

record 'h vnode_state =
  freelist_size :: u32
  freelist_head :: u32
  vnodes :: "u32 \<Rightarrow> vnode"
  vn_heap :: 'h

record 'h heap_ops =
  heap_kmalloc :: "u32 \<Rightarrow> 'h \<Rightarrow> (u32 \<times> 'h) option"
  heap_kfree :: "u32 \<Rightarrow> 'h \<Rightarrow> 'h option"

definition kernel_heap_ops :: "'h kap \<Rightarrow> u32 \<Rightarrow> u32 \<Rightarrow> page_dir \<Rightarrow> 'h kheap_state heap_ops" where
  "kernel_heap_ops kap head voffset kdir =
     \<lparr>heap_kmalloc = kmalloc kap head voffset kdir, heap_kfree = kfree kap head\<rparr>"

definition VNODE_CACHE_SIZE :: u32 where "VNODE_CACHE_SIZE = 100"

definition SIZEOF_VNODE :: u32 where "SIZEOF_VNODE = 24"

definition set_vnode :: "u32 \<Rightarrow> vnode \<Rightarrow> 'h vnode_state \<Rightarrow> 'h vnode_state" where
  "set_vnode n v s = s\<lparr>vnodes := (vnodes s)(n := v)\<rparr>"

definition vnode_get :: "'h heap_ops \<Rightarrow> 'h vnode_state \<Rightarrow> (u32 \<times> 'h vnode_state) option" where
  "vnode_get hp s =
     (if freelist_size s > 0
      then let node = freelist_head s
           in Some (node, s\<lparr>freelist_head := freelist (vnodes s node), freelist_size := freelist_size s - 1\<rparr>)
      else map_option (\<lambda>(node, h). (node, s\<lparr>vn_heap := h\<rparr>)) (heap_kmalloc hp SIZEOF_VNODE (vn_heap s)))"

definition vnode_init ::
  "'h heap_ops \<Rightarrow> u32 \<Rightarrow> u32 \<Rightarrow> u32 \<Rightarrow> 'h vnode_state \<Rightarrow> (u32 \<times> 'h vnode_state) option" where
  "vnode_init hp ops' vfs' data s =
     (if ops' = 0 \<or> vfs' = 0 then None
      else map_option (\<lambda>(node, s).
          (node, set_vnode node ((vnodes s node)\<lparr>ref_count := 1, vfs := vfs', ops := ops',
             node_data := data, freelist := 0\<rparr>) s)) (vnode_get hp s))"

definition vnode_kill :: "'h heap_ops \<Rightarrow> u32 \<Rightarrow> 'h vnode_state \<Rightarrow> 'h vnode_state option" where
  "vnode_kill hp node s =
     (if node = 0 \<or> ref_count (vnodes s node) \<noteq> 1 then None
      else if freelist_size s < VNODE_CACHE_SIZE
      then Some ((set_vnode node ((vnodes s node)\<lparr>freelist := freelist_head s\<rparr>) s)
                   \<lparr>freelist_head := node, freelist_size := freelist_size s + 1\<rparr>)
      else map_option (\<lambda>h. s\<lparr>vn_heap := h\<rparr>) (heap_kfree hp node (vn_heap s)))"

definition vnode_incref :: "u32 \<Rightarrow> 'h vnode_state \<Rightarrow> 'h vnode_state option" where
  "vnode_incref node s =
     (if node = 0 then None
      else Some (set_vnode node ((vnodes s node)\<lparr>ref_count := ref_count (vnodes s node) + 1\<rparr>) s))"

definition vnode_check :: "u32 \<Rightarrow> bool \<Rightarrow> unit option" where
  "vnode_check node op_present = (if node = 0 then None else if \<not> op_present then None else Some ())"

type_synonym 'h reclaim_ops = "u32 \<Rightarrow> (u32 \<Rightarrow> 'h vnode_state \<Rightarrow> int \<times> 'h vnode_state) option"

definition VOP_RECLAIM :: "'h reclaim_ops \<Rightarrow> u32 \<Rightarrow> 'h vnode_state \<Rightarrow> (int \<times> 'h vnode_state) option" where
  "VOP_RECLAIM reclaim node s = do {
     vnode_check node (reclaim (ops (vnodes s node)) \<noteq> None);
     f \<leftarrow> reclaim (ops (vnodes s node));
     Some (f node s)
   }"

definition vnode_decref ::
  "'h heap_ops \<Rightarrow> 'h reclaim_ops \<Rightarrow> u32 \<Rightarrow> 'h vnode_state \<Rightarrow> 'h vnode_state option" where
  "vnode_decref hp reclaim node s =
     (if node = 0 \<or> ref_count (vnodes s node) = 0 then None
      else if ref_count (vnodes s node) > 1
      then Some (set_vnode node ((vnodes s node)\<lparr>ref_count := ref_count (vnodes s node) - 1\<rparr>) s)
      else do {
        (err, s) \<leftarrow> VOP_RECLAIM reclaim node s;
        vnode_kill hp node s
      })"

section \<open>The list of released nodes\<close>

fun free_chain :: "(u32 \<Rightarrow> vnode) \<Rightarrow> u32 \<Rightarrow> u32 list \<Rightarrow> bool" where
  "free_chain vs p [] \<longleftrightarrow> True"
| "free_chain vs p (n # ns) \<longleftrightarrow> p = n \<and> n \<noteq> 0 \<and> free_chain vs (freelist (vs n)) ns"

definition cached :: "u32 list \<Rightarrow> 'h vnode_state \<Rightarrow> bool" where
  "cached ns s \<longleftrightarrow> free_chain (vnodes s) (freelist_head s) ns \<and> distinct ns \<and>
     freelist_size s = of_nat (length ns) \<and> length ns \<le> 100"

lemma free_chain_cong: "(\<And>n. n \<in> set ns \<Longrightarrow> freelist (vs' n) = freelist (vs n)) \<Longrightarrow> free_chain vs' p ns = free_chain vs p ns"
  by (induction ns arbitrary: p) auto

lemma free_chain_update: "n \<notin> set ns \<Longrightarrow> free_chain (vs(n := v)) p ns = free_chain vs p ns"
  by (rule free_chain_cong) auto

lemma cached_size: "cached ns s \<Longrightarrow> unat (freelist_size s) = length ns"
  by (simp add: cached_def unat_of_nat)

text \<open>
  What a file system's \<open>reclaim\<close> must leave alone for the list to stay intact: the released
  nodes, the list's head and size, and the count of the node it is called for.
\<close>

definition well_behaved :: "'h reclaim_ops \<Rightarrow> bool" where
  "well_behaved reclaim \<longleftrightarrow> (\<forall>o' f node s err s'. reclaim o' = Some f \<longrightarrow> f node s = (err, s') \<longrightarrow>
     (\<forall>n. freelist (vnodes s' n) = freelist (vnodes s n)) \<and> freelist_head s' = freelist_head s \<and>
     freelist_size s' = freelist_size s \<and> ref_count (vnodes s' node) = ref_count (vnodes s node))"

lemma kill_cached:
  assumes "cached ns s" "node \<noteq> 0" "node \<notin> set ns" "ref_count (vnodes s node) = 1"
  shows "\<exists>s'. vnode_kill hp node s = (if length ns < 100 then Some s'
      else map_option (\<lambda>h. s'\<lparr>vn_heap := h\<rparr>) (heap_kfree hp node (vn_heap s'))) \<and>
    cached (if length ns < 100 then node # ns else ns) s'"
proof -
  have sz: "freelist_size s < VNODE_CACHE_SIZE \<longleftrightarrow> length ns < 100"
    using cached_size [OF assms(1)] by (simp add: word_less_nat_alt VNODE_CACHE_SIZE_def)
  show ?thesis
  proof (cases "length ns < 100")
    case True
    have "free_chain ((vnodes s)(node := (vnodes s node)\<lparr>freelist := freelist_head s\<rparr>)) (freelist_head s) ns"
      using assms(1,3) by (simp add: cached_def free_chain_update)
    then show ?thesis
      using True sz assms by (auto simp: vnode_kill_def set_vnode_def cached_def)
  next
    case False
    then show ?thesis using sz assms by (auto simp: vnode_kill_def cached_def)
  qed
qed

text \<open>
  What a client of the nodes needs of the heap: while \<open>ok\<close> holds, memory for a node is not
  null and not part of what has been handed out. Then a new node is never one that is in use.
\<close>

locale node_memory =
  fixes hp :: "'h heap_ops" and ok :: "'h \<Rightarrow> bool" and taken :: "'h \<Rightarrow> u32 set"
  assumes fresh_node: "ok h \<Longrightarrow> \<exists>n h'. heap_kmalloc hp SIZEOF_VNODE h = Some (n, h') \<and> n \<noteq> 0 \<and>
      n \<notin> taken h \<and> insert n (taken h) \<subseteq> taken h'"
begin

lemma init_fresh:
  assumes "cached ns s" "ok (vn_heap s)" "ops' \<noteq> 0" "vfs' \<noteq> 0" "live \<subseteq> taken (vn_heap s)" "live \<inter> set ns = {}"
  shows "\<exists>n s'. vnode_init hp ops' vfs' data s = Some (n, s') \<and> cached (tl ns) s' \<and>
    n \<notin> live \<and> n \<noteq> 0 \<and> n \<notin> set (tl ns) \<and> (ns \<noteq> [] \<longrightarrow> n = hd ns) \<and> ref_count (vnodes s' n) = 1 \<and>
    (\<forall>k. k \<noteq> n \<longrightarrow> vnodes s' k = vnodes s k)"
proof (cases ns)
  case Nil
  obtain n h' where n: "heap_kmalloc hp SIZEOF_VNODE (vn_heap s) = Some (n, h')" "n \<noteq> 0" "n \<notin> taken (vn_heap s)"
    using fresh_node [OF assms(2)] by blast
  have "freelist_size s = 0" using assms(1) Nil by (simp add: cached_def)
  then show ?thesis
    using Nil n assms(3-5) by (auto simp: vnode_init_def vnode_get_def cached_def set_vnode_def)
next
  case (Cons a as)
  have pos: "freelist_size s > 0" using cached_size [OF assms(1)] Cons by (simp add: word_less_nat_alt)
  have c: "freelist_head s = a" "free_chain (vnodes s) (freelist (vnodes s a)) as" "a \<notin> set as" "distinct as" "a \<noteq> 0"
    using assms(1) Cons by (auto simp: cached_def)
  moreover have "a \<notin> live" using assms(6) Cons by auto
  ultimately show ?thesis
    using assms(1,3,4) pos Cons
    by (simp add: vnode_init_def vnode_get_def cached_def set_vnode_def Let_def free_chain_update)
qed

end

definition early :: "'h kheap_state \<Rightarrow> bool" where
  "early k \<longleftrightarrow> kheap k = None \<and> placement_address k \<noteq> 0 \<and> unat (placement_address k) + 24 < 2 ^ 32"

definition placed :: "'h kheap_state \<Rightarrow> u32 set" where
  "placed k = placed_below (placement_address k)"

interpretation early_nodes: node_memory "kernel_heap_ops kap head voffset kdir" early placed for kap head voffset kdir
proof unfold_locales
  fix h :: "'a kheap_state"
  assume e: "early h"
  then have "unat (placement_address h + 24) = unat (placement_address h) + 24"
    by (subst unat_add_lem [THEN iffD1]) (auto simp: early_def)
  then have "insert (placement_address h) (placed_below (placement_address h)) \<subseteq> placed_below (placement_address h + 24)"
    by (auto simp: placed_below_def word_less_nat_alt)
  then show "\<exists>n h'. heap_kmalloc (kernel_heap_ops kap head voffset kdir) SIZEOF_VNODE h = Some (n, h') \<and> n \<noteq> 0 \<and>
      n \<notin> placed h \<and> insert n (placed h) \<subseteq> placed h'"
    using e by (simp add: early_def kernel_heap_ops_def kmalloc_def kmalloc_int_def place_align_def Let_def
        SIZEOF_VNODE_def placed_def) (simp add: placed_below_def)
qed

interpretation heap_nodes: node_memory "kernel_heap_ops kap head voffset kdir" "heap_serves head SIZEOF_VNODE"
  "handed_out head" for kap head voffset kdir
proof unfold_locales
  fix k :: "'a kheap_state"
  assume "heap_serves head SIZEOF_VNODE k"
  moreover have "unat SIZEOF_VNODE + 19 < 2 ^ 32" by (simp add: SIZEOF_VNODE_def)
  ultimately show "\<exists>n k'. heap_kmalloc (kernel_heap_ops kap head voffset kdir) SIZEOF_VNODE k = Some (n, k') \<and>
      n \<noteq> 0 \<and> n \<notin> handed_out head k \<and> insert n (handed_out head k) \<subseteq> handed_out head k'"
    using kmalloc_fresh [of SIZEOF_VNODE head k kap voffset kdir] by (auto simp: kernel_heap_ops_def)
qed

text \<open>
  On the kernel's heap, as soon as it can serve the size of a node, \<open>vnode_init\<close> takes the head
  of the list of released nodes, or new memory when the list is empty; the node has one
  reference and is not one that is in use, and no other node changes. While the heap is the
  placement allocation, the lemmas of \<open>early_nodes\<close> say the same.
\<close>

theorem vnode_init_unused:
  assumes "cached ns s" "heap_serves head SIZEOF_VNODE (vn_heap s)" "ops' \<noteq> 0" "vfs' \<noteq> 0"
    "live \<subseteq> handed_out head (vn_heap s)" "live \<inter> set ns = {}"
  shows "\<exists>n s'. vnode_init (kernel_heap_ops kap head voffset kdir) ops' vfs' data s = Some (n, s') \<and>
    cached (tl ns) s' \<and> n \<notin> live \<and> n \<noteq> 0 \<and> n \<notin> set (tl ns) \<and> (ns \<noteq> [] \<longrightarrow> n = hd ns) \<and>
    ref_count (vnodes s' n) = 1 \<and> (\<forall>k. k \<noteq> n \<longrightarrow> vnodes s' k = vnodes s k)"
  by (rule heap_nodes.init_fresh [OF assms])

text \<open>
  C34. The released nodes stay a list of distinct nodes of the recorded length, at most 100.
  \<open>vnode_incref\<close> leaves the list as it is; \<open>vnode_decref\<close> takes one reference, and with the
  last one it reclaims the node and puts it at the head of the list, or gives it back to the
  heap when the list is full; a node without references stops the machine.
\<close>

theorem vnode_cache_kept:
  assumes "cached ns s" "well_behaved reclaim" "node \<noteq> 0" "node \<notin> set ns"
    and "reclaim (ops (vnodes s node)) \<noteq> None"
  shows "(\<exists>s'. vnode_incref node s = Some s' \<and> cached ns s') \<and>
    (ref_count (vnodes s node) = 0 \<longrightarrow> vnode_decref hp reclaim node s = None) \<and>
    (ref_count (vnodes s node) = 1 \<longrightarrow> (\<exists>s'. vnode_decref hp reclaim node s =
        (if length ns < 100 then Some s'
         else map_option (\<lambda>h. s'\<lparr>vn_heap := h\<rparr>) (heap_kfree hp node (vn_heap s'))) \<and>
      cached (if length ns < 100 then node # ns else ns) s')) \<and>
    (ref_count (vnodes s node) > 1 \<longrightarrow> (\<exists>s'. vnode_decref hp reclaim node s = Some s' \<and> cached ns s' \<and>
      ref_count (vnodes s' node) = ref_count (vnodes s node) - 1))"
proof (intro conjI impI)
  have same: "cached ns (set_vnode node (vnodes s node\<lparr>ref_count := c\<rparr>) s)" for c
    using assms(1,4) by (simp add: cached_def set_vnode_def free_chain_update)
  show "\<exists>s'. vnode_incref node s = Some s' \<and> cached ns s'"
    using assms(3) same by (simp add: vnode_incref_def)
  show "vnode_decref hp reclaim node s = None" if "ref_count (vnodes s node) = 0"
    using that by (simp add: vnode_decref_def)
  show "\<exists>s'. vnode_decref hp reclaim node s = Some s' \<and> cached ns s' \<and>
      ref_count (vnodes s' node) = ref_count (vnodes s node) - 1" if "ref_count (vnodes s node) > 1"
    using that assms(3) same by (auto simp: vnode_decref_def set_vnode_def)
  show "\<exists>s'. vnode_decref hp reclaim node s = (if length ns < 100 then Some s'
         else map_option (\<lambda>h. s'\<lparr>vn_heap := h\<rparr>) (heap_kfree hp node (vn_heap s'))) \<and>
      cached (if length ns < 100 then node # ns else ns) s'"
    if one: "ref_count (vnodes s node) = 1"
  proof -
    obtain f where f: "reclaim (ops (vnodes s node)) = Some f" using assms(5) by auto
    obtain err s1 where s1: "f node s = (err, s1)" by (cases "f node s")
    have w: "\<And>n. freelist (vnodes s1 n) = freelist (vnodes s n)" "freelist_head s1 = freelist_head s"
      "freelist_size s1 = freelist_size s" "ref_count (vnodes s1 node) = 1"
      using assms(2) f s1 one unfolding well_behaved_def by metis+
    have "cached ns s1" using assms(1) w free_chain_cong [of ns "vnodes s1" "vnodes s"] by (simp add: cached_def)
    from kill_cached [OF this assms(3,4) w(4), of hp] show ?thesis
      using one f s1 assms(3) by (simp add: vnode_decref_def VOP_RECLAIM_def vnode_check_def)
  qed
qed

definition one_released :: "unit kheap_state vnode_state" where
  "one_released = \<lparr>freelist_size = 1, freelist_head = 0x40,
     vnodes = \<lambda>_. \<lparr>type_of_node = VREG, ref_count = 1, vfs = 0x10, freelist = 0, node_data = 0, ops = 0x20\<rparr>,
     vn_heap = \<lparr>placement_address = 0xc0100000, kheap = Some fresh_heap\<rparr>\<rparr>"

abbreviation sample_ops :: "unit kheap_state heap_ops" where
  "sample_ops \<equiv> kernel_heap_ops (\<lambda>_ _. (0, 0, ())) 0x9000 0xc0000000 (page_directory small_allocator)"

lemma one_released_ok: "cached [0x40] one_released"
  by (simp add: cached_def one_released_def)

lemma one_released_serves: "heap_serves 0x9000 SIZEOF_VNODE (vn_heap one_released)"
proof -
  have "get_block_size SIZEOF_VNODE = 40" by code_simp
  then have "has_fit (get_block_size SIZEOF_VNODE) fresh_blocks" by (simp add: has_fit_def)
  then show ?thesis using fresh_ok by (auto simp: heap_serves_def one_released_def)
qed

theorem vnode_init_unused_witness:
  "\<exists>s'. vnode_init sample_ops 0x20 0x10 0 one_released = Some (0x40, s') \<and> cached [] s'"
  using vnode_init_unused [OF one_released_ok one_released_serves, of "0x20" "0x10" "{}" "\<lambda>_ _. (0, 0, ())"
      "0xc0000000" "page_directory small_allocator" 0]
  by auto

theorem vnode_cache_kept_witness:
  "\<exists>s'. vnode_decref sample_ops (\<lambda>_. Some (\<lambda>_ s. (0, s))) 0x80 one_released = Some s' \<and> cached [0x80, 0x40] s'"
proof -
  have "well_behaved ((\<lambda>_. Some (\<lambda>_ s. (0, s))) :: unit kheap_state reclaim_ops)" by (auto simp: well_behaved_def)
  then show ?thesis
    using vnode_cache_kept [OF one_released_ok, of "\<lambda>_. Some (\<lambda>_ s. (0, s))" "0x80" sample_ops]
    by (auto simp: one_released_def)
qed

end
