(* ===== verification/Spec2Isabelle.thy ===== *)
theory Spec2Isabelle
  imports Rb_Print Kernel_Main Demo_Threads Paging_Frames Process Vnode
begin

text \<open>
  A verification of the Toutatis kernel, a 32-bit x86 teaching kernel in C, under
  \<^verbatim>\<open>src/kernel\<close>, and of the tool \<^verbatim>\<open>src/make_initrd.c\<close> that packs its ram disk.

  \<^bold>\<open>The program.\<close> The boot loader enters \<open>main\<close>, which sets up the text console and the serial
  line, the descriptor tables, the interrupt controllers and the timer, reads the ram disk,
  marks the reserved frames of the memory map, makes the kernel's page directory and heap
  (\<open>paging_finalize\<close>), and then creates processes and threads that the timer interrupt
  switches between. The heap (\<^verbatim>\<open>mem_alloc.c\<close>) keeps its free blocks in a red-black tree
  (\<^verbatim>\<open>rb_tree.c\<close>) whose nodes lie inside the blocks, and grows by pages of \<^verbatim>\<open>paging.c\<close>, which in
  turn take page tables from \<^verbatim>\<open>kheap.c\<close> and frames from a bitmap.

  \<^bold>\<open>Modelling.\<close> Machine integers are words of their width and wrap as in the code. Structures
  whose fields the code reaches through addresses it computes (tree nodes, blocks, stacks,
  strings) lie in a memory: words for the heap (\<open>mem\<close>), bytes for strings (\<open>bmem\<close>). Other
  structures are records, arrays are functions of their index, so that an index behind the
  end reads unrelated memory instead of failing. A function that changes state takes it and
  returns it. A loop without an obvious bound is a \<open>partial_function\<close> in the option monad:
  the result \<open>None\<close> is a run that does not return, because the loop has no end or the machine
  is stopped by an assertion; theorems about such a function say that it returns. No
  definition uses fuel. What the functions find around them and the C code does not define is
  an argument: \<open>voffset\<close> is the linker symbol \<open>kernel_voffset\<close>, \<open>head\<close> the stack address of a
  local structure, \<open>io\<close> the port instructions, \<open>reclaim\<close> the operations of a file system, of
  which the sources have none. Messages printed by \<open>kprintf\<close> are left out of the functions
  that print them.

  \<^bold>\<open>Theories.\<close>
  \<^item> \<open>Kernel_Prelude\<close>: the machine types, the memories, pointers that carry a tag bit, and the
    facts on words and searches that the other theories share.
  \<^item> \<open>Rb_Tree\<close>, \<open>Rb_Remove\<close> (\<^verbatim>\<open>rb_tree.c\<close>): nodes of four words with the colour in the low bit of
    a link, insertion, removal, lookup, the checker \<open>assert_tree\<close>. \<open>Rb_Heap\<close> relates a root
    pointer to a functional tree; \<open>Rb_Insert\<close>, \<open>Rb_Insert_Loop\<close>, \<open>Rb_Insert_Step\<close> and
    \<open>Rb_Insert_Correct\<close> show that \<open>insert_rbnode\<close> ends and inserts, for every comparison that
    satisfies the locale \<open>insert_order\<close>. \<open>Rb_Context\<close>, \<open>Rb_Descent\<close>, \<open>Rb_Remove_Loop\<close>,
    \<open>Rb_Remove_End\<close> and \<open>Rb_Remove_Correct\<close> show the same of \<open>remove_rbnode\<close>: a tree with a
    hole describes the way down, one step pushes a red node into it, and the end cuts a leaf
    and puts it in the place of the found node; the locale \<open>remove_search\<close> says what a search
    needs of the comparison, and follows from \<open>insert_order\<close>. \<open>Rb_Remove\<close> shows that \<open>assert_tree\<close> decides the
    invariant and that \<open>lookup_rbnode\<close> follows a single spine; \<open>Rb_Print\<close> that \<open>print_tree\<close> draws
    inside its array of characters.
  \<^item> \<open>Mem_Block\<close>, \<open>Mem_Alloc\<close> (\<^verbatim>\<open>mem_alloc.c\<close>): blocks with header, footer and magic words, the
    comparison of the tree, which interprets \<open>insert_order\<close> and \<open>remove_search\<close>, and every function of the
    allocator. \<open>Mem_Alloc_Props\<close> has the sizes of blocks and the loops that move the end of the
    heap. \<open>Block_Layout\<close> and \<open>Free_Tree\<close> say what a block occupies and that the tree of free
    blocks is kept by writes elsewhere; \<open>Heap_Blocks\<close> states the invariant \<open>heap_ok\<close>: the blocks
    tile the heap, no two free ones touch, and the tree holds exactly the free ones.
    \<open>Heap_Alloc\<close>, \<open>Heap_Grow\<close> and \<open>Heap_Free\<close> show what \<open>alloc\<close> and \<open>free\<close> do to the list of blocks
    (best fit, split, growth at the end, merging with both neighbours, shrinking at the end),
    and \<open>Heap_Run\<close> that sequences of operations and of writes to allocated memory keep the
    invariant. The releases in them satisfy \<open>free_guard\<close>, which excludes what the code gets wrong:
    memory behind the end of the heap that looks like a block, and a rest of a trimmed block
    that is too small to be one.
  \<^item> \<open>Placement\<close>, \<open>Kheap\<close> (\<^verbatim>\<open>kheap.c\<close>): the allocation by a moving address before the heap
    exists, which interprets the locale \<open>page_provider\<close> of the paging code, and the functions
    of the heap proper, which refine a set of pointers (\<open>handed_out\<close>) whose memory
    (\<open>handed_words\<close>) does not overlap.
  \<^item> \<open>Frames\<close>, \<open>Paging\<close>, \<open>Paging_Frames\<close>, \<open>Paging_Boot\<close> (\<^verbatim>\<open>paging.c\<close>): the bitmap of frames, where
    the search is compared with a search over frame numbers; page tables and the walk of the
    processor from the directory entry through the page table it names to the page and its
    rights (\<open>page_access\<close>); the frames that pages own; and \<open>paging_finalize\<close>, which is shown to
    end and to leave the kernel and its heap mapped.
  \<^item> \<open>Scheduler\<close>, \<open>Scheduler_Ring\<close>, \<open>Scheduler_Props\<close>, \<open>Thread_Create\<close> (\<^verbatim>\<open>scheduler.c\<close>,
    \<^verbatim>\<open>thread.c\<close>): the ring of threads as a refinement of a list, what a timer tick does, the
    fairness of the ticks by the locale \<open>rotation\<close>, and the stacks of a new thread.
  \<^item> \<open>Process\<close> (\<^verbatim>\<open>process.c\<close>) and \<open>Vnode\<close> (\<^verbatim>\<open>vnode.c\<close>), whose memory comes from the kernel heap
    through the locale \<open>node_memory\<close>.
  \<^item> \<open>Handlers\<close>, \<open>Interrupts\<close>, \<open>Pic\<close>, \<open>Descriptors\<close> (\<^verbatim>\<open>system.c\<close>, \<^verbatim>\<open>pit.c\<close>, \<^verbatim>\<open>syscall.c\<close>, \<^verbatim>\<open>pic.c\<close>,
    \<^verbatim>\<open>gdt.c\<close>, \<^verbatim>\<open>idt.c\<close>): the linked slots of interrupt handlers, the way from an interrupt to
    its handlers and back, the masks and commands of the controllers (locale \<open>mask_ports\<close>), and
    the descriptors the processor reads.
  \<^item> \<open>Cstring\<close>, \<open>Utils\<close>, \<open>Vsprintf\<close> (\<^verbatim>\<open>string.c\<close>, \<^verbatim>\<open>utils.c\<close>, \<^verbatim>\<open>vsprintf.c\<close>): strings and blocks of
    bytes, number conversions with their round trip, and formatted output, which is compared with a
    layout of fields that does not use the code's tables.
  \<^item> \<open>Vga\<close>, \<open>Keyboard\<close>, \<open>Console\<close> (\<^verbatim>\<open>vga.c\<close>, \<^verbatim>\<open>keyboard.c\<close>, \<^verbatim>\<open>serial.c\<close>, \<^verbatim>\<open>logging.c\<close>): the screen
    and its cursor, the keyboard buffer as a bounded queue (locale \<open>bounded_queue\<close>), the serial
    line, and \<open>kprintf\<close>, which sends one text to both devices; its theorem leaves out \<^verbatim>\<open>%s\<close> and
    the escapes for colours.
  \<^item> \<open>System\<close>, \<open>System_Props\<close> (\<^verbatim>\<open>system.c\<close>, \<^verbatim>\<open>system.h\<close>, \<^verbatim>\<open>syscall.h\<close>): the interrupt flag, interrupt lines, spin locks,
    \<open>sleep\<close> (locale \<open>ticking\<close>), \<open>arch_reset\<close> and \<open>arch_init\<close>; the types of the segments that gates
    and stack frames name; and the callers' side of the system calls, which is shown to reach
    the kernel function of each call through the table \<open>syscalls\<close>.
  \<^item> \<open>Boot\<close>, \<open>Initrd\<close> (\<^verbatim>\<open>main.c\<close>, \<^verbatim>\<open>multiboot.h\<close>, \<^verbatim>\<open>make_initrd.c\<close>, \<^verbatim>\<open>initrd.c\<close>): the loops over the
    memory map, and the ram disk as it is written and read.
  \<^item> \<open>Thread_Start\<close>, \<open>Kernel_Main\<close>, \<open>Demo_Threads\<close> (\<^verbatim>\<open>main.c\<close>): \<open>main\<close> in its phases. Here the
    components meet: the boot is shown to reach a kernel heap that satisfies its invariant with
    interrupts on and reserved memory marked, the services to attach their handlers, and the
    threads to be started on memory of that heap (locale \<open>thread_memory\<close>), in their order and
    each with its function and argument on its stacks; \<open>Demo_Threads\<close> has
    the functions these threads run.

  \<^bold>\<open>Not modelled.\<close> The assembly files (entry, interrupt stubs, context switch), the inline
  assembly of single instructions (\<open>invlpg\<close>, \<open>cpuid\<close>, \<open>rdtsc\<close>, loading of descriptor registers),
  the texts of messages and of the register dumps, and \<^verbatim>\<open>vfs.c\<close>, which is empty. Of \<open>main_heap_test\<close> nothing is proved: its block of \<open>0x1a0000\<close> bytes is
  allocated at an alignment, a path of \<open>alloc\<close> that has the defects named in the manifest, and
  the theorems on the allocator are about requests without alignment.
\<close>

end
